(* ===== verification/Prelude.thy ===== *)
theory Prelude
  imports Main "HOL-Library.Word" "HOL-Library.List_Lexorder" "HOL-Library.Product_Lexorder"
begin

text \<open>
  Shared vocabulary of the development: the integer types of the C++ sources, computations
  that may throw (a sum type whose left side is the exception), loops that may throw, and
  the generic facts on lists, options and 64-bit words that the component theories use.

  Unsigned 64-bit integers are \<^typ>\<open>64 word\<close>, so that \<open>+\<close> and \<open>-\<close> wrap around as they do in
  C++.  Signed 64-bit integers are \<^typ>\<open>int\<close>: the sources guard every signed increment, and
  the component invariants show that the stored values stay inside the range.
  \<open>std::size_t\<close> values that are only container sizes and limits are \<^typ>\<open>nat\<close>.
\<close>

named_theorems result_simps \<open>rewriting of computations that may throw\<close>
named_theorems word_bounds \<open>64-bit words away from the wrap-around\<close>

type_synonym byte = "8 word"
type_synonym u32 = "32 word"
type_synonym u64 = "64 word"

abbreviation uint64_max :: u64 where
  "uint64_max \<equiv> - 1"

definition int64_max :: int where
  "int64_max = 2 ^ 63 - 1"

definition int64_min :: int where
  "int64_min = - (2 ^ 63)"

lemma int64_max_value: "int64_max = 9223372036854775807"
  by (simp add: int64_max_def)

lemma int64_max_pos [simp]: "0 < int64_max" "0 \<le> int64_max"
  by (simp_all add: int64_max_def)

section \<open>Computations that may throw\<close>

text \<open>
  \<open>and_then r f\<close> is statement sequencing: an exception of \<open>r\<close> skips \<open>f\<close>.
  \<open>fold_result\<close> is a range-for loop over a list whose body may throw.
\<close>

definition and_then :: "'e + 'a \<Rightarrow> ('a \<Rightarrow> 'e + 'b) \<Rightarrow> 'e + 'b" where
  "and_then r f = (case r of Inl e \<Rightarrow> Inl e | Inr x \<Rightarrow> f x)"

definition throw_if :: "bool \<Rightarrow> 'e \<Rightarrow> 'e + unit" where
  "throw_if b e = (if b then Inl e else Inr ())"

fun fold_result :: "('a \<Rightarrow> 's \<Rightarrow> 'e + 's) \<Rightarrow> 'a list \<Rightarrow> 's \<Rightarrow> 'e + 's" where
  "fold_result f [] s = Inr s"
| "fold_result f (x # xs) s = and_then (f x s) (fold_result f xs)"

lemma and_then_Inl [simp]: "and_then (Inl e) f = Inl e"
  by (simp add: and_then_def)

lemma and_then_Inr [simp]: "and_then (Inr x) f = f x"
  by (simp add: and_then_def)

lemma and_then_eq_Inr [result_simps]:
  "and_then r f = Inr y \<longleftrightarrow> (\<exists>x. r = Inr x \<and> f x = Inr y)"
  by (cases r) simp_all

lemma and_then_eq_Inl [result_simps]:
  "and_then r f = Inl e \<longleftrightarrow> r = Inl e \<or> (\<exists>x. r = Inr x \<and> f x = Inl e)"
  by (cases r) simp_all

lemma throw_if_eq_Inr [result_simps]: "throw_if b e = Inr u \<longleftrightarrow> \<not> b"
  by (simp add: throw_if_def)

lemma throw_if_eq_Inl [result_simps]: "throw_if b e = Inl e' \<longleftrightarrow> b \<and> e' = e"
  by (auto simp add: throw_if_def)

lemma throw_if_simps [simp]:
  "throw_if True e = Inl e"
  "throw_if False e = Inr ()"
  by (simp_all add: throw_if_def)

text \<open>The loop rule: an invariant kept by every iteration that does not throw.\<close>

lemma fold_result_invariant:
  assumes "fold_result f xs s = Inr t" and "P s"
    and "\<And>x s t. x \<in> set xs \<Longrightarrow> P s \<Longrightarrow> f x s = Inr t \<Longrightarrow> P t"
  shows "P t"
  using assms
proof (induction xs arbitrary: s)
  case Nil
  then show ?case by simp
next
  case (Cons x xs)
  from Cons.prems(1) obtain u where u: "f x s = Inr u" "fold_result f xs u = Inr t"
    by (auto simp: result_simps)
  have "P u" using Cons.prems(2,3) u(1) by auto
  then show ?case using Cons.IH u(2) Cons.prems(3) by auto
qed

text \<open>A loop throws only what one of its iterations throws, from a state the invariant covers.\<close>

lemma fold_result_throws:
  assumes "fold_result f xs s = Inl e" and "P s"
    and "\<And>x s t. x \<in> set xs \<Longrightarrow> P s \<Longrightarrow> f x s = Inr t \<Longrightarrow> P t"
  obtains x s' where "x \<in> set xs" "P s'" "f x s' = Inl e"
  using assms
proof (induction xs arbitrary: s thesis)
  case Nil
  then show ?case by simp
next
  case (Cons x xs)
  show ?case
  proof (cases "f x s")
    case (Inl e')
    then have "f x s = Inl e" using Cons.prems(2) by simp
    then show ?thesis using Cons.prems(1,3) by auto
  next
    case (Inr u)
    then have "fold_result f xs u = Inl e" "P u" using Cons.prems(2-4) by auto
    then obtain y s' where "y \<in> set xs" "P s'" "f y s' = Inl e"
      using Cons.IH[where s = u] Cons.prems(4) by (metis list.set_intros(2))
    then show ?thesis using Cons.prems(1) by auto
  qed
qed

lemma fold_result_append:
  "fold_result f (xs @ ys) s = and_then (fold_result f xs s) (fold_result f ys)"
  by (induction xs arbitrary: s) (auto simp: and_then_def split: sum.splits)

section \<open>Machine words away from the wrap-around\<close>

lemma unat_plus1 [word_bounds]:
  fixes x :: u64
  assumes "x \<noteq> uint64_max"
  shows "unat (x + 1) = unat x + 1"
proof -
  have "1 + x \<noteq> 0" using assms by (metis add_eq_0_iff)
  then have "unat (1 + x) = Suc (unat x)" by (rule unatSuc)
  then show ?thesis by (simp add: add.commute)
qed

lemma less_plus1 [word_bounds]:
  fixes x :: u64
  assumes "x \<noteq> uint64_max"
  shows "x < x + 1"
  using assms by (simp add: word_less_nat_alt unat_plus1)

lemma unat_add_no_overflow [word_bounds]:
  fixes x y :: u64
  assumes "\<not> uint64_max - y < x"
  shows "unat (x + y) = unat x + unat y"
proof -
  have "x \<le> uint64_max - y" using assms by simp
  then have "unat x \<le> unat (uint64_max - y)" by (simp add: word_le_nat_alt)
  also have "unat (uint64_max - y) = unat uint64_max - unat y"
    by (intro unat_sub) simp
  finally have "unat x + unat y < 2 ^ LENGTH(64)"
    using unsigned_less[of y, where ?'a = nat] by (simp add: unsigned_minus_1_eq_mask mask_eq_exp_minus_1)
  then show ?thesis by (simp add: unat_word_ariths)
qed

section \<open>Lists\<close>

lemma sorted_wrt_less_distinct: "sorted_wrt (<) (xs :: 'a :: linorder list) \<Longrightarrow> distinct xs"
  by (simp add: strict_sorted_iff)

lemma takeWhile_sorted_keys:
  fixes xs :: "('k :: linorder \<times> 'v) list"
  assumes "sorted_wrt (<) (map fst xs)"
  shows "takeWhile (\<lambda>p. fst p < hi) xs = filter (\<lambda>p. fst p < hi) xs"
  using assms
proof (induction xs)
  case Nil
  then show ?case by simp
next
  case (Cons p xs)
  then have "\<forall>q \<in> set xs. fst p < fst q" by auto
  then have "\<not> fst p < hi \<Longrightarrow> filter (\<lambda>p. fst p < hi) xs = []"
    by (auto simp: filter_empty_conv)
  then show ?case using Cons by auto
qed

lemma filter_eq_dropWhile_takeWhile:
  fixes xs :: "('k :: linorder \<times> 'v) list"
  assumes "sorted_wrt (<) (map fst xs)"
  shows "takeWhile (\<lambda>p. fst p < hi) (dropWhile (\<lambda>p. fst p < lo) xs)
       = filter (\<lambda>p. lo \<le> fst p \<and> fst p < hi) xs"
  using assms
proof (induction xs)
  case Nil
  then show ?case by simp
next
  case (Cons p xs)
  have gt: "\<forall>q \<in> set xs. fst p < fst q" using Cons.prems by auto
  show ?case
  proof (cases "fst p < lo")
    case True
    then show ?thesis using Cons by auto
  next
    case False
    then have "filter (\<lambda>p. lo \<le> fst p \<and> fst p < hi) (p # xs) = filter (\<lambda>p. fst p < hi) (p # xs)"
      using gt by (intro filter_cong) force+
    then show ?thesis using False takeWhile_sorted_keys[of "p # xs"] Cons.prems by simp
  qed
qed

lemma upto_snoc: "i \<le> j + 1 \<Longrightarrow> [i..j + 1] = [i..j] @ [j + 1 :: int]"
  using upto_rec2[of i "j + 1"] by simp

end
