(* ===== verification/Byte_Sequence.thy ===== *)
theory Byte_Sequence
  imports Prelude "HOL-Library.Sublist"
begin

text \<open>
  \<open>ByteSequence\<close> (\<^verbatim>\<open>src/src/byte_sequence.cpp\<close>) and \<open>prefix_range_end\<close>
  (\<^verbatim>\<open>src/src/key_range.cpp\<close>).  A byte sequence is the list of its unsigned bytes, ordered
  lexicographically as the defaulted comparison of \<open>std::vector\<close> orders it.
\<close>

type_synonym byte_sequence = "byte list"

definition copy_from :: "byte list \<Rightarrow> byte_sequence" where
  "copy_from bs = bs"

definition from_string :: "string \<Rightarrow> byte_sequence" where
  "from_string s = map (\<lambda>c. of_nat (of_char c)) s"

definition to_string :: "byte_sequence \<Rightarrow> string" where
  "to_string bs = map (\<lambda>b. char_of (unat b)) bs"

record key_range =
  kr_start :: byte_sequence
  kr_end :: byte_sequence

text \<open>
  The loop of \<open>prefix_range_end\<close> walks \<open>size\<close> down from the length; the first byte below 255
  is incremented and everything behind it cut off.
\<close>

fun prefix_range_end_loop :: "byte list \<Rightarrow> nat \<Rightarrow> byte_sequence option" where
  "prefix_range_end_loop ends 0 = None"
| "prefix_range_end_loop ends (Suc n) =
     (if ends ! n \<noteq> 255 then Some (take (Suc n) (ends[n := ends ! n + 1]))
      else prefix_range_end_loop ends n)"

definition prefix_range_end :: "byte_sequence \<Rightarrow> byte_sequence option" where
  "prefix_range_end p = prefix_range_end_loop p (length p)"

section \<open>Strings\<close>

lemma unat_of_char: "unat (of_nat (of_char c) :: byte) = of_char c"
proof -
  have "of_char c < (256 :: nat)" by simp
  then show ?thesis by (simp add: unat_of_nat)
qed

lemma unat_byte_bound: "unat (b :: byte) < 256"
  using unsigned_less[of b, where ?'a = nat] by simp

lemma byte_of_char_of: "of_nat (of_char (char_of (unat b) :: char)) = (b :: byte)"
  using unat_byte_bound[of b] by (simp add: of_char_of)

text \<open>
  Text and bytes convert without loss in both directions: \<open>to_string\<close> after
  \<open>from_string\<close> is the identity on every string, and \<open>from_string\<close> after \<open>to_string\<close> on every
  byte sequence.
\<close>

theorem byte_sequence_string_roundtrip:
  "to_string (from_string s) = s \<and> from_string (to_string bs) = bs"
proof
  show "to_string (from_string s) = s"
    by (simp add: to_string_def from_string_def comp_def unat_of_char)
  show "from_string (to_string bs) = bs"
    by (simp only: to_string_def from_string_def map_map comp_def byte_of_char_of map_ident)
qed

section \<open>The end of a prefix range\<close>

lemma byte_not_255: "(b :: byte) \<noteq> 255 \<Longrightarrow> unat b < 255"
proof -
  assume neq: "b \<noteq> 255"
  have "b = of_nat (unat b)" by simp
  then have "unat b \<noteq> 255" using neq by (metis of_nat_numeral)
  then show ?thesis using unat_byte_bound[of b] by simp
qed

lemma byte_le_255 [simp]: "\<not> (255 :: byte) < b"
  using unat_byte_bound[of b] by (simp add: word_less_nat_alt)

lemma byte_less_plus1:
  fixes a b :: byte
  assumes "b \<noteq> 255"
  shows "a < b + 1 \<longleftrightarrow> a \<le> b"
proof -
  have "unat (b + 1) = unat b + 1" using byte_not_255[OF assms] by (simp add: unat_word_ariths)
  then show ?thesis by (simp add: word_less_nat_alt word_le_nat_alt less_Suc_eq_le)
qed

lemma replicate_255_le: "replicate n 255 \<le> ys \<longleftrightarrow> prefix (replicate n (255 :: byte)) ys"
proof (induction n arbitrary: ys)
  case (Suc n)
  then show ?case by (cases ys) auto
qed simp

lemma prefix_le_less:
  fixes b :: byte
  assumes "b \<noteq> 255"
  shows "prefix (a @ b # replicate n 255) k \<longleftrightarrow> a @ b # replicate n 255 \<le> k \<and> k < a @ [b + 1]"
proof (induction a arbitrary: k)
  case Nil
  show ?case
  proof (cases k)
    case (Cons y ys)
    have hi: "k < [b + 1] \<longleftrightarrow> y \<le> b"
      using byte_less_plus1[OF assms, of y] by (simp only: Cons Cons_less_Cons not_less_Nil simp_thms)
    have lo: "b # replicate n 255 \<le> k \<longleftrightarrow> b < y \<or> b = y \<and> prefix (replicate n 255) ys"
      by (simp add: Cons replicate_255_le)
    have "prefix (b # replicate n 255) k \<longleftrightarrow> b = y \<and> prefix (replicate n 255) ys"
      by (simp add: Cons)
    also have "\<dots> \<longleftrightarrow> (b < y \<or> b = y \<and> prefix (replicate n 255) ys) \<and> y \<le> b"
      by (metis leD order_refl)
    finally show ?thesis by (simp only: hi lo append_Nil)
  qed simp
next
  case (Cons x a)
  then show ?case
    by (cases k)
       (simp_all only: append_Cons Cons_prefix_Cons Cons_less_Cons Cons_le_Cons prefix_Nil le_Nil
         list.distinct simp_thms, blast dest: less_asym)
qed

lemma prefix_range_end_loop_None:
  "n \<le> length p \<Longrightarrow> prefix_range_end_loop p n = None \<Longrightarrow> take n p = replicate n 255"
  by (induction n) (auto simp: take_Suc_conv_app_nth replicate_append_same split: if_splits)

lemma prefix_range_end_loop_Some:
  assumes "n \<le> length p" "prefix_range_end_loop p n = Some e"
  shows "\<exists>a b j. take n p = a @ b # replicate j 255 \<and> b \<noteq> 255 \<and> e = a @ [b + 1]"
  using assms
proof (induction n)
  case (Suc n)
  show ?case
  proof (cases "p ! n = 255")
    case True
    then obtain a b j where "take n p = a @ b # replicate j 255" "b \<noteq> 255" "e = a @ [b + 1]"
      using Suc by auto
    then have "take (Suc n) p = a @ b # replicate (Suc j) 255"
      using True Suc.prems(1) by (simp add: take_Suc_conv_app_nth replicate_append_same)
    then show ?thesis using \<open>b \<noteq> 255\<close> \<open>e = a @ [b + 1]\<close> by blast
  next
    case False
    then have "take (Suc n) p = take n p @ p ! n # replicate 0 255" "e = take n p @ [p ! n + 1]"
      using Suc.prems by (auto simp: take_Suc_conv_app_nth)
    then show ?thesis using False by blast
  qed
qed simp

text \<open>
  C20.  The half-open range from a prefix to its \<open>prefix_range_end\<close> contains exactly the keys
  that extend the prefix; when there is no end (every byte of the prefix is 255) the range
  is unbounded above and still contains exactly those keys.
\<close>

theorem prefix_range_end_exact:
  "prefix p k \<longleftrightarrow> p \<le> k \<and> (case prefix_range_end p of None \<Rightarrow> True | Some e \<Rightarrow> k < e)"
proof (cases "prefix_range_end p")
  case None
  then have "p = replicate (length p) 255"
    using prefix_range_end_loop_None[of "length p" p] by (simp add: prefix_range_end_def)
  then show ?thesis using None replicate_255_le[of "length p" k] by simp
next
  case (Some e)
  then obtain a b j where "p = a @ b # replicate j 255" "b \<noteq> 255" "e = a @ [b + 1]"
    using prefix_range_end_loop_Some[of "length p" p e] by (auto simp: prefix_range_end_def)
  then show ?thesis using Some prefix_le_less[of b a j k] by simp
qed

end
