(* ===== verification/Ordered_Map.thy ===== *)
theory Ordered_Map
  imports Prelude
begin

text \<open>
  The ordered containers of the C++ standard library that the sources use: \<open>std::map\<close> as a
  type of association lists whose keys strictly increase, \<open>std::set\<close> as such a map into the
  unit type.  Iteration order is part of the type, because snapshots, range reads and lease
  expiry expose it.  The locale \<open>ordered_container\<close> states what a client of the container
  relies on and derives the facts about range scans and iteration once; the concrete type
  interprets it.
\<close>

section \<open>Strictly sorted association lists\<close>

fun assoc_put :: "'k :: linorder \<Rightarrow> 'v \<Rightarrow> ('k \<times> 'v) list \<Rightarrow> ('k \<times> 'v) list" where
  "assoc_put k v [] = [(k, v)]"
| "assoc_put k v (p # ps) =
     (if fst p < k then p # assoc_put k v ps
      else if fst p = k then (k, v) # ps
      else (k, v) # p # ps)"

definition assoc_drop :: "'k \<Rightarrow> ('k \<times> 'v) list \<Rightarrow> ('k \<times> 'v) list" where
  "assoc_drop k ps = filter (\<lambda>p. fst p \<noteq> k) ps"

lemma set_keys_assoc_put: "fst ` set (assoc_put k v ps) = insert k (fst ` set ps)"
  by (induction ps) auto

lemma sorted_assoc_put:
  "sorted_wrt (<) (map fst ps) \<Longrightarrow> sorted_wrt (<) (map fst (assoc_put k v ps))"
proof (induction ps)
  case (Cons p ps)
  have "\<forall>x \<in> fst ` set ps. fst p < x" using Cons.prems by auto
  then have "fst p < k \<Longrightarrow> \<forall>x \<in> fst ` set (assoc_put k v ps). fst p < x"
    by (simp add: set_keys_assoc_put)
  then show ?case using Cons by (auto simp: not_less)
qed simp

lemma sorted_assoc_drop:
  "sorted_wrt (<) (map fst ps) \<Longrightarrow> sorted_wrt (<) (map fst (assoc_drop k ps))"
  unfolding assoc_drop_def by (induction ps) auto

lemma map_of_assoc_put: "map_of (assoc_put k v ps) = (map_of ps)(k \<mapsto> v)"
  by (induction ps) (auto simp: fun_eq_iff)

lemma map_of_assoc_drop: "map_of (assoc_drop k ps) = (map_of ps)(k := None)"
  unfolding assoc_drop_def by (induction ps) (auto simp: fun_eq_iff)

lemma assoc_eqI:
  fixes ps qs :: "('k :: linorder \<times> 'v) list"
  assumes "sorted_wrt (<) (map fst ps)" "sorted_wrt (<) (map fst qs)" "map_of ps = map_of qs"
  shows "ps = qs"
proof (rule map_sorted_distinct_set_unique[where f = fst])
  have d: "distinct (map fst ps)" "distinct (map fst qs)"
    using assms(1,2) by (simp_all add: sorted_wrt_less_distinct)
  show "set ps = set qs" using d assms(3) by (metis map_of_inject_set)
  then show "inj_on fst (set ps \<union> set qs)" using d by (simp add: distinct_map)
  show "sorted (map fst ps)" "distinct (map fst ps)" "sorted (map fst qs)" "distinct (map fst qs)"
    using assms(1,2) d by (simp_all add: strict_sorted_imp_sorted)
qed

section \<open>The interface\<close>

text \<open>
  \<open>finds\<close> is \<open>find\<close> (and \<open>contains\<close>), \<open>puts\<close> is \<open>insert_or_assign\<close>, \<open>drops\<close> is \<open>erase\<close> and
  \<open>items\<close> the iteration from \<open>begin\<close> to \<open>end\<close>.
\<close>

locale ordered_container =
  fixes finds :: "'m \<Rightarrow> 'k :: linorder \<Rightarrow> 'v option"
    and puts :: "'k \<Rightarrow> 'v \<Rightarrow> 'm \<Rightarrow> 'm"
    and drops :: "'k \<Rightarrow> 'm \<Rightarrow> 'm"
    and items :: "'m \<Rightarrow> ('k \<times> 'v) list"
  assumes items_sorted: "sorted_wrt (<) (map fst (items m))"
    and finds_items: "finds m k = map_of (items m) k"
    and finds_puts: "finds (puts k v m) k' = (if k' = k then Some v else finds m k')"
    and finds_drops: "finds (drops k m) k' = (if k' = k then None else finds m k')"
    and items_inject: "items m = items n \<Longrightarrow> m = n"
begin

lemma items_distinct: "distinct (map fst (items m))"
  by (simp add: items_sorted sorted_wrt_less_distinct)

lemma finds_iff: "finds m k = Some v \<longleftrightarrow> (k, v) \<in> set (items m)"
  by (simp add: finds_items items_distinct)

lemma finds_None_iff: "finds m k = None \<longleftrightarrow> k \<notin> fst ` set (items m)"
  by (simp add: finds_items map_of_eq_None_iff)

lemma ext_finds: "(\<And>k. finds m k = finds n k) \<Longrightarrow> m = n"
  by (rule items_inject, rule assoc_eqI) (auto simp: items_sorted finds_items)

lemma puts_same: "finds m k = Some v \<Longrightarrow> puts k v m = m"
  by (rule ext_finds) (auto simp: finds_puts)

lemma drops_absent: "finds m k = None \<Longrightarrow> drops k m = m"
  by (rule ext_finds) (auto simp: finds_drops)

lemma puts_puts: "puts k v (puts k w m) = puts k v m"
  by (rule ext_finds) (auto simp: finds_puts)

lemma puts_commute: "k \<noteq> l \<Longrightarrow> puts k v (puts l w m) = puts l w (puts k v m)"
  by (rule ext_finds) (auto simp: finds_puts)

lemma drops_puts: "finds m k = None \<Longrightarrow> drops k (puts k v m) = m"
  by (rule ext_finds) (auto simp: finds_puts finds_drops)

text \<open>
  The loop \<open>for (it = lower_bound(lo); it != end && it->first < hi; ++it)\<close> visits exactly the
  entries of the half-open range, in key order.
\<close>

lemma scan_items:
  "takeWhile (\<lambda>p. fst p < hi) (dropWhile (\<lambda>p. fst p < lo) (items m))
   = filter (\<lambda>p. lo \<le> fst p \<and> fst p < hi) (items m)"
  by (rule filter_eq_dropWhile_takeWhile) (rule items_sorted)

lemma scan_iff:
  "(k, v) \<in> set (takeWhile (\<lambda>p. fst p < hi) (dropWhile (\<lambda>p. fst p < lo) (items m)))
   \<longleftrightarrow> finds m k = Some v \<and> lo \<le> k \<and> k < hi"
  by (auto simp: scan_items finds_iff)

lemma scan_sorted:
  "sorted_wrt (<) (map fst (takeWhile (\<lambda>p. fst p < hi) (dropWhile (\<lambda>p. fst p < lo) (items m))))"
  unfolding scan_items using items_sorted[of m] by (induction "items m") (auto simp: sorted_wrt_map intro: sorted_wrt_filter)

end

section \<open>The type of ordered maps\<close>

typedef (overloaded) ('k, 'v) omap =
  "{ps :: ('k :: linorder \<times> 'v) list. sorted_wrt (<) (map fst ps)}"
  morphisms omap_items Abs_omap
  by (rule exI[of _ "[]"]) simp

setup_lifting type_definition_omap

lift_definition omap_empty :: "('k :: linorder, 'v) omap" is "[]"
  by simp

lift_definition omap_put :: "'k :: linorder \<Rightarrow> 'v \<Rightarrow> ('k, 'v) omap \<Rightarrow> ('k, 'v) omap" is assoc_put
  by (rule sorted_assoc_put)

lift_definition omap_drop :: "'k :: linorder \<Rightarrow> ('k, 'v) omap \<Rightarrow> ('k, 'v) omap" is assoc_drop
  by (rule sorted_assoc_drop)

lift_definition omap_map :: "('k \<Rightarrow> 'v \<Rightarrow> 'w) \<Rightarrow> ('k :: linorder, 'v) omap \<Rightarrow> ('k, 'w) omap"
  is "\<lambda>f ps. map (\<lambda>(k, v). (k, f k v)) ps"
  by (simp add: case_prod_beta comp_def)

definition omap_find :: "('k :: linorder, 'v) omap \<Rightarrow> 'k \<Rightarrow> 'v option" where
  "omap_find m k = map_of (omap_items m) k"

definition omap_has :: "('k :: linorder, 'v) omap \<Rightarrow> 'k \<Rightarrow> bool" where
  "omap_has m k \<longleftrightarrow> omap_find m k \<noteq> None"

definition omap_size :: "('k :: linorder, 'v) omap \<Rightarrow> nat" where
  "omap_size m = length (omap_items m)"

definition omap_keys :: "('k :: linorder, 'v) omap \<Rightarrow> 'k list" where
  "omap_keys m = map fst (omap_items m)"

definition omap_values :: "('k :: linorder, 'v) omap \<Rightarrow> 'v list" where
  "omap_values m = map snd (omap_items m)"

text \<open>Iteration from \<open>lower_bound(lo)\<close> while the key is below \<open>hi\<close>.\<close>

definition omap_scan :: "'k \<Rightarrow> 'k \<Rightarrow> ('k :: linorder, 'v) omap \<Rightarrow> ('k \<times> 'v) list" where
  "omap_scan lo hi m = takeWhile (\<lambda>p. fst p < hi) (dropWhile (\<lambda>p. fst p < lo) (omap_items m))"

lemma omap_items_simps [simp]:
  "omap_items omap_empty = []"
  "omap_items (omap_put k v m) = assoc_put k v (omap_items m)"
  "omap_items (omap_drop k m) = assoc_drop k (omap_items m)"
  "omap_items (omap_map f m) = map (\<lambda>(k, v). (k, f k v)) (omap_items m)"
  by (simp_all add: omap_empty.rep_eq omap_put.rep_eq omap_drop.rep_eq omap_map.rep_eq)

interpretation om: ordered_container omap_find omap_put omap_drop omap_items
proof
  fix m n :: "('k :: linorder, 'v) omap" and k k' :: 'k and v :: 'v
  show "sorted_wrt (<) (map fst (omap_items m))" using omap_items[of m] by simp
  show "omap_find m k = map_of (omap_items m) k" by (simp add: omap_find_def)
  show "omap_find (omap_put k v m) k' = (if k' = k then Some v else omap_find m k')"
    by (simp add: omap_find_def map_of_assoc_put)
  show "omap_find (omap_drop k m) k' = (if k' = k then None else omap_find m k')"
    by (simp add: omap_find_def map_of_assoc_drop)
  show "omap_items m = omap_items n \<Longrightarrow> m = n" by (simp add: omap_items_inject)
qed

lemma omap_find_simps [simp]:
  "omap_find omap_empty k = None"
  "omap_find (omap_put k v m) k' = (if k' = k then Some v else omap_find m k')"
  "omap_find (omap_drop k m) k' = (if k' = k then None else omap_find m k')"
  "omap_find (omap_map f m) k = map_option (f k) (omap_find m k)"
proof -
  show "omap_find omap_empty k = None" by (simp add: omap_find_def)
  have "map_of (map (\<lambda>(k, v). (k, f k v)) ps) k = map_option (f k) (map_of ps k)" for ps
    by (induction ps) auto
  then show "omap_find (omap_map f m) k = map_option (f k) (omap_find m k)"
    by (simp add: omap_find_def)
qed (simp_all add: om.finds_puts om.finds_drops)

lemma omap_eq_iff: "m = n \<longleftrightarrow> omap_items m = omap_items n"
  by (auto intro: om.items_inject)

lemma omap_find_None_keys: "omap_find m k = None \<longleftrightarrow> k \<notin> set (omap_keys m)"
  by (simp add: om.finds_None_iff omap_keys_def)

lemma omap_find_Some_keys: "omap_find m k = Some v \<Longrightarrow> k \<in> set (omap_keys m)"
  by (metis omap_find_None_keys option.distinct(1))

lemma omap_keys_sorted: "sorted_wrt (<) (omap_keys m)"
  by (simp add: omap_keys_def om.items_sorted)

lemma omap_keys_distinct: "distinct (omap_keys m)"
  by (simp add: omap_keys_def om.items_distinct)

lemma omap_in_values: "v \<in> set (omap_values m) \<longleftrightarrow> (\<exists>k. omap_find m k = Some v)"
  by (force simp: omap_values_def om.finds_iff image_iff)

lemma omap_has_simps [simp]:
  "\<not> omap_has omap_empty k"
  "omap_has (omap_put k v m) k' \<longleftrightarrow> k' = k \<or> omap_has m k'"
  "omap_has (omap_drop k m) k' \<longleftrightarrow> k' \<noteq> k \<and> omap_has m k'"
  by (auto simp: omap_has_def)

lemma omap_size_keys: "omap_size m = length (omap_keys m)"
  by (simp add: omap_size_def omap_keys_def)

lemma omap_size_card: "omap_size m = card (set (omap_keys m))"
  by (simp add: omap_size_keys distinct_card omap_keys_distinct)

lemma set_omap_keys_simps [simp]:
  "set (omap_keys omap_empty) = {}"
  "set (omap_keys (omap_put k v m)) = insert k (set (omap_keys m))"
  "set (omap_keys (omap_drop k m)) = set (omap_keys m) - {k}"
  "omap_keys (omap_map f m) = omap_keys m"
  by (auto simp: omap_keys_def set_keys_assoc_put assoc_drop_def case_prod_beta comp_def)

lemma omap_size_simps [simp]:
  "omap_size omap_empty = 0"
  "omap_size (omap_put k v m) = (if omap_has m k then omap_size m else Suc (omap_size m))"
  "omap_size (omap_map f m) = omap_size m"
  by (auto simp: omap_size_card omap_has_def omap_find_None_keys insert_absorb
      card_insert_if)

lemma omap_size_drop [simp]:
  "omap_size (omap_drop k m) = (if omap_has m k then omap_size m - 1 else omap_size m)"
  by (auto simp: omap_size_card omap_has_def omap_find_None_keys)

lemma omap_scan_iff: "(k, v) \<in> set (omap_scan lo hi m) \<longleftrightarrow> omap_find m k = Some v \<and> lo \<le> k \<and> k < hi"
  by (simp add: omap_scan_def om.scan_iff)

lemma omap_scan_filter: "omap_scan lo hi m = filter (\<lambda>p. lo \<le> fst p \<and> fst p < hi) (omap_items m)"
  by (simp add: omap_scan_def om.scan_items)

lemma omap_scan_sorted: "sorted_wrt (<) (map fst (omap_scan lo hi m))"
  by (simp add: omap_scan_def om.scan_sorted)

instantiation omap :: (linorder, equal) equal
begin

definition equal_omap_def: "equal_class.equal m n \<longleftrightarrow> omap_items m = omap_items n"

instance
  by standard (simp add: equal_omap_def omap_eq_iff)

end

section \<open>Ordered sets\<close>

type_synonym 'k oset = "('k, unit) omap"

definition oset_empty :: "('k :: linorder) oset" where
  "oset_empty = omap_empty"

definition oset_insert :: "'k :: linorder \<Rightarrow> 'k oset \<Rightarrow> 'k oset" where
  "oset_insert k s = omap_put k () s"

definition oset_erase :: "'k :: linorder \<Rightarrow> 'k oset \<Rightarrow> 'k oset" where
  "oset_erase k s = omap_drop k s"

definition oset_member :: "'k :: linorder \<Rightarrow> 'k oset \<Rightarrow> bool" where
  "oset_member k s \<longleftrightarrow> omap_has s k"

definition oset_elems :: "('k :: linorder) oset \<Rightarrow> 'k list" where
  "oset_elems s = omap_keys s"

definition oset_of_list :: "('k :: linorder) list \<Rightarrow> 'k oset" where
  "oset_of_list ks = fold oset_insert ks oset_empty"

lemma oset_member_simps [simp]:
  "\<not> oset_member k oset_empty"
  "oset_member k (oset_insert k' s) \<longleftrightarrow> k = k' \<or> oset_member k s"
  "oset_member k (oset_erase k' s) \<longleftrightarrow> k \<noteq> k' \<and> oset_member k s"
  by (auto simp: oset_member_def oset_insert_def oset_erase_def oset_empty_def)

lemma oset_member_elems: "oset_member k s \<longleftrightarrow> k \<in> set (oset_elems s)"
  by (simp add: oset_member_def oset_elems_def omap_has_def omap_find_None_keys)

lemma set_oset_elems_simps [simp]:
  "set (oset_elems oset_empty) = {}"
  "set (oset_elems (oset_insert k s)) = insert k (set (oset_elems s))"
  "set (oset_elems (oset_erase k s)) = set (oset_elems s) - {k}"
  by (simp_all add: oset_elems_def oset_insert_def oset_erase_def oset_empty_def)

lemma oset_ext: "(\<And>k. oset_member k s = oset_member k t) \<Longrightarrow> s = t"
  by (rule om.ext_finds) (metis (full_types) old.unit.exhaust option.exhaust oset_member_def omap_has_def)

lemma oset_elems_sorted: "sorted_wrt (<) (oset_elems s)"
  by (simp add: oset_elems_def omap_keys_sorted)

lemma set_oset_of_list: "set (oset_elems (oset_of_list ks)) = set ks"
proof -
  have "set (oset_elems (fold oset_insert ks s)) = set ks \<union> set (oset_elems s)" for s
    by (induction ks arbitrary: s) auto
  then show ?thesis by (simp add: oset_of_list_def)
qed

lemma oset_of_elems [simp]: "oset_of_list (oset_elems s) = s"
  by (rule oset_ext) (simp add: oset_member_elems set_oset_of_list)

lemma oset_insert_absent: "\<not> oset_member k s \<Longrightarrow> oset_erase k (oset_insert k s) = s"
  by (rule oset_ext) auto

end
