(* ===== verification/Store_Types.thy ===== *)
theory Store_Types
  imports Byte_Sequence Ordered_Map
begin

text \<open>
  The value types of the metadata store, one record or datatype per struct or enum of
  \<^verbatim>\<open>src/include/kura/metadata/core\<close>, \<^verbatim>\<open>kv\<close>, \<^verbatim>\<open>lease\<close> and \<^verbatim>\<open>watch\<close>, and the exceptions the store
  throws.  One-field wrapper structs (\<open>Revision\<close>, \<open>LeaseId\<close>, \<open>WatchId\<close>, \<open>FencingToken\<close>,
  \<open>LeaseTick\<close>, \<open>LeaseDuration\<close>) are the type of their field, because their defaulted comparison
  is the comparison of that field.
\<close>

section \<open>Core\<close>

datatype status_code =
    Status_ok
  | Status_invalid_argument
  | Status_comparison_failed
  | Status_compacted
  | Status_future_revision
  | Status_lease_not_found
  | Status_not_leader
  | Status_no_quorum
  | Status_deadline_exceeded
  | Status_permission_denied
  | Status_quota_exceeded
  | Status_corruption

text \<open>
  Exceptions: the standard ones with their message, \<open>StoreError\<close> with its status code,
  message and compaction revision, and the classes of the storage, history and simulation code.  \<open>Undefined_Behaviour\<close> stands for what the C++ standard
  leaves undefined, such as reading an empty \<open>std::optional\<close>.
\<close>

datatype exn =
    Invalid_Argument string
  | Overflow_Error string
  | Logic_Error string
  | Out_Of_Range string
  | Store_Error status_code string int
  | Storage_Error string
  | Invalid_History string
  | Simulation_Failure string
  | Undefined_Behaviour

type_synonym 'a result = "exn + 'a"

type_synonym revision = int
type_synonym lease_id = int
type_synonym watch_id = int
type_synonym fencing_token = u64
type_synonym lease_tick = u64
type_synonym lease_duration = u64

record request_id =
  rid_client :: u64
  rid_sequence :: u64

record response_header =
  rh_cluster_id :: u64
  rh_member_id :: u64
  rh_revision :: int
  rh_raft_term :: u64

text \<open>A header with only its revision set, as the store builds it.\<close>

definition header_at :: "int \<Rightarrow> response_header" where
  "header_at r = \<lparr>rh_cluster_id = 0, rh_member_id = 0, rh_revision = r, rh_raft_term = 0\<rparr>"

record store_limits =
  max_key_bytes :: nat
  max_value_bytes :: nat
  max_transaction_operations :: nat
  max_watchers :: nat
  max_watch_history_revisions :: nat
  max_watch_pending_responses :: nat
  max_active_leases :: nat

definition default_limits :: store_limits where
  "default_limits = \<lparr>max_key_bytes = 2 ^ 20, max_value_bytes = 8 * 2 ^ 20,
     max_transaction_operations = 128, max_watchers = 10000,
     max_watch_history_revisions = 1024, max_watch_pending_responses = 128,
     max_active_leases = 10000\<rparr>"

datatype read_consistency = Linearizable | Serializable

section \<open>Keys, values and requests\<close>

record key_value =
  kv_key :: byte_sequence
  kv_value :: byte_sequence
  kv_version :: int
  kv_create_revision :: int
  kv_mod_revision :: int
  kv_lease_id :: int

record store_read =
  sr_value :: "key_value option"
  sr_revision :: int

record range_read =
  rr_values :: "key_value list"
  rr_revision :: int

record put_result =
  pr_current :: key_value
  pr_previous :: "key_value option"
  pr_revision :: int

record delete_result =
  dr_deleted :: bool
  dr_previous :: "key_value option"
  dr_revision :: int

record compare_and_set_result =
  cas_succeeded :: bool
  cas_current :: "key_value option"
  cas_revision :: int

datatype compare_target =
  Target_version | Target_create_revision | Target_mod_revision | Target_value | Target_lease_id

datatype compare_result = Cmp_equal | Cmp_not_equal | Cmp_greater | Cmp_less

datatype compare_expected = Expected_int int | Expected_bytes byte_sequence

record compare =
  cmp_key :: byte_sequence
  cmp_target :: compare_target
  cmp_result :: compare_result
  cmp_expected :: compare_expected

record range_request =
  rq_range :: key_range
  rq_revision :: revision
  rq_consistency :: read_consistency
  rq_limit :: nat

record put_request =
  pq_request_id :: request_id
  pq_key :: byte_sequence
  pq_value :: byte_sequence
  pq_lease_id :: int
  pq_return_previous :: bool

record delete_request =
  dq_request_id :: request_id
  dq_range :: key_range
  dq_return_previous :: bool

datatype request_operation =
    Range_Operation range_request
  | Put_Operation put_request
  | Delete_Operation delete_request

record lease_ownership =
  lo_id :: lease_id
  lo_fencing_token :: fencing_token

record transaction_request =
  tx_request_id :: request_id
  tx_comparisons :: "compare list"
  tx_lease_ownership :: "lease_ownership list"
  tx_lease_tick :: lease_tick
  tx_success :: "request_operation list"
  tx_failure :: "request_operation list"

record delete_range_result =
  drr_deleted :: nat
  drr_previous :: "key_value list"
  drr_revision :: int

datatype transaction_operation_result =
    Range_Result range_read
  | Put_Result put_result
  | Delete_Result delete_range_result

record transaction_result =
  txr_header :: response_header
  txr_succeeded :: bool
  txr_responses :: "transaction_operation_result list"

datatype mutation_event_type = Mutation_put | Mutation_erase

record mutation_event =
  me_type :: mutation_event_type
  me_current :: "key_value option"
  me_previous :: "key_value option"

section \<open>Leases\<close>

record lease_record =
  lr_id :: lease_id
  lr_fencing_token :: fencing_token
  lr_granted_ttl :: lease_duration
  lr_expiry_tick :: lease_tick
  lr_attached_keys :: "byte_sequence list"

record lease_grant_request =
  lg_request_id :: request_id
  lg_requested_id :: lease_id
  lg_ttl :: lease_duration
  lg_tick :: lease_tick

record lease_keep_alive_request =
  lk_id :: lease_id
  lk_fencing_token :: fencing_token
  lk_tick :: lease_tick

record lease_time_to_live_request =
  lt_id :: lease_id
  lt_tick :: lease_tick

record lease_revoke_request =
  lv_request_id :: request_id
  lv_id :: lease_id
  lv_fencing_token :: fencing_token
  lv_tick :: lease_tick

datatype lease_result_code =
  Lease_ok | Lease_not_found | Lease_expired | Lease_fencing_token_mismatch

record lease_grant_result =
  lgr_lease :: lease_record
  lgr_revision :: int

record lease_lookup_result =
  llr_code :: lease_result_code
  llr_lease :: "lease_record option"
  llr_remaining_ttl :: lease_duration
  llr_revision :: int

record lease_cleanup_result =
  lcr_code :: lease_result_code
  lcr_leases :: "lease_id list"
  lcr_deleted_keys :: "key_value list"
  lcr_revision :: int

record store_snapshot =
  sn_values :: "key_value list"
  sn_leases :: "lease_record list"
  sn_revision :: int
  sn_logical_tick :: lease_tick
  sn_next_lease_id :: int
  sn_next_fencing_token :: fencing_token

section \<open>Watches\<close>

record watch_event =
  we_revision :: revision
  we_mutation :: mutation_event

datatype watch_filter = Include_all | Exclude_put | Exclude_erase

record watch_request =
  wq_id :: watch_id
  wq_range :: key_range
  wq_start_revision :: revision
  wq_filter :: watch_filter
  wq_progress_notifications :: bool

record watch_response =
  wr_header :: response_header
  wr_id :: watch_id
  wr_events :: "watch_event list"
  wr_compact_revision :: int
  wr_status :: status_code
  wr_cancelled :: bool

end
