(* ===== verification/Store_State.thy ===== *)
theory Store_State
  imports Store_Types
begin

text \<open>
  The state of \<open>InMemoryMetadataStore\<close> (\<^verbatim>\<open>src/include/kura/metadata/in_memory_metadata_store.hpp\<close>)
  and the private helpers of \<^verbatim>\<open>src/src/in_memory_metadata_store.cpp\<close> that every operation uses:
  validation, revision allocation, the attachment index between keys and leases, and the
  publication of watch events.

  Every public operation holds the store's mutex from its first read of the state to its
  return, so an operation is one atomic function of the state.  It throws only before its
  first write to a member: a result \<open>Inl e\<close> therefore means that the state is unchanged, and
  operations return the new state only under \<open>Inr\<close>.
\<close>

section \<open>State\<close>

record event_batch =
  eb_revision :: int
  eb_events :: "watch_event list"

record watch_state =
  ws_request :: watch_request
  ws_pending :: "watch_response list"
  ws_terminal :: "watch_response option"

record stored_lease =
  sl_fencing_token :: fencing_token
  sl_granted_ttl :: lease_duration
  sl_expiry_tick :: lease_tick
  sl_attached_keys :: "byte_sequence oset"

type_synonym value_map = "(byte_sequence, key_value) omap"
type_synonym lease_map = "(lease_id, stored_lease) omap"
type_synonym watcher_map = "(watch_id, watch_state) omap"

record staged_publication =
  sp_history :: "event_batch list"
  sp_watchers :: watcher_map
  sp_compact_revision :: int

record store =
  st_values :: value_map
  st_limits :: store_limits
  st_revision :: int
  st_compact_revision :: int
  st_history :: "event_batch list"
  st_watchers :: watcher_map
  st_leases :: lease_map
  st_logical_tick :: lease_tick
  st_next_lease_id :: int
  st_next_fencing_token :: fencing_token

section \<open>Validation and comparison helpers\<close>

definition maximum_lease_id :: int where
  "maximum_lease_id = int64_max - 1"

definition validate_key :: "byte_sequence \<Rightarrow> unit result" where
  "validate_key key = throw_if (key = []) (Invalid_Argument ''key must not be empty'')"

definition validate_range :: "key_range \<Rightarrow> unit result" where
  "validate_range r =
     (if kr_start r = [] \<or> kr_end r = []
      then Inl (Invalid_Argument ''range bounds must not be empty'')
      else if kr_start r \<ge> kr_end r
      then Inl (Invalid_Argument ''range start must be less than range end'')
      else Inr ())"

definition contains_key :: "key_range \<Rightarrow> byte_sequence \<Rightarrow> bool" where
  "contains_key r key \<longleftrightarrow> kr_start r \<le> key \<and> key < kr_end r"

definition ranges_overlap :: "key_range \<Rightarrow> key_range \<Rightarrow> bool" where
  "ranges_overlap l r \<longleftrightarrow> kr_start l < kr_end r \<and> kr_start r < kr_end l"

fun comparison_matches :: "'a :: linorder \<Rightarrow> 'a \<Rightarrow> compare_result \<Rightarrow> bool" where
  "comparison_matches actual expected Cmp_equal \<longleftrightarrow> actual = expected"
| "comparison_matches actual expected Cmp_not_equal \<longleftrightarrow> actual \<noteq> expected"
| "comparison_matches actual expected Cmp_greater \<longleftrightarrow> actual > expected"
| "comparison_matches actual expected Cmp_less \<longleftrightarrow> actual < expected"

definition next_revision_locked :: "store \<Rightarrow> int result" where
  "next_revision_locked s =
     (if st_revision s = int64_max then Inl (Overflow_Error ''store revision exhausted'')
      else Inr (st_revision s + 1))"

definition validate_tick_locked :: "store \<Rightarrow> lease_tick \<Rightarrow> unit result" where
  "validate_tick_locked s tick =
     throw_if (tick < st_logical_tick s) (Invalid_Argument ''lease tick must not move backwards'')"

section \<open>The attachment index\<close>

definition detach_key :: "lease_map \<Rightarrow> key_value \<Rightarrow> lease_map result" where
  "detach_key leases kv =
     (if kv_lease_id kv = 0 then Inr leases
      else case omap_find leases (kv_lease_id kv) of
        None \<Rightarrow> Inl (Logic_Error ''lease attachment index is inconsistent'')
      | Some l \<Rightarrow>
          if oset_member (kv_key kv) (sl_attached_keys l)
          then Inr (omap_put (kv_lease_id kv)
                 (l\<lparr>sl_attached_keys := oset_erase (kv_key kv) (sl_attached_keys l)\<rparr>) leases)
          else Inl (Logic_Error ''lease attachment index is inconsistent''))"

definition attach_key :: "lease_map \<Rightarrow> lease_id \<Rightarrow> byte_sequence \<Rightarrow> lease_map result" where
  "attach_key leases lid key =
     (case omap_find leases lid of
        None \<Rightarrow> Inl (Logic_Error ''verified lease is missing'')
      | Some l \<Rightarrow>
          if oset_member key (sl_attached_keys l)
          then Inl (Logic_Error ''key is already attached to lease'')
          else Inr (omap_put lid
                 (l\<lparr>sl_attached_keys := oset_insert key (sl_attached_keys l)\<rparr>) leases))"

definition lease_record_locked :: "lease_id \<Rightarrow> stored_lease \<Rightarrow> lease_record" where
  "lease_record_locked lid l =
     \<lparr>lr_id = lid, lr_fencing_token = sl_fencing_token l, lr_granted_ttl = sl_granted_ttl l,
      lr_expiry_tick = sl_expiry_tick l, lr_attached_keys = oset_elems (sl_attached_keys l)\<rparr>"

section \<open>Watch publication\<close>

text \<open>
  The value a mutation event is about.  The source dereferences \<open>previous\<close> when \<open>current\<close> is
  absent; an event with neither is never built (see \<open>event_ok\<close>).
\<close>

definition event_value :: "watch_event \<Rightarrow> key_value option" where
  "event_value e = (case me_current (we_mutation e) of
       Some v \<Rightarrow> Some v | None \<Rightarrow> me_previous (we_mutation e))"

definition watch_matches :: "watch_request \<Rightarrow> watch_event \<Rightarrow> bool" where
  "watch_matches request event =
     (if wq_filter request = Exclude_put \<and> me_type (we_mutation event) = Mutation_put then False
      else if wq_filter request = Exclude_erase \<and> me_type (we_mutation event) = Mutation_erase
      then False
      else case event_value event of
        None \<Rightarrow> False
      | Some v \<Rightarrow>
          if kr_end (wq_range request) = [] then kv_key v = kr_start (wq_range request)
          else kr_start (wq_range request) \<le> kv_key v \<and> kv_key v < kr_end (wq_range request))"

definition event_response :: "int \<Rightarrow> watch_id \<Rightarrow> watch_event list \<Rightarrow> watch_response" where
  "event_response r wid events =
     \<lparr>wr_header = header_at r, wr_id = wid, wr_events = events, wr_compact_revision = 0,
      wr_status = Status_ok, wr_cancelled = False\<rparr>"

definition overflow_response :: "int \<Rightarrow> watch_id \<Rightarrow> watch_response" where
  "overflow_response r wid =
     \<lparr>wr_header = header_at r, wr_id = wid, wr_events = [], wr_compact_revision = 0,
      wr_status = Status_quota_exceeded, wr_cancelled = True\<rparr>"

text \<open>The body of the loop over \<open>publication.watchers\<close>: one watcher receives one batch.\<close>

definition publish_to_watcher ::
    "nat \<Rightarrow> watch_event list \<Rightarrow> int \<Rightarrow> watch_id \<Rightarrow> watch_state \<Rightarrow> watch_state" where
  "publish_to_watcher pending_limit events mutation_revision wid w =
     (if ws_terminal w \<noteq> None then w
      else let matching = filter (watch_matches (ws_request w)) events in
        if matching = [] \<and> \<not> wq_progress_notifications (ws_request w) then w
        else if length (ws_pending w) \<ge> pending_limit
        then w\<lparr>ws_pending := [], ws_terminal := Some (overflow_response mutation_revision wid)\<rparr>
        else w\<lparr>ws_pending := ws_pending w @ [event_response mutation_revision wid matching]\<rparr>)"

text \<open>The loop that pops the oldest batches while the history exceeds its limit.\<close>

fun trim_history :: "nat \<Rightarrow> event_batch list \<Rightarrow> int \<Rightarrow> event_batch list \<times> int" where
  "trim_history limit [] compact = ([], compact)"
| "trim_history limit (b # bs) compact =
     (if length (b # bs) > limit then trim_history limit bs (eb_revision b)
      else (b # bs, compact))"

definition stage_watch_publication_locked ::
    "store \<Rightarrow> watch_event list \<Rightarrow> int \<Rightarrow> staged_publication" where
  "stage_watch_publication_locked s events mutation_revision =
     (let history = st_history s @ [\<lparr>eb_revision = mutation_revision, eb_events = events\<rparr>];
          watchers = omap_map
            (publish_to_watcher (max_watch_pending_responses (st_limits s)) events mutation_revision)
            (st_watchers s);
          trimmed = trim_history (max_watch_history_revisions (st_limits s)) history
            (st_compact_revision s)
      in \<lparr>sp_history = fst trimmed, sp_watchers = watchers, sp_compact_revision = snd trimmed\<rparr>)"

definition commit_watch_publication_locked :: "staged_publication \<Rightarrow> store \<Rightarrow> store" where
  "commit_watch_publication_locked p s =
     s\<lparr>st_history := sp_history p, st_watchers := sp_watchers p,
       st_compact_revision := sp_compact_revision p\<rparr>"

text \<open>
  The tail shared by every mutation: the working copies are swapped in, the revision set and
  the staged publication committed.
\<close>

definition commit_mutation ::
    "store \<Rightarrow> value_map \<Rightarrow> lease_map \<Rightarrow> int \<Rightarrow> watch_event list \<Rightarrow> store" where
  "commit_mutation s values leases r events =
     commit_watch_publication_locked (stage_watch_publication_locked s events r)
       (s\<lparr>st_values := values, st_leases := leases, st_revision := r\<rparr>)"

section \<open>Constructors\<close>

definition store_create :: "int \<Rightarrow> store_limits \<Rightarrow> store result" where
  "store_create initial_revision limits =
     (if initial_revision < 0
      then Inl (Invalid_Argument ''initial revision must not be negative'')
      else Inr \<lparr>st_values = omap_empty, st_limits = limits, st_revision = initial_revision,
        st_compact_revision = initial_revision, st_history = [], st_watchers = omap_empty,
        st_leases = omap_empty, st_logical_tick = 0, st_next_lease_id = 1,
        st_next_fencing_token = 1\<rparr>)"

end
