(* ===== verification/Store_Invariant.thy ===== *)
theory Store_Invariant
  imports Store_State
begin

text \<open>
  The well-formedness invariant of the store and the facts about the shared helpers: the
  attachment index is consistent in both directions, the retained history is the contiguous
  run of revisions after the compaction boundary, every watcher respects its bound, and lease
  identifiers and fencing tokens stay below their allocation counters.  The lemma
  \<open>commit_mutation_inv\<close> is the step every mutating operation rests on.
\<close>

section \<open>The invariant\<close>

definition kv_ok :: "int \<Rightarrow> byte_sequence \<Rightarrow> key_value \<Rightarrow> bool" where
  "kv_ok r k kv \<longleftrightarrow> kv_key kv = k \<and> k \<noteq> [] \<and> 0 < kv_version kv \<and> kv_version kv \<le> int64_max
     \<and> 0 < kv_create_revision kv \<and> kv_create_revision kv \<le> kv_mod_revision kv
     \<and> kv_mod_revision kv \<le> r \<and> 0 \<le> kv_lease_id kv"

definition values_ok :: "int \<Rightarrow> value_map \<Rightarrow> bool" where
  "values_ok r vs \<longleftrightarrow> (\<forall>k kv. omap_find vs k = Some kv \<longrightarrow> kv_ok r k kv)"

definition attached :: "lease_map \<Rightarrow> lease_id \<Rightarrow> byte_sequence \<Rightarrow> bool" where
  "attached leases lid k \<longleftrightarrow>
     (\<exists>l. omap_find leases lid = Some l \<and> oset_member k (sl_attached_keys l))"

text \<open>A key carries a lease exactly when that lease's index holds the key.\<close>

definition index_ok :: "value_map \<Rightarrow> lease_map \<Rightarrow> bool" where
  "index_ok vs leases \<longleftrightarrow>
     (\<forall>k kv. omap_find vs k = Some kv \<longrightarrow> kv_lease_id kv \<noteq> 0 \<longrightarrow> attached leases (kv_lease_id kv) k)
   \<and> (\<forall>lid k. attached leases lid k \<longrightarrow> (\<exists>kv. omap_find vs k = Some kv \<and> kv_lease_id kv = lid))"

definition leases_ok :: "lease_map \<Rightarrow> int \<Rightarrow> fencing_token \<Rightarrow> nat \<Rightarrow> bool" where
  "leases_ok leases next_id next_token limit \<longleftrightarrow>
     (\<forall>lid l. omap_find leases lid = Some l \<longrightarrow>
        0 < lid \<and> lid \<le> maximum_lease_id \<and> lid < next_id \<and> sl_fencing_token l \<noteq> 0
        \<and> sl_fencing_token l < next_token \<and> sl_granted_ttl l \<noteq> 0)
   \<and> omap_size leases \<le> limit"

definition tokens_distinct :: "lease_map \<Rightarrow> bool" where
  "tokens_distinct leases \<longleftrightarrow>
     (\<forall>i j k l. omap_find leases i = Some k \<longrightarrow> omap_find leases j = Some l \<longrightarrow>
        sl_fencing_token k = sl_fencing_token l \<longrightarrow> i = j)"

definition event_ok :: "int \<Rightarrow> watch_event \<Rightarrow> bool" where
  "event_ok r e \<longleftrightarrow> we_revision e = r \<and> event_value e \<noteq> None"

definition history_ok :: "event_batch list \<Rightarrow> int \<Rightarrow> int \<Rightarrow> bool" where
  "history_ok history compact r \<longleftrightarrow>
     0 \<le> compact \<and> compact \<le> r \<and> map eb_revision history = [compact + 1..r]
   \<and> (\<forall>b \<in> set history. \<forall>e \<in> set (eb_events b). event_ok (eb_revision b) e)"

definition watcher_ok :: "nat \<Rightarrow> int \<Rightarrow> watch_id \<Rightarrow> watch_state \<Rightarrow> bool" where
  "watcher_ok pending_limit r wid w \<longleftrightarrow>
     wq_id (ws_request w) = wid \<and> 0 < wid
   \<and> length (ws_pending w) \<le> pending_limit
   \<and> (ws_terminal w \<noteq> None \<longrightarrow> ws_pending w = [])
   \<and> sorted (map (rh_revision \<circ> wr_header) (ws_pending w))
   \<and> (\<forall>p \<in> set (ws_pending w). wr_id p = wid \<and> \<not> wr_cancelled p \<and> rh_revision (wr_header p) \<le> r)
   \<and> (\<forall>t. ws_terminal w = Some t \<longrightarrow> wr_id t = wid \<and> wr_cancelled t \<and> wr_status t = Status_quota_exceeded)"

definition watchers_ok :: "store_limits \<Rightarrow> int \<Rightarrow> watcher_map \<Rightarrow> bool" where
  "watchers_ok limits r ws \<longleftrightarrow> omap_size ws \<le> max_watchers limits
     \<and> (\<forall>wid w. omap_find ws wid = Some w \<longrightarrow>
          watcher_ok (max_watch_pending_responses limits) r wid w)"

definition store_inv :: "store \<Rightarrow> bool" where
  "store_inv s \<longleftrightarrow>
     st_revision s \<le> int64_max
   \<and> history_ok (st_history s) (st_compact_revision s) (st_revision s)
   \<and> length (st_history s) \<le> max_watch_history_revisions (st_limits s)
   \<and> values_ok (st_revision s) (st_values s)
   \<and> index_ok (st_values s) (st_leases s)
   \<and> leases_ok (st_leases s) (st_next_lease_id s) (st_next_fencing_token s)
       (max_active_leases (st_limits s))
   \<and> tokens_distinct (st_leases s)
   \<and> 0 < st_next_lease_id s \<and> st_next_lease_id s \<le> int64_max \<and> st_next_fencing_token s \<noteq> 0
   \<and> watchers_ok (st_limits s) (st_revision s) (st_watchers s)"

lemma store_inv_tick [simp]: "store_inv (s\<lparr>st_logical_tick := t\<rparr>) = store_inv s"
  by (simp add: store_inv_def)

section \<open>The attachment index under single updates\<close>

definition lease_terms :: "stored_lease \<Rightarrow> fencing_token \<times> lease_duration \<times> lease_tick" where
  "lease_terms l = (sl_fencing_token l, sl_granted_ttl l, sl_expiry_tick l)"

text \<open>The same leases on the same terms; only the attached keys may differ.\<close>

definition same_leases :: "lease_map \<Rightarrow> lease_map \<Rightarrow> bool" where
  "same_leases L M \<longleftrightarrow>
     (\<forall>lid. map_option lease_terms (omap_find L lid) = map_option lease_terms (omap_find M lid))"

lemma same_leases_refl [simp]: "same_leases L L"
  by (simp add: same_leases_def)

lemma same_leases_trans: "same_leases L M \<Longrightarrow> same_leases M N \<Longrightarrow> same_leases L N"
  by (simp add: same_leases_def)

lemma same_leases_find:
  assumes "same_leases L M" "omap_find M lid = Some m"
  obtains l where "omap_find L lid = Some l" "lease_terms l = lease_terms m"
  using assms unfolding same_leases_def by (metis map_option_eq_Some)

lemma same_leases_find':
  assumes "same_leases L M" "omap_find L lid = Some l"
  obtains m where "omap_find M lid = Some m" "lease_terms m = lease_terms l"
  using assms unfolding same_leases_def by (metis map_option_eq_Some)

lemma same_leases_size: "same_leases L M \<Longrightarrow> omap_size L = omap_size M"
proof -
  assume "same_leases L M"
  then have "set (omap_keys L) = set (omap_keys M)"
    unfolding same_leases_def
    by (metis (no_types, lifting) omap_find_None_keys option.map_disc_iff set_eqI)
  then show ?thesis by (simp add: omap_size_card)
qed

lemma same_leases_ok:
  assumes "same_leases L M" "leases_ok L n t limit"
  shows "leases_ok M n t limit"
  unfolding leases_ok_def
proof (intro conjI allI impI)
  fix lid m
  assume "omap_find M lid = Some m"
  then obtain l where "omap_find L lid = Some l" "lease_terms l = lease_terms m"
    by (rule same_leases_find[OF assms(1)])
  then have "sl_fencing_token m = sl_fencing_token l" "sl_granted_ttl m = sl_granted_ttl l"
    "omap_find L lid = Some l"
    by (simp_all add: lease_terms_def)
  then show "0 < lid" "lid \<le> maximum_lease_id" "lid < n" "sl_fencing_token m \<noteq> 0"
    "sl_fencing_token m < t" "sl_granted_ttl m \<noteq> 0"
    using assms(2) by (simp_all add: leases_ok_def)
next
  show "omap_size M \<le> limit" using assms by (auto simp: leases_ok_def same_leases_size)
qed

lemma same_leases_tokens: "same_leases L M \<Longrightarrow> tokens_distinct L \<Longrightarrow> tokens_distinct M"
  unfolding tokens_distinct_def by (metis same_leases_find lease_terms_def prod.inject)

lemma leases_ok_pos: "leases_ok L n t limit \<Longrightarrow> omap_find L lid = Some l \<Longrightarrow> lid \<noteq> 0"
  by (auto simp: leases_ok_def)

lemma attached_lease_pos: "leases_ok L n t limit \<Longrightarrow> attached L lid k \<Longrightarrow> lid \<noteq> 0"
  by (auto simp: attached_def dest: leases_ok_pos)

lemma index_ok_attached_unique:
  "index_ok vs L \<Longrightarrow> omap_find vs k = Some kv \<Longrightarrow> attached L lid k \<Longrightarrow> lid = kv_lease_id kv"
  unfolding index_ok_def by fastforce

lemma index_ok_absent: "index_ok vs L \<Longrightarrow> omap_find vs k = None \<Longrightarrow> \<not> attached L lid k"
  unfolding index_ok_def by fastforce

lemma detach_key_spec:
  assumes "index_ok vs L" "leases_ok L n t limit" "omap_find vs k = Some kv" "kv_key kv = k"
  obtains M where "detach_key L kv = Inr M" "same_leases L M"
    "\<And>lid j. attached M lid j \<longleftrightarrow> attached L lid j \<and> j \<noteq> k"
proof (cases "kv_lease_id kv = 0")
  case True
  then have "\<not> attached L lid k" for lid
    using assms attached_lease_pos index_ok_attached_unique by blast
  then show ?thesis using that[of L] True by (auto simp: detach_key_def)
next
  case False
  then have "attached L (kv_lease_id kv) k" using assms(1,3) unfolding index_ok_def by blast
  then obtain l where l: "omap_find L (kv_lease_id kv) = Some l" "oset_member k (sl_attached_keys l)"
    by (auto simp: attached_def)
  define M where "M = omap_put (kv_lease_id kv) (l\<lparr>sl_attached_keys := oset_erase k (sl_attached_keys l)\<rparr>) L"
  have "detach_key L kv = Inr M" using False l assms(4) by (simp add: detach_key_def M_def)
  moreover have "same_leases L M" using l by (auto simp: same_leases_def M_def lease_terms_def)
  moreover have "attached M lid j \<longleftrightarrow> attached L lid j \<and> j \<noteq> k" for lid j
    using l index_ok_attached_unique[OF assms(1,3)] by (auto simp: attached_def M_def)
  ultimately show ?thesis using that by blast
qed

lemma attach_key_spec:
  assumes "omap_find L lid = Some l" "\<not> attached L lid k"
  obtains M where "attach_key L lid k = Inr M" "same_leases L M"
    "\<And>i j. attached M i j \<longleftrightarrow> attached L i j \<or> i = lid \<and> j = k"
proof -
  define M where "M = omap_put lid (l\<lparr>sl_attached_keys := oset_insert k (sl_attached_keys l)\<rparr>) L"
  have "attach_key L lid k = Inr M" using assms by (auto simp: attach_key_def attached_def M_def)
  moreover have "same_leases L M" using assms(1) by (auto simp: same_leases_def M_def lease_terms_def)
  moreover have "attached M i j \<longleftrightarrow> attached L i j \<or> i = lid \<and> j = k" for i j
    using assms(1) by (auto simp: attached_def M_def)
  ultimately show ?thesis using that by blast
qed

text \<open>How the index follows a write or a removal of one key.\<close>

lemma index_ok_put:
  assumes "index_ok vs L" "\<And>i j. attached M i j \<longleftrightarrow> (attached L i j \<and> j \<noteq> k) \<or> (i = kv_lease_id kv \<and> j = k \<and> i \<noteq> 0)"
  shows "index_ok (omap_put k kv vs) M"
  using assms unfolding index_ok_def by auto

lemma index_ok_drop:
  assumes "index_ok vs L" "\<And>i j. attached M i j \<longleftrightarrow> attached L i j \<and> j \<noteq> k"
  shows "index_ok (omap_drop k vs) M"
  using assms unfolding index_ok_def by auto

section \<open>Watch publication\<close>

lemma trim_history_spec:
  assumes "map eb_revision h = [c + 1..r]" "c \<le> r" "trim_history limit h c = (h', c')"
  shows "map eb_revision h' = [c' + 1..r] \<and> c \<le> c' \<and> c' \<le> r \<and> length h' \<le> limit
    \<and> (\<exists>dropped. h = dropped @ h')"
  using assms
proof (induction h arbitrary: c)
  case Nil
  then show ?case by simp
next
  case (Cons b bs)
  have lt: "c + 1 \<le> r" using Cons.prems(1) by (cases "c + 1 \<le> r") simp_all
  then have b: "eb_revision b = c + 1" "map eb_revision bs = [c + 1 + 1..r]"
    using Cons.prems(1) by (simp_all add: upto_rec1)
  show ?case
  proof (cases "length (b # bs) > limit")
    case True
    then have "trim_history limit bs (c + 1) = (h', c')" using Cons.prems(3) b by simp
    then have "map eb_revision h' = [c' + 1..r] \<and> c + 1 \<le> c' \<and> c' \<le> r \<and> length h' \<le> limit
        \<and> (\<exists>dropped. bs = dropped @ h')"
      using Cons.IH[of "c + 1"] b lt by simp
    then show ?thesis by (metis append_Cons order_trans zle_add1_eq_le zless_add1_eq less_le)
  next
    case False
    then show ?thesis using Cons.prems by auto
  qed
qed

lemma trim_history_fits: "length h \<le> limit \<Longrightarrow> trim_history limit h c = (h, c)"
  by (cases h) auto

lemma publish_to_watcher_ok:
  assumes "watcher_ok limit r wid w" "r \<le> r'"
  shows "watcher_ok limit r' wid (publish_to_watcher limit events r' wid w)"
  using assms
  by (auto simp: watcher_ok_def publish_to_watcher_def Let_def event_response_def
      overflow_response_def header_at_def sorted_append)

lemma watchers_ok_publish:
  assumes "watchers_ok limits r ws" "r \<le> r'"
  shows "watchers_ok limits r'
    (omap_map (publish_to_watcher (max_watch_pending_responses limits) events r') ws)"
  using assms by (auto simp: watchers_ok_def intro: publish_to_watcher_ok)

lemma history_ok_publish:
  assumes "history_ok h c r" "\<forall>e \<in> set events. event_ok (r + 1) e"
    and "trim_history limit (h @ [\<lparr>eb_revision = r + 1, eb_events = events\<rparr>]) c = (h', c')"
  shows "history_ok h' c' (r + 1) \<and> length h' \<le> limit \<and> c \<le> c'"
proof -
  let ?h = "h @ [\<lparr>eb_revision = r + 1, eb_events = events\<rparr>]"
  have "map eb_revision ?h = [c + 1..r + 1]" "c \<le> r + 1" "0 \<le> c"
    using assms(1) by (auto simp: history_ok_def upto_snoc)
  then obtain dropped where "map eb_revision h' = [c' + 1..r + 1]" "c \<le> c'" "c' \<le> r + 1"
    "length h' \<le> limit" "?h = dropped @ h'"
    using trim_history_spec[OF _ _ assms(3)] by blast
  moreover have "\<forall>b \<in> set ?h. \<forall>e \<in> set (eb_events b). event_ok (eb_revision b) e"
    using assms(1,2) by (auto simp: history_ok_def)
  ultimately show ?thesis using \<open>0 \<le> c\<close> unfolding history_ok_def by auto
qed

lemma commit_mutation_fields [simp]:
  "st_values (commit_mutation s vs L r events) = vs"
  "st_leases (commit_mutation s vs L r events) = L"
  "st_revision (commit_mutation s vs L r events) = r"
  "st_limits (commit_mutation s vs L r events) = st_limits s"
  "st_logical_tick (commit_mutation s vs L r events) = st_logical_tick s"
  "st_next_lease_id (commit_mutation s vs L r events) = st_next_lease_id s"
  "st_next_fencing_token (commit_mutation s vs L r events) = st_next_fencing_token s"
  by (simp_all add: commit_mutation_def commit_watch_publication_locked_def)

lemma commit_mutation_watch_fields:
  "st_history (commit_mutation s vs L r events) = fst (trim_history
     (max_watch_history_revisions (st_limits s))
     (st_history s @ [\<lparr>eb_revision = r, eb_events = events\<rparr>]) (st_compact_revision s))"
  "st_compact_revision (commit_mutation s vs L r events) = snd (trim_history
     (max_watch_history_revisions (st_limits s))
     (st_history s @ [\<lparr>eb_revision = r, eb_events = events\<rparr>]) (st_compact_revision s))"
  "st_watchers (commit_mutation s vs L r events) = omap_map
     (publish_to_watcher (max_watch_pending_responses (st_limits s)) events r) (st_watchers s)"
  by (simp_all add: commit_mutation_def commit_watch_publication_locked_def
      stage_watch_publication_locked_def Let_def)

lemma next_revision_locked_Inr [result_simps]:
  "next_revision_locked s = Inr r \<longleftrightarrow> st_revision s \<noteq> int64_max \<and> r = st_revision s + 1"
  by (auto simp: next_revision_locked_def)

lemma values_ok_mono: "values_ok r vs \<Longrightarrow> r \<le> r' \<Longrightarrow> values_ok r' vs"
  unfolding values_ok_def kv_ok_def by force

lemma values_ok_put: "values_ok r vs \<Longrightarrow> kv_ok r k kv \<Longrightarrow> values_ok r (omap_put k kv vs)"
  by (auto simp: values_ok_def)

lemma values_ok_drop: "values_ok r vs \<Longrightarrow> values_ok r (omap_drop k vs)"
  by (auto simp: values_ok_def)

lemma commit_mutation_inv:
  assumes inv: "store_inv s" and r: "next_revision_locked s = Inr r"
    and "values_ok r vs" "index_ok vs L"
    and "leases_ok L (st_next_lease_id s) (st_next_fencing_token s) (max_active_leases (st_limits s))"
    and "tokens_distinct L" and ev: "\<forall>e \<in> set events. event_ok r e"
  shows "store_inv (commit_mutation s vs L r events)"
proof -
  have r': "r = st_revision s + 1" "r \<le> int64_max"
    using r inv by (auto simp: result_simps store_inv_def)
  obtain h' c' where trim: "trim_history (max_watch_history_revisions (st_limits s))
     (st_history s @ [\<lparr>eb_revision = r, eb_events = events\<rparr>]) (st_compact_revision s) = (h', c')"
    by fastforce
  have "history_ok h' c' r \<and> length h' \<le> max_watch_history_revisions (st_limits s)"
    using history_ok_publish[of "st_history s" "st_compact_revision s" "st_revision s"] trim inv ev
    by (auto simp: r' store_inv_def)
  moreover have "watchers_ok (st_limits s) r (st_watchers (commit_mutation s vs L r events))"
    using inv watchers_ok_publish[of "st_limits s" "st_revision s" _ r]
    by (simp add: r' commit_mutation_watch_fields store_inv_def)
  ultimately show ?thesis
    using assms r'(2) unfolding store_inv_def
    by (simp add: commit_mutation_watch_fields(1,2) trim)
qed

end
