(* ===== verification/Store_Kv.thy ===== *)
theory Store_Kv
  imports Store_Invariant
begin

text \<open>
  Point reads, range reads and single-key mutations of the store (\<open>get\<close>, \<open>range\<close>, \<open>put\<close>,
  \<open>erase\<close>, \<open>compare_and_set\<close>), their abstract specification over finite maps, and the facts
  about revisions and versions.
\<close>

section \<open>Operations\<close>

definition get :: "store \<Rightarrow> byte_sequence \<Rightarrow> store_read result" where
  "get s key = and_then (validate_key key) (\<lambda>_.
     Inr \<lparr>sr_value = omap_find (st_values s) key, sr_revision = st_revision s\<rparr>)"

definition store_range :: "store \<Rightarrow> byte_sequence \<Rightarrow> byte_sequence \<Rightarrow> range_read result" where
  "store_range s start_inclusive end_exclusive =
     and_then (validate_key start_inclusive) (\<lambda>_.
     and_then (validate_key end_exclusive) (\<lambda>_.
       if start_inclusive \<ge> end_exclusive
       then Inl (Invalid_Argument ''range start must be less than range end'')
       else Inr \<lparr>rr_values = map snd (omap_scan start_inclusive end_exclusive (st_values s)),
                 rr_revision = st_revision s\<rparr>))"

definition put_event :: "int \<Rightarrow> key_value \<Rightarrow> key_value option \<Rightarrow> watch_event" where
  "put_event r current previous =
     \<lparr>we_revision = r, we_mutation =
        \<lparr>me_type = Mutation_put, me_current = Some current, me_previous = previous\<rparr>\<rparr>"

definition erase_event :: "int \<Rightarrow> key_value \<Rightarrow> watch_event" where
  "erase_event r previous =
     \<lparr>we_revision = r, we_mutation =
        \<lparr>me_type = Mutation_erase, me_current = None, me_previous = Some previous\<rparr>\<rparr>"

text \<open>The key-value record a put writes.\<close>

definition next_key_value ::
    "byte_sequence \<Rightarrow> byte_sequence \<Rightarrow> key_value option \<Rightarrow> int \<Rightarrow> int \<Rightarrow> key_value" where
  "next_key_value key value previous r lease =
     \<lparr>kv_key = key, kv_value = value,
      kv_version = (case previous of Some p \<Rightarrow> kv_version p + 1 | None \<Rightarrow> 1),
      kv_create_revision = (case previous of Some p \<Rightarrow> kv_create_revision p | None \<Rightarrow> r),
      kv_mod_revision = r, kv_lease_id = lease\<rparr>"

definition detach_previous :: "lease_map \<Rightarrow> key_value option \<Rightarrow> lease_map result" where
  "detach_previous leases previous =
     (case previous of None \<Rightarrow> Inr leases | Some p \<Rightarrow> detach_key leases p)"

definition version_exhausted :: "key_value option \<Rightarrow> bool" where
  "version_exhausted previous = (case previous of None \<Rightarrow> False | Some p \<Rightarrow> kv_version p = int64_max)"

definition put_locked :: "store \<Rightarrow> byte_sequence \<Rightarrow> byte_sequence \<Rightarrow> (store \<times> put_result) result" where
  "put_locked s key value =
     (let previous = omap_find (st_values s) key in
      and_then (next_revision_locked s) (\<lambda>mutation_revision.
      and_then (throw_if (version_exhausted previous) (Overflow_Error ''key version exhausted'')) (\<lambda>_.
      let current = next_key_value key value previous mutation_revision 0 in
      and_then (detach_previous (st_leases s) previous) (\<lambda>working_leases.
      Inr (commit_mutation s (omap_put key current (st_values s)) working_leases mutation_revision
             [put_event mutation_revision current previous],
           \<lparr>pr_current = current, pr_previous = previous, pr_revision = mutation_revision\<rparr>)))))"

definition put :: "store \<Rightarrow> byte_sequence \<Rightarrow> byte_sequence \<Rightarrow> (store \<times> put_result) result" where
  "put s key value = and_then (validate_key key) (\<lambda>_. put_locked s key value)"

definition erase :: "store \<Rightarrow> byte_sequence \<Rightarrow> (store \<times> delete_result) result" where
  "erase s key = and_then (validate_key key) (\<lambda>_.
     case omap_find (st_values s) key of
       None \<Rightarrow> Inr (s, \<lparr>dr_deleted = False, dr_previous = None, dr_revision = st_revision s\<rparr>)
     | Some previous \<Rightarrow>
         and_then (next_revision_locked s) (\<lambda>mutation_revision.
         and_then (detach_key (st_leases s) previous) (\<lambda>working_leases.
         Inr (commit_mutation s (omap_drop key (st_values s)) working_leases mutation_revision
                [erase_event mutation_revision previous],
              \<lparr>dr_deleted = True, dr_previous = Some previous, dr_revision = mutation_revision\<rparr>))))"

definition compare_and_set ::
    "store \<Rightarrow> byte_sequence \<Rightarrow> int \<Rightarrow> byte_sequence \<Rightarrow> (store \<times> compare_and_set_result) result" where
  "compare_and_set s key expected_mod_revision new_value =
     and_then (validate_key key) (\<lambda>_.
     and_then (throw_if (expected_mod_revision < 0)
        (Invalid_Argument ''expected modification revision must not be negative'')) (\<lambda>_.
     let found = omap_find (st_values s) key;
         matches = (case found of None \<Rightarrow> expected_mod_revision = 0
                    | Some v \<Rightarrow> kv_mod_revision v = expected_mod_revision)
     in if \<not> matches
        then Inr (s, \<lparr>cas_succeeded = False, cas_current = found, cas_revision = st_revision s\<rparr>)
        else and_then (put_locked s key new_value) (\<lambda>(s', result).
          Inr (s', \<lparr>cas_succeeded = True, cas_current = Some (pr_current result),
                    cas_revision = pr_revision result\<rparr>))))"

section \<open>Invariant preservation\<close>

lemma event_ok_put [simp]: "event_ok r (put_event r' current previous) \<longleftrightarrow> r' = r"
  by (simp add: event_ok_def put_event_def event_value_def)

lemma event_ok_erase [simp]: "event_ok r (erase_event r' previous) \<longleftrightarrow> r' = r"
  by (simp add: event_ok_def erase_event_def event_value_def)

lemma store_inv_kv: "store_inv s \<Longrightarrow> omap_find (st_values s) k = Some kv \<Longrightarrow> kv_ok (st_revision s) k kv"
  by (auto simp: store_inv_def values_ok_def)

text \<open>
  Removing whatever lease the current record of a key has never throws, and leaves the index
  without that key.
\<close>

lemma detach_previous_spec:
  assumes "index_ok vs L" "leases_ok L n t limit" "values_ok r vs"
  obtains M where "detach_previous L (omap_find vs k) = Inr M" "same_leases L M"
    "\<And>lid j. attached M lid j \<longleftrightarrow> attached L lid j \<and> j \<noteq> k"
proof (cases "omap_find vs k")
  case None
  then have "\<not> attached L lid k" for lid using assms(1) by (rule index_ok_absent[rotated])
  then show ?thesis using that[of L] None by (auto simp: detach_previous_def)
next
  case (Some kv)
  then have "kv_key kv = k" using assms(3) by (auto simp: values_ok_def kv_ok_def)
  then obtain M where "detach_key L kv = Inr M" "same_leases L M"
    "\<And>lid j. attached M lid j \<longleftrightarrow> attached L lid j \<and> j \<noteq> k"
    using detach_key_spec[OF assms(1,2) Some] by blast
  then show ?thesis using that[of M] Some by (simp add: detach_previous_def)
qed

lemma next_key_value_ok:
  assumes "values_ok r vs" "\<not> version_exhausted (omap_find vs k)" "k \<noteq> []" "0 \<le> r" "0 \<le> lease"
  shows "kv_ok (r + 1) k (next_key_value k v (omap_find vs k) (r + 1) lease)"
proof (cases "omap_find vs k")
  case None
  then show ?thesis using assms by (simp add: kv_ok_def next_key_value_def int64_max_def)
next
  case (Some p)
  then have "kv_ok r k p" using assms(1) by (simp add: values_ok_def)
  then show ?thesis using Some assms by (auto simp: kv_ok_def next_key_value_def version_exhausted_def)
qed

lemma store_inv_revision_nonneg: "store_inv s \<Longrightarrow> 0 \<le> st_revision s"
  by (auto simp: store_inv_def history_ok_def)

text \<open>The parts of the invariant the mutation proofs draw on.\<close>

lemma store_inv_parts:
  assumes "store_inv s"
  shows "index_ok (st_values s) (st_leases s)"
    and "leases_ok (st_leases s) (st_next_lease_id s) (st_next_fencing_token s) (max_active_leases (st_limits s))"
    and "values_ok (st_revision s) (st_values s)"
    and "tokens_distinct (st_leases s)" and "st_revision s \<le> int64_max"
  using assms by (auto simp: store_inv_def)

definition put_current :: "store \<Rightarrow> byte_sequence \<Rightarrow> byte_sequence \<Rightarrow> key_value" where
  "put_current s key v = next_key_value key v (omap_find (st_values s) key) (st_revision s + 1) 0"

lemma put_locked_success:
  assumes inv: "store_inv s" and key: "key \<noteq> []" and rev: "st_revision s \<noteq> int64_max"
    and ver: "\<not> version_exhausted (omap_find (st_values s) key)"
  obtains M where
    "put_locked s key v = Inr (commit_mutation s (omap_put key (put_current s key v) (st_values s)) M
        (st_revision s + 1)
        [put_event (st_revision s + 1) (put_current s key v) (omap_find (st_values s) key)],
      \<lparr>pr_current = put_current s key v, pr_previous = omap_find (st_values s) key,
       pr_revision = st_revision s + 1\<rparr>)"
    "same_leases (st_leases s) M"
    "\<And>lid j. attached M lid j \<longleftrightarrow> attached (st_leases s) lid j \<and> j \<noteq> key"
    "store_inv (commit_mutation s (omap_put key (put_current s key v) (st_values s)) M
        (st_revision s + 1)
        [put_event (st_revision s + 1) (put_current s key v) (omap_find (st_values s) key)])"
proof -
  note inv' = store_inv_parts[OF inv]
  obtain M where M: "detach_previous (st_leases s) (omap_find (st_values s) key) = Inr M"
    "same_leases (st_leases s) M"
    "\<And>lid j. attached M lid j \<longleftrightarrow> attached (st_leases s) lid j \<and> j \<noteq> key"
    using detach_previous_spec[OF inv'(1-3)] by blast
  have "kv_ok (st_revision s + 1) key (put_current s key v)"
    unfolding put_current_def
    by (rule next_key_value_ok[OF inv'(3) ver key store_inv_revision_nonneg[OF inv]]) simp
  then have "values_ok (st_revision s + 1) (omap_put key (put_current s key v) (st_values s))"
    using values_ok_mono[OF inv'(3)] by (intro values_ok_put) auto
  moreover have "index_ok (omap_put key (put_current s key v) (st_values s)) M"
    by (rule index_ok_put[OF inv'(1)]) (use M(3) in \<open>auto simp: put_current_def next_key_value_def\<close>)
  ultimately have "store_inv (commit_mutation s (omap_put key (put_current s key v) (st_values s)) M
      (st_revision s + 1)
      [put_event (st_revision s + 1) (put_current s key v) (omap_find (st_values s) key)])"
    using rev inv' M(2) same_leases_ok[OF M(2)] same_leases_tokens[OF M(2)]
    by (intro commit_mutation_inv[OF inv]) (auto simp: result_simps)
  then show ?thesis
    using that[of M] M rev ver
    by (simp add: put_locked_def next_revision_locked_def Let_def put_current_def)
qed

lemma put_locked_Inr:
  assumes "store_inv s" "key \<noteq> []" "put_locked s key v = Inr (s', res)"
  shows "store_inv s'" "st_values s' = omap_put key (put_current s key v) (st_values s)"
    "st_revision s' = st_revision s + 1" "st_revision s \<noteq> int64_max"
    "\<not> version_exhausted (omap_find (st_values s) key)"
    "res = \<lparr>pr_current = put_current s key v, pr_previous = omap_find (st_values s) key,
            pr_revision = st_revision s + 1\<rparr>"
    "same_leases (st_leases s) (st_leases s')"
    "attached (st_leases s') lid j \<longleftrightarrow> attached (st_leases s) lid j \<and> j \<noteq> key"
    "st_limits s' = st_limits s" "st_logical_tick s' = st_logical_tick s"
proof -
  show rev: "st_revision s \<noteq> int64_max" and ver: "\<not> version_exhausted (omap_find (st_values s) key)"
    using assms(3) by (auto simp: put_locked_def Let_def result_simps)
  obtain M where M: "put_locked s key v = Inr (commit_mutation s (omap_put key (put_current s key v) (st_values s)) M
        (st_revision s + 1)
        [put_event (st_revision s + 1) (put_current s key v) (omap_find (st_values s) key)],
      \<lparr>pr_current = put_current s key v, pr_previous = omap_find (st_values s) key,
       pr_revision = st_revision s + 1\<rparr>)"
    "same_leases (st_leases s) M"
    "\<And>lid j. attached M lid j \<longleftrightarrow> attached (st_leases s) lid j \<and> j \<noteq> key"
    "store_inv (commit_mutation s (omap_put key (put_current s key v) (st_values s)) M
        (st_revision s + 1)
        [put_event (st_revision s + 1) (put_current s key v) (omap_find (st_values s) key)])"
    using put_locked_success[OF assms(1,2) rev ver, of v] by metis
  then show "store_inv s'" "st_values s' = omap_put key (put_current s key v) (st_values s)"
    "st_revision s' = st_revision s + 1"
    "res = \<lparr>pr_current = put_current s key v, pr_previous = omap_find (st_values s) key,
            pr_revision = st_revision s + 1\<rparr>"
    "same_leases (st_leases s) (st_leases s')"
    "attached (st_leases s') lid j \<longleftrightarrow> attached (st_leases s) lid j \<and> j \<noteq> key"
    "st_limits s' = st_limits s" "st_logical_tick s' = st_logical_tick s"
    using assms(3) by auto
qed

lemma put_locked_Inl:
  assumes "store_inv s" "key \<noteq> []" "put_locked s key v = Inl e"
  shows "e = Overflow_Error ''store revision exhausted'' \<and> st_revision s = int64_max
    \<or> e = Overflow_Error ''key version exhausted'' \<and> version_exhausted (omap_find (st_values s) key)"
proof (rule ccontr)
  assume neg: "\<not> ?thesis"
  have "st_revision s \<noteq> int64_max" "\<not> version_exhausted (omap_find (st_values s) key)"
    using assms(3) neg
    by (auto simp: put_locked_def next_revision_locked_def Let_def split: if_splits)
  then show False using put_locked_success[OF assms(1,2)] assms(3) by (metis Inl_Inr_False)
qed

lemma erase_success:
  assumes inv: "store_inv s" and key: "omap_find (st_values s) key = Some prev"
    and rev: "st_revision s \<noteq> int64_max"
  obtains M where
    "erase s key = Inr (commit_mutation s (omap_drop key (st_values s)) M (st_revision s + 1)
        [erase_event (st_revision s + 1) prev],
      \<lparr>dr_deleted = True, dr_previous = Some prev, dr_revision = st_revision s + 1\<rparr>)"
    "same_leases (st_leases s) M"
    "\<And>lid j. attached M lid j \<longleftrightarrow> attached (st_leases s) lid j \<and> j \<noteq> key"
    "store_inv (commit_mutation s (omap_drop key (st_values s)) M (st_revision s + 1)
        [erase_event (st_revision s + 1) prev])"
proof -
  note inv' = store_inv_parts[OF inv]
  have kv: "kv_key prev = key" "key \<noteq> []" using store_inv_kv[OF inv key] by (auto simp: kv_ok_def)
  obtain M where M: "detach_key (st_leases s) prev = Inr M" "same_leases (st_leases s) M"
    "\<And>lid j. attached M lid j \<longleftrightarrow> attached (st_leases s) lid j \<and> j \<noteq> key"
    using detach_key_spec[OF inv'(1,2) key kv(1)] by blast
  have "values_ok (st_revision s + 1) (omap_drop key (st_values s))"
    using values_ok_mono[OF inv'(3)] by (intro values_ok_drop) auto
  moreover have "index_ok (omap_drop key (st_values s)) M"
    by (rule index_ok_drop[OF inv'(1) M(3)])
  ultimately have "store_inv (commit_mutation s (omap_drop key (st_values s)) M (st_revision s + 1)
        [erase_event (st_revision s + 1) prev])"
    using rev inv' same_leases_ok[OF M(2)] same_leases_tokens[OF M(2)]
    by (intro commit_mutation_inv[OF inv]) (auto simp: result_simps)
  then show ?thesis
    using that[of M] M rev key kv
    by (simp add: erase_def validate_key_def next_revision_locked_def)
qed

lemma erase_Inr:
  assumes "store_inv s" "erase s key = Inr (s', res)"
  shows "key \<noteq> []" "store_inv s'" "st_values s' = omap_drop key (st_values s)"
    "st_revision s' = (if omap_has (st_values s) key then st_revision s + 1 else st_revision s)"
    "res = \<lparr>dr_deleted = omap_has (st_values s) key, dr_previous = omap_find (st_values s) key,
            dr_revision = st_revision s'\<rparr>"
    "\<not> omap_has (st_values s) key \<longrightarrow> s' = s"
    "st_limits s' = st_limits s" "same_leases (st_leases s) (st_leases s')"
    "attached (st_leases s') lid j \<longleftrightarrow> attached (st_leases s) lid j \<and> j \<noteq> key"
proof -
  show key: "key \<noteq> []" using assms(2) by (auto simp: erase_def validate_key_def result_simps)
  consider (absent) "omap_find (st_values s) key = None"
    | (present) prev where "omap_find (st_values s) key = Some prev" by fastforce
  then have "store_inv s' \<and> st_values s' = omap_drop key (st_values s)
    \<and> st_revision s' = (if omap_has (st_values s) key then st_revision s + 1 else st_revision s)
    \<and> res = \<lparr>dr_deleted = omap_has (st_values s) key, dr_previous = omap_find (st_values s) key,
            dr_revision = st_revision s'\<rparr>
    \<and> (\<not> omap_has (st_values s) key \<longrightarrow> s' = s)
    \<and> st_limits s' = st_limits s \<and> same_leases (st_leases s) (st_leases s')
    \<and> (attached (st_leases s') lid j \<longleftrightarrow> attached (st_leases s) lid j \<and> j \<noteq> key)"
  proof cases
    case absent
    then have "s' = s" "res = \<lparr>dr_deleted = False, dr_previous = None, dr_revision = st_revision s\<rparr>"
      using assms(2) key by (auto simp: erase_def validate_key_def)
    then show ?thesis
      using absent assms(1) index_ok_absent[OF store_inv_parts(1)[OF assms(1)] absent]
      by (auto simp: om.drops_absent omap_has_def)
  next
    case present
    then have "st_revision s \<noteq> int64_max"
      using assms(2) key by (auto simp: erase_def validate_key_def result_simps)
    then obtain M where "erase s key = Inr (commit_mutation s (omap_drop key (st_values s)) M (st_revision s + 1)
        [erase_event (st_revision s + 1) prev],
      \<lparr>dr_deleted = True, dr_previous = Some prev, dr_revision = st_revision s + 1\<rparr>)"
      "same_leases (st_leases s) M"
      "\<And>lid j. attached M lid j \<longleftrightarrow> attached (st_leases s) lid j \<and> j \<noteq> key"
      "store_inv (commit_mutation s (omap_drop key (st_values s)) M (st_revision s + 1)
          [erase_event (st_revision s + 1) prev])"
      using erase_success[OF assms(1) present] by metis
    then show ?thesis using assms(2) present by (auto simp: omap_has_def)
  qed
  then show "store_inv s'" "st_values s' = omap_drop key (st_values s)"
    "st_revision s' = (if omap_has (st_values s) key then st_revision s + 1 else st_revision s)"
    "res = \<lparr>dr_deleted = omap_has (st_values s) key, dr_previous = omap_find (st_values s) key,
            dr_revision = st_revision s'\<rparr>"
    "\<not> omap_has (st_values s) key \<longrightarrow> s' = s"
    "st_limits s' = st_limits s" "same_leases (st_leases s) (st_leases s')"
    "attached (st_leases s') lid j \<longleftrightarrow> attached (st_leases s) lid j \<and> j \<noteq> key"
    by simp_all
qed

lemma erase_Inl:
  assumes "store_inv s" "erase s key = Inl e"
  shows "e = Invalid_Argument ''key must not be empty'' \<and> key = []
    \<or> e = Overflow_Error ''store revision exhausted'' \<and> st_revision s = int64_max
      \<and> omap_has (st_values s) key"
proof (cases "key = []")
  case True
  then show ?thesis using assms(2) by (auto simp: erase_def validate_key_def)
next
  case False
  then obtain prev where prev: "omap_find (st_values s) key = Some prev"
    using assms(2) by (cases "omap_find (st_values s) key") (auto simp: erase_def validate_key_def)
  then have "st_revision s = int64_max"
    using erase_success[OF assms(1) prev] assms(2) by (metis Inl_Inr_False)
  then show ?thesis
    using assms(2) False prev
    by (auto simp: erase_def validate_key_def next_revision_locked_def omap_has_def)
qed

section \<open>What the operations promise\<close>

lemma put_Inr:
  assumes "store_inv s" "put s k v = Inr (s', res)"
  shows "omap_find (st_values s') = (omap_find (st_values s))(k \<mapsto> pr_current res)
    \<and> st_revision s' = st_revision s + 1 \<and> pr_revision res = st_revision s'
    \<and> pr_previous res = omap_find (st_values s) k
    \<and> kv_key (pr_current res) = k \<and> kv_value (pr_current res) = v
    \<and> kv_mod_revision (pr_current res) = st_revision s' \<and> kv_lease_id (pr_current res) = 0
    \<and> (case omap_find (st_values s) k of
         None \<Rightarrow> kv_version (pr_current res) = 1 \<and> kv_create_revision (pr_current res) = st_revision s'
       | Some p \<Rightarrow> kv_version (pr_current res) = kv_version p + 1
            \<and> kv_create_revision (pr_current res) = kv_create_revision p)
    \<and> (\<forall>lid. \<not> attached (st_leases s') lid k) \<and> store_inv s'"
proof -
  have key: "k \<noteq> []" and put: "put_locked s k v = Inr (s', res)"
    using assms(2) by (auto simp: put_def validate_key_def result_simps)
  note facts = put_locked_Inr[OF assms(1) key put]
  show ?thesis
    using facts
    by (auto simp: fun_eq_iff put_current_def next_key_value_def split: option.splits)
qed

text \<open>
  C29.  A successful put binds the key to the returned record and leaves every other key as it
  was; the store revision grows by one; the record carries the value, that revision as its
  modification revision, version 1 and that revision as its creation revision for a new key,
  the incremented version and the old creation revision for an existing one; and the key is
  attached to no lease afterwards.
\<close>

theorem put_effect:
  assumes "store_inv s" "put s k v = Inr (s', res)"
  shows "omap_find (st_values s') = (omap_find (st_values s))(k \<mapsto> pr_current res)
    \<and> st_revision s' = st_revision s + 1 \<and> pr_revision res = st_revision s'
    \<and> pr_previous res = omap_find (st_values s) k
    \<and> kv_key (pr_current res) = k \<and> kv_value (pr_current res) = v
    \<and> kv_mod_revision (pr_current res) = st_revision s' \<and> kv_lease_id (pr_current res) = 0
    \<and> (case omap_find (st_values s) k of
         None \<Rightarrow> kv_version (pr_current res) = 1 \<and> kv_create_revision (pr_current res) = st_revision s'
       | Some p \<Rightarrow> kv_version (pr_current res) = kv_version p + 1
            \<and> kv_create_revision (pr_current res) = kv_create_revision p)
    \<and> (\<forall>lid. \<not> attached (st_leases s') lid k) \<and> store_inv s'"
  using assms by (rule put_Inr)

lemma put_cases:
  assumes "store_inv s"
  shows "put s k v =
    (if k = [] then Inl (Invalid_Argument ''key must not be empty'')
     else if st_revision s = int64_max then Inl (Overflow_Error ''store revision exhausted'')
     else if version_exhausted (omap_find (st_values s) k)
     then Inl (Overflow_Error ''key version exhausted'')
     else put_locked s k v)
   \<and> (k \<noteq> [] \<longrightarrow> st_revision s \<noteq> int64_max \<longrightarrow> \<not> version_exhausted (omap_find (st_values s) k)
      \<longrightarrow> (\<exists>s' res. put_locked s k v = Inr (s', res)))"
proof -
  have "\<exists>s' res. put_locked s k v = Inr (s', res)"
    if "k \<noteq> []" "st_revision s \<noteq> int64_max" "\<not> version_exhausted (omap_find (st_values s) k)"
    using put_locked_success[OF assms that, of v] by metis
  then show ?thesis
    by (auto simp: put_def validate_key_def put_locked_def next_revision_locked_def Let_def)
qed

text \<open>
  A put is refused in exactly three situations, each with its own exception: an empty
  key, an exhausted store revision, or an exhausted key version.  The lease index never makes
  it fail.
\<close>

theorem put_errors:
  assumes "store_inv s"
  shows "put s k v =
    (if k = [] then Inl (Invalid_Argument ''key must not be empty'')
     else if st_revision s = int64_max then Inl (Overflow_Error ''store revision exhausted'')
     else if version_exhausted (omap_find (st_values s) k)
     then Inl (Overflow_Error ''key version exhausted'')
     else put_locked s k v)
   \<and> (k \<noteq> [] \<longrightarrow> st_revision s \<noteq> int64_max \<longrightarrow> \<not> version_exhausted (omap_find (st_values s) k)
      \<longrightarrow> (\<exists>s' res. put_locked s k v = Inr (s', res)))"
  using assms by (rule put_cases)

text \<open>
  C28.  A range read returns exactly the records whose key lies in the half-open range, in
  strictly increasing key order, at the current revision; it is refused exactly when a bound
  is empty or the range is empty.
\<close>

theorem store_range_exact:
  assumes "store_inv s"
  shows "((\<exists>res. store_range s a b = Inr res) \<longleftrightarrow> a \<noteq> [] \<and> b \<noteq> [] \<and> a < b)
    \<and> (\<forall>res. store_range s a b = Inr res \<longrightarrow>
      set (rr_values res) = {kv. a \<le> kv_key kv \<and> kv_key kv < b \<and> omap_find (st_values s) (kv_key kv) = Some kv}
      \<and> sorted_wrt (<) (map kv_key (rr_values res)) \<and> rr_revision res = st_revision s)"
proof (rule conjI)
  show "(\<exists>res. store_range s a b = Inr res) \<longleftrightarrow> a \<noteq> [] \<and> b \<noteq> [] \<and> a < b"
    by (auto simp: store_range_def validate_key_def throw_if_def)
  show "(\<forall>res. store_range s a b = Inr res \<longrightarrow>
      set (rr_values res) = {kv. a \<le> kv_key kv \<and> kv_key kv < b \<and> omap_find (st_values s) (kv_key kv) = Some kv}
      \<and> sorted_wrt (<) (map kv_key (rr_values res)) \<and> rr_revision res = st_revision s)"
  proof (intro allI impI)
    fix res
    assume r: "store_range s a b = Inr res"
    then have res: "rr_values res = map snd (omap_scan a b (st_values s))" "rr_revision res = st_revision s"
      by (auto simp: store_range_def result_simps split: if_splits)
    have key: "kv_key (snd p) = fst p" if "p \<in> set (omap_scan a b (st_values s))" for p
      using that assms store_inv_kv[OF assms, of "fst p" "snd p"] omap_scan_iff[of "fst p" "snd p"]
      by (auto simp: kv_ok_def)
    then have "map kv_key (rr_values res) = map fst (omap_scan a b (st_values s))"
      by (simp add: res comp_def)
    moreover have "kv \<in> set (rr_values res) \<longleftrightarrow>
        a \<le> kv_key kv \<and> kv_key kv < b \<and> omap_find (st_values s) (kv_key kv) = Some kv" for kv
    proof -
      have "kv \<in> set (rr_values res) \<longleftrightarrow> (\<exists>k. (k, kv) \<in> set (omap_scan a b (st_values s)))"
        by (force simp: res)
      also have "\<dots> \<longleftrightarrow> (kv_key kv, kv) \<in> set (omap_scan a b (st_values s))"
        using key by fastforce
      finally show ?thesis by (auto simp: omap_scan_iff)
    qed
    ultimately show "set (rr_values res) = {kv. a \<le> kv_key kv \<and> kv_key kv < b \<and> omap_find (st_values s) (kv_key kv) = Some kv}
        \<and> sorted_wrt (<) (map kv_key (rr_values res)) \<and> rr_revision res = st_revision s"
      by (auto simp: omap_scan_sorted res(2))
  qed
qed

lemma compare_and_set_Inr:
  assumes "store_inv s" "compare_and_set s k e v = Inr (s', res)"
  shows "k \<noteq> []" "0 \<le> e" "store_inv s'"
    "cas_succeeded res \<longleftrightarrow> (case omap_find (st_values s) k of None \<Rightarrow> e = 0 | Some kv \<Rightarrow> kv_mod_revision kv = e)"
    "cas_succeeded res \<Longrightarrow> \<exists>p. put s k v = Inr (s', p) \<and> cas_current res = Some (pr_current p)
        \<and> cas_revision res = pr_revision p"
    "\<not> cas_succeeded res \<Longrightarrow> s' = s \<and> cas_current res = omap_find (st_values s) k
        \<and> cas_revision res = st_revision s"
  using assms(2) put_locked_Inr(1)[OF assms(1)] assms(1)
  by (auto simp: compare_and_set_def put_def validate_key_def result_simps Let_def
      split: option.splits if_splits)

text \<open>
  C19.  Compare-and-set is a put guarded by the modification revision: it succeeds exactly when
  the key's modification revision is the expected one (0 for an absent key), then behaves as
  the put, and otherwise changes nothing and reports the current record.  Directly
  after a success a compare-and-set of the same key with the same expectation fails.
\<close>

theorem compare_and_set_once:
  assumes "store_inv s" "compare_and_set s k e v = Inr (s', res)"
  shows "(cas_succeeded res \<longleftrightarrow>
      (case omap_find (st_values s) k of None \<Rightarrow> e = 0 | Some kv \<Rightarrow> kv_mod_revision kv = e))
    \<and> (\<not> cas_succeeded res \<longrightarrow> s' = s \<and> cas_current res = omap_find (st_values s) k)
    \<and> (cas_succeeded res \<longrightarrow> (\<exists>p. put s k v = Inr (s', p) \<and> cas_current res = Some (pr_current p))
        \<and> (\<forall>w. \<exists>again. compare_and_set s' k e w = Inr (s', again) \<and> \<not> cas_succeeded again))"
proof -
  note facts = compare_and_set_Inr[OF assms]
  have "\<exists>again. compare_and_set s' k e w = Inr (s', again) \<and> \<not> cas_succeeded again"
    if ok: "cas_succeeded res" for w
  proof -
    obtain p where p: "put s k v = Inr (s', p)" using facts(5)[OF ok] by blast
    note eff = put_Inr[OF assms(1) p]
    have "e \<le> st_revision s"
      using ok facts(4) assms(1) store_inv_kv[OF assms(1), of k] store_inv_revision_nonneg[OF assms(1)]
      by (auto simp: kv_ok_def split: option.splits)
    then have "kv_mod_revision (pr_current p) \<noteq> e" using eff by auto
    moreover have "omap_find (st_values s') k = Some (pr_current p)" using eff by auto
    ultimately show ?thesis
      using facts(1,2) by (simp add: compare_and_set_def validate_key_def Let_def)
  qed
  then show ?thesis using facts(4-6) by auto
qed

section \<open>Refinement of the abstract key-value map\<close>

text \<open>
  The abstract store is a finite map with a revision.  Commands that the store refuses leave
  it unchanged.
\<close>

record kv_spec =
  spec_map :: "byte_sequence \<rightharpoonup> key_value"
  spec_revision :: int

datatype kv_command =
    Cmd_put byte_sequence byte_sequence
  | Cmd_erase byte_sequence
  | Cmd_cas byte_sequence int byte_sequence

definition spec_put :: "byte_sequence \<Rightarrow> byte_sequence \<Rightarrow> kv_spec \<Rightarrow> kv_spec" where
  "spec_put k v a =
     (if k = [] \<or> spec_revision a = int64_max \<or> version_exhausted (spec_map a k) then a
      else \<lparr>spec_map = (spec_map a)(k \<mapsto> next_key_value k v (spec_map a k) (spec_revision a + 1) 0),
            spec_revision = spec_revision a + 1\<rparr>)"

fun spec_step :: "kv_command \<Rightarrow> kv_spec \<Rightarrow> kv_spec" where
  "spec_step (Cmd_put k v) a = spec_put k v a"
| "spec_step (Cmd_erase k) a =
     (if spec_map a k = None \<or> spec_revision a = int64_max then a
      else \<lparr>spec_map = (spec_map a)(k := None), spec_revision = spec_revision a + 1\<rparr>)"
| "spec_step (Cmd_cas k e v) a =
     (if 0 \<le> e \<and> (case spec_map a k of None \<Rightarrow> e = 0 | Some kv \<Rightarrow> kv_mod_revision kv = e)
      then spec_put k v a else a)"

text \<open>One command on the store; an exception leaves the store as it was.\<close>

definition state_after :: "store \<Rightarrow> (store \<times> 'a) result \<Rightarrow> store" where
  "state_after s r = (case r of Inl e \<Rightarrow> s | Inr (s', _) \<Rightarrow> s')"

fun kv_step :: "kv_command \<Rightarrow> store \<Rightarrow> store" where
  "kv_step (Cmd_put k v) s = state_after s (put s k v)"
| "kv_step (Cmd_erase k) s = state_after s (erase s k)"
| "kv_step (Cmd_cas k e v) s = state_after s (compare_and_set s k e v)"

definition abs_kv :: "store \<Rightarrow> kv_spec" where
  "abs_kv s = \<lparr>spec_map = omap_find (st_values s), spec_revision = st_revision s\<rparr>"

lemma state_after_simps [simp]:
  "state_after s (Inl e) = s"
  "state_after s (Inr (s', x)) = s'"
  by (simp_all add: state_after_def)

lemma state_after_put:
  assumes "store_inv s"
  shows "store_inv (state_after s (put s k v)) \<and> abs_kv (state_after s (put s k v)) = spec_put k v (abs_kv s)"
proof (cases "put s k v")
  case (Inl e)
  then show ?thesis
    using assms put_cases[OF assms, of k v]
    by (auto simp: spec_put_def abs_kv_def split: if_splits)
next
  case (Inr p)
  obtain s' res where p: "p = (s', res)" by fastforce
  then have key: "k \<noteq> []" and put: "put_locked s k v = Inr (s', res)"
    using Inr by (auto simp: put_def validate_key_def result_simps)
  note facts = put_locked_Inr[OF assms key put]
  then show ?thesis
    using Inr p key by (auto simp: spec_put_def abs_kv_def fun_eq_iff put_current_def)
qed

lemma state_after_cas:
  assumes "store_inv s"
  shows "store_inv (state_after s (compare_and_set s k e v))
    \<and> abs_kv (state_after s (compare_and_set s k e v)) = spec_step (Cmd_cas k e v) (abs_kv s)"
proof -
  have "state_after s (compare_and_set s k e v) =
      (if 0 \<le> e \<and> (case omap_find (st_values s) k of None \<Rightarrow> e = 0 | Some kv \<Rightarrow> kv_mod_revision kv = e)
       then state_after s (put s k v) else s)"
    by (auto simp: compare_and_set_def put_def validate_key_def Let_def throw_if_def and_then_def
        state_after_def split: option.splits sum.splits)
  then show ?thesis using state_after_put[OF assms] assms by (auto simp: abs_kv_def)
qed

lemma kv_step_refines:
  assumes "store_inv s"
  shows "store_inv (kv_step c s) \<and> abs_kv (kv_step c s) = spec_step c (abs_kv s)"
proof (cases c)
  case (Cmd_put k v)
  then show ?thesis using state_after_put[OF assms] by simp
next
  case (Cmd_cas k e v)
  then show ?thesis using state_after_cas[OF assms] by simp
next
  case (Cmd_erase k)
  show ?thesis
  proof (cases "erase s k")
    case (Inl e)
    then show ?thesis
      using assms erase_Inl[OF assms Inl] store_inv_kv[OF assms, of "[]"] Cmd_erase
      by (cases "omap_find (st_values s) []") (auto simp: abs_kv_def kv_ok_def)
  next
    case (Inr p)
    obtain s' res where p: "p = (s', res)" by fastforce
    have rev: "omap_has (st_values s) k \<Longrightarrow> st_revision s \<noteq> int64_max"
      using Inr by (auto simp: erase_def result_simps omap_has_def split: option.splits)
    show ?thesis
      using erase_Inr[OF assms, of k s' res] Inr p Cmd_erase rev
      by (auto simp: abs_kv_def fun_eq_iff omap_has_def)
  qed
qed

text \<open>
  C16.  Any sequence of put, erase and compare-and-set commands drives the store exactly as the
  abstract revisioned map: the abstraction of the state after the sequence is the abstract
  run from the abstraction of the initial state, refusals included, and the store stays well
  formed.
\<close>

theorem kv_run_refines:
  assumes "store_inv s"
  shows "abs_kv (fold kv_step cs s) = fold spec_step cs (abs_kv s) \<and> store_inv (fold kv_step cs s)"
  using assms
proof (induction cs arbitrary: s)
  case Nil
  then show ?case by simp
next
  case (Cons c cs)
  then show ?case using kv_step_refines[OF Cons.prems, of c] by simp
qed

end
