(* ===== verification/Store_Transaction.thy ===== *)
theory Store_Transaction
  imports Store_Kv
begin

text \<open>
  If/Then/Else transactions (\<open>InMemoryMetadataStore::transaction\<close>): comparisons and lease
  ownership are evaluated against the state before the transaction, the selected branch is
  validated as a whole, executed on working copies and published in one revision.
\<close>

section \<open>Comparisons and ownership\<close>

definition compare_actual :: "compare_target \<Rightarrow> key_value option \<Rightarrow> int" where
  "compare_actual target value = (case value of None \<Rightarrow> 0 | Some v \<Rightarrow>
     (case target of
        Target_version \<Rightarrow> kv_version v
      | Target_create_revision \<Rightarrow> kv_create_revision v
      | Target_mod_revision \<Rightarrow> kv_mod_revision v
      | Target_lease_id \<Rightarrow> kv_lease_id v
      | Target_value \<Rightarrow> 0))"

text \<open>One iteration of the loop over \<open>request.comparisons\<close>; the accumulator is \<open>comparisons_succeeded\<close>.\<close>

definition check_comparison :: "value_map \<Rightarrow> compare \<Rightarrow> bool \<Rightarrow> bool result" where
  "check_comparison vs c succeeded =
     and_then (validate_key (cmp_key c)) (\<lambda>_.
     let value = omap_find vs (cmp_key c) in
     if cmp_target c = Target_value then
       (case cmp_expected c of
          Expected_int _ \<Rightarrow> Inl (Invalid_Argument ''value comparison requires a byte sequence'')
        | Expected_bytes expected \<Rightarrow>
            let actual = (case value of None \<Rightarrow> [] | Some v \<Rightarrow> kv_value v)
            in Inr (succeeded \<and> comparison_matches actual expected (cmp_result c)))
     else
       (case cmp_expected c of
          Expected_bytes _ \<Rightarrow> Inl (Invalid_Argument ''numeric comparison requires an int64 value'')
        | Expected_int expected \<Rightarrow>
            Inr (succeeded \<and>
              comparison_matches (compare_actual (cmp_target c) value) expected (cmp_result c))))"

text \<open>One iteration of the loop over \<open>request.lease_ownership\<close>.\<close>

definition ownership_matches :: "lease_map \<Rightarrow> lease_tick \<Rightarrow> lease_ownership \<Rightarrow> bool" where
  "ownership_matches leases tick o1 = (case omap_find leases (lo_id o1) of
      None \<Rightarrow> False
    | Some l \<Rightarrow> tick < sl_expiry_tick l \<and> sl_fencing_token l = lo_fencing_token o1)"

definition check_ownership ::
    "lease_map \<Rightarrow> lease_tick \<Rightarrow> lease_ownership \<Rightarrow> bool \<times> lease_ownership list
     \<Rightarrow> (bool \<times> lease_ownership list) result" where
  "check_ownership leases tick o1 = (\<lambda>(succeeded, verified).
     if lo_id o1 \<le> 0 \<or> lo_fencing_token o1 = 0
     then Inl (Invalid_Argument ''invalid lease ownership comparison'')
     else let matches = ownership_matches leases tick o1
       in Inr (succeeded \<and> matches, if matches then verified @ [o1] else verified))"

section \<open>Validation of the selected branch\<close>

record branch_check =
  bc_put_keys :: "byte_sequence list"
  bc_delete_ranges :: "key_range list"
  bc_effective :: bool

text \<open>
  \<open>lower_bound(start)\<close> exists and lies below \<open>end\<close>: the range currently holds a key.
\<close>

definition range_occupied :: "value_map \<Rightarrow> key_range \<Rightarrow> bool" where
  "range_occupied vs r = (case dropWhile (\<lambda>p. fst p < kr_start r) (omap_items vs) of
      [] \<Rightarrow> False | p # _ \<Rightarrow> fst p < kr_end r)"

fun check_operation ::
    "value_map \<Rightarrow> lease_ownership list \<Rightarrow> request_operation \<Rightarrow> branch_check \<Rightarrow> branch_check result" where
  "check_operation vs verified (Range_Operation q) bc =
     and_then (validate_range (rq_range q)) (\<lambda>_.
     and_then (throw_if (rq_revision q \<noteq> 0)
        (Invalid_Argument ''historical range reads are not implemented'')) (\<lambda>_. Inr bc))"
| "check_operation vs verified (Put_Operation q) bc =
     and_then (validate_key (pq_key q)) (\<lambda>_.
     and_then (throw_if (pq_lease_id q < 0) (Invalid_Argument ''lease ID must not be negative'')) (\<lambda>_.
     and_then (throw_if (pq_lease_id q \<noteq> 0 \<and> \<not> (\<exists>o1 \<in> set verified. lo_id o1 = pq_lease_id q))
        (Invalid_Argument ''leased put requires verified ownership'')) (\<lambda>_.
     and_then (throw_if (pq_key q \<in> set (bc_put_keys bc))
        (Invalid_Argument ''transaction writes one key more than once'')) (\<lambda>_.
     and_then (throw_if (\<exists>r \<in> set (bc_delete_ranges bc). contains_key r (pq_key q))
        (Invalid_Argument ''transaction put overlaps a delete'')) (\<lambda>_.
     and_then (throw_if (version_exhausted (omap_find vs (pq_key q)))
        (Overflow_Error ''key version exhausted'')) (\<lambda>_.
     Inr (bc\<lparr>bc_put_keys := bc_put_keys bc @ [pq_key q], bc_effective := True\<rparr>)))))))"
| "check_operation vs verified (Delete_Operation q) bc =
     and_then (validate_range (dq_range q)) (\<lambda>_.
     and_then (throw_if (\<exists>r \<in> set (bc_delete_ranges bc). ranges_overlap r (dq_range q))
        (Invalid_Argument ''transaction delete ranges overlap'')) (\<lambda>_.
     and_then (throw_if (\<exists>k \<in> set (bc_put_keys bc). contains_key (dq_range q) k)
        (Invalid_Argument ''transaction delete overlaps a put'')) (\<lambda>_.
     Inr (bc\<lparr>bc_effective := bc_effective bc \<or> range_occupied vs (dq_range q),
             bc_delete_ranges := bc_delete_ranges bc @ [dq_range q]\<rparr>))))"

section \<open>Execution of the selected branch\<close>

record tx_working =
  tw_values :: value_map
  tw_leases :: lease_map
  tw_responses :: "transaction_operation_result list"
  tw_events :: "watch_event list"

text \<open>One iteration of the loop that erases a range.\<close>

record delete_working =
  dw_values :: value_map
  dw_leases :: lease_map
  dw_previous :: "key_value list"
  dw_events :: "watch_event list"
  dw_deleted :: nat

definition delete_one :: "int \<Rightarrow> bool \<Rightarrow> byte_sequence \<times> key_value \<Rightarrow> delete_working \<Rightarrow> delete_working result" where
  "delete_one r return_previous entry w =
     and_then (detach_key (dw_leases w) (snd entry)) (\<lambda>leases.
     Inr \<lparr>dw_values = omap_drop (fst entry) (dw_values w), dw_leases = leases,
          dw_previous = (if return_previous then dw_previous w @ [snd entry] else dw_previous w),
          dw_events = dw_events w @ [erase_event r (snd entry)],
          dw_deleted = dw_deleted w + 1\<rparr>)"

fun execute_operation :: "int \<Rightarrow> request_operation \<Rightarrow> tx_working \<Rightarrow> tx_working result" where
  "execute_operation r (Range_Operation q) w =
     (let found = map snd (omap_scan (kr_start (rq_range q)) (kr_end (rq_range q)) (tw_values w));
          values = (if rq_limit q = 0 then found else take (rq_limit q) found)
      in Inr (w\<lparr>tw_responses := tw_responses w @
                  [Range_Result \<lparr>rr_values = values, rr_revision = r\<rparr>]\<rparr>))"
| "execute_operation r (Put_Operation q) w =
     (let previous = omap_find (tw_values w) (pq_key q) in
      and_then (detach_previous (tw_leases w) previous) (\<lambda>leases.
      let current = next_key_value (pq_key q) (pq_value q) previous r (pq_lease_id q) in
      and_then (if pq_lease_id q \<noteq> 0 then attach_key leases (pq_lease_id q) (pq_key q) else Inr leases)
        (\<lambda>leases'.
      Inr \<lparr>tw_values = omap_put (pq_key q) current (tw_values w), tw_leases = leases',
           tw_responses = tw_responses w @ [Put_Result \<lparr>pr_current = current,
             pr_previous = (if pq_return_previous q then previous else None), pr_revision = r\<rparr>],
           tw_events = tw_events w @ [put_event r current previous]\<rparr>)))"
| "execute_operation r (Delete_Operation q) w =
     and_then (fold_result (delete_one r (dq_return_previous q))
        (omap_scan (kr_start (dq_range q)) (kr_end (dq_range q)) (tw_values w))
        \<lparr>dw_values = tw_values w, dw_leases = tw_leases w, dw_previous = [],
         dw_events = tw_events w, dw_deleted = 0\<rparr>) (\<lambda>d.
     Inr \<lparr>tw_values = dw_values d, tw_leases = dw_leases d,
          tw_responses = tw_responses w @ [Delete_Result \<lparr>drr_deleted = dw_deleted d,
            drr_previous = dw_previous d, drr_revision = r\<rparr>],
          tw_events = dw_events d\<rparr>)"

text \<open>
  The whole transaction.  \<open>tx_select\<close> is its first half: the comparisons, the ownership checks
  and the branch they select.
\<close>

definition tx_select :: "store \<Rightarrow> transaction_request \<Rightarrow> (bool \<times> lease_ownership list) result" where
  "tx_select s request =
     and_then (fold_result (check_comparison (st_values s)) (tx_comparisons request) True) (\<lambda>compared.
     and_then (if tx_lease_ownership request \<noteq> [] then validate_tick_locked s (tx_lease_tick request)
               else Inr ()) (\<lambda>_.
     fold_result (check_ownership (st_leases s) (tx_lease_tick request))
       (tx_lease_ownership request) (compared, [])))"

definition tx_branch :: "transaction_request \<Rightarrow> bool \<Rightarrow> request_operation list" where
  "tx_branch request succeeded = (if succeeded then tx_success request else tx_failure request)"

definition transaction ::
    "store \<Rightarrow> transaction_request \<Rightarrow> (store \<times> transaction_result) result" where
  "transaction s request =
     and_then (tx_select s request) (\<lambda>(succeeded, verified).
     let operations = tx_branch request succeeded in
     and_then (fold_result (check_operation (st_values s) verified) operations
        \<lparr>bc_put_keys = [], bc_delete_ranges = [], bc_effective = False\<rparr>) (\<lambda>bc.
     and_then (if bc_effective bc then next_revision_locked s else Inr (st_revision s)) (\<lambda>r.
     and_then (fold_result (execute_operation r) operations
        \<lparr>tw_values = st_values s, tw_leases = st_leases s, tw_responses = [], tw_events = []\<rparr>) (\<lambda>w.
     let swapped = (if bc_effective bc
           then commit_mutation s (tw_values w) (tw_leases w) r (tw_events w)
           else s\<lparr>st_values := tw_values w, st_leases := tw_leases w, st_revision := r\<rparr>);
         ticked = (if tx_lease_ownership request \<noteq> []
           then swapped\<lparr>st_logical_tick := tx_lease_tick request\<rparr> else swapped)
     in Inr (ticked, \<lparr>txr_header = header_at r, txr_succeeded = succeeded,
                      txr_responses = tw_responses w\<rparr>)))))"

section \<open>Erasing a range\<close>

lemma delete_loop:
  assumes "distinct (map fst es)" "\<And>k kv. (k, kv) \<in> set es \<Longrightarrow> omap_find (dw_values d) k = Some kv"
    and "values_ok r (dw_values d)" "index_ok (dw_values d) (dw_leases d)"
    and "leases_ok (dw_leases d) n t limit"
  shows "\<exists>d'. fold_result (delete_one r ret) es d = Inr d'
    \<and> values_ok r (dw_values d') \<and> index_ok (dw_values d') (dw_leases d')
    \<and> same_leases (dw_leases d) (dw_leases d')
    \<and> (\<forall>k. omap_find (dw_values d') k = (if k \<in> fst ` set es then None else omap_find (dw_values d) k))
    \<and> dw_events d' = dw_events d @ map (erase_event r \<circ> snd) es
    \<and> dw_deleted d' = dw_deleted d + length es
    \<and> dw_previous d' = dw_previous d @ (if ret then map snd es else [])"
  using assms
proof (induction es arbitrary: d)
  case Nil
  then show ?case by simp
next
  case (Cons p es)
  obtain k kv where p: "p = (k, kv)" by fastforce
  have find: "omap_find (dw_values d) k = Some kv" using Cons.prems(2) p by simp
  then have "kv_key kv = k" using Cons.prems(3) by (auto simp: values_ok_def kv_ok_def)
  then obtain M where M: "detach_key (dw_leases d) kv = Inr M" "same_leases (dw_leases d) M"
    "\<And>lid j. attached M lid j \<longleftrightarrow> attached (dw_leases d) lid j \<and> j \<noteq> k"
    using detach_key_spec[OF Cons.prems(4,5) find] by blast
  define d1 where "d1 = \<lparr>dw_values = omap_drop k (dw_values d), dw_leases = M,
          dw_previous = (if ret then dw_previous d @ [kv] else dw_previous d),
          dw_events = dw_events d @ [erase_event r kv],
          dw_deleted = dw_deleted d + 1\<rparr>"
  have step: "delete_one r ret p d = Inr d1" by (simp add: delete_one_def p M(1) d1_def)
  have IH: "\<exists>d'. fold_result (delete_one r ret) es d1 = Inr d'
    \<and> values_ok r (dw_values d') \<and> index_ok (dw_values d') (dw_leases d')
    \<and> same_leases (dw_leases d1) (dw_leases d')
    \<and> (\<forall>k. omap_find (dw_values d') k = (if k \<in> fst ` set es then None else omap_find (dw_values d1) k))
    \<and> dw_events d' = dw_events d1 @ map (erase_event r \<circ> snd) es
    \<and> dw_deleted d' = dw_deleted d1 + length es
    \<and> dw_previous d' = dw_previous d1 @ (if ret then map snd es else [])"
  proof (rule Cons.IH)
    show "distinct (map fst es)" using Cons.prems(1) by simp
    show "omap_find (dw_values d1) j = Some jv" if "(j, jv) \<in> set es" for j jv
      using that Cons.prems(1,2) p by (force simp: d1_def)
    show "values_ok r (dw_values d1)" using Cons.prems(3) by (simp add: d1_def values_ok_drop)
    show "index_ok (dw_values d1) (dw_leases d1)"
      using index_ok_drop[OF Cons.prems(4) M(3)] by (simp add: d1_def)
    show "leases_ok (dw_leases d1) n t limit"
      using same_leases_ok[OF M(2) Cons.prems(5)] by (simp add: d1_def)
  qed
  then show ?case
    using step M(2) by (auto simp: p d1_def intro: same_leases_trans)
qed

section \<open>The execution loop\<close>

text \<open>
  The invariant between validation and execution: everything the branch has not claimed so
  far is as it was before the transaction.
\<close>

definition tx_inv :: "store \<Rightarrow> int \<Rightarrow> branch_check \<Rightarrow> tx_working \<Rightarrow> bool" where
  "tx_inv s r bc w \<longleftrightarrow> values_ok r (tw_values w) \<and> index_ok (tw_values w) (tw_leases w)
     \<and> same_leases (st_leases s) (tw_leases w) \<and> (\<forall>e \<in> set (tw_events w). event_ok r e)
     \<and> (\<forall>k. k \<notin> set (bc_put_keys bc) \<longrightarrow> (\<forall>d \<in> set (bc_delete_ranges bc). \<not> contains_key d k)
          \<longrightarrow> omap_find (tw_values w) k = omap_find (st_values s) k)"

text \<open>What one operation does to the key-value map.\<close>

fun abs_operation ::
    "int \<Rightarrow> request_operation \<Rightarrow> (byte_sequence \<rightharpoonup> key_value) \<Rightarrow> (byte_sequence \<rightharpoonup> key_value)" where
  "abs_operation r (Range_Operation q) m = m"
| "abs_operation r (Put_Operation q) m =
     m(pq_key q \<mapsto> next_key_value (pq_key q) (pq_value q) (m (pq_key q)) r (pq_lease_id q))"
| "abs_operation r (Delete_Operation q) m =
     (\<lambda>k. if contains_key (dq_range q) k then None else m k)"

lemma scan_fst: "k \<in> fst ` set (omap_scan lo hi m) \<longleftrightarrow> omap_find m k \<noteq> None \<and> lo \<le> k \<and> k < hi"
proof -
  have "k \<in> fst ` set (omap_scan lo hi m) \<longleftrightarrow> (\<exists>v. (k, v) \<in> set (omap_scan lo hi m))"
    by force
  then show ?thesis by (auto simp: omap_scan_iff)
qed

lemma scan_distinct: "distinct (map fst (omap_scan lo hi m))"
  by (rule sorted_wrt_less_distinct) (rule omap_scan_sorted)

lemma execute_delete:
  assumes "values_ok r (tw_values w)" "index_ok (tw_values w) (tw_leases w)"
    and "leases_ok (tw_leases w) n t limit"
  obtains w' where "execute_operation r (Delete_Operation q) w = Inr w'"
    "values_ok r (tw_values w')" "index_ok (tw_values w') (tw_leases w')"
    "same_leases (tw_leases w) (tw_leases w')"
    "omap_find (tw_values w') = abs_operation r (Delete_Operation q) (omap_find (tw_values w))"
    "tw_events w' = tw_events w @ map (erase_event r \<circ> snd)
       (omap_scan (kr_start (dq_range q)) (kr_end (dq_range q)) (tw_values w))"
proof -
  let ?es = "omap_scan (kr_start (dq_range q)) (kr_end (dq_range q)) (tw_values w)"
  let ?d = "\<lparr>dw_values = tw_values w, dw_leases = tw_leases w, dw_previous = [],
         dw_events = tw_events w, dw_deleted = 0\<rparr>"
  obtain d' where d': "fold_result (delete_one r (dq_return_previous q)) ?es ?d = Inr d'"
    "values_ok r (dw_values d')" "index_ok (dw_values d') (dw_leases d')"
    "same_leases (tw_leases w) (dw_leases d')"
    "\<forall>k. omap_find (dw_values d') k = (if k \<in> fst ` set ?es then None else omap_find (tw_values w) k)"
    "dw_events d' = tw_events w @ map (erase_event r \<circ> snd) ?es"
    using delete_loop[of ?es ?d r n t limit "dq_return_previous q", OF scan_distinct] assms
    by (auto simp: omap_scan_iff)
  let ?w' = "\<lparr>tw_values = dw_values d', tw_leases = dw_leases d',
          tw_responses = tw_responses w @ [Delete_Result \<lparr>drr_deleted = dw_deleted d',
            drr_previous = dw_previous d', drr_revision = r\<rparr>],
          tw_events = dw_events d'\<rparr>"
  have "omap_find (dw_values d') = abs_operation r (Delete_Operation q) (omap_find (tw_values w))"
    using d'(5) by (auto simp: fun_eq_iff scan_fst contains_key_def)
  then show ?thesis using that[of ?w'] d' by simp
qed

lemma execute_put:
  assumes vs: "values_ok r (tw_values w)" and idx: "index_ok (tw_values w) (tw_leases w)"
    and ls: "leases_ok (tw_leases w) n t limit"
    and lease: "pq_lease_id q \<noteq> 0 \<Longrightarrow> omap_has (tw_leases w) (pq_lease_id q)"
    and kv: "kv_ok r (pq_key q) (next_key_value (pq_key q) (pq_value q) (omap_find (tw_values w) (pq_key q)) r (pq_lease_id q))"
  obtains w' where "execute_operation r (Put_Operation q) w = Inr w'"
    "values_ok r (tw_values w')" "index_ok (tw_values w') (tw_leases w')"
    "same_leases (tw_leases w) (tw_leases w')"
    "omap_find (tw_values w') = abs_operation r (Put_Operation q) (omap_find (tw_values w))"
    "tw_events w' = tw_events w @ [put_event r (next_key_value (pq_key q) (pq_value q)
       (omap_find (tw_values w) (pq_key q)) r (pq_lease_id q)) (omap_find (tw_values w) (pq_key q))]"
proof -
  let ?k = "pq_key q" and ?lid = "pq_lease_id q"
  let ?prev = "omap_find (tw_values w) ?k"
  let ?cur = "next_key_value ?k (pq_value q) ?prev r ?lid"
  obtain M where M: "detach_previous (tw_leases w) ?prev = Inr M" "same_leases (tw_leases w) M"
    "\<And>lid j. attached M lid j \<longleftrightarrow> attached (tw_leases w) lid j \<and> j \<noteq> ?k"
    using detach_previous_spec[OF idx ls vs] by blast
  obtain N where N: "(if ?lid \<noteq> 0 then attach_key M ?lid ?k else Inr M) = Inr N" "same_leases M N"
    "\<And>i j. attached N i j \<longleftrightarrow> attached M i j \<or> (i = ?lid \<and> j = ?k \<and> i \<noteq> 0)"
  proof (cases "?lid = 0")
    case True
    then show ?thesis using that[of M] by auto
  next
    case False
    then obtain l where "omap_find (tw_leases w) ?lid = Some l"
      using lease by (auto simp: omap_has_def)
    then obtain m where "omap_find M ?lid = Some m" using same_leases_find'[OF M(2)] by blast
    moreover have "\<not> attached M ?lid ?k" using M(3) by simp
    ultimately obtain N where N: "attach_key M ?lid ?k = Inr N" "same_leases M N"
      "\<And>i j. attached N i j \<longleftrightarrow> attached M i j \<or> i = ?lid \<and> j = ?k"
      using attach_key_spec by blast
    show ?thesis by (rule that[of N]) (use N False in auto)
  qed
  let ?w' = "\<lparr>tw_values = omap_put ?k ?cur (tw_values w), tw_leases = N,
           tw_responses = tw_responses w @ [Put_Result \<lparr>pr_current = ?cur,
             pr_previous = (if pq_return_previous q then ?prev else None), pr_revision = r\<rparr>],
           tw_events = tw_events w @ [put_event r ?cur ?prev]\<rparr>"
  have "execute_operation r (Put_Operation q) w = Inr ?w'"
    using M(1) N(1) by (simp add: Let_def split: if_splits)
  moreover have "index_ok (omap_put ?k ?cur (tw_values w)) N"
    by (rule index_ok_put[OF idx]) (auto simp: N(3) M(3) next_key_value_def)
  moreover have "values_ok r (omap_put ?k ?cur (tw_values w))" using vs kv by (rule values_ok_put)
  moreover have "same_leases (tw_leases w) N" using M(2) N(2) by (rule same_leases_trans)
  ultimately show ?thesis using that[of ?w'] by (simp add: fun_eq_iff)
qed

lemma check_put:
  "check_operation vs verified (Put_Operation q) bc = Inr bc' \<longleftrightarrow>
     pq_key q \<noteq> [] \<and> 0 \<le> pq_lease_id q
   \<and> (pq_lease_id q \<noteq> 0 \<longrightarrow> (\<exists>o1 \<in> set verified. lo_id o1 = pq_lease_id q))
   \<and> pq_key q \<notin> set (bc_put_keys bc) \<and> (\<forall>r \<in> set (bc_delete_ranges bc). \<not> contains_key r (pq_key q))
   \<and> \<not> version_exhausted (omap_find vs (pq_key q))
   \<and> bc' = bc\<lparr>bc_put_keys := bc_put_keys bc @ [pq_key q], bc_effective := True\<rparr>"
  by (auto simp: validate_key_def result_simps)

lemma check_delete:
  "check_operation vs verified (Delete_Operation q) bc = Inr bc' \<longleftrightarrow>
     validate_range (dq_range q) = Inr () \<and> (\<forall>r \<in> set (bc_delete_ranges bc). \<not> ranges_overlap r (dq_range q))
   \<and> (\<forall>k \<in> set (bc_put_keys bc). \<not> contains_key (dq_range q) k)
   \<and> bc' = bc\<lparr>bc_effective := bc_effective bc \<or> range_occupied vs (dq_range q),
             bc_delete_ranges := bc_delete_ranges bc @ [dq_range q]\<rparr>"
  by (auto simp: result_simps)

lemma check_range:
  "check_operation vs verified (Range_Operation q) bc = Inr bc' \<longleftrightarrow>
     validate_range (rq_range q) = Inr () \<and> rq_revision q = 0 \<and> bc' = bc"
  by (auto simp: result_simps)

lemmas check_operation_iff = check_put check_delete check_range

declare check_operation.simps [simp del]

lemma execute_step:
  assumes inv: "store_inv s" and r: "r = st_revision s + 1"
    and w: "tx_inv s r bc w" and check: "check_operation (st_values s) verified op bc = Inr bc'"
    and verified: "\<forall>o1 \<in> set verified. omap_has (st_leases s) (lo_id o1)"
  shows "\<exists>w'. execute_operation r op w = Inr w' \<and> tx_inv s r bc' w'
    \<and> omap_find (tw_values w') = abs_operation r op (omap_find (tw_values w))"
proof -
  have parts: "values_ok r (tw_values w)" "index_ok (tw_values w) (tw_leases w)"
    "same_leases (st_leases s) (tw_leases w)" "\<forall>e \<in> set (tw_events w). event_ok r e"
    and frame: "\<And>k. k \<notin> set (bc_put_keys bc) \<Longrightarrow> \<forall>d \<in> set (bc_delete_ranges bc). \<not> contains_key d k
          \<Longrightarrow> omap_find (tw_values w) k = omap_find (st_values s) k"
    using w by (auto simp: tx_inv_def)
  note ls = same_leases_ok[OF parts(3) store_inv_parts(2)[OF inv]]
  show ?thesis
  proof (cases op)
    case (Range_Operation q)
    then show ?thesis using check w by (auto simp: check_operation_iff tx_inv_def Let_def)
  next
    case (Delete_Operation q)
    obtain w' where w': "execute_operation r (Delete_Operation q) w = Inr w'"
      "values_ok r (tw_values w')" "index_ok (tw_values w') (tw_leases w')"
      "same_leases (tw_leases w) (tw_leases w')"
      "omap_find (tw_values w') = abs_operation r (Delete_Operation q) (omap_find (tw_values w))"
      "tw_events w' = tw_events w @ map (erase_event r \<circ> snd)
         (omap_scan (kr_start (dq_range q)) (kr_end (dq_range q)) (tw_values w))"
      by (rule execute_delete[OF parts(1,2) ls])
    have "tx_inv s r bc' w'"
      unfolding tx_inv_def
      using w' parts check Delete_Operation frame
      by (auto simp: check_operation_iff intro: same_leases_trans)
    then show ?thesis using w' Delete_Operation by blast
  next
    case (Put_Operation q)
    note chk = check[unfolded Put_Operation check_put]
    have prev: "omap_find (tw_values w) (pq_key q) = omap_find (st_values s) (pq_key q)"
      using chk by (intro frame) auto
    have "kv_ok r (pq_key q) (next_key_value (pq_key q) (pq_value q) (omap_find (tw_values w) (pq_key q)) r (pq_lease_id q))"
      unfolding r prev using chk store_inv_revision_nonneg[OF inv]
      by (intro next_key_value_ok[OF store_inv_parts(3)[OF inv]]) auto
    moreover have "omap_has (tw_leases w) (pq_lease_id q)" if "pq_lease_id q \<noteq> 0"
    proof -
      have "omap_has (st_leases s) (pq_lease_id q)" using that chk verified by auto
      then show ?thesis using same_leases_find'[OF parts(3)] by (metis omap_has_def option.distinct(1) not_None_eq)
    qed
    ultimately obtain w' where w': "execute_operation r (Put_Operation q) w = Inr w'"
      "values_ok r (tw_values w')" "index_ok (tw_values w') (tw_leases w')"
      "same_leases (tw_leases w) (tw_leases w')"
      "omap_find (tw_values w') = abs_operation r (Put_Operation q) (omap_find (tw_values w))"
      "tw_events w' = tw_events w @ [put_event r (next_key_value (pq_key q) (pq_value q)
         (omap_find (tw_values w) (pq_key q)) r (pq_lease_id q)) (omap_find (tw_values w) (pq_key q))]"
      using execute_put[OF parts(1,2) ls] by metis
    have "tx_inv s r bc' w'"
      unfolding tx_inv_def
      using w' parts chk frame by (auto intro: same_leases_trans)
    then show ?thesis using w' Put_Operation by blast
  qed
qed

lemma execute_loop:
  assumes inv: "store_inv s" and r: "r = st_revision s + 1"
    and "tx_inv s r bc w" "fold_result (check_operation (st_values s) verified) ops bc = Inr bc'"
    and verified: "\<forall>o1 \<in> set verified. omap_has (st_leases s) (lo_id o1)"
  shows "\<exists>w'. fold_result (execute_operation r) ops w = Inr w' \<and> tx_inv s r bc' w'
    \<and> omap_find (tw_values w') = fold (abs_operation r) ops (omap_find (tw_values w))"
  using assms(3,4)
proof (induction ops arbitrary: bc w)
  case Nil
  then show ?case by simp
next
  case (Cons op ops)
  obtain bc1 where bc1: "check_operation (st_values s) verified op bc = Inr bc1"
    "fold_result (check_operation (st_values s) verified) ops bc1 = Inr bc'"
    using Cons.prems(2) by (auto simp: result_simps)
  obtain w1 where w1: "execute_operation r op w = Inr w1" "tx_inv s r bc1 w1"
    "omap_find (tw_values w1) = abs_operation r op (omap_find (tw_values w))"
    using execute_step[OF inv r Cons.prems(1) bc1(1) verified] by blast
  then show ?case using Cons.IH[OF w1(2) bc1(2)] by simp
qed

section \<open>Branches without effect\<close>

text \<open>An operation that changes the key-value map of the pre-state.\<close>

fun op_effective :: "value_map \<Rightarrow> request_operation \<Rightarrow> bool" where
  "op_effective vs (Range_Operation q) = False"
| "op_effective vs (Put_Operation q) = True"
| "op_effective vs (Delete_Operation q) = (omap_scan (kr_start (dq_range q)) (kr_end (dq_range q)) vs \<noteq> [])"

lemma range_occupied_scan: "range_occupied vs r \<longleftrightarrow> omap_scan (kr_start r) (kr_end r) vs \<noteq> []"
  by (cases "dropWhile (\<lambda>p. fst p < kr_start r) (omap_items vs)")
     (simp_all add: range_occupied_def omap_scan_def del: dropWhile_eq_Nil_conv)

lemma check_effective:
  "fold_result (check_operation vs verified) ops bc = Inr bc' \<Longrightarrow>
   bc_effective bc' \<longleftrightarrow> bc_effective bc \<or> (\<exists>op \<in> set ops. op_effective vs op)"
proof (induction ops arbitrary: bc)
  case Nil
  then show ?case by simp
next
  case (Cons op ops)
  obtain bc1 where bc1: "check_operation vs verified op bc = Inr bc1"
    "fold_result (check_operation vs verified) ops bc1 = Inr bc'"
    using Cons.prems by (auto simp: result_simps)
  have "bc_effective bc1 \<longleftrightarrow> bc_effective bc \<or> op_effective vs op"
    using bc1(1) by (cases op) (auto simp: check_operation_iff range_occupied_scan)
  then show ?case using Cons.IH[OF bc1(2)] by auto
qed

lemma execute_ineffective:
  assumes "\<forall>op \<in> set ops. \<not> op_effective (tw_values w) op"
  shows "\<exists>w'. fold_result (execute_operation r) ops w = Inr w' \<and> tw_values w' = tw_values w
    \<and> tw_leases w' = tw_leases w \<and> fold (abs_operation r) ops (omap_find (tw_values w)) = omap_find (tw_values w)"
  using assms
proof (induction ops arbitrary: w)
  case Nil
  then show ?case by simp
next
  case (Cons op ops)
  obtain w1 where w1: "execute_operation r op w = Inr w1" "tw_values w1 = tw_values w"
    "tw_leases w1 = tw_leases w"
    using Cons.prems by (cases op) (auto simp: Let_def)
  have "abs_operation r op (omap_find (tw_values w)) = omap_find (tw_values w)"
  proof (cases op)
    case (Delete_Operation q)
    then have "omap_find (tw_values w) k = None" if "contains_key (dq_range q) k" for k
      using Cons.prems scan_fst[of k "kr_start (dq_range q)" "kr_end (dq_range q)" "tw_values w"] that
      by (auto simp: contains_key_def)
    then show ?thesis using Delete_Operation by (simp add: fun_eq_iff)
  qed (use Cons.prems in auto)
  then show ?case using Cons.IH[of w1] Cons.prems w1 by simp
qed

section \<open>Selection of the branch\<close>

text \<open>The truth of one comparison and the values it compares, as the API describes them.\<close>

definition compare_holds :: "value_map \<Rightarrow> compare \<Rightarrow> bool" where
  "compare_holds vs c = (case cmp_expected c of
      Expected_bytes e \<Rightarrow> comparison_matches
        (case omap_find vs (cmp_key c) of None \<Rightarrow> [] | Some v \<Rightarrow> kv_value v) e (cmp_result c)
    | Expected_int e \<Rightarrow> comparison_matches
        (compare_actual (cmp_target c) (omap_find vs (cmp_key c))) e (cmp_result c))"

lemma comparisons_loop:
  "fold_result (check_comparison vs) cs b = Inr b' \<Longrightarrow> b' \<longleftrightarrow> b \<and> (\<forall>c \<in> set cs. compare_holds vs c)"
proof (induction cs arbitrary: b)
  case Nil
  then show ?case by simp
next
  case (Cons c cs)
  obtain b1 where b1: "check_comparison vs c b = Inr b1" "fold_result (check_comparison vs) cs b1 = Inr b'"
    using Cons.prems by (auto simp: result_simps)
  have "b1 \<longleftrightarrow> b \<and> compare_holds vs c"
    using b1(1)
    by (auto simp: check_comparison_def compare_holds_def result_simps Let_def
        split: if_splits compare_expected.splits)
  then show ?case using Cons.IH[OF b1(2)] by auto
qed

lemma check_ownership_pair:
  "check_ownership L tick o1 (b, ver) =
     (if lo_id o1 \<le> 0 \<or> lo_fencing_token o1 = 0
      then Inl (Invalid_Argument ''invalid lease ownership comparison'')
      else Inr (b \<and> ownership_matches L tick o1,
                if ownership_matches L tick o1 then ver @ [o1] else ver))"
  by (simp add: check_ownership_def Let_def)

lemma ownership_loop:
  "fold_result (check_ownership L tick) os (b, ver) = Inr (b', ver') \<Longrightarrow>
   (b' \<longleftrightarrow> b \<and> (\<forall>o1 \<in> set os. ownership_matches L tick o1)) \<and> ver' = ver @ filter (ownership_matches L tick) os"
proof (induction os arbitrary: b ver)
  case Nil
  then show ?case by simp
next
  case (Cons o1 os)
  let ?m = "ownership_matches L tick o1"
  have "fold_result (check_ownership L tick) os (b \<and> ?m, if ?m then ver @ [o1] else ver) = Inr (b', ver')"
    using Cons.prems check_ownership_pair[of L tick o1 b ver]
    by (auto simp: result_simps simp del: fold_result.simps(1) split: if_splits)
  then show ?case using Cons.IH by fastforce
qed

lemma tx_select_Inr:
  assumes "tx_select s request = Inr (succeeded, verified)"
  shows "succeeded \<longleftrightarrow> (\<forall>c \<in> set (tx_comparisons request). compare_holds (st_values s) c)
      \<and> (\<forall>o1 \<in> set (tx_lease_ownership request).
            ownership_matches (st_leases s) (tx_lease_tick request) o1)"
    and "verified = filter (ownership_matches (st_leases s) (tx_lease_tick request)) (tx_lease_ownership request)"
    and "\<forall>o1 \<in> set verified. omap_has (st_leases s) (lo_id o1)"
    and "tx_lease_ownership request \<noteq> [] \<longrightarrow> st_logical_tick s \<le> tx_lease_tick request"
proof -
  obtain b where b: "fold_result (check_comparison (st_values s)) (tx_comparisons request) True = Inr b"
    and o1: "fold_result (check_ownership (st_leases s) (tx_lease_tick request))
       (tx_lease_ownership request) (b, []) = Inr (succeeded, verified)"
    and tick: "tx_lease_ownership request \<noteq> [] \<longrightarrow> st_logical_tick s \<le> tx_lease_tick request"
    using assms by (auto simp: tx_select_def result_simps validate_tick_locked_def split: if_splits)
  show "succeeded \<longleftrightarrow> (\<forall>c \<in> set (tx_comparisons request). compare_holds (st_values s) c)
      \<and> (\<forall>o1 \<in> set (tx_lease_ownership request).
            ownership_matches (st_leases s) (tx_lease_tick request) o1)"
    and ver: "verified = filter (ownership_matches (st_leases s) (tx_lease_tick request)) (tx_lease_ownership request)"
    using comparisons_loop[OF b] ownership_loop[OF o1] by simp_all
  show "\<forall>o1 \<in> set verified. omap_has (st_leases s) (lo_id o1)"
    by (auto simp: ver ownership_matches_def omap_has_def split: option.splits)
  show "tx_lease_ownership request \<noteq> [] \<longrightarrow> st_logical_tick s \<le> tx_lease_tick request"
    by (rule tick)
qed

section \<open>What a transaction promises\<close>

lemma tx_inv_initial:
  assumes "store_inv s"
  shows "tx_inv s (st_revision s + 1) \<lparr>bc_put_keys = [], bc_delete_ranges = [], bc_effective = False\<rparr>
     \<lparr>tw_values = st_values s, tw_leases = st_leases s, tw_responses = [], tw_events = []\<rparr>"
  using assms store_inv_parts[OF assms] values_ok_mono[of "st_revision s" "st_values s"]
  by (simp add: tx_inv_def)

definition branch_writes :: "value_map \<Rightarrow> request_operation list \<Rightarrow> bool" where
  "branch_writes vs ops \<longleftrightarrow> (\<exists>op \<in> set ops. op_effective vs op)"

text \<open>Once the branch is validated and a revision is available, the transaction goes through.\<close>

lemma transaction_runs:
  assumes inv: "store_inv s"
    and sel: "tx_select s request = Inr (ok, verified)"
    and chk: "fold_result (check_operation (st_values s) verified) (tx_branch request ok)
        \<lparr>bc_put_keys = [], bc_delete_ranges = [], bc_effective = False\<rparr> = Inr bc"
    and rev: "branch_writes (st_values s) (tx_branch request ok) \<Longrightarrow> st_revision s \<noteq> int64_max"
  defines "r \<equiv> (if branch_writes (st_values s) (tx_branch request ok) then st_revision s + 1 else st_revision s)"
  shows "\<exists>s' res. transaction s request = Inr (s', res) \<and> store_inv s' \<and> st_revision s' = r
    \<and> txr_succeeded res = ok \<and> rh_revision (txr_header res) = r
    \<and> omap_find (st_values s') = fold (abs_operation r) (tx_branch request ok) (omap_find (st_values s))
    \<and> same_leases (st_leases s) (st_leases s')
    \<and> (\<not> branch_writes (st_values s) (tx_branch request ok) \<longrightarrow>
         s' = (if tx_lease_ownership request = [] then s else s\<lparr>st_logical_tick := tx_lease_tick request\<rparr>))
    \<and> st_logical_tick s' = (if tx_lease_ownership request = [] then st_logical_tick s else tx_lease_tick request)
    \<and> st_limits s' = st_limits s"
proof -
  let ?ops = "tx_branch request ok"
  let ?w = "\<lparr>tw_values = st_values s, tw_leases = st_leases s, tw_responses = [], tw_events = []\<rparr>"
  have eff: "bc_effective bc \<longleftrightarrow> branch_writes (st_values s) ?ops"
    using check_effective[OF chk] by (simp add: branch_writes_def)
  show ?thesis
  proof (cases "branch_writes (st_values s) ?ops")
    case True
    then have r: "r = st_revision s + 1" "next_revision_locked s = Inr r"
      using rev by (auto simp: r_def result_simps)
    obtain w where w: "fold_result (execute_operation r) ?ops ?w = Inr w" "tx_inv s r bc w"
      "omap_find (tw_values w) = fold (abs_operation r) ?ops (omap_find (st_values s))"
      using execute_loop[OF inv r(1) tx_inv_initial[OF inv, folded r(1)] chk tx_select_Inr(3)[OF sel]]
      by auto
    have "store_inv (commit_mutation s (tw_values w) (tw_leases w) r (tw_events w))"
      using w(2) same_leases_ok[OF _ store_inv_parts(2)[OF inv]] same_leases_tokens[OF _ store_inv_parts(4)[OF inv]]
      by (intro commit_mutation_inv[OF inv r(2)]) (auto simp: tx_inv_def)
    moreover have "same_leases (st_leases s) (tw_leases w)" using w(2) by (simp add: tx_inv_def)
    moreover define s1 where "s1 = commit_mutation s (tw_values w) (tw_leases w) r (tw_events w)"
    moreover have "transaction s request =
        Inr (if tx_lease_ownership request \<noteq> [] then s1\<lparr>st_logical_tick := tx_lease_tick request\<rparr> else s1,
          \<lparr>txr_header = header_at r, txr_succeeded = ok, txr_responses = tw_responses w\<rparr>)"
      unfolding transaction_def s1_def by (simp add: sel chk eff True r(2) w(1) Let_def)
    ultimately show ?thesis
      using True w(3) by (simp add: header_at_def)
  next
    case False
    then have r: "r = st_revision s" by (simp add: r_def)
    obtain w where w: "fold_result (execute_operation r) ?ops ?w = Inr w" "tw_values w = st_values s"
      "tw_leases w = st_leases s" "fold (abs_operation r) ?ops (omap_find (st_values s)) = omap_find (st_values s)"
      using execute_ineffective[of ?ops ?w r] False by (auto simp: branch_writes_def)
    have "transaction s request =
        Inr (if tx_lease_ownership request \<noteq> [] then s\<lparr>st_logical_tick := tx_lease_tick request\<rparr> else s,
          \<lparr>txr_header = header_at r, txr_succeeded = ok, txr_responses = tw_responses w\<rparr>)"
      unfolding transaction_def
      by (simp add: sel chk eff False w(2,3) w(1)[unfolded r] Let_def r)
    then show ?thesis
      using False w(4) inv by (simp add: header_at_def r)
  qed
qed

lemma transaction_Inr:
  assumes inv: "store_inv s" and tx: "transaction s request = Inr (s', res)"
  obtains verified bc where "tx_select s request = Inr (txr_succeeded res, verified)"
    "fold_result (check_operation (st_values s) verified) (tx_branch request (txr_succeeded res))
        \<lparr>bc_put_keys = [], bc_delete_ranges = [], bc_effective = False\<rparr> = Inr bc"
    "branch_writes (st_values s) (tx_branch request (txr_succeeded res)) \<Longrightarrow> st_revision s \<noteq> int64_max"
proof -
  obtain ok verified where sel: "tx_select s request = Inr (ok, verified)"
    using tx by (cases "tx_select s request") (auto simp: transaction_def)
  obtain bc where chk: "fold_result (check_operation (st_values s) verified) (tx_branch request ok)
        \<lparr>bc_put_keys = [], bc_delete_ranges = [], bc_effective = False\<rparr> = Inr bc"
    using tx unfolding transaction_def sel by (auto simp: Let_def and_then_eq_Inr)
  have rev: "st_revision s \<noteq> int64_max" if "branch_writes (st_values s) (tx_branch request ok)"
  proof -
    have "bc_effective bc" using that check_effective[OF chk] by (simp add: branch_writes_def)
    then obtain r where "next_revision_locked s = Inr r"
      using tx unfolding transaction_def sel by (auto simp: Let_def chk and_then_eq_Inr)
    then show ?thesis by (simp add: result_simps)
  qed
  have "txr_succeeded res = ok"
    using transaction_runs[OF inv sel chk rev] tx by auto
  then show ?thesis using that sel chk rev by blast
qed

text \<open>
  C5.  A transaction evaluates all comparisons and lease-ownership checks on the state before
  it, takes the success branch exactly when all of them hold, applies the operations of that
  branch in order to the key-value map, and advances the store revision by exactly one when
  the branch contains a put or a delete that hits a key, and not at all otherwise; a branch
  without such an operation leaves the whole store as it was, but for the logical tick.
\<close>

theorem transaction_effect:
  assumes "store_inv s" "transaction s request = Inr (s', res)"
  shows "(txr_succeeded res \<longleftrightarrow> (\<forall>c \<in> set (tx_comparisons request). compare_holds (st_values s) c)
      \<and> (\<forall>o1 \<in> set (tx_lease_ownership request).
            ownership_matches (st_leases s) (tx_lease_tick request) o1))
    \<and> omap_find (st_values s') = fold (abs_operation (st_revision s'))
        (tx_branch request (txr_succeeded res)) (omap_find (st_values s))
    \<and> st_revision s' = (if branch_writes (st_values s) (tx_branch request (txr_succeeded res))
        then st_revision s + 1 else st_revision s)
    \<and> rh_revision (txr_header res) = st_revision s'
    \<and> (\<not> branch_writes (st_values s) (tx_branch request (txr_succeeded res)) \<longrightarrow>
        s' = s\<lparr>st_logical_tick := st_logical_tick s'\<rparr>)
    \<and> store_inv s'"
proof -
  obtain verified bc where sel: "tx_select s request = Inr (txr_succeeded res, verified)"
    and chk: "fold_result (check_operation (st_values s) verified) (tx_branch request (txr_succeeded res))
        \<lparr>bc_put_keys = [], bc_delete_ranges = [], bc_effective = False\<rparr> = Inr bc"
    and rev: "branch_writes (st_values s) (tx_branch request (txr_succeeded res)) \<Longrightarrow> st_revision s \<noteq> int64_max"
    using transaction_Inr[OF assms] by metis
  let ?writes = "branch_writes (st_values s) (tx_branch request (txr_succeeded res))"
  have "store_inv s'" "st_revision s' = (if ?writes then st_revision s + 1 else st_revision s)"
    "rh_revision (txr_header res) = st_revision s'"
    "omap_find (st_values s') = fold (abs_operation (st_revision s'))
        (tx_branch request (txr_succeeded res)) (omap_find (st_values s))"
    and idle: "\<not> ?writes \<longrightarrow> s' = (if tx_lease_ownership request = [] then s
      else s\<lparr>st_logical_tick := tx_lease_tick request\<rparr>)"
    using transaction_runs[OF assms(1) sel chk rev] unfolding assms(2) by simp_all
  moreover have "\<not> ?writes \<longrightarrow> s' = s\<lparr>st_logical_tick := st_logical_tick s'\<rparr>"
    using idle by (cases "tx_lease_ownership request = []") simp_all
  ultimately show ?thesis using tx_select_Inr(1)[OF sel] by blast
qed

lemma check_comparison_Inl: "check_comparison vs c b = Inl e \<Longrightarrow> \<exists>m. e = Invalid_Argument m"
  by (auto simp: check_comparison_def validate_key_def Let_def result_simps
      split: if_splits compare_expected.splits)

lemma check_ownership_Inl: "check_ownership L t o1 p = Inl e \<Longrightarrow> \<exists>m. e = Invalid_Argument m"
  by (auto simp: check_ownership_def Let_def split: prod.splits if_splits)

lemma check_operation_Inl:
  "check_operation vs ver op bc = Inl e \<Longrightarrow> \<exists>m. e = Invalid_Argument m \<or> e = Overflow_Error m"
  by (cases op) (auto simp: check_operation.simps validate_key_def validate_range_def result_simps split: if_splits)

lemma tx_select_Inl: "tx_select s request = Inl e \<Longrightarrow> \<exists>m. e = Invalid_Argument m"
  unfolding tx_select_def and_then_eq_Inl
proof (elim disjE exE conjE)
  assume "fold_result (check_comparison (st_values s)) (tx_comparisons request) True = Inl e"
  then show ?thesis by (rule fold_result_throws[where P = "\<lambda>_. True"]) (auto dest: check_comparison_Inl)
next
  fix b u
  assume "fold_result (check_ownership (st_leases s) (tx_lease_tick request))
     (tx_lease_ownership request) (b, []) = Inl e"
  then show ?thesis by (rule fold_result_throws[where P = "\<lambda>_. True"]) (auto dest: check_ownership_Inl)
qed (auto simp: validate_tick_locked_def result_simps split: if_splits)

text \<open>
  C21.  A transaction on a well-formed store never reports an inconsistent attachment index:
  every refusal is an invalid argument or an exhausted counter, raised before any change.
\<close>

theorem transaction_refusals:
  assumes "store_inv s" "transaction s request = Inl e"
  shows "\<exists>m. e = Invalid_Argument m \<or> e = Overflow_Error m"
proof (cases "tx_select s request")
  case (Inl e')
  then show ?thesis using assms(2) tx_select_Inl[OF Inl] by (auto simp: transaction_def)
next
  case (Inr p)
  obtain ok verified where sel: "tx_select s request = Inr (ok, verified)" using Inr by (cases p) auto
  let ?check = "fold_result (check_operation (st_values s) verified) (tx_branch request ok)
        \<lparr>bc_put_keys = [], bc_delete_ranges = [], bc_effective = False\<rparr>"
  show ?thesis
  proof (cases ?check)
    case (Inl e')
    then have "\<exists>m. e' = Invalid_Argument m \<or> e' = Overflow_Error m"
      by (rule fold_result_throws[where P = "\<lambda>_. True"]) (auto dest: check_operation_Inl)
    then show ?thesis using assms(2) by (auto simp: transaction_def sel Let_def Inl)
  next
    case (Inr bc)
    show ?thesis
    proof (cases "bc_effective bc \<and> st_revision s = int64_max")
      case True
      then show ?thesis
        using assms(2) by (auto simp: transaction_def sel Let_def Inr next_revision_locked_def)
    next
      case False
      then have "branch_writes (st_values s) (tx_branch request ok) \<Longrightarrow> st_revision s \<noteq> int64_max"
        using check_effective[OF Inr] by (simp add: branch_writes_def)
      then have "\<exists>s' res. transaction s request = Inr (s', res)"
        using transaction_runs[OF assms(1) sel Inr] by metis
      then show ?thesis using assms(2) by auto
    qed
  qed
qed

section \<open>Operations of one branch are independent\<close>

fun op_writes :: "request_operation \<Rightarrow> byte_sequence \<Rightarrow> bool" where
  "op_writes (Range_Operation q) k = False"
| "op_writes (Put_Operation q) k = (k = pq_key q)"
| "op_writes (Delete_Operation q) k = contains_key (dq_range q) k"

definition op_disjoint :: "request_operation \<Rightarrow> request_operation \<Rightarrow> bool" where
  "op_disjoint a b \<longleftrightarrow> (\<forall>k. \<not> (op_writes a k \<and> op_writes b k))"

definition claimed :: "branch_check \<Rightarrow> byte_sequence \<Rightarrow> bool" where
  "claimed bc k \<longleftrightarrow> k \<in> set (bc_put_keys bc) \<or> (\<exists>d \<in> set (bc_delete_ranges bc). contains_key d k)"

lemma contains_overlap: "contains_key d k \<Longrightarrow> contains_key e k \<Longrightarrow> ranges_overlap d e"
  by (auto simp: contains_key_def ranges_overlap_def intro: le_less_trans)

lemma check_claims:
  assumes "check_operation vs verified op bc = Inr bc'"
  shows "op_writes op k \<Longrightarrow> \<not> claimed bc k" and "claimed bc' k \<longleftrightarrow> claimed bc k \<or> op_writes op k"
  using assms
  by (cases op; auto simp: check_operation_iff claimed_def dest: contains_overlap)+

lemma check_disjoint:
  assumes "fold_result (check_operation vs verified) ops bc = Inr bc'"
  shows "sorted_wrt op_disjoint ops \<and> (\<forall>op \<in> set ops. \<forall>k. op_writes op k \<longrightarrow> \<not> claimed bc k)"
  using assms
proof (induction ops arbitrary: bc)
  case Nil
  then show ?case by simp
next
  case (Cons op ops)
  obtain bc1 where bc1: "check_operation vs verified op bc = Inr bc1"
    "fold_result (check_operation vs verified) ops bc1 = Inr bc'"
    using Cons.prems by (auto simp: result_simps)
  show ?case
    using Cons.IH[OF bc1(2)] check_claims[OF bc1(1)] by (auto simp: op_disjoint_def)
qed

lemma abs_operation_frame: "\<not> op_writes op k \<Longrightarrow> abs_operation r op m k = m k"
  by (cases op) auto

lemma abs_fold_frame: "\<forall>op \<in> set ops. \<not> op_writes op k \<Longrightarrow> fold (abs_operation r) ops m k = m k"
  by (induction ops arbitrary: m) (auto simp: abs_operation_frame)

lemma abs_operation_local: "m k = m' k \<Longrightarrow> op_writes op k \<Longrightarrow> abs_operation r op m k = abs_operation r op m' k"
  by (cases op) auto

lemma abs_fold_writer:
  assumes "sorted_wrt op_disjoint ops" "op \<in> set ops" "op_writes op k"
  shows "fold (abs_operation r) ops m k = abs_operation r op m k"
proof -
  obtain pre post where ops: "ops = pre @ op # post" using assms(2) by (metis split_list)
  have "\<forall>x \<in> set pre \<union> set post. \<not> op_writes x k"
    using assms(1,3) by (auto simp: ops sorted_wrt_append op_disjoint_def)
  then have "fold (abs_operation r) ops m k = abs_operation r op (fold (abs_operation r) pre m) k"
    and "fold (abs_operation r) pre m k = m k"
    by (simp_all add: ops abs_fold_frame)
  then show ?thesis using abs_operation_local[OF _ assms(3)] by metis
qed

text \<open>
  C13.  The operations of a committed branch are independent of each other: every put of the
  branch leaves its key bound to its value with a version and creation revision taken from the
  state before the transaction, every key of a deleted range is gone, and every other key is
  unchanged.
\<close>

theorem transaction_writes_independent:
  assumes "store_inv s" "transaction s request = Inr (s', res)"
  shows "(\<forall>q. Put_Operation q \<in> set (tx_branch request (txr_succeeded res)) \<longrightarrow>
        omap_find (st_values s') (pq_key q) = Some (next_key_value (pq_key q) (pq_value q)
          (omap_find (st_values s) (pq_key q)) (st_revision s') (pq_lease_id q)))
    \<and> (\<forall>q k. Delete_Operation q \<in> set (tx_branch request (txr_succeeded res)) \<longrightarrow>
        contains_key (dq_range q) k \<longrightarrow> omap_find (st_values s') k = None)
    \<and> (\<forall>k. (\<forall>op \<in> set (tx_branch request (txr_succeeded res)). \<not> op_writes op k) \<longrightarrow>
        omap_find (st_values s') k = omap_find (st_values s) k)"
proof -
  let ?ops = "tx_branch request (txr_succeeded res)"
  obtain verified bc where sel: "tx_select s request = Inr (txr_succeeded res, verified)"
    and chk: "fold_result (check_operation (st_values s) verified) ?ops
        \<lparr>bc_put_keys = [], bc_delete_ranges = [], bc_effective = False\<rparr> = Inr bc"
    and rev: "branch_writes (st_values s) ?ops \<Longrightarrow> st_revision s \<noteq> int64_max"
    using transaction_Inr[OF assms] by metis
  have find: "omap_find (st_values s') = fold (abs_operation (st_revision s')) ?ops (omap_find (st_values s))"
    using transaction_runs[OF assms(1) sel chk rev] unfolding assms(2) by simp
  note writer = abs_fold_writer[OF conjunct1[OF check_disjoint[OF chk]]]
  show ?thesis
    unfolding find using writer[of "Put_Operation _"] writer[of "Delete_Operation _"]
    by (auto simp: abs_fold_frame)
qed

text \<open>
  C17.  A transaction that presents a lease and a fencing token takes its success branch only
  if that lease is live at the presented tick under exactly that token: a stale or replaced
  owner can never commit its success branch.
\<close>

theorem transaction_fencing:
  assumes "store_inv s" "transaction s request = Inr (s', res)"
    and "o1 \<in> set (tx_lease_ownership request)" "txr_succeeded res"
  shows "\<exists>l. omap_find (st_leases s) (lo_id o1) = Some l \<and> sl_fencing_token l = lo_fencing_token o1
    \<and> tx_lease_tick request < sl_expiry_tick l \<and> st_logical_tick s \<le> tx_lease_tick request"
proof -
  obtain verified bc where sel: "tx_select s request = Inr (txr_succeeded res, verified)"
    using transaction_Inr[OF assms(1,2)] by metis
  have "ownership_matches (st_leases s) (tx_lease_tick request) o1"
    using tx_select_Inr(1)[OF sel] assms(3,4) by auto
  moreover have "st_logical_tick s \<le> tx_lease_tick request"
    using tx_select_Inr(4)[OF sel] assms(3) by auto
  ultimately show ?thesis by (auto simp: ownership_matches_def split: option.splits)
qed

section \<open>Compare-and-set as a transaction\<close>

definition cas_request :: "byte_sequence \<Rightarrow> int \<Rightarrow> byte_sequence \<Rightarrow> transaction_request" where
  "cas_request k e v =
     \<lparr>tx_request_id = \<lparr>rid_client = 0, rid_sequence = 0\<rparr>,
      tx_comparisons = [\<lparr>cmp_key = k, cmp_target = Target_mod_revision, cmp_result = Cmp_equal,
        cmp_expected = Expected_int e\<rparr>],
      tx_lease_ownership = [], tx_lease_tick = 0,
      tx_success = [Put_Operation \<lparr>pq_request_id = \<lparr>rid_client = 0, rid_sequence = 0\<rparr>, pq_key = k,
        pq_value = v, pq_lease_id = 0, pq_return_previous = False\<rparr>],
      tx_failure = []\<rparr>"

text \<open>
  C18.  Compare-and-set is the transaction that compares the modification revision for equality
  and puts on success: for a non-negative expectation, whenever the call returns, both lead to
  the same store and report the same success.
\<close>

theorem compare_and_set_is_transaction:
  assumes "store_inv s" "0 \<le> e" "compare_and_set s k e v = Inr (s', res)"
  shows "\<exists>res'. transaction s (cas_request k e v) = Inr (s', res') \<and> txr_succeeded res' = cas_succeeded res
    \<and> rh_revision (txr_header res') = cas_revision res"
proof -
  note facts = compare_and_set_Inr[OF assms(1,3)]
  let ?ok = "cas_succeeded res"
  have holds: "compare_holds (st_values s) \<lparr>cmp_key = k, cmp_target = Target_mod_revision,
      cmp_result = Cmp_equal, cmp_expected = Expected_int e\<rparr> = ?ok"
    using facts(4) by (auto simp: compare_holds_def compare_actual_def split: option.splits)
  have sel: "tx_select s (cas_request k e v) = Inr (?ok, [])"
    using facts(1) holds
    by (simp add: tx_select_def cas_request_def check_comparison_def compare_holds_def validate_key_def Let_def)
  show ?thesis
  proof (cases ?ok)
    case False
    then show ?thesis
      using facts(6)[OF False] sel
      by (simp add: transaction_def tx_branch_def cas_request_def Let_def header_at_def)
  next
    case True
    then obtain p where put: "put_locked s k v = Inr (s', p)" and cas: "cas_revision res = pr_revision p"
      using facts(5)[OF True] facts(1) by (auto simp: put_def validate_key_def)
    note pf = put_locked_Inr[OF assms(1) facts(1) put]
    obtain M where M: "detach_previous (st_leases s) (omap_find (st_values s) k) = Inr M"
      "s' = commit_mutation s (omap_put k (put_current s k v) (st_values s)) M (st_revision s + 1)
         [put_event (st_revision s + 1) (put_current s k v) (omap_find (st_values s) k)]"
      using put pf(4,5)
      by (auto simp: put_locked_def Let_def next_revision_locked_def and_then_eq_Inr put_current_def)
    show ?thesis
      using sel True M pf facts(1) cas
      by (simp add: transaction_def tx_branch_def cas_request_def Let_def header_at_def
          check_operation.simps validate_key_def next_revision_locked_def put_current_def)
  qed
qed

end
