(* ===== verification/Store_Lease.thy ===== *)
theory Store_Lease
  imports Store_Kv "HOL-Library.Multiset"
begin

text \<open>
  Leases of the store: \<open>grant_lease\<close>, \<open>keep_alive\<close>, \<open>time_to_live\<close>, \<open>revoke_lease\<close> and
  \<open>expire_leases\<close> of \<^verbatim>\<open>src/src/in_memory_metadata_store.cpp\<close>.  The lemmas show that the
  clean-up of any set of live leases removes exactly the keys attached to them in one revision
  and never reaches the \<open>std::logic_error\<close> branches, that fencing tokens are never reused, and
  what each lease operation does on every branch.
\<close>

section \<open>Operations\<close>

definition lookup_lease_locked :: "store \<Rightarrow> lease_id \<Rightarrow> lease_tick \<Rightarrow> lease_lookup_result" where
  "lookup_lease_locked s lid tick =
     (case omap_find (st_leases s) lid of
        None \<Rightarrow> \<lparr>llr_code = Lease_not_found, llr_lease = None, llr_remaining_ttl = 0,
                 llr_revision = st_revision s\<rparr>
      | Some l \<Rightarrow>
          if tick \<ge> sl_expiry_tick l
          then \<lparr>llr_code = Lease_expired, llr_lease = Some (lease_record_locked lid l),
                llr_remaining_ttl = 0, llr_revision = st_revision s\<rparr>
          else \<lparr>llr_code = Lease_ok, llr_lease = Some (lease_record_locked lid l),
                llr_remaining_ttl = sl_expiry_tick l - tick, llr_revision = st_revision s\<rparr>)"

definition select_lease_id :: "store \<Rightarrow> lease_id \<Rightarrow> lease_id result" where
  "select_lease_id s requested =
     (if requested = 0
      then if st_next_lease_id s > maximum_lease_id
           then Inl (Overflow_Error ''lease ID exhausted'')
           else Inr (st_next_lease_id s)
      else if requested < 0 \<or> requested > maximum_lease_id
      then Inl (Invalid_Argument ''requested lease ID is outside safe range'')
      else Inr requested)"

definition grant_lease :: "store \<Rightarrow> lease_grant_request \<Rightarrow> (store \<times> lease_grant_result) result" where
  "grant_lease s request =
     and_then (validate_tick_locked s (lg_tick request)) (\<lambda>_.
     and_then (throw_if (lg_ttl request = 0) (Invalid_Argument ''lease TTL must be positive'')) (\<lambda>_.
     and_then (throw_if (lg_tick request > uint64_max - lg_ttl request)
        (Overflow_Error ''lease expiry tick exhausted'')) (\<lambda>_.
     and_then (throw_if (st_next_fencing_token s = uint64_max)
        (Overflow_Error ''fencing token exhausted'')) (\<lambda>_.
     and_then (throw_if (omap_size (st_leases s) \<ge> max_active_leases (st_limits s))
        (Store_Error Status_quota_exceeded ''active lease limit reached'' 0)) (\<lambda>_.
     and_then (select_lease_id s (lg_requested_id request)) (\<lambda>lid.
     and_then (throw_if (omap_has (st_leases s) lid)
        (Invalid_Argument ''requested lease ID is already live'')) (\<lambda>_.
     let stored = \<lparr>sl_fencing_token = st_next_fencing_token s, sl_granted_ttl = lg_ttl request,
                   sl_expiry_tick = lg_tick request + lg_ttl request,
                   sl_attached_keys = oset_empty\<rparr>
     in Inr (s\<lparr>st_leases := omap_put lid stored (st_leases s),
               st_next_lease_id := (if lid \<ge> st_next_lease_id s then lid + 1 else st_next_lease_id s),
               st_next_fencing_token := st_next_fencing_token s + 1,
               st_logical_tick := lg_tick request\<rparr>,
             \<lparr>lgr_lease = lease_record_locked lid stored, lgr_revision = st_revision s\<rparr>))))))))"

definition keep_alive ::
    "store \<Rightarrow> lease_keep_alive_request \<Rightarrow> (store \<times> lease_lookup_result) result" where
  "keep_alive s request =
     and_then (validate_tick_locked s (lk_tick request)) (\<lambda>_.
     and_then (throw_if (lk_id request \<le> 0 \<or> lk_fencing_token request = 0)
        (Invalid_Argument ''invalid keepalive ownership'')) (\<lambda>_.
     let result = lookup_lease_locked s (lk_id request) (lk_tick request);
         ticked = s\<lparr>st_logical_tick := lk_tick request\<rparr>
     in case (llr_code result, omap_find (st_leases s) (lk_id request)) of
          (Lease_ok, Some lease) \<Rightarrow>
            if sl_fencing_token lease \<noteq> lk_fencing_token request
            then Inr (ticked, result\<lparr>llr_code := Lease_fencing_token_mismatch\<rparr>)
            else and_then (throw_if (lk_tick request > uint64_max - sl_granted_ttl lease)
                (Overflow_Error ''lease expiry tick exhausted'')) (\<lambda>_.
              let renewed = lease\<lparr>sl_expiry_tick := lk_tick request + sl_granted_ttl lease\<rparr>
              in Inr (ticked\<lparr>st_leases := omap_put (lk_id request) renewed (st_leases s)\<rparr>,
                   result\<lparr>llr_lease := map_option
                       (\<lambda>r. r\<lparr>lr_expiry_tick := sl_expiry_tick renewed\<rparr>) (llr_lease result),
                     llr_remaining_ttl := sl_granted_ttl lease\<rparr>))
        | _ \<Rightarrow> Inr (ticked, result)))"

definition time_to_live :: "store \<Rightarrow> lease_time_to_live_request \<Rightarrow> lease_lookup_result result" where
  "time_to_live s request =
     and_then (validate_tick_locked s (lt_tick request)) (\<lambda>_.
     and_then (throw_if (lt_id request \<le> 0) (Invalid_Argument ''invalid lease ID'')) (\<lambda>_.
     Inr (lookup_lease_locked s (lt_id request) (lt_tick request))))"

text \<open>The two nested loops that gather the values attached to the leases being removed.\<close>

definition collect_key ::
    "value_map \<Rightarrow> lease_id \<Rightarrow> byte_sequence \<Rightarrow> key_value list \<Rightarrow> key_value list result" where
  "collect_key vs lid key deleted =
     (case omap_find vs key of
        None \<Rightarrow> Inl (Logic_Error ''lease attachment index is inconsistent'')
      | Some v \<Rightarrow> if kv_lease_id v \<noteq> lid
                 then Inl (Logic_Error ''lease attachment index is inconsistent'')
                 else Inr (deleted @ [v]))"

definition collect_lease :: "store \<Rightarrow> lease_id \<Rightarrow> key_value list \<Rightarrow> key_value list result" where
  "collect_lease s lid deleted =
     (case omap_find (st_leases s) lid of
        None \<Rightarrow> Inl (Logic_Error ''lease cleanup references missing lease'')
      | Some l \<Rightarrow> fold_result (collect_key (st_values s) lid) (oset_elems (sl_attached_keys l)) deleted)"

definition remove_leases_locked ::
    "store \<Rightarrow> lease_id list \<Rightarrow> lease_result_code \<Rightarrow> (store \<times> lease_cleanup_result) result" where
  "remove_leases_locked s ids code =
     and_then (fold_result (collect_lease s) ids []) (\<lambda>collected.
     let deleted = sort_key kv_key collected in
     and_then (if ids = [] then Inr (st_revision s) else next_revision_locked s) (\<lambda>cleanup_revision.
     let working_values = fold (\<lambda>v. omap_drop (kv_key v)) deleted (st_values s);
         working_leases = fold omap_drop ids (st_leases s);
         s' = (if ids = []
               then s\<lparr>st_values := working_values, st_leases := working_leases,
                      st_revision := cleanup_revision\<rparr>
               else commit_mutation s working_values working_leases cleanup_revision
                      (map (erase_event cleanup_revision) deleted))
     in Inr (s', \<lparr>lcr_code = code, lcr_leases = ids, lcr_deleted_keys = deleted,
                  lcr_revision = cleanup_revision\<rparr>)))"

definition revoke_lease ::
    "store \<Rightarrow> lease_revoke_request \<Rightarrow> (store \<times> lease_cleanup_result) result" where
  "revoke_lease s request =
     and_then (validate_tick_locked s (lv_tick request)) (\<lambda>_.
     and_then (throw_if (lv_id request \<le> 0 \<or> lv_fencing_token request = 0)
        (Invalid_Argument ''invalid revoke ownership'')) (\<lambda>_.
     let refused = (\<lambda>code. Inr (s\<lparr>st_logical_tick := lv_tick request\<rparr>,
           \<lparr>lcr_code = code, lcr_leases = [], lcr_deleted_keys = [], lcr_revision = st_revision s\<rparr>))
     in case omap_find (st_leases s) (lv_id request) of
          None \<Rightarrow> refused Lease_not_found
        | Some lease \<Rightarrow>
            if sl_fencing_token lease \<noteq> lv_fencing_token request
            then refused Lease_fencing_token_mismatch
            else and_then (remove_leases_locked s [lv_id request] Lease_ok) (\<lambda>(s', result).
              Inr (s'\<lparr>st_logical_tick := lv_tick request\<rparr>, result))))"

definition expired_leases :: "store \<Rightarrow> lease_tick \<Rightarrow> lease_id list" where
  "expired_leases s tick = map fst (filter (\<lambda>(lid, l). sl_expiry_tick l \<le> tick) (omap_items (st_leases s)))"

definition expire_leases :: "store \<Rightarrow> lease_tick \<Rightarrow> (store \<times> lease_cleanup_result) result" where
  "expire_leases s tick =
     and_then (validate_tick_locked s tick) (\<lambda>_.
     and_then (remove_leases_locked s (expired_leases s tick) Lease_ok) (\<lambda>(s', result).
     Inr (s'\<lparr>st_logical_tick := tick\<rparr>, result)))"

section \<open>Removing a set of leases\<close>

text \<open>Dropping a list of keys from an ordered map.\<close>

lemma omap_find_fold_drop:
  "omap_find (fold (\<lambda>x. omap_drop (f x)) xs m) k = (if k \<in> f ` set xs then None else omap_find m k)"
  by (induction xs arbitrary: m) auto

lemma omap_find_fold_drop_id:
  "omap_find (fold omap_drop xs m) k = (if k \<in> set xs then None else omap_find m k)"
  using omap_find_fold_drop[of "\<lambda>x. x" xs m k] by simp

lemma omap_size_fold_drop: "omap_size (fold omap_drop xs m) \<le> omap_size m"
proof (induction xs arbitrary: m)
  case (Cons x xs)
  have "omap_size (fold omap_drop xs (omap_drop x m)) \<le> omap_size (omap_drop x m)" by (rule Cons.IH)
  then show ?case by (simp split: if_splits)
qed simp

definition attached_values :: "store \<Rightarrow> lease_id \<Rightarrow> key_value list" where
  "attached_values s lid = (case omap_find (st_leases s) lid of None \<Rightarrow> []
     | Some l \<Rightarrow> map (\<lambda>k. the (omap_find (st_values s) k)) (oset_elems (sl_attached_keys l)))"

lemma attached_value:
  assumes "store_inv s" "omap_find (st_leases s) lid = Some l" "k \<in> set (oset_elems (sl_attached_keys l))"
  obtains v where "omap_find (st_values s) k = Some v" "kv_lease_id v = lid" "kv_key v = k"
proof -
  have "attached (st_leases s) lid k" using assms(2,3) by (auto simp: attached_def oset_member_elems)
  then obtain v where "omap_find (st_values s) k = Some v" "kv_lease_id v = lid"
    using store_inv_parts(1)[OF assms(1)] unfolding index_ok_def by blast
  then show ?thesis using that store_inv_kv[OF assms(1)] by (auto simp: kv_ok_def)
qed

lemma collect_lease_spec:
  assumes "store_inv s" "omap_has (st_leases s) lid"
  shows "collect_lease s lid acc = Inr (acc @ attached_values s lid)"
proof -
  obtain l where l: "omap_find (st_leases s) lid = Some l" using assms(2) by (auto simp: omap_has_def)
  have "fold_result (collect_key (st_values s) lid) ks acc
      = Inr (acc @ map (\<lambda>k. the (omap_find (st_values s) k)) ks)"
    if "set ks \<subseteq> set (oset_elems (sl_attached_keys l))" for ks
    using that
  proof (induction ks arbitrary: acc)
    case (Cons k ks)
    then obtain v where "omap_find (st_values s) k = Some v" "kv_lease_id v = lid"
      using attached_value[OF assms(1) l] by (metis list.set_intros(1) subsetD)
    then show ?case using Cons by (simp add: collect_key_def)
  qed simp
  then show ?thesis using l by (simp add: collect_lease_def attached_values_def)
qed

lemma collect_leases_spec:
  assumes "store_inv s" "\<forall>lid \<in> set ids. omap_has (st_leases s) lid"
  shows "fold_result (collect_lease s) ids acc = Inr (acc @ concat (map (attached_values s) ids))"
  using assms(2) by (induction ids arbitrary: acc) (simp_all add: collect_lease_spec[OF assms(1)])

lemma set_attached_values:
  assumes "store_inv s" "omap_has (st_leases s) lid"
  shows "v \<in> set (attached_values s lid)
    \<longleftrightarrow> omap_find (st_values s) (kv_key v) = Some v \<and> kv_lease_id v = lid"
proof -
  obtain l where l: "omap_find (st_leases s) lid = Some l" using assms(2) by (auto simp: omap_has_def)
  have "lid \<noteq> 0" using leases_ok_pos[OF store_inv_parts(2)[OF assms(1)] l] .
  show ?thesis
  proof
    assume "v \<in> set (attached_values s lid)"
    then obtain k where "k \<in> set (oset_elems (sl_attached_keys l))" "v = the (omap_find (st_values s) k)"
      using l by (auto simp: attached_values_def)
    then show "omap_find (st_values s) (kv_key v) = Some v \<and> kv_lease_id v = lid"
      using attached_value[OF assms(1) l] by (metis option.sel)
  next
    assume v: "omap_find (st_values s) (kv_key v) = Some v \<and> kv_lease_id v = lid"
    then have "attached (st_leases s) lid (kv_key v)"
      using store_inv_parts(1)[OF assms(1)] \<open>lid \<noteq> 0\<close> unfolding index_ok_def by blast
    then have "kv_key v \<in> set (oset_elems (sl_attached_keys l))"
      using l by (auto simp: attached_def oset_member_elems)
    then show "v \<in> set (attached_values s lid)" using l v by (force simp: attached_values_def)
  qed
qed

lemma distinct_attached_values:
  assumes "store_inv s"
  shows "distinct (attached_values s lid)"
proof (cases "omap_find (st_leases s) lid")
  case None
  then show ?thesis by (simp add: attached_values_def)
next
  case (Some l)
  have "inj_on (\<lambda>k. the (omap_find (st_values s) k)) (set (oset_elems (sl_attached_keys l)))"
    by (intro inj_onI) (metis attached_value[OF assms Some] option.sel)
  then show ?thesis
    using sorted_wrt_less_distinct[OF oset_elems_sorted] Some by (simp add: attached_values_def distinct_map)
qed

lemma distinct_collected:
  assumes "store_inv s" "distinct ids" "\<forall>lid \<in> set ids. omap_has (st_leases s) lid"
  shows "distinct (concat (map (attached_values s) ids))"
  using assms(2,3)
  by (induction ids) (auto simp: distinct_attached_values[OF assms(1)] set_attached_values[OF assms(1)])

text \<open>The values a clean-up deletes: those of the store, in key order, that carry one of the leases.\<close>

definition leased_values :: "store \<Rightarrow> lease_id set \<Rightarrow> key_value list" where
  "leased_values s ids = filter (\<lambda>v. kv_lease_id v \<in> ids) (omap_values (st_values s))"

lemma store_values_keys:
  assumes "store_inv s"
  shows "map kv_key (omap_values (st_values s)) = omap_keys (st_values s)"
    and "v \<in> set (omap_values (st_values s)) \<longleftrightarrow> omap_find (st_values s) (kv_key v) = Some v"
proof -
  have "kv_key v = k" if "(k, v) \<in> set (omap_items (st_values s))" for k v
    using that store_inv_kv[OF assms] by (auto simp: om.finds_iff[symmetric] kv_ok_def)
  then show "map kv_key (omap_values (st_values s)) = omap_keys (st_values s)"
    by (auto simp: omap_values_def omap_keys_def)
  show "v \<in> set (omap_values (st_values s)) \<longleftrightarrow> omap_find (st_values s) (kv_key v) = Some v"
    using store_inv_kv[OF assms] unfolding omap_in_values kv_ok_def by metis
qed

lemma sort_collected:
  assumes "store_inv s" "distinct ids" "\<forall>lid \<in> set ids. omap_has (st_leases s) lid"
  shows "sort_key kv_key (concat (map (attached_values s) ids)) = leased_values s (set ids)"
proof (rule sort_key_inj_key_eq)
  let ?c = "concat (map (attached_values s) ids)"
  have sets: "set ?c = set (leased_values s (set ids))"
    using set_attached_values[OF assms(1)] assms(3)
    by (auto simp: leased_values_def store_values_keys(2)[OF assms(1)])
  have sorted: "sorted_wrt (<) (map kv_key (omap_values (st_values s)))"
    by (simp add: store_values_keys(1)[OF assms(1)] omap_keys_sorted)
  then have "distinct (omap_values (st_values s))"
    by (metis sorted_wrt_less_distinct distinct_map)
  then have "distinct (leased_values s (set ids))" by (simp add: leased_values_def)
  then show "mset ?c = mset (leased_values s (set ids))"
    using set_eq_iff_mset_eq_distinct[OF distinct_collected[OF assms]] sets by blast
  show "inj_on kv_key (set ?c)"
    unfolding sets by (intro inj_onI) (auto simp: leased_values_def store_values_keys(2)[OF assms(1)])
  have "sorted (map kv_key (omap_values (st_values s)))"
    using sorted by (simp add: strict_sorted_iff)
  then show "sorted (map kv_key (leased_values s (set ids)))"
    unfolding leased_values_def by (rule sorted_filter)
qed

text \<open>The whole clean-up of a list of live leases: it succeeds, and its effect in full.\<close>

lemma find_cleaned:
  assumes "store_inv s"
  shows "omap_find (fold (\<lambda>v. omap_drop (kv_key v)) (leased_values s ids) (st_values s)) k
    = (case omap_find (st_values s) k of None \<Rightarrow> None
       | Some v \<Rightarrow> if kv_lease_id v \<in> ids then None else Some v)"
proof -
  have "k \<in> kv_key ` set (leased_values s ids)
      \<longleftrightarrow> (\<exists>v. omap_find (st_values s) k = Some v \<and> kv_lease_id v \<in> ids)"
  proof
    assume "k \<in> kv_key ` set (leased_values s ids)"
    then show "\<exists>v. omap_find (st_values s) k = Some v \<and> kv_lease_id v \<in> ids"
      by (auto simp: leased_values_def store_values_keys(2)[OF assms])
  next
    assume "\<exists>v. omap_find (st_values s) k = Some v \<and> kv_lease_id v \<in> ids"
    then obtain v where v: "omap_find (st_values s) k = Some v" "kv_lease_id v \<in> ids" by blast
    then have "kv_key v = k" using store_inv_kv[OF assms v(1)] by (simp add: kv_ok_def)
    moreover have "v \<in> set (leased_values s ids)"
      using v calculation by (simp add: leased_values_def store_values_keys(2)[OF assms])
    ultimately show "k \<in> kv_key ` set (leased_values s ids)" by blast
  qed
  then show ?thesis unfolding omap_find_fold_drop by (auto split: option.splits)
qed

lemma cleaned_inv_parts:
  fixes ids :: "lease_id list"
  assumes inv: "store_inv s"
  defines "vs \<equiv> fold (\<lambda>v. omap_drop (kv_key v)) (leased_values s (set ids)) (st_values s)"
    and "L \<equiv> fold omap_drop ids (st_leases s)"
  shows "values_ok (st_revision s) vs" "index_ok vs L"
    "leases_ok L (st_next_lease_id s) (st_next_fencing_token s) (max_active_leases (st_limits s))"
    "tokens_distinct L"
proof -
  note inv' = store_inv_parts[OF inv]
  have find: "omap_find vs k = (case omap_find (st_values s) k of None \<Rightarrow> None
       | Some v \<Rightarrow> if kv_lease_id v \<in> set ids then None else Some v)" for k
    unfolding vs_def by (rule find_cleaned[OF inv])
  then have find_iff: "omap_find vs k = Some v
      \<longleftrightarrow> omap_find (st_values s) k = Some v \<and> kv_lease_id v \<notin> set ids" for k v
    by (auto split: option.splits if_splits)
  have L: "omap_find L lid = (if lid \<in> set ids then None else omap_find (st_leases s) lid)" for lid
    by (simp add: L_def omap_find_fold_drop_id)
  have att: "attached L lid k \<longleftrightarrow> lid \<notin> set ids \<and> attached (st_leases s) lid k" for lid k
    by (simp add: attached_def L)
  show "values_ok (st_revision s) vs"
    using inv'(3) by (simp add: values_ok_def find_iff)
  show "index_ok vs L"
    using inv'(1) unfolding index_ok_def att find_iff by blast
  show "leases_ok L (st_next_lease_id s) (st_next_fencing_token s) (max_active_leases (st_limits s))"
    using inv'(2) order_trans[OF omap_size_fold_drop] unfolding leases_ok_def L by (auto simp: L_def)
  show "tokens_distinct L"
    using inv'(4) unfolding tokens_distinct_def L by (auto split: if_splits)
qed

lemma remove_leases_spec:
  assumes inv: "store_inv s" and ids: "distinct ids" "\<forall>lid \<in> set ids. omap_has (st_leases s) lid"
    and rev: "ids \<noteq> [] \<Longrightarrow> st_revision s \<noteq> int64_max"
  obtains s' where
    "remove_leases_locked s ids code = Inr (s', \<lparr>lcr_code = code, lcr_leases = ids,
       lcr_deleted_keys = leased_values s (set ids), lcr_revision = st_revision s'\<rparr>)"
    "store_inv s'" "st_revision s' = (if ids = [] then st_revision s else st_revision s + 1)"
    "\<And>k. omap_find (st_values s') k = (case omap_find (st_values s) k of None \<Rightarrow> None
       | Some v \<Rightarrow> if kv_lease_id v \<in> set ids then None else Some v)"
    "\<And>lid. omap_find (st_leases s') lid = (if lid \<in> set ids then None else omap_find (st_leases s) lid)"
    "st_limits s' = st_limits s" "st_next_lease_id s' = st_next_lease_id s"
    "st_next_fencing_token s' = st_next_fencing_token s" "st_logical_tick s' = st_logical_tick s"
proof -
  let ?vs = "fold (\<lambda>v. omap_drop (kv_key v)) (leased_values s (set ids)) (st_values s)"
  let ?L = "fold omap_drop ids (st_leases s)"
  let ?s = "if ids = [] then s else commit_mutation s ?vs ?L (st_revision s + 1)
      (map (erase_event (st_revision s + 1)) (leased_values s (set ids)))"
  have run: "remove_leases_locked s ids code = Inr (?s, \<lparr>lcr_code = code, lcr_leases = ids,
       lcr_deleted_keys = leased_values s (set ids), lcr_revision = st_revision ?s\<rparr>)"
    using rev sort_collected[OF inv ids]
    by (simp add: remove_leases_locked_def collect_leases_spec[OF inv ids(2)] Let_def
        next_revision_locked_def leased_values_def)
  have "store_inv ?s"
  proof (cases "ids = []")
    case False
    then have "store_inv (commit_mutation s ?vs ?L (st_revision s + 1)
        (map (erase_event (st_revision s + 1)) (leased_values s (set ids))))"
      using cleaned_inv_parts[OF inv, of ids] rev
      by (intro commit_mutation_inv[OF inv]) (auto simp: result_simps intro: values_ok_mono)
    then show ?thesis using False by simp
  qed (simp add: inv)
  then show ?thesis
    by (rule that[OF run]) (auto simp: find_cleaned[OF inv] omap_find_fold_drop_id split: option.splits)
qed

section \<open>Granting and renewing\<close>

lemma omap_has_expired: "lid \<in> set (expired_leases s tick)
    \<longleftrightarrow> (\<exists>l. omap_find (st_leases s) lid = Some l \<and> sl_expiry_tick l \<le> tick)"
  by (force simp: expired_leases_def om.finds_iff)

lemma expired_leases_distinct: "distinct (expired_leases s tick)"
  unfolding expired_leases_def using om.items_distinct[of "st_leases s"]
  by (simp add: distinct_map_filter)

lemma select_lease_id_Inr:
  assumes "store_inv s" "select_lease_id s requested = Inr lid"
  shows "0 < lid" "lid \<le> maximum_lease_id" "requested \<noteq> 0 \<Longrightarrow> lid = requested"
    "requested = 0 \<Longrightarrow> lid = st_next_lease_id s"
  using assms by (auto simp: select_lease_id_def store_inv_def split: if_splits)

lemma leases_ok_insert:
  assumes L: "leases_ok L n t limit" and new: "\<not> omap_has L lid" "0 < lid" "lid \<le> maximum_lease_id"
    "sl_fencing_token l \<noteq> 0" "sl_granted_ttl l \<noteq> 0" "omap_size L < limit"
    and bounds: "lid < n'" "n \<le> n'" "sl_fencing_token l < t'" "t \<le> t'"
  shows "leases_ok (omap_put lid l L) n' t' limit"
  unfolding leases_ok_def
proof (intro conjI allI impI)
  fix i m
  assume find: "omap_find (omap_put lid l L) i = Some m"
  have "0 < i \<and> i \<le> maximum_lease_id \<and> i < n' \<and> sl_fencing_token m \<noteq> 0
      \<and> sl_fencing_token m < t' \<and> sl_granted_ttl m \<noteq> 0"
  proof (cases "i = lid")
    case True
    then show ?thesis using find new bounds by simp
  next
    case False
    then have "omap_find L i = Some m" using find by simp
    then have old: "0 < i" "i \<le> maximum_lease_id" "i < n" "sl_fencing_token m \<noteq> 0"
      "sl_fencing_token m < t" "sl_granted_ttl m \<noteq> 0"
      using L by (simp_all add: leases_ok_def)
    then show ?thesis using bounds(2) order_less_le_trans[OF old(5) bounds(4)] by simp
  qed
  then show "0 < i" "i \<le> maximum_lease_id" "i < n'" "sl_fencing_token m \<noteq> 0"
    "sl_fencing_token m < t'" "sl_granted_ttl m \<noteq> 0"
    by simp_all
qed (use new in simp)

lemma fresh_token_distinct:
  assumes "leases_ok L n t limit" "tokens_distinct L" "sl_fencing_token l = t"
  shows "tokens_distinct (omap_put lid l L)"
  unfolding tokens_distinct_def
proof (intro allI impI)
  fix i j k m
  assume "omap_find (omap_put lid l L) i = Some k" "omap_find (omap_put lid l L) j = Some m"
    "sl_fencing_token k = sl_fencing_token m"
  moreover have "sl_fencing_token x \<noteq> t" if "omap_find L y = Some x" for x y
    using assms(1) that by (fastforce simp: leases_ok_def)
  ultimately show "i = j" using assms(2,3) unfolding tokens_distinct_def
    by (metis omap_find_simps(2) option.inject)
qed

lemma grant_lease_Inr:
  assumes inv: "store_inv s" and run: "grant_lease s request = Inr (s', res)"
  shows "store_inv s'"
    and "\<exists>lid. \<not> omap_has (st_leases s) lid \<and> 0 < lid
      \<and> (lg_requested_id request \<noteq> 0 \<longrightarrow> lid = lg_requested_id request)
      \<and> st_leases s' = omap_put lid \<lparr>sl_fencing_token = st_next_fencing_token s,
          sl_granted_ttl = lg_ttl request, sl_expiry_tick = lg_tick request + lg_ttl request,
          sl_attached_keys = oset_empty\<rparr> (st_leases s)
      \<and> lgr_lease res = \<lparr>lr_id = lid, lr_fencing_token = st_next_fencing_token s,
          lr_granted_ttl = lg_ttl request, lr_expiry_tick = lg_tick request + lg_ttl request,
          lr_attached_keys = []\<rparr>
      \<and> lid < st_next_lease_id s'"
    and "st_values s' = st_values s" "st_revision s' = st_revision s" "st_logical_tick s' = lg_tick request"
    and "st_next_fencing_token s' = st_next_fencing_token s + 1" "st_next_fencing_token s \<noteq> uint64_max"
    and "st_logical_tick s \<le> lg_tick request" "lgr_revision res = st_revision s"
    and "unat (lg_tick request + lg_ttl request) = unat (lg_tick request) + unat (lg_ttl request)"
    and "lg_ttl request \<noteq> 0" "st_next_lease_id s \<le> st_next_lease_id s'" "st_limits s' = st_limits s"
    and "st_history s' = st_history s" "st_watchers s' = st_watchers s"
proof -
  obtain lid where lid: "select_lease_id s (lg_requested_id request) = Inr lid" "\<not> omap_has (st_leases s) lid"
    and pre: "\<not> lg_tick request < st_logical_tick s" "lg_ttl request \<noteq> 0"
      "\<not> lg_tick request > uint64_max - lg_ttl request" "st_next_fencing_token s \<noteq> uint64_max"
      "omap_size (st_leases s) < max_active_leases (st_limits s)"
    using run by (auto simp: grant_lease_def validate_tick_locked_def result_simps Let_def)
  define l where "l = \<lparr>sl_fencing_token = st_next_fencing_token s, sl_granted_ttl = lg_ttl request,
      sl_expiry_tick = lg_tick request + lg_ttl request, sl_attached_keys = oset_empty\<rparr>"
  let ?n = "if lid \<ge> st_next_lease_id s then lid + 1 else st_next_lease_id s"
  have s': "s' = s\<lparr>st_leases := omap_put lid l (st_leases s), st_next_lease_id := ?n,
      st_next_fencing_token := st_next_fencing_token s + 1, st_logical_tick := lg_tick request\<rparr>"
    and res: "res = \<lparr>lgr_lease = lease_record_locked lid l, lgr_revision = st_revision s\<rparr>"
    using run lid pre by (auto simp: grant_lease_def validate_tick_locked_def l_def Let_def)
  note sel = select_lease_id_Inr[OF inv lid(1)]
  note inv' = store_inv_parts[OF inv]
  have tok: "st_next_fencing_token s < st_next_fencing_token s + 1" using pre(4) by (rule less_plus1)
  have nz: "st_next_fencing_token s \<noteq> 0" using inv by (simp add: store_inv_def)
  have absent: "omap_find (st_leases s) lid = None" using lid(2) by (simp add: omap_has_def)
  have att: "attached (omap_put lid l (st_leases s)) i k \<longleftrightarrow> attached (st_leases s) i k" for i k
    using absent by (simp add: attached_def l_def)
  have "leases_ok (omap_put lid l (st_leases s)) ?n (st_next_fencing_token s + 1)
      (max_active_leases (st_limits s))"
    using sel(1,2) tok nz pre(2,5) lid(2)
    by (intro leases_ok_insert[OF inv'(2)]) (auto simp: l_def)
  moreover have "tokens_distinct (omap_put lid l (st_leases s))"
    by (rule fresh_token_distinct[OF inv'(2,4)]) (simp add: l_def)
  moreover have "index_ok (st_values s) (omap_put lid l (st_leases s))"
    using inv'(1) unfolding index_ok_def att .
  moreover have "0 < ?n" "?n \<le> int64_max"
    using sel(1,2) inv by (auto simp: store_inv_def maximum_lease_id_def)
  moreover have "st_next_fencing_token s + 1 \<noteq> 0" using tok by auto
  ultimately show "store_inv s'" using inv unfolding s' by (simp add: store_inv_def)
  show "\<exists>lid. \<not> omap_has (st_leases s) lid \<and> 0 < lid
      \<and> (lg_requested_id request \<noteq> 0 \<longrightarrow> lid = lg_requested_id request)
      \<and> st_leases s' = omap_put lid \<lparr>sl_fencing_token = st_next_fencing_token s,
          sl_granted_ttl = lg_ttl request, sl_expiry_tick = lg_tick request + lg_ttl request,
          sl_attached_keys = oset_empty\<rparr> (st_leases s)
      \<and> lgr_lease res = \<lparr>lr_id = lid, lr_fencing_token = st_next_fencing_token s,
          lr_granted_ttl = lg_ttl request, lr_expiry_tick = lg_tick request + lg_ttl request,
          lr_attached_keys = []\<rparr>
      \<and> lid < st_next_lease_id s'"
    using lid(2) sel by (intro exI[of _ lid]) (auto simp: s' res l_def lease_record_locked_def
        oset_elems_def oset_empty_def omap_keys_def)
qed (use run in \<open>auto simp: grant_lease_def validate_tick_locked_def result_simps Let_def
      unat_add_no_overflow\<close>)

text \<open>Moving the expiry of one live lease keeps the store well formed.\<close>

lemma store_inv_renew:
  assumes inv: "store_inv s" and l: "omap_find (st_leases s) lid = Some l"
  shows "store_inv (s\<lparr>st_leases := omap_put lid (l\<lparr>sl_expiry_tick := e\<rparr>) (st_leases s)\<rparr>)"
proof -
  let ?L = "omap_put lid (l\<lparr>sl_expiry_tick := e\<rparr>) (st_leases s)"
  note inv' = store_inv_parts[OF inv]
  have find: "\<exists>k. omap_find (st_leases s) i = Some k \<and> sl_fencing_token k = sl_fencing_token m
      \<and> sl_granted_ttl k = sl_granted_ttl m" if "omap_find ?L i = Some m" for i m
    using that l by (auto split: if_splits)
  have "attached ?L i k \<longleftrightarrow> attached (st_leases s) i k" for i k
    using l by (simp add: attached_def)
  then have "index_ok (st_values s) ?L" using inv'(1) by (simp add: index_ok_def)
  moreover have "omap_size ?L = omap_size (st_leases s)" using l by (simp add: omap_has_def)
  then have "leases_ok ?L (st_next_lease_id s) (st_next_fencing_token s) (max_active_leases (st_limits s))"
    using inv'(2) find unfolding leases_ok_def by metis
  moreover have "tokens_distinct ?L"
    using inv'(4) find unfolding tokens_distinct_def by metis
  ultimately show ?thesis using inv by (simp add: store_inv_def)
qed

lemma lookup_lease_code:
  "llr_code (lookup_lease_locked s lid tick) = Lease_ok
     \<longleftrightarrow> (\<exists>l. omap_find (st_leases s) lid = Some l \<and> tick < sl_expiry_tick l)"
  "llr_code (lookup_lease_locked s lid tick) \<noteq> Lease_fencing_token_mismatch"
  by (auto simp: lookup_lease_locked_def split: option.splits)

lemma keep_alive_cases:
  assumes inv: "store_inv s" and run: "keep_alive s request = Inr (s', res)"
  obtains (renewed) l where "omap_find (st_leases s) (lk_id request) = Some l"
      "lk_tick request < sl_expiry_tick l" "sl_fencing_token l = lk_fencing_token request"
      "\<not> lk_tick request > uint64_max - sl_granted_ttl l"
      "s' = s\<lparr>st_logical_tick := lk_tick request, st_leases := omap_put (lk_id request)
          (l\<lparr>sl_expiry_tick := lk_tick request + sl_granted_ttl l\<rparr>) (st_leases s)\<rparr>"
      "res = \<lparr>llr_code = Lease_ok, llr_lease = Some (lease_record_locked (lk_id request)
          (l\<lparr>sl_expiry_tick := lk_tick request + sl_granted_ttl l\<rparr>)),
        llr_remaining_ttl = sl_granted_ttl l, llr_revision = st_revision s\<rparr>"
  | (refused) "s' = s\<lparr>st_logical_tick := lk_tick request\<rparr>" "llr_code res \<noteq> Lease_ok"
      "\<nexists>l. omap_find (st_leases s) (lk_id request) = Some l \<and> lk_tick request < sl_expiry_tick l
        \<and> sl_fencing_token l = lk_fencing_token request"
proof (cases "omap_find (st_leases s) (lk_id request)")
  case None
  then show ?thesis
    using run that(2) by (auto simp: keep_alive_def result_simps Let_def lookup_lease_locked_def)
next
  case (Some l)
  show ?thesis
  proof (cases "lk_tick request < sl_expiry_tick l \<and> sl_fencing_token l = lk_fencing_token request")
    case True
    then have "\<not> sl_expiry_tick l \<le> lk_tick request" by (simp add: not_le)
    then show ?thesis
      using run Some that(1)[of l] True
      by (auto simp: keep_alive_def result_simps Let_def lookup_lease_locked_def lease_record_locked_def)
  next
    case False
    then show ?thesis
      using run Some that(2)
      by (cases "sl_expiry_tick l \<le> lk_tick request")
        (auto simp: keep_alive_def result_simps Let_def lookup_lease_locked_def)
  qed
qed

lemma keep_alive_inv:
  assumes "store_inv s" "keep_alive s request = Inr (s', res)"
  shows "store_inv s'" "st_values s' = st_values s" "st_revision s' = st_revision s"
    "st_logical_tick s' = lk_tick request" "st_logical_tick s \<le> lk_tick request"
    "st_next_fencing_token s' = st_next_fencing_token s" "st_next_lease_id s' = st_next_lease_id s"
    "st_limits s' = st_limits s"
proof -
  show "st_logical_tick s \<le> lk_tick request"
    using assms(2) by (auto simp: keep_alive_def result_simps validate_tick_locked_def)
  have ticked: "store_inv (s\<lparr>st_logical_tick := lk_tick request\<rparr>)" using assms(1) by simp
  show "store_inv s'"
    using assms
    by (cases rule: keep_alive_cases)
      (use store_inv_renew[OF ticked, of "lk_id request"] assms(1) in \<open>simp_all\<close>)
  show "st_values s' = st_values s" "st_revision s' = st_revision s"
    "st_logical_tick s' = lk_tick request" "st_next_fencing_token s' = st_next_fencing_token s"
    "st_next_lease_id s' = st_next_lease_id s" "st_limits s' = st_limits s"
    by (cases rule: keep_alive_cases[OF assms]; simp)+
qed

section \<open>Expiring and revoking\<close>

text \<open>What is left of a store once a set of leases is cleaned up.\<close>

definition cleaned_up :: "store \<Rightarrow> lease_id set \<Rightarrow> store \<Rightarrow> bool" where
  "cleaned_up s ids s' \<longleftrightarrow>
     (\<forall>k. omap_find (st_values s') k = (case omap_find (st_values s) k of None \<Rightarrow> None
        | Some v \<Rightarrow> if kv_lease_id v \<in> ids then None else Some v))
   \<and> (\<forall>lid. omap_find (st_leases s') lid = (if lid \<in> ids then None else omap_find (st_leases s) lid))
   \<and> st_revision s' = (if ids = {} then st_revision s else st_revision s + 1)"

lemma validate_tick_ok: "st_logical_tick s \<le> tick \<Longrightarrow> validate_tick_locked s tick = Inr ()"
  by (simp add: validate_tick_locked_def throw_if_def)

lemma remove_leases_run:
  assumes inv: "store_inv s" and ids: "distinct ids" "\<forall>lid \<in> set ids. omap_has (st_leases s) lid"
  shows "(\<exists>s'. remove_leases_locked s ids Lease_ok = Inr (s', \<lparr>lcr_code = Lease_ok, lcr_leases = ids,
        lcr_deleted_keys = leased_values s (set ids), lcr_revision = st_revision s'\<rparr>)
      \<and> store_inv s' \<and> cleaned_up s (set ids) s' \<and> st_limits s' = st_limits s
      \<and> st_next_lease_id s' = st_next_lease_id s \<and> st_next_fencing_token s' = st_next_fencing_token s)
    \<or> (remove_leases_locked s ids Lease_ok = Inl (Overflow_Error ''store revision exhausted'')
      \<and> ids \<noteq> [] \<and> st_revision s = int64_max)"
proof (cases "ids \<noteq> [] \<and> st_revision s = int64_max")
  case True
  then show ?thesis
    by (simp add: remove_leases_locked_def collect_leases_spec[OF inv ids(2)] Let_def next_revision_locked_def)
next
  case False
  then have rev: "ids \<noteq> [] \<Longrightarrow> st_revision s \<noteq> int64_max" by blast
  show ?thesis
    by (rule remove_leases_spec[OF inv ids rev, of Lease_ok]) (auto simp: cleaned_up_def)
qed

lemma expire_leases_run:
  assumes inv: "store_inv s" and tick: "st_logical_tick s \<le> tick"
  defines "ids \<equiv> expired_leases s tick"
  shows "(\<exists>s'. expire_leases s tick = Inr (s'\<lparr>st_logical_tick := tick\<rparr>,
        \<lparr>lcr_code = Lease_ok, lcr_leases = ids, lcr_deleted_keys = leased_values s (set ids),
         lcr_revision = st_revision s'\<rparr>)
      \<and> store_inv s' \<and> cleaned_up s (set ids) s' \<and> st_limits s' = st_limits s
      \<and> st_next_lease_id s' = st_next_lease_id s \<and> st_next_fencing_token s' = st_next_fencing_token s)
    \<or> (expire_leases s tick = Inl (Overflow_Error ''store revision exhausted'')
      \<and> ids \<noteq> [] \<and> st_revision s = int64_max)"
proof -
  have "\<forall>lid \<in> set ids. omap_has (st_leases s) lid"
    by (auto simp: ids_def omap_has_expired omap_has_def)
  then show ?thesis
    using remove_leases_run[OF inv expired_leases_distinct[of s tick]] tick
    by (auto simp: expire_leases_def validate_tick_ok ids_def)
qed

lemma revoke_lease_run:
  assumes inv: "store_inv s" and l: "omap_find (st_leases s) (lv_id request) = Some l"
    and own: "sl_fencing_token l = lv_fencing_token request" and tick: "st_logical_tick s \<le> lv_tick request"
  shows "(\<exists>s'. revoke_lease s request = Inr (s'\<lparr>st_logical_tick := lv_tick request\<rparr>,
        \<lparr>lcr_code = Lease_ok, lcr_leases = [lv_id request],
         lcr_deleted_keys = leased_values s {lv_id request}, lcr_revision = st_revision s'\<rparr>)
      \<and> store_inv s' \<and> cleaned_up s {lv_id request} s' \<and> st_limits s' = st_limits s
      \<and> st_next_lease_id s' = st_next_lease_id s \<and> st_next_fencing_token s' = st_next_fencing_token s)
    \<or> (revoke_lease s request = Inl (Overflow_Error ''store revision exhausted'')
      \<and> st_revision s = int64_max)"
proof -
  have "0 < lv_id request" "lv_fencing_token request \<noteq> 0"
    using store_inv_parts(2)[OF inv] l own by (auto simp: leases_ok_def)
  then show ?thesis
    using remove_leases_run[OF inv, of "[lv_id request]"] l own tick
    by (auto simp: revoke_lease_def validate_tick_ok omap_has_def)
qed

lemma expire_leases_tick: "expire_leases s tick = Inr p \<Longrightarrow> st_logical_tick s \<le> tick"
  by (auto simp: expire_leases_def validate_tick_locked_def result_simps)

lemma expire_leases_inv:
  assumes "store_inv s" "expire_leases s tick = Inr (s', res)"
  shows "store_inv s'" "st_logical_tick s' = tick" "st_logical_tick s \<le> tick"
    "st_next_lease_id s' = st_next_lease_id s" "st_next_fencing_token s' = st_next_fencing_token s"
    "st_limits s' = st_limits s" "cleaned_up s (set (expired_leases s tick)) s'"
    "res = \<lparr>lcr_code = Lease_ok, lcr_leases = expired_leases s tick,
       lcr_deleted_keys = leased_values s (set (expired_leases s tick)), lcr_revision = st_revision s'\<rparr>"
  using expire_leases_run[OF assms(1) expire_leases_tick[OF assms(2)]] assms(2)
    expire_leases_tick[OF assms(2)]
  by (auto simp: cleaned_up_def)

lemma revoke_lease_inv:
  assumes "store_inv s" "revoke_lease s request = Inr (s', res)"
  shows "store_inv s'" "st_logical_tick s' = lv_tick request" "st_logical_tick s \<le> lv_tick request"
    "st_next_lease_id s' = st_next_lease_id s" "st_next_fencing_token s' = st_next_fencing_token s"
    "st_limits s' = st_limits s"
    "lcr_code res = Lease_ok \<longleftrightarrow> (\<exists>l. omap_find (st_leases s) (lv_id request) = Some l
       \<and> sl_fencing_token l = lv_fencing_token request)"
    "lcr_code res = Lease_ok \<Longrightarrow> cleaned_up s {lv_id request} s'
       \<and> lcr_deleted_keys res = leased_values s {lv_id request}"
    "lcr_code res \<noteq> Lease_ok \<Longrightarrow> s' = s\<lparr>st_logical_tick := lv_tick request\<rparr>"
    "lcr_revision res = st_revision s'"
proof -
  show tick: "st_logical_tick s \<le> lv_tick request"
    using assms(2) by (auto simp: revoke_lease_def validate_tick_locked_def result_simps)
  consider (own) l where "omap_find (st_leases s) (lv_id request) = Some l"
      "sl_fencing_token l = lv_fencing_token request"
    | (refused) "\<nexists>l. omap_find (st_leases s) (lv_id request) = Some l
        \<and> sl_fencing_token l = lv_fencing_token request" by blast
  then have "store_inv s' \<and> st_logical_tick s' = lv_tick request
    \<and> st_next_lease_id s' = st_next_lease_id s \<and> st_next_fencing_token s' = st_next_fencing_token s
    \<and> st_limits s' = st_limits s
    \<and> (lcr_code res = Lease_ok \<longleftrightarrow> (\<exists>l. omap_find (st_leases s) (lv_id request) = Some l
       \<and> sl_fencing_token l = lv_fencing_token request))
    \<and> (lcr_code res = Lease_ok \<longrightarrow> cleaned_up s {lv_id request} s'
       \<and> lcr_deleted_keys res = leased_values s {lv_id request})
    \<and> (lcr_code res \<noteq> Lease_ok \<longrightarrow> s' = s\<lparr>st_logical_tick := lv_tick request\<rparr>)
    \<and> lcr_revision res = st_revision s'"
  proof cases
    case own
    then show ?thesis
      using revoke_lease_run[OF assms(1) own tick] assms(2) by (auto simp: cleaned_up_def)
  next
    case refused
    then show ?thesis
      using assms by (cases "omap_find (st_leases s) (lv_id request)")
        (auto simp: revoke_lease_def result_simps)
  qed
  then show "store_inv s'" "st_logical_tick s' = lv_tick request"
    "st_next_lease_id s' = st_next_lease_id s" "st_next_fencing_token s' = st_next_fencing_token s"
    "st_limits s' = st_limits s"
    "lcr_code res = Lease_ok \<longleftrightarrow> (\<exists>l. omap_find (st_leases s) (lv_id request) = Some l
       \<and> sl_fencing_token l = lv_fencing_token request)"
    "lcr_code res = Lease_ok \<Longrightarrow> cleaned_up s {lv_id request} s'
       \<and> lcr_deleted_keys res = leased_values s {lv_id request}"
    "lcr_code res \<noteq> Lease_ok \<Longrightarrow> s' = s\<lparr>st_logical_tick := lv_tick request\<rparr>"
    "lcr_revision res = st_revision s'"
    by blast+
qed

section \<open>Properties\<close>

text \<open>
  C14.  Expiry at a tick is exact: the leases that remain are those whose expiry lies after the
  tick, with their terms unchanged; a key disappears exactly when it was attached to an expired
  lease; the reply lists exactly the values that disappeared, in key order; and everything
  happens in one new revision, which is allocated only if some lease expired.
\<close>

theorem expire_leases_exact:
  assumes "store_inv s" "expire_leases s tick = Inr (s', res)"
  shows "(\<forall>lid. omap_find (st_leases s') lid = (case omap_find (st_leases s) lid of None \<Rightarrow> None
        | Some l \<Rightarrow> if sl_expiry_tick l \<le> tick then None else Some l))
    \<and> (\<forall>k. omap_find (st_values s') k = (case omap_find (st_values s) k of None \<Rightarrow> None
        | Some v \<Rightarrow> if \<exists>l. omap_find (st_leases s) (kv_lease_id v) = Some l \<and> sl_expiry_tick l \<le> tick
                   then None else Some v))
    \<and> (\<forall>v. v \<in> set (lcr_deleted_keys res)
        \<longleftrightarrow> (\<exists>k. omap_find (st_values s) k = Some v \<and> omap_find (st_values s') k = None))
    \<and> sorted_wrt (<) (map kv_key (lcr_deleted_keys res))
    \<and> st_revision s' = st_revision s
        + (if \<exists>lid l. omap_find (st_leases s) lid = Some l \<and> sl_expiry_tick l \<le> tick then 1 else 0)"
proof -
  let ?ids = "set (expired_leases s tick)"
  note facts = expire_leases_inv[OF assms]
  have clean: "omap_find (st_values s') k = (case omap_find (st_values s) k of None \<Rightarrow> None
        | Some v \<Rightarrow> if kv_lease_id v \<in> ?ids then None else Some v)"
    "omap_find (st_leases s') lid = (if lid \<in> ?ids then None else omap_find (st_leases s) lid)"
    "st_revision s' = (if ?ids = {} then st_revision s else st_revision s + 1)" for k lid
    using facts(7) by (simp_all add: cleaned_up_def)
  have "omap_find (st_leases s') lid = (case omap_find (st_leases s) lid of None \<Rightarrow> None
      | Some l \<Rightarrow> if sl_expiry_tick l \<le> tick then None else Some l)" for lid
    using clean(2)[of lid] by (auto simp: omap_has_expired split: option.splits)
  moreover have "v \<in> set (lcr_deleted_keys res)
      \<longleftrightarrow> (\<exists>k. omap_find (st_values s) k = Some v \<and> omap_find (st_values s') k = None)" for v
    by (auto simp: facts(8) clean(1) leased_values_def omap_in_values split: if_splits)
  moreover have "sorted_wrt (<) (map kv_key (lcr_deleted_keys res))"
    unfolding facts(8) leased_values_def lease_cleanup_result.simps
    using omap_keys_sorted[of "st_values s"]
    by (simp flip: store_values_keys(1)[OF assms(1)] add: sorted_wrt_map sorted_wrt_filter)
  moreover have "omap_find (st_values s') k = (case omap_find (st_values s) k of None \<Rightarrow> None
        | Some v \<Rightarrow> if \<exists>l. omap_find (st_leases s) (kv_lease_id v) = Some l \<and> sl_expiry_tick l \<le> tick
                   then None else Some v)" for k
    unfolding clean(1) omap_has_expired ..
  moreover have "st_revision s' = st_revision s
      + (if \<exists>lid l. omap_find (st_leases s) lid = Some l \<and> sl_expiry_tick l \<le> tick then 1 else 0)"
    unfolding clean(3) omap_has_expired[symmetric] by auto
  ultimately show ?thesis by blast
qed

text \<open>
  C22.  Expiry and revocation never fail on a well-formed store except for the documented
  reasons: a tick that moves backwards, an invalid identifier or token, or an exhausted
  revision counter when there is something to remove.  In particular the branches that report
  an inconsistent attachment index are unreachable.
\<close>

theorem lease_cleanup_refusals:
  assumes "store_inv s"
  shows "(expire_leases s tick = Inl e \<longrightarrow>
      e = Invalid_Argument ''lease tick must not move backwards'' \<and> tick < st_logical_tick s
      \<or> e = Overflow_Error ''store revision exhausted'' \<and> st_revision s = int64_max
        \<and> expired_leases s tick \<noteq> [])
    \<and> (revoke_lease s request = Inl e \<longrightarrow>
      e = Invalid_Argument ''lease tick must not move backwards'' \<and> lv_tick request < st_logical_tick s
      \<or> e = Invalid_Argument ''invalid revoke ownership''
        \<and> (lv_id request \<le> 0 \<or> lv_fencing_token request = 0)
      \<or> e = Overflow_Error ''store revision exhausted'' \<and> st_revision s = int64_max
        \<and> omap_has (st_leases s) (lv_id request))"
proof (intro conjI impI)
  assume run: "expire_leases s tick = Inl e"
  show "e = Invalid_Argument ''lease tick must not move backwards'' \<and> tick < st_logical_tick s
      \<or> e = Overflow_Error ''store revision exhausted'' \<and> st_revision s = int64_max
        \<and> expired_leases s tick \<noteq> []"
  proof (cases "tick < st_logical_tick s")
    case True
    then show ?thesis using run by (simp add: expire_leases_def validate_tick_locked_def)
  next
    case False
    then show ?thesis using expire_leases_run[OF assms, of tick] run by auto
  qed
next
  assume run: "revoke_lease s request = Inl e"
  consider (tick) "lv_tick request < st_logical_tick s"
    | (own) l where "\<not> lv_tick request < st_logical_tick s"
      "omap_find (st_leases s) (lv_id request) = Some l" "sl_fencing_token l = lv_fencing_token request"
    | (refused) "\<not> lv_tick request < st_logical_tick s" "\<nexists>l. omap_find (st_leases s) (lv_id request) = Some l
        \<and> sl_fencing_token l = lv_fencing_token request" by blast
  then show "e = Invalid_Argument ''lease tick must not move backwards'' \<and> lv_tick request < st_logical_tick s
      \<or> e = Invalid_Argument ''invalid revoke ownership''
        \<and> (lv_id request \<le> 0 \<or> lv_fencing_token request = 0)
      \<or> e = Overflow_Error ''store revision exhausted'' \<and> st_revision s = int64_max
        \<and> omap_has (st_leases s) (lv_id request)"
  proof cases
    case tick
    then show ?thesis using run by (simp add: revoke_lease_def validate_tick_locked_def)
  next
    case own
    then show ?thesis using revoke_lease_run[OF assms own(2,3)] run by (auto simp: omap_has_def)
  next
    case refused
    then show ?thesis
      using run by (cases "omap_find (st_leases s) (lv_id request)")
        (auto simp: revoke_lease_def validate_tick_locked_def result_simps)
  qed
qed

text \<open>
  C24.  A grant creates a lease that was not live, under a fencing token above the token of
  every live lease and an expiry computed without wrap-around; no key, revision or other lease
  changes.
\<close>

theorem grant_lease_effect:
  assumes "store_inv s" "grant_lease s request = Inr (s', res)"
  shows "\<not> omap_has (st_leases s) (lr_id (lgr_lease res))
    \<and> (\<forall>lid l. omap_find (st_leases s) lid = Some l \<longrightarrow> sl_fencing_token l < lr_fencing_token (lgr_lease res))
    \<and> lr_fencing_token (lgr_lease res) < st_next_fencing_token s'
    \<and> unat (lr_expiry_tick (lgr_lease res)) = unat (lg_tick request) + unat (lg_ttl request)
    \<and> (\<forall>lid. lid \<noteq> lr_id (lgr_lease res) \<longrightarrow> omap_find (st_leases s') lid = omap_find (st_leases s) lid)
    \<and> time_to_live s' \<lparr>lt_id = lr_id (lgr_lease res), lt_tick = lg_tick request\<rparr>
        = Inr \<lparr>llr_code = Lease_ok, llr_lease = Some (lgr_lease res), llr_remaining_ttl = lg_ttl request,
            llr_revision = st_revision s\<rparr>
    \<and> st_values s' = st_values s \<and> st_revision s' = st_revision s"
proof -
  note facts = grant_lease_Inr[OF assms]
  obtain lid where lid: "\<not> omap_has (st_leases s) lid" "0 < lid"
    "st_leases s' = omap_put lid \<lparr>sl_fencing_token = st_next_fencing_token s,
          sl_granted_ttl = lg_ttl request, sl_expiry_tick = lg_tick request + lg_ttl request,
          sl_attached_keys = oset_empty\<rparr> (st_leases s)"
    "lgr_lease res = \<lparr>lr_id = lid, lr_fencing_token = st_next_fencing_token s,
          lr_granted_ttl = lg_ttl request, lr_expiry_tick = lg_tick request + lg_ttl request,
          lr_attached_keys = []\<rparr>"
    using facts(2) by blast
  have "unat (lg_ttl request) \<noteq> 0" using facts(11) by (simp add: unat_eq_0)
  then have later: "lg_tick request < lg_tick request + lg_ttl request"
    using facts(10) by (simp add: word_less_nat_alt)
  have "st_next_fencing_token s < st_next_fencing_token s'"
    using less_plus1[OF facts(7)] by (simp add: facts(6))
  moreover have "\<forall>lid l. omap_find (st_leases s) lid = Some l \<longrightarrow> sl_fencing_token l < st_next_fencing_token s"
    using store_inv_parts(2)[OF assms(1)] by (simp add: leases_ok_def)
  moreover have "time_to_live s' \<lparr>lt_id = lid, lt_tick = lg_tick request\<rparr>
      = Inr \<lparr>llr_code = Lease_ok, llr_lease = Some (lgr_lease res), llr_remaining_ttl = lg_ttl request,
            llr_revision = st_revision s\<rparr>"
    using lid(2) later
    by (simp add: time_to_live_def validate_tick_ok facts(4,5) lookup_lease_locked_def lid(3,4)
        lease_record_locked_def oset_elems_def oset_empty_def omap_keys_def not_le[symmetric])
  ultimately show ?thesis using lid facts(3,4,10) by simp
qed

text \<open>
  C23.  A keep-alive renews exactly when the lease is live at the tick under the presented
  token; then its reply is what a time-to-live query at that tick reports, with the full granted
  duration remaining.  In every other case no lease changes.
\<close>

theorem keep_alive_effect:
  assumes "store_inv s" "keep_alive s request = Inr (s', res)"
  shows "(llr_code res = Lease_ok \<longleftrightarrow> (\<exists>l. omap_find (st_leases s) (lk_id request) = Some l
        \<and> lk_tick request < sl_expiry_tick l \<and> sl_fencing_token l = lk_fencing_token request))
    \<and> (llr_code res = Lease_ok \<longrightarrow>
        time_to_live s' \<lparr>lt_id = lk_id request, lt_tick = lk_tick request\<rparr> = Inr res
        \<and> (\<exists>l. omap_find (st_leases s) (lk_id request) = Some l
            \<and> omap_find (st_leases s') (lk_id request)
              = Some (l\<lparr>sl_expiry_tick := lk_tick request + sl_granted_ttl l\<rparr>)
            \<and> unat (lk_tick request + sl_granted_ttl l) = unat (lk_tick request) + unat (sl_granted_ttl l)
            \<and> llr_remaining_ttl res = sl_granted_ttl l))
    \<and> (llr_code res \<noteq> Lease_ok \<longrightarrow> st_leases s' = st_leases s)
    \<and> (\<forall>lid. lid \<noteq> lk_id request \<longrightarrow> omap_find (st_leases s') lid = omap_find (st_leases s) lid)
    \<and> st_values s' = st_values s \<and> st_revision s' = st_revision s"
  using assms
proof (cases rule: keep_alive_cases)
  case (renewed l)
  have "0 < lk_id request" "sl_granted_ttl l \<noteq> 0"
    using store_inv_parts(2)[OF assms(1)] renewed(1) by (auto simp: leases_ok_def)
  moreover have sum: "unat (lk_tick request + sl_granted_ttl l) = unat (lk_tick request) + unat (sl_granted_ttl l)"
    using renewed(4) by (rule unat_add_no_overflow)
  ultimately have "\<not> lk_tick request + sl_granted_ttl l \<le> lk_tick request"
    by (simp add: word_le_nat_alt unat_eq_0)
  then have "time_to_live s' \<lparr>lt_id = lk_id request, lt_tick = lk_tick request\<rparr> = Inr res"
    using \<open>0 < lk_id request\<close>
    by (simp add: time_to_live_def validate_tick_ok lookup_lease_locked_def renewed(5,6))
  then show ?thesis using renewed sum by simp
next
  case refused
  then show ?thesis using keep_alive_inv[OF assms] by simp
qed

text \<open>
  C25.  Revocation removes a lease and exactly the keys attached to it, in one new revision, if
  the presented fencing token is the lease's token; otherwise it changes nothing but the clock.
\<close>

theorem revoke_lease_effect:
  assumes "store_inv s" "revoke_lease s request = Inr (s', res)"
  shows "(lcr_code res = Lease_ok \<longleftrightarrow> (\<exists>l. omap_find (st_leases s) (lv_id request) = Some l
        \<and> sl_fencing_token l = lv_fencing_token request))
    \<and> (lcr_code res = Lease_ok \<longrightarrow> \<not> omap_has (st_leases s') (lv_id request)
        \<and> (\<forall>k. omap_find (st_values s') k = (case omap_find (st_values s) k of None \<Rightarrow> None
            | Some v \<Rightarrow> if kv_lease_id v = lv_id request then None else Some v))
        \<and> st_revision s' = st_revision s + 1)
    \<and> (\<forall>lid. lid \<noteq> lv_id request \<longrightarrow> omap_find (st_leases s') lid = omap_find (st_leases s) lid)
    \<and> (lcr_code res \<noteq> Lease_ok \<longrightarrow> s' = s\<lparr>st_logical_tick := lv_tick request\<rparr>)
    \<and> lcr_revision res = st_revision s'"
proof -
  note facts = revoke_lease_inv[OF assms]
  show ?thesis
  proof (cases "lcr_code res = Lease_ok")
    case True
    then show ?thesis using facts(7,8,10) by (simp add: cleaned_up_def omap_has_def cong: option.case_cong)
  next
    case False
    then show ?thesis using facts(7,9,10) by simp
  qed
qed

end
