(* ===== verification/Store_Watch.thy ===== *)
theory Store_Watch
  imports Store_Invariant
begin

text \<open>
  Watches of the store: \<open>create_watch\<close>, \<open>poll_watch\<close>, \<open>request_watch_progress\<close>, \<open>cancel_watch\<close>
  and \<open>compact_revision\<close> of \<^verbatim>\<open>src/src/in_memory_metadata_store.cpp\<close>.  The lemmas show that a
  watcher's replies are exactly those due for the retained and later published batches that match
  its request and for its progress requests, in order and without loss or repetition; that replaying the history gives what live
  delivery would have queued; and that the pending queue never exceeds its limit.
\<close>

section \<open>Operations\<close>

definition watch_error :: "status_code \<Rightarrow> string \<Rightarrow> exn" where
  "watch_error code message = Store_Error code message 0"

definition validate_watch_request :: "store \<Rightarrow> watch_request \<Rightarrow> unit result" where
  "validate_watch_request s request =
     (if wq_id request \<le> 0
      then Inl (watch_error Status_invalid_argument ''watch ID must be positive'')
      else if kr_start (wq_range request) = []
      then Inl (watch_error Status_invalid_argument ''watch key must not be empty'')
      else if kr_end (wq_range request) \<noteq> [] \<and> kr_start (wq_range request) \<ge> kr_end (wq_range request)
      then Inl (watch_error Status_invalid_argument ''watch range start must be less than range end'')
      else if wq_start_revision request < 0
      then Inl (watch_error Status_invalid_argument ''watch start revision must not be negative'')
      else if omap_has (st_watchers s) (wq_id request)
      then Inl (watch_error Status_invalid_argument ''watch ID is already active'')
      else if omap_size (st_watchers s) \<ge> max_watchers (st_limits s)
      then Inl (watch_error Status_quota_exceeded ''active watcher limit reached'')
      else Inr ())"

definition watch_start_revision :: "store \<Rightarrow> watch_request \<Rightarrow> int result" where
  "watch_start_revision s request =
     and_then
       (if wq_start_revision request = 0
        then if st_revision s = int64_max
             then Inl (watch_error Status_future_revision ''no revision exists after the current revision'')
             else Inr (st_revision s + 1)
        else Inr (wq_start_revision request))
       (\<lambda>start_revision.
        if start_revision \<le> st_compact_revision s
        then Inl (Store_Error Status_compacted ''watch start revision has been compacted''
               (st_compact_revision s))
        else if start_revision > st_revision s
             \<and> (st_revision s = int64_max \<or> start_revision \<noteq> st_revision s + 1)
        then Inl (watch_error Status_future_revision ''watch start revision is in the future'')
        else Inr start_revision)"

text \<open>The body of the loop over \<open>history_\<close>.\<close>

definition replay_batch ::
    "nat \<Rightarrow> watch_request \<Rightarrow> event_batch \<Rightarrow> watch_response list \<Rightarrow> watch_response list result" where
  "replay_batch pending_limit request batch pending =
     (if eb_revision batch < wq_start_revision request then Inr pending
      else let matching = filter (watch_matches request) (eb_events batch) in
        if matching = [] \<and> \<not> wq_progress_notifications request then Inr pending
        else if length pending \<ge> pending_limit
        then Inl (watch_error Status_quota_exceeded ''watch replay exceeds pending response limit'')
        else Inr (pending @ [event_response (eb_revision batch) (wq_id request) matching]))"

definition create_watch :: "store \<Rightarrow> watch_request \<Rightarrow> (store \<times> watch_response) result" where
  "create_watch s request =
     and_then (validate_watch_request s request) (\<lambda>_.
     and_then (watch_start_revision s request) (\<lambda>start_revision.
     let started = request\<lparr>wq_start_revision := start_revision\<rparr> in
     and_then (fold_result (replay_batch (max_watch_pending_responses (st_limits s)) started)
        (st_history s) []) (\<lambda>pending.
     Inr (s\<lparr>st_watchers := omap_put (wq_id request)
              \<lparr>ws_request = started, ws_pending = pending, ws_terminal = None\<rparr> (st_watchers s)\<rparr>,
          event_response (st_revision s) (wq_id request) []))))"

definition poll_watch :: "store \<Rightarrow> watch_id \<Rightarrow> (store \<times> watch_response option) result" where
  "poll_watch s wid =
     (case omap_find (st_watchers s) wid of
        None \<Rightarrow> Inl (watch_error Status_invalid_argument ''unknown watch ID'')
      | Some w \<Rightarrow>
          (case ws_terminal w of
             Some response \<Rightarrow> Inr (s\<lparr>st_watchers := omap_drop wid (st_watchers s)\<rparr>, Some response)
           | None \<Rightarrow>
               (case ws_pending w of
                  [] \<Rightarrow> Inr (s, None)
                | response # rest \<Rightarrow>
                    Inr (s\<lparr>st_watchers := omap_put wid (w\<lparr>ws_pending := rest\<rparr>) (st_watchers s)\<rparr>,
                         Some response))))"

definition request_watch_progress :: "store \<Rightarrow> watch_id \<Rightarrow> store result" where
  "request_watch_progress s wid =
     (case omap_find (st_watchers s) wid of
        None \<Rightarrow> Inl (watch_error Status_invalid_argument ''unknown watch ID'')
      | Some w \<Rightarrow>
          if ws_terminal w \<noteq> None then Inr s
          else if length (ws_pending w) \<ge> max_watch_pending_responses (st_limits s)
          then Inr (s\<lparr>st_watchers := omap_put wid
                 (w\<lparr>ws_pending := [], ws_terminal := Some (overflow_response (st_revision s) wid)\<rparr>)
                 (st_watchers s)\<rparr>)
          else Inr (s\<lparr>st_watchers := omap_put wid
                 (w\<lparr>ws_pending := ws_pending w @ [event_response (st_revision s) wid []]\<rparr>)
                 (st_watchers s)\<rparr>))"

definition cancel_watch :: "store \<Rightarrow> watch_id \<Rightarrow> (store \<times> watch_response) result" where
  "cancel_watch s wid =
     (case omap_find (st_watchers s) wid of
        None \<Rightarrow> Inl (watch_error Status_invalid_argument ''unknown watch ID'')
      | Some w \<Rightarrow> Inr (s\<lparr>st_watchers := omap_drop wid (st_watchers s)\<rparr>,
          (event_response (st_revision s) wid [])\<lparr>wr_cancelled := True\<rparr>))"

definition compact_revision :: "store \<Rightarrow> int" where
  "compact_revision s = st_compact_revision s"

section \<open>Invariant preservation\<close>

text \<open>The responses a request is due for a run of batches.\<close>

definition due_responses :: "watch_request \<Rightarrow> event_batch list \<Rightarrow> watch_response list" where
  "due_responses request batches =
     map (\<lambda>b. event_response (eb_revision b) (wq_id request) (filter (watch_matches request) (eb_events b)))
       (filter (\<lambda>b. wq_start_revision request \<le> eb_revision b
          \<and> (filter (watch_matches request) (eb_events b) \<noteq> [] \<or> wq_progress_notifications request)) batches)"

lemma due_responses_simps [simp]:
  "due_responses request [] = []"
  "due_responses request (bs @ cs) = due_responses request bs @ due_responses request cs"
  by (simp_all add: due_responses_def)

lemma replay_batch_due:
  "replay_batch limit request b pending = Inr pending' \<longleftrightarrow>
     pending' = pending @ due_responses request [b] \<and> (due_responses request [b] \<noteq> [] \<longrightarrow> length pending < limit)"
  by (auto simp: replay_batch_def due_responses_def Let_def not_le)

lemma replay_due:
  "fold_result (replay_batch limit request) bs pending = Inr pending' \<longleftrightarrow>
     pending' = pending @ due_responses request bs
     \<and> (due_responses request bs \<noteq> [] \<longrightarrow> length pending + length (due_responses request bs) \<le> limit)"
proof (induction bs arbitrary: pending)
  case Nil
  then show ?case by auto
next
  case (Cons b bs)
  have split: "due_responses request (b # bs) = due_responses request [b] @ due_responses request bs"
    using due_responses_simps(2)[of request "[b]" bs] by simp
  have "length (due_responses request [b]) \<le> 1" by (simp add: due_responses_def)
  then have one: "due_responses request [b] = [] \<or> length (due_responses request [b]) = 1"
    by (cases "due_responses request [b]") auto
  show ?case
    unfolding fold_result.simps and_then_eq_Inr replay_batch_due Cons.IH split using one by auto
qed

lemma due_responses_revisions:
  "map (rh_revision \<circ> wr_header) (due_responses request bs) = map eb_revision
     (filter (\<lambda>b. wq_start_revision request \<le> eb_revision b
        \<and> (filter (watch_matches request) (eb_events b) \<noteq> [] \<or> wq_progress_notifications request)) bs)"
  by (simp add: due_responses_def event_response_def header_at_def)

lemma due_responses_sorted:
  assumes "sorted_wrt (<) (map eb_revision bs)"
  shows "sorted_wrt (<) (map (rh_revision \<circ> wr_header) (due_responses request bs))"
  unfolding due_responses_revisions using assms by (simp add: sorted_wrt_map sorted_wrt_filter)

lemma due_response_fields:
  "p \<in> set (due_responses request bs) \<Longrightarrow> wr_id p = wq_id request \<and> \<not> wr_cancelled p
     \<and> rh_revision (wr_header p) \<in> set (map eb_revision bs)"
  by (auto simp: due_responses_def event_response_def header_at_def)

lemma sorted_wrt_upto: "sorted_wrt (<) [i..j :: int]"
  by (simp add: strict_sorted_iff)

lemma history_sorted: "history_ok h c r \<Longrightarrow> sorted_wrt (<) (map eb_revision h)"
  by (simp add: history_ok_def sorted_wrt_upto)

lemma history_bounds: "history_ok h c r \<Longrightarrow> b \<in> set h \<Longrightarrow> c < eb_revision b \<and> eb_revision b \<le> r"
proof -
  assume h: "history_ok h c r" "b \<in> set h"
  then have "eb_revision b \<in> set [c + 1..r]" unfolding history_ok_def by (metis image_eqI set_map)
  then show ?thesis by simp
qed

text \<open>A watcher operation changes nothing but the watchers.\<close>

lemma store_inv_watchers:
  assumes "store_inv s" "watchers_ok (st_limits s) (st_revision s) ws"
  shows "store_inv (s\<lparr>st_watchers := ws\<rparr>)"
  using assms by (simp add: store_inv_def)

lemma watchers_ok_put:
  assumes "watchers_ok limits r ws" "watcher_ok (max_watch_pending_responses limits) r wid w"
    and "omap_has ws wid \<or> omap_size ws < max_watchers limits"
  shows "watchers_ok limits r (omap_put wid w ws)"
  using assms by (auto simp: watchers_ok_def)

lemma watchers_ok_drop: "watchers_ok limits r ws \<Longrightarrow> watchers_ok limits r (omap_drop wid ws)"
  by (auto simp: watchers_ok_def)

lemma store_inv_watcher:
  "store_inv s \<Longrightarrow> omap_find (st_watchers s) wid = Some w
     \<Longrightarrow> watcher_ok (max_watch_pending_responses (st_limits s)) (st_revision s) wid w"
  by (simp add: store_inv_def watchers_ok_def)

lemma store_inv_watchers_ok: "store_inv s \<Longrightarrow> watchers_ok (st_limits s) (st_revision s) (st_watchers s)"
  by (simp add: store_inv_def)

lemma create_watch_Inr:
  assumes "store_inv s" "create_watch s request = Inr (s', res)"
  obtains r started where
    "watch_start_revision s request = Inr r" "started = request\<lparr>wq_start_revision := r\<rparr>"
    "st_compact_revision s < r" "r \<le> st_revision s + 1" "0 < wq_id request"
    "\<not> omap_has (st_watchers s) (wq_id request)"
    "length (due_responses started (st_history s)) \<le> max_watch_pending_responses (st_limits s)"
    "s' = s\<lparr>st_watchers := omap_put (wq_id request) \<lparr>ws_request = started,
       ws_pending = due_responses started (st_history s), ws_terminal = None\<rparr> (st_watchers s)\<rparr>"
    "res = event_response (st_revision s) (wq_id request) []" "store_inv s'"
proof -
  obtain r where r: "validate_watch_request s request = Inr ()" "watch_start_revision s request = Inr r"
    using assms(2) by (auto simp: create_watch_def result_simps)
  let ?started = "request\<lparr>wq_start_revision := r\<rparr>"
  let ?pending = "due_responses ?started (st_history s)"
  let ?w = "\<lparr>ws_request = ?started, ws_pending = ?pending, ws_terminal = None\<rparr>"
  have fits: "length ?pending \<le> max_watch_pending_responses (st_limits s)"
    and s': "s' = s\<lparr>st_watchers := omap_put (wq_id request) ?w (st_watchers s)\<rparr>"
    and res: "res = event_response (st_revision s) (wq_id request) []"
    using assms(2) by (auto simp: create_watch_def r Let_def result_simps replay_due)
  have new: "0 < wq_id request" "\<not> omap_has (st_watchers s) (wq_id request)"
    "omap_size (st_watchers s) < max_watchers (st_limits s)"
    using r(1) by (auto simp: validate_watch_request_def split: if_splits)
  have bounds: "st_compact_revision s < r" "r \<le> st_revision s + 1"
    using r(2) by (auto simp: watch_start_revision_def result_simps split: if_splits)
  have h: "history_ok (st_history s) (st_compact_revision s) (st_revision s)"
    using assms(1) by (simp add: store_inv_def)
  have "rh_revision (wr_header p) \<le> st_revision s" if "p \<in> set ?pending" for p
    using due_response_fields[OF that] history_bounds[OF h] by auto
  then have "watcher_ok (max_watch_pending_responses (st_limits s)) (st_revision s) (wq_id request) ?w"
    using fits new(1) due_responses_sorted[OF history_sorted[OF h], of ?started]
    by (auto simp: watcher_ok_def strict_sorted_iff dest: due_response_fields)
  then have "store_inv s'"
    unfolding s' using new(3) store_inv_watchers_ok[OF assms(1)]
    by (intro store_inv_watchers[OF assms(1)] watchers_ok_put) auto
  then show ?thesis using that[OF r(2) refl bounds new(1,2) fits s' res] by simp
qed

lemma poll_watch_inv:
  assumes "store_inv s" "poll_watch s wid = Inr (s', res)"
  shows "store_inv s' \<and> (\<exists>ws. s' = s\<lparr>st_watchers := ws\<rparr>)"
proof -
  obtain w where w: "omap_find (st_watchers s) wid = Some w"
    using assms(2) by (auto simp: poll_watch_def split: option.splits)
  have ok: "watcher_ok (max_watch_pending_responses (st_limits s)) (st_revision s) wid w"
    by (rule store_inv_watcher[OF assms(1) w])
  consider (terminal) response where "ws_terminal w = Some response"
      "s' = s\<lparr>st_watchers := omap_drop wid (st_watchers s)\<rparr>"
    | (idle) "s' = s"
    | (pop) p rest where "ws_terminal w = None" "ws_pending w = p # rest"
      "s' = s\<lparr>st_watchers := omap_put wid (w\<lparr>ws_pending := rest\<rparr>) (st_watchers s)\<rparr>"
    using assms(2) w by (auto simp: poll_watch_def split: option.splits list.splits)
  then show ?thesis
  proof cases
    case terminal
    then show ?thesis
      using store_inv_watchers[OF assms(1) watchers_ok_drop[OF store_inv_watchers_ok[OF assms(1)]]] by auto
  next
    case idle
    then show ?thesis using assms(1) by (metis store.surjective store.update_convs(6))
  next
    case pop
    have "watcher_ok (max_watch_pending_responses (st_limits s)) (st_revision s) wid (w\<lparr>ws_pending := rest\<rparr>)"
      using ok pop(1,2) by (auto simp: watcher_ok_def)
    then show ?thesis
      unfolding pop(3) using w store_inv_watchers_ok[OF assms(1)]
      by (auto intro!: store_inv_watchers[OF assms(1)] watchers_ok_put simp: omap_has_def)
  qed
qed

lemma request_watch_progress_inv:
  assumes "store_inv s" "request_watch_progress s wid = Inr s'"
  shows "store_inv s' \<and> (\<exists>ws. s' = s\<lparr>st_watchers := ws\<rparr>)"
proof -
  obtain w where w: "omap_find (st_watchers s) wid = Some w"
    using assms(2) by (auto simp: request_watch_progress_def split: option.splits)
  have ok: "watcher_ok (max_watch_pending_responses (st_limits s)) (st_revision s) wid w"
    by (rule store_inv_watcher[OF assms(1) w])
  have put: "store_inv (s\<lparr>st_watchers := omap_put wid w' (st_watchers s)\<rparr>)"
    if "watcher_ok (max_watch_pending_responses (st_limits s)) (st_revision s) wid w'" for w'
    using that w store_inv_watchers_ok[OF assms(1)]
    by (intro store_inv_watchers[OF assms(1)] watchers_ok_put) (auto simp: omap_has_def)
  consider (same) "s' = s"
    | (overflow) "s' = s\<lparr>st_watchers := omap_put wid (w\<lparr>ws_pending := [],
        ws_terminal := Some (overflow_response (st_revision s) wid)\<rparr>) (st_watchers s)\<rparr>"
    | (push) "ws_terminal w = None" "length (ws_pending w) < max_watch_pending_responses (st_limits s)"
        "s' = s\<lparr>st_watchers := omap_put wid (w\<lparr>ws_pending := ws_pending w
          @ [event_response (st_revision s) wid []]\<rparr>) (st_watchers s)\<rparr>"
    using assms(2) w by (auto simp: request_watch_progress_def split: if_splits)
  then show ?thesis
  proof cases
    case same
    then show ?thesis using assms(1) by (metis store.surjective store.update_convs(6))
  next
    case overflow
    then show ?thesis
      using put ok by (auto simp: watcher_ok_def overflow_response_def)
  next
    case push
    have "watcher_ok (max_watch_pending_responses (st_limits s)) (st_revision s) wid
        (w\<lparr>ws_pending := ws_pending w @ [event_response (st_revision s) wid []]\<rparr>)"
      using ok push(1,2) by (auto simp: watcher_ok_def event_response_def header_at_def sorted_append)
    then show ?thesis using put push(3) by auto
  qed
qed

lemma cancel_watch_inv:
  assumes "store_inv s" "cancel_watch s wid = Inr (s', res)"
  shows "store_inv s' \<and> s' = s\<lparr>st_watchers := omap_drop wid (st_watchers s)\<rparr> \<and> wr_cancelled res"
  using assms store_inv_watchers[OF assms(1) watchers_ok_drop[OF store_inv_watchers_ok[OF assms(1)]]]
  by (auto simp: cancel_watch_def split: option.splits)

section \<open>The stream of one watcher\<close>

datatype watch_action = Publish value_map lease_map "watch_event list" | Create watch_request | Poll watch_id
  | Progress watch_id | Cancel watch_id

type_synonym watch_run_state = "store \<times> event_batch list \<times> watch_response list"

text \<open>
  A run of the store as the watch \<open>wid\<close> sees it: mutations, each of which ends in
  \<open>commit_mutation\<close> at the next revision, and every call on watches, of this and of other
  watchers.  It records the published batches and the responses the client of \<open>wid\<close> got.
  A call that throws leaves the store as it was.
\<close>

fun watch_step :: "watch_id \<Rightarrow> watch_action \<Rightarrow> watch_run_state \<Rightarrow> watch_run_state" where
  "watch_step wid (Publish vs L events) (s, published, delivered) =
     (commit_mutation s vs L (st_revision s + 1) events,
      published @ [\<lparr>eb_revision = st_revision s + 1, eb_events = events\<rparr>], delivered)"
| "watch_step wid (Create request) (s, published, delivered) =
     (case create_watch s request of
        Inl e \<Rightarrow> (s, published, delivered)
      | Inr (s', response) \<Rightarrow> (s', published, delivered))"
| "watch_step wid (Poll i) (s, published, delivered) =
     (case poll_watch s i of
        Inl e \<Rightarrow> (s, published, delivered)
      | Inr (s', None) \<Rightarrow> (s', published, delivered)
      | Inr (s', Some response) \<Rightarrow> (s', published, if i = wid then delivered @ [response] else delivered))"
| "watch_step wid (Progress i) (s, published, delivered) =
     (case request_watch_progress s i of
        Inl e \<Rightarrow> (s, published, delivered)
      | Inr s' \<Rightarrow> (s', published, delivered))"
| "watch_step wid (Cancel i) (s, published, delivered) =
     (case cancel_watch s i of
        Inl e \<Rightarrow> (s, published, delivered)
      | Inr (s', response) \<Rightarrow> (s', published, if i = wid then delivered @ [response] else delivered))"

definition watch_run :: "watch_id \<Rightarrow> watch_action list \<Rightarrow> store \<Rightarrow> watch_run_state" where
  "watch_run wid actions s = fold (watch_step wid) actions (s, [], [])"

text \<open>
  What a request is owed for a sequence of actions from revision \<open>r\<close> on: a response for every
  batch that is due, and one without events, at the current revision, for every progress request.
\<close>

fun owed_for :: "watch_request \<Rightarrow> int \<Rightarrow> watch_action \<Rightarrow> watch_response list" where
  "owed_for request r (Publish vs L events) = due_responses request [\<lparr>eb_revision = r + 1, eb_events = events\<rparr>]"
| "owed_for request r (Progress i) = (if i = wq_id request then [event_response r i []] else [])"
| "owed_for request r _ = []"

fun revision_after :: "int \<Rightarrow> watch_action \<Rightarrow> int" where
  "revision_after r (Publish vs L events) = r + 1"
| "revision_after r _ = r"

fun owed :: "watch_request \<Rightarrow> int \<Rightarrow> watch_action list \<Rightarrow> watch_response list" where
  "owed request r [] = []"
| "owed request r (a # actions) = owed_for request r a @ owed request (revision_after r a) actions"

definition id_reused :: "watch_id \<Rightarrow> watch_action list \<Rightarrow> bool" where
  "id_reused wid actions \<longleftrightarrow> list_ex (\<lambda>a. case a of Create request \<Rightarrow> wq_id request = wid | _ \<Rightarrow> False) actions"

lemma publish_to_watcher_due:
  assumes "ws_terminal w = None" "wq_start_revision (ws_request w) \<le> r" "wq_id (ws_request w) = wid"
  shows "publish_to_watcher limit events r wid w =
    (let due = due_responses (ws_request w) [\<lparr>eb_revision = r, eb_events = events\<rparr>]
     in if due \<noteq> [] \<and> limit \<le> length (ws_pending w)
        then w\<lparr>ws_pending := [], ws_terminal := Some (overflow_response r wid)\<rparr>
        else w\<lparr>ws_pending := ws_pending w @ due\<rparr>)"
  using assms by (auto simp: publish_to_watcher_def due_responses_def Let_def)

text \<open>
  What a watcher still owes its client when \<open>stream\<close> is due and \<open>out\<close> has been delivered; and what
  the client of a watcher that is gone has got.
\<close>

definition ends_stream :: "watch_response \<Rightarrow> bool" where
  "ends_stream final \<longleftrightarrow> wr_cancelled final \<and> wr_events final = []"

definition stream_ok :: "watch_request \<Rightarrow> watch_response list \<Rightarrow> watch_response list \<Rightarrow> watch_state \<Rightarrow> bool" where
  "stream_ok request stream out w \<longleftrightarrow> ws_request w = request
     \<and> (ws_terminal w = None \<longrightarrow> stream = out @ ws_pending w)
     \<and> (\<forall>final. ws_terminal w = Some final \<longrightarrow> ends_stream final)
     \<and> (\<exists>rest. stream = out @ rest)"

definition stream_ended :: "watch_response list \<Rightarrow> watch_response list \<Rightarrow> bool" where
  "stream_ended stream out \<longleftrightarrow> (\<exists>begun final rest. out = begun @ [final] \<and> stream = begun @ rest \<and> ends_stream final)"

lemma stream_ok_publish:
  assumes "stream_ok request stream out w" "wq_start_revision request \<le> r" "wq_id request = wid"
  shows "stream_ok request (stream @ due_responses request [\<lparr>eb_revision = r, eb_events = events\<rparr>]) out
    (publish_to_watcher limit events r wid w)"
proof (cases "ws_terminal w")
  case None
  then show ?thesis
    using assms publish_to_watcher_due[OF None, of r wid limit events]
    by (auto simp: stream_ok_def Let_def ends_stream_def overflow_response_def)
next
  case (Some response)
  then show ?thesis using assms(1) by (auto simp: stream_ok_def publish_to_watcher_def)
qed

lemma publish_pending_bound:
  "length (ws_pending w) \<le> limit
     \<Longrightarrow> length (ws_pending (publish_to_watcher limit events r wid w)) \<le> limit"
  by (auto simp: publish_to_watcher_def Let_def)

definition watch_run_ok :: "watch_request \<Rightarrow> watch_response list \<Rightarrow> watch_run_state \<Rightarrow> bool" where
  "watch_run_ok request stream st = (case st of (s, published, delivered) \<Rightarrow>
     wq_start_revision request \<le> st_revision s + 1
     \<and> (case omap_find (st_watchers s) (wq_id request) of
          None \<Rightarrow> stream_ended stream delivered
        | Some w \<Rightarrow> stream_ok request stream delivered w
            \<and> length (ws_pending w) \<le> max_watch_pending_responses (st_limits s)))"

lemma stream_ended_more: "stream_ended stream out \<Longrightarrow> stream_ended (stream @ due) out"
  by (auto simp: stream_ended_def)

lemma stream_ends:
  "stream_ok request stream out w \<Longrightarrow> ends_stream final \<Longrightarrow> stream_ended stream (out @ [final])"
  by (auto simp: stream_ok_def stream_ended_def)

lemma other_watcher_step:
  assumes "\<not> id_reused wid [a]" "a \<noteq> Poll wid" "a \<noteq> Progress wid" "a \<noteq> Cancel wid" "\<forall>vs L events. a \<noteq> Publish vs L events"
  shows "\<exists>s'. watch_step wid a (s, published, delivered) = (s', published, delivered)
    \<and> omap_find (st_watchers s') wid = omap_find (st_watchers s) wid \<and> st_revision s' = st_revision s \<and> st_limits s' = st_limits s"
proof (cases a)
  case (Create request)
  then show ?thesis
    using assms(1) by (auto simp: id_reused_def create_watch_def Let_def result_simps split: sum.splits)
next
  case (Poll i)
  then show ?thesis using assms(2) by (auto simp: poll_watch_def split: option.splits list.splits)
next
  case (Progress i)
  then show ?thesis using assms(3) by (auto simp: request_watch_progress_def split: option.splits)
next
  case (Cancel i)
  then show ?thesis using assms(4) by (auto simp: cancel_watch_def split: option.splits)
qed (use assms(5) in simp)

lemma own_watcher_step:
  assumes "watch_run_ok request stream (s, published, delivered)" "wid = wq_id request"
    "a = Poll wid \<or> a = Progress wid \<or> a = Cancel wid"
  shows "watch_run_ok request (stream @ owed_for request (st_revision s) a) (watch_step wid a (s, published, delivered))"
proof (cases "omap_find (st_watchers s) wid")
  case None
  then show ?thesis
    using assms stream_ended_more
    by (auto simp: poll_watch_def request_watch_progress_def cancel_watch_def watch_run_ok_def)
next
  case (Some w)
  then have w: "stream_ok request stream delivered w" "length (ws_pending w) \<le> max_watch_pending_responses (st_limits s)"
    "wq_start_revision request \<le> st_revision s + 1" "wq_id request = wid"
    using assms(1,2) by (simp_all add: watch_run_ok_def)
  note ends = stream_ends[OF w(1)]
  from assms(3) show ?thesis
  proof (elim disjE)
    assume "a = Poll wid"
    then show ?thesis
      using Some w ends
      by (auto simp: poll_watch_def watch_run_ok_def stream_ok_def split: option.splits list.splits)
  next
    assume "a = Progress wid"
    then show ?thesis
      using Some w by (auto simp: request_watch_progress_def watch_run_ok_def stream_ok_def ends_stream_def overflow_response_def)
  next
    assume "a = Cancel wid"
    then show ?thesis
      using Some w ends by (auto simp: cancel_watch_def watch_run_ok_def ends_stream_def event_response_def)
  qed
qed

lemma watch_step_ok:
  assumes "watch_run_ok request stream st" "\<not> id_reused (wq_id request) [a]"
  shows "watch_run_ok request (stream @ owed_for request (st_revision (fst st)) a) (watch_step (wq_id request) a st)"
    and "st_revision (fst (watch_step (wq_id request) a st)) = revision_after (st_revision (fst st)) a"
proof -
  obtain s published delivered where st: "st = (s, published, delivered)" by (cases st) auto
  let ?wid = "wq_id request"
  consider (publish) vs L events where "a = Publish vs L events" | (own) "a = Poll ?wid \<or> a = Progress ?wid \<or> a = Cancel ?wid"
    | (other) "a \<noteq> Poll ?wid" "a \<noteq> Progress ?wid" "a \<noteq> Cancel ?wid" "\<forall>vs L events. a \<noteq> Publish vs L events" by blast
  then have "watch_run_ok request (stream @ owed_for request (st_revision s) a) (watch_step ?wid a (s, published, delivered))
    \<and> st_revision (fst (watch_step ?wid a (s, published, delivered))) = revision_after (st_revision s) a"
  proof cases
    case publish
    then show ?thesis
      using assms(1) stream_ok_publish[of request stream delivered _ "st_revision s + 1" ?wid] stream_ended_more
      by (auto simp: st watch_run_ok_def commit_mutation_watch_fields publish_pending_bound split: option.splits)
  next
    case own
    have "st_revision (fst (watch_step ?wid a (s, published, delivered))) = revision_after (st_revision s) a"
      using own by (auto simp: poll_watch_def request_watch_progress_def cancel_watch_def split: option.splits list.splits)
    then show ?thesis using own_watcher_step[OF assms(1)[unfolded st] refl own] by simp
  next
    case other
    then have "owed_for request (st_revision s) a = []" "revision_after (st_revision s) a = st_revision s"
      by (cases a; simp)+
    then show ?thesis
      using other_watcher_step[OF assms(2) other, of s published delivered] assms(1)
      by (auto simp: st watch_run_ok_def split: option.splits)
  qed
  then show "watch_run_ok request (stream @ owed_for request (st_revision (fst st)) a) (watch_step ?wid a st)"
    "st_revision (fst (watch_step ?wid a st)) = revision_after (st_revision (fst st)) a"
    by (simp_all add: st)
qed

lemma watch_run_ok_fold:
  assumes "watch_run_ok request stream st" "\<not> id_reused (wq_id request) actions"
  shows "watch_run_ok request (stream @ owed request (st_revision (fst st)) actions) (fold (watch_step (wq_id request)) actions st)"
  using assms
proof (induction actions arbitrary: stream st)
  case (Cons a actions)
  then have "\<not> id_reused (wq_id request) [a]" "\<not> id_reused (wq_id request) actions" by (simp_all add: id_reused_def)
  then show ?case
    using Cons.IH[OF watch_step_ok(1)[OF Cons.prems(1)]] watch_step_ok(2)[OF Cons.prems(1)] by simp
qed simp

lemma create_watch_stream:
  assumes "store_inv s" "create_watch s request = Inr (s0, res)"
    and "watch_run (wq_id request) actions s0 = (s', published, delivered)" "\<not> id_reused (wq_id request) actions"
  obtains r started where "watch_start_revision s request = Inr r" "started = request\<lparr>wq_start_revision := r\<rparr>"
    "watch_run_ok started (due_responses started (st_history s) @ owed started (st_revision s) actions) (s', published, delivered)"
proof -
  obtain r started where r: "watch_start_revision s request = Inr r" "started = request\<lparr>wq_start_revision := r\<rparr>"
    "r \<le> st_revision s + 1"
    "length (due_responses started (st_history s)) \<le> max_watch_pending_responses (st_limits s)"
    "s0 = s\<lparr>st_watchers := omap_put (wq_id request) \<lparr>ws_request = started,
       ws_pending = due_responses started (st_history s), ws_terminal = None\<rparr> (st_watchers s)\<rparr>"
    using create_watch_Inr[OF assms(1,2)] by metis
  have "watch_run_ok started (due_responses started (st_history s)) (s0, [], [])"
    using r(2-4) by (simp add: watch_run_ok_def r(5) stream_ok_def)
  then have "watch_run_ok started (due_responses started (st_history s) @ owed started (st_revision s) actions) (s', published, delivered)"
    using watch_run_ok_fold[of started _ "(s0, [], [])" actions] assms(3,4) r(2,5)
    by (simp add: watch_run_def)
  then show ?thesis using that r(1,2) by blast
qed

text \<open>
  C10.  A watcher delivers its stream without loss, repetition or reordering.  Take any run of
  mutations and of calls that create, poll, cancel and request progress on this and on other
  watches, in which the ID is not given to a new watch.  The stream consists of the responses due
  for the history the watch was created on, followed by those due for the batches published since
  and one for each progress request, in the order in which they happened, for the request as it
  was made with its start revision resolved.  While the watcher is there and has not overflowed,
  what it has delivered followed by what it has pending is exactly that stream; after an overflow
  what it has delivered is a prefix of it; and a watcher that is gone delivered a prefix of it and
  then one final response that is marked cancelled.
\<close>

theorem watch_stream_complete:
  assumes "store_inv s" "create_watch s request = Inr (s0, res)"
    and "watch_run (wq_id request) actions s0 = (s', published, delivered)" "\<not> id_reused (wq_id request) actions"
  shows "\<exists>r started stream. watch_start_revision s request = Inr r \<and> started = request\<lparr>wq_start_revision := r\<rparr>
    \<and> stream = due_responses started (st_history s) @ owed started (st_revision s) actions
    \<and> (case omap_find (st_watchers s') (wq_id request) of
         Some w \<Rightarrow> ws_request w = started \<and> (ws_terminal w = None \<longrightarrow> delivered @ ws_pending w = stream)
           \<and> (\<exists>rest. stream = delivered @ rest)
       | None \<Rightarrow> \<exists>begun final rest. delivered = begun @ [final] \<and> stream = begun @ rest
           \<and> wr_cancelled final \<and> wr_events final = [])"
proof -
  obtain r started where r: "watch_start_revision s request = Inr r" "started = request\<lparr>wq_start_revision := r\<rparr>"
    "watch_run_ok started (due_responses started (st_history s) @ owed started (st_revision s) actions) (s', published, delivered)"
    using create_watch_stream[OF assms] by metis
  show ?thesis
    by (intro exI conjI, rule r(1), rule r(2), rule refl)
      (use r(2,3) in \<open>auto simp: watch_run_ok_def stream_ok_def stream_ended_def ends_stream_def split: option.splits\<close>)
qed

section \<open>Replay and live delivery agree\<close>

definition publishes :: "watch_action list \<Rightarrow> bool" where
  "publishes actions \<longleftrightarrow> list_all (\<lambda>a. case a of Publish vs L events \<Rightarrow> True | _ \<Rightarrow> False) actions"

definition history_run_ok :: "event_batch list \<Rightarrow> watch_run_state \<Rightarrow> bool" where
  "history_run_ok history st = (case st of (s, published, delivered) \<Rightarrow>
     map eb_revision (st_history s) = [st_compact_revision s + 1..st_revision s]
     \<and> st_compact_revision s \<le> st_revision s
     \<and> (\<exists>dropped. history @ published = dropped @ st_history s
          \<and> (\<forall>b \<in> set dropped. eb_revision b \<le> st_compact_revision s))
     \<and> (\<forall>b \<in> set history \<union> set published. eb_revision b \<le> st_revision s))"

lemma trim_history_dropped:
  assumes "trim_history limit h c = (h', c')" "sorted_wrt (<) (map eb_revision h)"
    "\<forall>b \<in> set h. c < eb_revision b"
  shows "\<exists>dropped. h = dropped @ h' \<and> (\<forall>b \<in> set dropped. eb_revision b \<le> c') \<and> c \<le> c'"
  using assms
proof (induction h arbitrary: c)
  case Nil
  then show ?case by simp
next
  case (Cons b bs)
  show ?case
  proof (cases "length (b # bs) > limit")
    case True
    then have "\<exists>dropped. bs = dropped @ h' \<and> (\<forall>x \<in> set dropped. eb_revision x \<le> c') \<and> eb_revision b \<le> c'"
      using Cons.IH[of "eb_revision b"] Cons.prems by simp
    then obtain dropped where "bs = dropped @ h'" "\<forall>x \<in> set dropped. eb_revision x \<le> c'" "eb_revision b \<le> c'"
      by blast
    then show ?thesis using Cons.prems(3) by (intro exI[of _ "b # dropped"]) auto
  next
    case False
    then show ?thesis using Cons.prems(1) by simp
  qed
qed

lemma history_step_ok:
  assumes "history_run_ok history (s, published, delivered)"
  shows "history_run_ok history (watch_step wid (Publish vs L events) (s, published, delivered))"
proof -
  let ?b = "\<lparr>eb_revision = st_revision s + 1, eb_events = events\<rparr>"
  let ?c = "st_compact_revision s"
  have rev: "map eb_revision (st_history s @ [?b]) = [?c + 1..st_revision s + 1]" "?c \<le> st_revision s + 1"
    using assms by (auto simp: history_run_ok_def upto_snoc)
  obtain dropped where dropped: "history @ published = dropped @ st_history s"
    "\<forall>b \<in> set dropped. eb_revision b \<le> ?c"
    using assms by (auto simp: history_run_ok_def)
  obtain h' c' where trim: "trim_history (max_watch_history_revisions (st_limits s)) (st_history s @ [?b]) ?c = (h', c')"
    by fastforce
  have "sorted_wrt (<) (map eb_revision (st_history s @ [?b]))" unfolding rev(1) by (rule sorted_wrt_upto)
  moreover have "\<forall>b \<in> set (st_history s @ [?b]). ?c < eb_revision b"
  proof
    fix b
    assume "b \<in> set (st_history s @ [?b])"
    then have "eb_revision b \<in> set [?c + 1..st_revision s + 1]"
      unfolding rev(1)[symmetric] by (simp only: set_map image_eqI)
    then show "?c < eb_revision b" by simp
  qed
  ultimately obtain d2 where d2: "st_history s @ [?b] = d2 @ h'" "\<forall>b \<in> set d2. eb_revision b \<le> c'" "?c \<le> c'"
    using trim_history_dropped[OF trim] by blast
  have "history @ published @ [?b] = (dropped @ d2) @ h'"
    using dropped(1) d2(1) by (metis append.assoc)
  moreover have "\<forall>b \<in> set (dropped @ d2). eb_revision b \<le> c'" using dropped(2) d2(2,3) by auto
  ultimately have "\<exists>dropped. history @ published @ [?b] = dropped @ h' \<and> (\<forall>b \<in> set dropped. eb_revision b \<le> c')"
    by blast
  moreover have "\<forall>b \<in> set history \<union> set (published @ [?b]). eb_revision b \<le> st_revision s + 1"
    using assms by (force simp: history_run_ok_def)
  ultimately show ?thesis
    using trim_history_spec[OF rev trim]
    by (simp add: history_run_ok_def commit_mutation_watch_fields trim)
qed

lemma history_run_ok_fold:
  assumes "publishes actions" "history_run_ok history st"
  shows "history_run_ok history (fold (watch_step wid) actions st)"
  using assms
proof (induction actions arbitrary: st)
  case (Cons a actions)
  obtain s p d where st: "st = (s, p, d)" by (cases st)
  obtain vs L events where a: "a = Publish vs L events" using Cons.prems(1) by (cases a) (simp_all add: publishes_def)
  show ?case
    using Cons history_step_ok[of history s p d wid vs L events] by (simp add: st a publishes_def)
qed simp

lemma publish_run_same_batches:
  assumes "publishes actions" "st_revision s = st_revision t" "st_limits s = st_limits t"
    "st_watchers s = omap_put wid w (st_watchers t)" "\<not> omap_has (st_watchers t) wid"
  shows "\<exists>w'. case (fold (watch_step wid) actions (s, p, d), fold (watch_step wid) actions (t, p, d)) of
      ((s', p1, d1), (t', p2, d2)) \<Rightarrow> p1 = p2 \<and> d1 = d \<and> d2 = d \<and> st_revision s' = st_revision t'
        \<and> st_limits s' = st_limits s \<and> st_limits t' = st_limits s
        \<and> st_watchers s' = omap_put wid w' (st_watchers t') \<and> \<not> omap_has (st_watchers t') wid
        \<and> omap_size (st_watchers t') = omap_size (st_watchers t)"
  using assms
proof (induction actions arbitrary: s t p w)
  case Nil
  then show ?case by auto
next
  case (Cons a actions)
  obtain vs L events where a: "a = Publish vs L events" using Cons.prems(1) by (cases a) (simp_all add: publishes_def)
  let ?f = "\<lambda>x. commit_mutation x vs L (st_revision x + 1) events"
  let ?pub = "publish_to_watcher (max_watch_pending_responses (st_limits t)) events (st_revision t + 1)"
  have "omap_map ?pub (omap_put wid w (st_watchers t)) = omap_put wid (?pub wid w) (omap_map ?pub (st_watchers t))"
    by (rule om.ext_finds) simp
  then have "st_watchers (?f s) = omap_put wid (?pub wid w) (st_watchers (?f t))"
    "\<not> omap_has (st_watchers (?f t)) wid"
    "omap_size (st_watchers (?f t)) = omap_size (st_watchers t)"
    using Cons.prems(2-5) by (simp_all add: commit_mutation_watch_fields omap_has_def)
  then show ?case
    using Cons.IH[of "?f s" "?f t" "?pub wid w"] Cons.prems(1-3) by (simp add: a publishes_def)
qed

lemma watch_run_revision:
  assumes "watch_run wid actions s = (t, published, delivered)"
  shows "st_revision s \<le> st_revision t"
proof -
  have step: "st_revision x \<le> st_revision (fst (watch_step wid a (x, p, d)))" for a x p d
    by (cases a) (auto simp: create_watch_def poll_watch_def request_watch_progress_def cancel_watch_def Let_def result_simps
        split: sum.splits option.splits list.splits)
  have "st_revision (fst st) \<le> st_revision (fst (fold (watch_step wid) actions st))" for st
  proof (induction actions arbitrary: st)
    case (Cons a actions)
    have "st_revision (fst st) \<le> st_revision (fst (watch_step wid a st))"
      using step[of "fst st" a "fst (snd st)" "snd (snd st)"] by simp
    also have "\<dots> \<le> st_revision (fst (fold (watch_step wid) actions (watch_step wid a st)))" by (rule Cons.IH)
    finally show ?case by simp
  qed simp
  from this[of "(s, [], [])"] show ?thesis using assms by (simp add: watch_run_def)
qed

lemma due_responses_skip:
  "\<forall>b \<in> set bs. eb_revision b < wq_start_revision request \<Longrightarrow> due_responses request bs = []"
  by (auto simp: due_responses_def filter_empty_conv)

lemma owed_publishes:
  assumes "publishes actions" "fold (watch_step wid) actions (s, p, d) = (t, published, delivered)"
  shows "due_responses request p @ owed request (st_revision s) actions = due_responses request published"
  using assms
proof (induction actions arbitrary: s p)
  case (Cons a actions)
  obtain vs L events where a: "a = Publish vs L events" using Cons.prems(1) by (cases a) (simp_all add: publishes_def)
  show ?case
    using Cons.IH[of "commit_mutation s vs L (st_revision s + 1) events"
        "p @ [\<lparr>eb_revision = st_revision s + 1, eb_events = events\<rparr>]"] Cons.prems
    by (simp add: a publishes_def commit_mutation_watch_fields due_responses_def)
qed simp

lemma watch_start_next:
  "wq_start_revision request = 0 \<Longrightarrow> watch_start_revision s request = Inr r \<Longrightarrow> r = st_revision s + 1"
  by (simp add: watch_start_revision_def and_then_eq_Inr split: if_splits)

lemma publishes_no_reuse: "publishes actions \<Longrightarrow> \<not> id_reused wid actions"
  by (induction actions) (auto simp: publishes_def id_reused_def split: watch_action.splits)

text \<open>A watch may be created on a later store at the first revision after the earlier one.\<close>

lemma create_watch_succeeds:
  assumes "validate_watch_request s request = Inr ()" "wq_start_revision request = 0"
    and "omap_size (st_watchers t) = omap_size (st_watchers s)" "st_limits t = st_limits s"
    and "\<not> omap_has (st_watchers t) (wq_id request)" "st_compact_revision t < r" "r \<le> st_revision t + 1"
    and "0 < r" "r \<le> int64_max"
    and "length (due_responses (request\<lparr>wq_start_revision := r\<rparr>) (st_history t))
      \<le> max_watch_pending_responses (st_limits t)"
  shows "create_watch t (request\<lparr>wq_start_revision := r\<rparr>) = Inr (t\<lparr>st_watchers := omap_put (wq_id request)
      \<lparr>ws_request = request\<lparr>wq_start_revision := r\<rparr>,
       ws_pending = due_responses (request\<lparr>wq_start_revision := r\<rparr>) (st_history t), ws_terminal = None\<rparr>
      (st_watchers t)\<rparr>, event_response (st_revision t) (wq_id request) [])"
proof -
  have "validate_watch_request t (request\<lparr>wq_start_revision := r\<rparr>) = Inr ()"
    using assms(1,3-5,8) by (auto simp: validate_watch_request_def split: if_splits)
  moreover have "watch_start_revision t (request\<lparr>wq_start_revision := r\<rparr>) = Inr r"
    using assms(6-9) by (auto simp: watch_start_revision_def)
  moreover have "fold_result (replay_batch (max_watch_pending_responses (st_limits t))
      (request\<lparr>wq_start_revision := r\<rparr>)) (st_history t) []
      = Inr (due_responses (request\<lparr>wq_start_revision := r\<rparr>) (st_history t))"
    using assms(10) unfolding replay_due by simp
  ultimately show ?thesis by (simp add: create_watch_def Let_def)
qed

text \<open>
  C12.  Replay and live delivery agree: take a watch created on a store for the revisions to
  come, and any mutations after it that do not overflow its queue.  Had the watch been created
  only after those mutations, with the revision following the original store as its start, the
  creation would succeed as long as that revision is not compacted, and give a watcher in the
  same state.
\<close>

theorem watch_replay_is_live:
  assumes inv: "store_inv s" and create: "create_watch s request = Inr (s0, res)"
    and start: "wq_start_revision request = 0" and pub: "publishes actions"
    and live: "watch_run (wq_id request) actions s0 = (s1, published, delivered)"
    and later: "watch_run (wq_id request) actions s = (t, published', delivered')"
    and w: "omap_find (st_watchers s1) (wq_id request) = Some w" "ws_terminal w = None"
    and kept: "st_compact_revision t \<le> st_revision s"
  shows "\<exists>t' res'. create_watch t (request\<lparr>wq_start_revision := st_revision s + 1\<rparr>) = Inr (t', res')
    \<and> omap_find (st_watchers t') (wq_id request) = Some w"
proof -
  let ?wid = "wq_id request"
  let ?req = "request\<lparr>wq_start_revision := st_revision s + 1\<rparr>"
  have h: "history_ok (st_history s) (st_compact_revision s) (st_revision s)" "st_revision s \<le> int64_max"
    using inv by (simp_all add: store_inv_def)
  have valid: "validate_watch_request s request = Inr ()" "st_revision s \<noteq> int64_max"
    using create start by (auto simp: create_watch_def watch_start_revision_def result_simps split: if_splits)
  obtain w0 where s0: "s0 = s\<lparr>st_watchers := omap_put ?wid w0 (st_watchers s)\<rparr>"
    "\<not> omap_has (st_watchers s) ?wid"
    using create_watch_Inr[OF inv create] by metis
  obtain w' where same: "published = published'" "delivered = []" "st_revision s1 = st_revision t"
    "st_limits t = st_limits s" "\<not> omap_has (st_watchers t) ?wid" "st_limits s1 = st_limits s"
    "omap_size (st_watchers t) = omap_size (st_watchers s)"
    using publish_run_same_batches[OF pub, of s0 s ?wid w0 "[]" "[]"] live later s0
    by (auto simp: watch_run_def)
  have "history_run_ok (st_history s) (s, [], [])"
    using h(1) history_bounds[OF h(1)] by (auto simp: history_run_ok_def history_ok_def)
  from history_run_ok_fold[OF pub this, of ?wid]
  obtain dropped where t: "st_history s @ published' = dropped @ st_history t"
    "\<forall>b \<in> set dropped. eb_revision b \<le> st_compact_revision t"
    using later by (auto simp: watch_run_def history_run_ok_def)
  have "watch_run_ok ?req (due_responses ?req (st_history s) @ owed ?req (st_revision s) actions) (s1, published, delivered)"
    using create_watch_stream[OF inv create live publishes_no_reuse[OF pub]] start watch_start_next by metis
  moreover have "due_responses ?req (st_history s) @ owed ?req (st_revision s) actions = due_responses ?req (st_history s @ published)"
    using owed_publishes[OF pub, of ?wid s0 "[]" "[]"] live s0(1) by (simp add: watch_run_def due_responses_def)
  ultimately have ws: "ws_request w = ?req" "due_responses ?req (st_history s @ published) = ws_pending w"
    "length (ws_pending w) \<le> max_watch_pending_responses (st_limits s)"
    using w same(2,6) by (auto simp: stream_ok_def watch_run_ok_def)
  have "\<forall>b \<in> set dropped. eb_revision b < wq_start_revision ?req" using t(2) kept by auto
  then have pending: "due_responses ?req (st_history t) = ws_pending w"
    using ws(2) due_responses_skip[of dropped ?req] unfolding same(1) t(1) by simp
  have "st_revision s \<le> st_revision t"
    using watch_run_revision[OF later] .
  then have "create_watch t ?req = Inr (t\<lparr>st_watchers := omap_put ?wid
      \<lparr>ws_request = ?req, ws_pending = due_responses ?req (st_history t), ws_terminal = None\<rparr>
      (st_watchers t)\<rparr>, event_response (st_revision t) ?wid [])"
    using kept ws(3) pending h valid(2)
    by (intro create_watch_succeeds[OF valid(1) start same(7,4,5)]) (auto simp: history_ok_def same(4,6))
  moreover have "w = \<lparr>ws_request = ?req, ws_pending = due_responses ?req (st_history t), ws_terminal = None\<rparr>"
    using ws(1) w(2) pending by simp
  ultimately show ?thesis by simp
qed

end
