(* ===== verification/Store_Snapshot.thy ===== *)
theory Store_Snapshot
  imports Store_Lease
begin

text \<open>
  Snapshots of the store (\<open>snapshot\<close>) and the two constructors that load a state: from initial
  key-value records and from a snapshot.  The lemmas show that loading a snapshot of a
  well-formed store gives that store back up to its watch state, and that every state a
  constructor accepts is well formed, up to fencing tokens that two leases of a snapshot share.
\<close>

section \<open>Operations\<close>

definition snapshot :: "store \<Rightarrow> store_snapshot" where
  "snapshot s =
     \<lparr>sn_values = omap_values (st_values s),
      sn_leases = map (\<lambda>(lid, l). lease_record_locked lid l) (omap_items (st_leases s)),
      sn_revision = st_revision s, sn_logical_tick = st_logical_tick s,
      sn_next_lease_id = st_next_lease_id s, sn_next_fencing_token = st_next_fencing_token s\<rparr>"

definition load_initial_value :: "int \<Rightarrow> key_value \<Rightarrow> value_map \<Rightarrow> value_map result" where
  "load_initial_value initial_revision v vs =
     and_then (validate_key (kv_key v)) (\<lambda>_.
     and_then (throw_if (kv_version v \<le> 0 \<or> kv_create_revision v \<le> 0
          \<or> kv_mod_revision v < kv_create_revision v \<or> kv_mod_revision v > initial_revision
          \<or> kv_lease_id v \<noteq> 0) (Invalid_Argument ''invalid initial key metadata'')) (\<lambda>_.
     if omap_has vs (kv_key v) then Inl (Invalid_Argument ''duplicate initial key'')
     else Inr (omap_put (kv_key v) v vs)))"

definition store_of_values :: "key_value list \<Rightarrow> int \<Rightarrow> store_limits \<Rightarrow> store result" where
  "store_of_values initial_values initial_revision limits =
     and_then (store_create initial_revision limits) (\<lambda>s.
     and_then (fold_result (load_initial_value initial_revision) initial_values omap_empty) (\<lambda>vs.
     Inr (s\<lparr>st_values := vs\<rparr>)))"

definition load_attachment :: "byte_sequence \<Rightarrow> byte_sequence oset \<Rightarrow> byte_sequence oset result" where
  "load_attachment key keys =
     and_then (validate_key key) (\<lambda>_.
     if oset_member key keys then Inl (Invalid_Argument ''duplicate snapshot lease attachment'')
     else Inr (oset_insert key keys))"

definition load_lease :: "lease_record \<Rightarrow> lease_map \<Rightarrow> lease_map result" where
  "load_lease r leases =
     and_then (throw_if (lr_id r \<le> 0 \<or> lr_id r > maximum_lease_id \<or> lr_fencing_token r = 0
        \<or> lr_granted_ttl r = 0) (Invalid_Argument ''invalid snapshot lease'')) (\<lambda>_.
     and_then (fold_result load_attachment (lr_attached_keys r) oset_empty) (\<lambda>keys.
     if omap_has leases (lr_id r) then Inl (Invalid_Argument ''duplicate snapshot lease'')
     else Inr (omap_put (lr_id r)
       \<lparr>sl_fencing_token = lr_fencing_token r, sl_granted_ttl = lr_granted_ttl r,
        sl_expiry_tick = lr_expiry_tick r, sl_attached_keys = keys\<rparr> leases)))"

definition load_value :: "int \<Rightarrow> lease_map \<Rightarrow> key_value \<Rightarrow> value_map \<Rightarrow> value_map result" where
  "load_value r leases v vs =
     and_then (validate_key (kv_key v)) (\<lambda>_.
     and_then (throw_if (kv_version v \<le> 0 \<or> kv_create_revision v \<le> 0
          \<or> kv_mod_revision v < kv_create_revision v \<or> kv_mod_revision v > r \<or> kv_lease_id v < 0)
        (Invalid_Argument ''invalid snapshot key metadata'')) (\<lambda>_.
     and_then (throw_if (omap_has vs (kv_key v)) (Invalid_Argument ''duplicate snapshot key'')) (\<lambda>_.
     and_then (throw_if (kv_lease_id v \<noteq> 0 \<and> (case omap_find leases (kv_lease_id v) of
          None \<Rightarrow> True | Some l \<Rightarrow> \<not> oset_member (kv_key v) (sl_attached_keys l)))
        (Invalid_Argument ''snapshot key attachment is inconsistent'')) (\<lambda>_.
     Inr (omap_put (kv_key v) v vs)))))"

definition check_attachment :: "value_map \<Rightarrow> lease_id \<Rightarrow> byte_sequence \<Rightarrow> unit \<Rightarrow> unit result" where
  "check_attachment vs lid key u =
     throw_if (case omap_find vs key of None \<Rightarrow> True | Some v \<Rightarrow> kv_lease_id v \<noteq> lid)
       (Invalid_Argument ''snapshot lease attachment is inconsistent'')"

definition check_lease :: "value_map \<Rightarrow> int \<Rightarrow> fencing_token \<Rightarrow> lease_id \<times> stored_lease \<Rightarrow> unit \<Rightarrow> unit result" where
  "check_lease vs next_id next_token entry u =
     and_then (throw_if (fst entry \<ge> next_id \<or> sl_fencing_token (snd entry) \<ge> next_token)
        (Invalid_Argument ''snapshot allocation counters are not ahead of leases'')) (\<lambda>_.
     fold_result (check_attachment vs (fst entry)) (oset_elems (sl_attached_keys (snd entry))) ())"

definition store_of_snapshot :: "store_snapshot \<Rightarrow> store_limits \<Rightarrow> store result" where
  "store_of_snapshot sn limits =
     and_then (throw_if (sn_revision sn < 0 \<or> sn_next_lease_id sn \<le> 0 \<or> sn_next_fencing_token sn = 0)
        (Invalid_Argument ''invalid snapshot counters'')) (\<lambda>_.
     and_then (throw_if (length (sn_leases sn) > max_active_leases limits)
        (Store_Error Status_quota_exceeded ''lease snapshot exceeds active lease limit'' 0)) (\<lambda>_.
     and_then (fold_result load_lease (sn_leases sn) omap_empty) (\<lambda>leases.
     and_then (fold_result (load_value (sn_revision sn) leases) (sn_values sn) omap_empty) (\<lambda>vs.
     and_then (fold_result (check_lease vs (sn_next_lease_id sn) (sn_next_fencing_token sn))
        (omap_items leases) ()) (\<lambda>_.
     Inr \<lparr>st_values = vs, st_limits = limits, st_revision = sn_revision sn,
          st_compact_revision = sn_revision sn, st_history = [], st_watchers = omap_empty,
          st_leases = leases, st_logical_tick = sn_logical_tick sn,
          st_next_lease_id = sn_next_lease_id sn,
          st_next_fencing_token = sn_next_fencing_token sn\<rparr>)))))"

section \<open>Rebuilding ordered maps\<close>

lemma fold_result_unit:
  "(\<And>x. x \<in> set xs \<Longrightarrow> f x () = Inr ()) \<Longrightarrow> fold_result f xs () = Inr ()"
  by (induction xs) auto

lemma fold_result_puts:
  assumes "distinct (map key xs)" "\<forall>x \<in> set xs. \<not> omap_has m (key x)"
    and "\<And>x n. x \<in> set xs \<Longrightarrow> \<not> omap_has n (key x) \<Longrightarrow> f x n = Inr (omap_put (key x) (val x) n)"
  shows "fold_result f xs m = Inr (fold (\<lambda>x. omap_put (key x) (val x)) xs m)"
  using assms
proof (induction xs arbitrary: m)
  case (Cons x xs)
  then have "f x m = Inr (omap_put (key x) (val x) m)" by simp
  moreover have "\<forall>y \<in> set xs. \<not> omap_has (omap_put (key x) (val x) m) (key y)"
    using Cons.prems(1,2) by (force simp: image_iff)
  ultimately show ?case using Cons by simp
qed simp

lemma omap_find_fold_put:
  assumes "distinct (map key xs)"
  shows "omap_find (fold (\<lambda>x. omap_put (key x) (val x)) xs m) k
    = (case map_of (map (\<lambda>x. (key x, val x)) xs) k of Some v \<Rightarrow> Some v | None \<Rightarrow> omap_find m k)"
  using assms
proof (induction xs arbitrary: m)
  case (Cons x xs)
  have "map_of (map (\<lambda>x. (key x, val x)) xs) (key x) = None"
    using Cons.prems by (auto simp: map_of_eq_None_iff)
  then show ?case using Cons by (auto split: option.splits)
qed simp

lemma fold_put_items:
  assumes "map (\<lambda>x. (key x, val x)) xs = omap_items m"
  shows "fold (\<lambda>x. omap_put (key x) (val x)) xs omap_empty = m"
proof (rule om.ext_finds)
  fix k
  have "map key xs = map fst (omap_items m)" unfolding assms[symmetric] by simp
  then have "distinct (map key xs)" using om.items_distinct[of m] by simp
  then show "omap_find (fold (\<lambda>x. omap_put (key x) (val x)) xs omap_empty) k = omap_find m k"
    by (simp add: omap_find_fold_put assms omap_find_def[symmetric] split: option.splits)
qed

lemma rebuild_omap:
  assumes "map (\<lambda>x. (key x, val x)) xs = omap_items m"
    and "\<And>x n. x \<in> set xs \<Longrightarrow> \<not> omap_has n (key x) \<Longrightarrow> f x n = Inr (omap_put (key x) (val x) n)"
  shows "fold_result f xs omap_empty = Inr m"
proof -
  have "map key xs = map fst (omap_items m)" unfolding assms(1)[symmetric] by simp
  then have "distinct (map key xs)" using om.items_distinct[of m] by simp
  then have "fold_result f xs omap_empty = Inr (fold (\<lambda>x. omap_put (key x) (val x)) xs omap_empty)"
    using assms(2) by (intro fold_result_puts) auto
  then show ?thesis by (simp add: fold_put_items[OF assms(1)])
qed

section \<open>Round trip\<close>

lemma load_attachments_of_lease:
  assumes "store_inv s" "omap_find (st_leases s) lid = Some l"
  shows "fold_result load_attachment (oset_elems (sl_attached_keys l)) oset_empty = Inr (sl_attached_keys l)"
  unfolding oset_empty_def
proof (rule rebuild_omap[where key = "\<lambda>k. k" and val = "\<lambda>k. ()"])
  show "map (\<lambda>k. (k, ())) (oset_elems (sl_attached_keys l)) = omap_items (sl_attached_keys l)"
    unfolding oset_elems_def omap_keys_def by (auto simp: comp_def intro!: map_idI)
  fix k and n :: "byte_sequence oset"
  assume k: "k \<in> set (oset_elems (sl_attached_keys l))" and n: "\<not> omap_has n k"
  obtain v where "omap_find (st_values s) k = Some v" by (rule attached_value[OF assms k])
  then have "k \<noteq> []" using store_inv_kv[OF assms(1)] by (auto simp: kv_ok_def)
  then show "load_attachment k n = Inr (omap_put k () n)"
    using n by (simp add: load_attachment_def validate_key_def oset_member_def oset_insert_def)
qed

lemma load_leases_of_snapshot:
  assumes inv: "store_inv s"
  shows "fold_result load_lease (sn_leases (snapshot s)) omap_empty = Inr (st_leases s)"
proof (rule rebuild_omap[where key = lr_id and val = "\<lambda>r. \<lparr>sl_fencing_token = lr_fencing_token r,
      sl_granted_ttl = lr_granted_ttl r, sl_expiry_tick = lr_expiry_tick r,
      sl_attached_keys = oset_of_list (lr_attached_keys r)\<rparr>"])
  show "map (\<lambda>r. (lr_id r, \<lparr>sl_fencing_token = lr_fencing_token r,
      sl_granted_ttl = lr_granted_ttl r, sl_expiry_tick = lr_expiry_tick r,
      sl_attached_keys = oset_of_list (lr_attached_keys r)\<rparr>)) (sn_leases (snapshot s))
      = omap_items (st_leases s)"
    by (auto simp: snapshot_def lease_record_locked_def intro!: map_idI)
  fix r :: lease_record and n :: lease_map
  assume "r \<in> set (sn_leases (snapshot s))" and n: "\<not> omap_has n (lr_id r)"
  then obtain lid l where l: "omap_find (st_leases s) lid = Some l" "r = lease_record_locked lid l"
    by (auto simp: snapshot_def om.finds_iff)
  then have "0 < lid" "lid \<le> maximum_lease_id" "sl_fencing_token l \<noteq> 0" "sl_granted_ttl l \<noteq> 0"
    using store_inv_parts(2)[OF inv] by (auto simp: leases_ok_def)
  then show "load_lease r n = Inr (omap_put (lr_id r) \<lparr>sl_fencing_token = lr_fencing_token r,
      sl_granted_ttl = lr_granted_ttl r, sl_expiry_tick = lr_expiry_tick r,
      sl_attached_keys = oset_of_list (lr_attached_keys r)\<rparr> n)"
    using n by (simp add: load_lease_def l(2) lease_record_locked_def load_attachments_of_lease[OF inv l(1)])
qed

lemma load_values_of_snapshot:
  assumes inv: "store_inv s"
  shows "fold_result (load_value (st_revision s) (st_leases s)) (sn_values (snapshot s)) omap_empty
    = Inr (st_values s)"
proof (rule rebuild_omap[where key = kv_key and val = "\<lambda>v. v"])
  have "kv_key v = k" if "(k, v) \<in> set (omap_items (st_values s))" for k v
    using that store_inv_kv[OF inv] by (auto simp: om.finds_iff[symmetric] kv_ok_def)
  then show "map (\<lambda>v. (kv_key v, v)) (sn_values (snapshot s)) = omap_items (st_values s)"
    by (auto simp: snapshot_def omap_values_def intro!: map_idI)
  fix v and n :: value_map
  assume "v \<in> set (sn_values (snapshot s))" and n: "\<not> omap_has n (kv_key v)"
  then have v: "omap_find (st_values s) (kv_key v) = Some v"
    by (simp add: snapshot_def store_values_keys(2)[OF inv])
  then have "kv_ok (st_revision s) (kv_key v) v" by (rule store_inv_kv[OF inv])
  moreover have "kv_lease_id v \<noteq> 0 \<Longrightarrow> attached (st_leases s) (kv_lease_id v) (kv_key v)"
    using v store_inv_parts(1)[OF inv] unfolding index_ok_def by blast
  ultimately show "load_value (st_revision s) (st_leases s) v n = Inr (omap_put (kv_key v) v n)"
    using n by (auto simp: load_value_def validate_key_def kv_ok_def attached_def throw_if_def)
qed

lemma check_leases_of_snapshot:
  assumes inv: "store_inv s"
  shows "fold_result (check_lease (st_values s) (st_next_lease_id s) (st_next_fencing_token s))
    (omap_items (st_leases s)) () = Inr ()"
proof (rule fold_result_unit)
  fix entry
  assume "entry \<in> set (omap_items (st_leases s))"
  then obtain lid l where e: "entry = (lid, l)" "omap_find (st_leases s) lid = Some l"
    by (metis om.finds_iff surj_pair)
  have "fold_result (check_attachment (st_values s) lid) (oset_elems (sl_attached_keys l)) () = Inr ()"
  proof (rule fold_result_unit)
    fix k
    assume "k \<in> set (oset_elems (sl_attached_keys l))"
    then obtain v where "omap_find (st_values s) k = Some v" "kv_lease_id v = lid"
      using attached_value[OF inv e(2)] by metis
    then show "check_attachment (st_values s) lid k () = Inr ()" by (simp add: check_attachment_def)
  qed
  moreover have "lid < st_next_lease_id s" "sl_fencing_token l < st_next_fencing_token s"
    using store_inv_parts(2)[OF inv] e(2) by (auto simp: leases_ok_def)
  ultimately show "check_lease (st_values s) (st_next_lease_id s) (st_next_fencing_token s) entry () = Inr ()"
    by (simp add: check_lease_def e(1) throw_if_def not_le[symmetric])
qed

text \<open>
  C15.  A snapshot loses nothing but the watch state: constructing a store from the snapshot of
  a well-formed store succeeds and gives back its keys, leases, attachment index, clock and
  allocation counters, with the compaction boundary at the snapshot's revision and no watchers;
  and a snapshot of the result is the same snapshot.
\<close>

theorem snapshot_roundtrip:
  assumes "store_inv s"
  shows "store_of_snapshot (snapshot s) (st_limits s)
      = Inr (s\<lparr>st_compact_revision := st_revision s, st_history := [], st_watchers := omap_empty\<rparr>)
    \<and> snapshot (s\<lparr>st_compact_revision := st_revision s, st_history := [], st_watchers := omap_empty\<rparr>)
      = snapshot s"
proof -
  have "length (sn_leases (snapshot s)) \<le> max_active_leases (st_limits s)"
    using store_inv_parts(2)[OF assms] by (simp add: leases_ok_def snapshot_def omap_size_def)
  moreover have "0 \<le> st_revision s" "0 < st_next_lease_id s" "st_next_fencing_token s \<noteq> 0"
    using store_inv_revision_nonneg[OF assms] assms by (auto simp: store_inv_def)
  moreover have "sn_revision (snapshot s) = st_revision s" "sn_next_lease_id (snapshot s) = st_next_lease_id s"
    "sn_next_fencing_token (snapshot s) = st_next_fencing_token s" "sn_logical_tick (snapshot s) = st_logical_tick s"
    by (simp_all add: snapshot_def)
  ultimately show ?thesis
    by (simp add: store_of_snapshot_def load_leases_of_snapshot[OF assms] load_values_of_snapshot[OF assms]
        check_leases_of_snapshot[OF assms]) (simp add: snapshot_def)
qed

section \<open>Constructed stores are well formed\<close>

lemma fold_result_unit_all:
  "fold_result f xs () = Inr () \<Longrightarrow> x \<in> set xs \<Longrightarrow> f x () = Inr ()"
  by (induction xs) (auto simp: result_simps)

lemma store_create_inv:
  assumes "store_create r limits = Inr s" "r \<le> int64_max"
  shows "store_inv s"
proof -
  have "0 \<le> r" and s: "s = \<lparr>st_values = omap_empty, st_limits = limits, st_revision = r,
        st_compact_revision = r, st_history = [], st_watchers = omap_empty,
        st_leases = omap_empty, st_logical_tick = 0, st_next_lease_id = 1, st_next_fencing_token = 1\<rparr>"
    using assms(1) by (auto simp: store_create_def split: if_splits)
  then show ?thesis
    using assms(2) by (simp add: s store_inv_def history_ok_def values_ok_def index_ok_def leases_ok_def
        tokens_distinct_def watchers_ok_def attached_def int64_max_def)
qed

text \<open>The ranges the C++ types give to the fields of a record.\<close>

definition kv_range :: "key_value \<Rightarrow> bool" where
  "kv_range v \<longleftrightarrow> kv_version v \<le> int64_max"

lemma load_initial_values_ok:
  assumes "fold_result (load_initial_value r) vs omap_empty = Inr m" "\<forall>v \<in> set vs. kv_range v"
  shows "\<forall>k v. omap_find m k = Some v \<longrightarrow> kv_ok r k v \<and> kv_lease_id v = 0"
  using assms(1)
  by (rule fold_result_invariant)
    (use assms(2) in \<open>auto simp: load_initial_value_def result_simps validate_key_def kv_ok_def kv_range_def
      split: if_splits\<close>)

lemma store_of_values_inv:
  assumes "store_of_values vs r limits = Inr s" "r \<le> int64_max" "\<forall>v \<in> set vs. kv_range v"
  shows "store_inv s"
proof -
  obtain s0 m where s0: "store_create r limits = Inr s0" "fold_result (load_initial_value r) vs omap_empty = Inr m"
    "s = s0\<lparr>st_values := m\<rparr>"
    using assms(1) by (auto simp: store_of_values_def result_simps)
  have "store_inv s0" using s0(1) assms(2) by (rule store_create_inv)
  moreover have "st_leases s0 = omap_empty" "st_revision s0 = r"
    using s0(1) by (auto simp: store_create_def split: if_splits)
  ultimately show ?thesis
    using load_initial_values_ok[OF s0(2) assms(3)]
    by (simp add: s0(3) store_inv_def values_ok_def index_ok_def attached_def)
qed

definition loaded_lease :: "lease_record list \<Rightarrow> lease_id \<Rightarrow> stored_lease \<Rightarrow> bool" where
  "loaded_lease rs lid l \<longleftrightarrow> (\<exists>r \<in> set rs. lr_id r = lid \<and> lr_fencing_token r = sl_fencing_token l
     \<and> 0 < lid \<and> lid \<le> maximum_lease_id \<and> sl_fencing_token l \<noteq> 0 \<and> sl_granted_ttl l \<noteq> 0)"

lemma load_leases_all:
  assumes "fold_result load_lease rs m = Inr L"
  shows "distinct (map lr_id rs) \<and> (\<forall>r \<in> set rs. \<not> omap_has m (lr_id r))
    \<and> (\<forall>i l. omap_find m i = Some l \<longrightarrow> omap_find L i = Some l)
    \<and> (\<forall>r \<in> set rs. \<exists>l. omap_find L (lr_id r) = Some l \<and> sl_fencing_token l = lr_fencing_token r)"
  using assms
proof (induction rs arbitrary: m)
  case (Cons r rs)
  then obtain m1 where m1: "load_lease r m = Inr m1" "fold_result load_lease rs m1 = Inr L"
    by (auto simp: result_simps)
  note IH = Cons.IH[OF m1(2)]
  obtain l where l: "\<not> omap_has m (lr_id r)" "m1 = omap_put (lr_id r) l m" "sl_fencing_token l = lr_fencing_token r"
    using m1(1) by (auto simp: load_lease_def result_simps split: if_splits)
  show ?case
  proof (intro conjI ballI allI impI)
    show "distinct (map lr_id (r # rs))" using IH l(2) by (force simp: omap_has_def)
    show "\<not> omap_has m (lr_id x)" if "x \<in> set (r # rs)" for x
      using that IH l(1,2) by (fastforce simp: omap_has_def split: if_splits)
    show "omap_find L i = Some k" if "omap_find m i = Some k" for i k
      using that IH l(1,2) by (cases "i = lr_id r") (auto simp: omap_has_def)
    show "\<exists>l. omap_find L (lr_id x) = Some l \<and> sl_fencing_token l = lr_fencing_token x" if "x \<in> set (r # rs)" for x
      using that IH l(2,3) by auto
  qed
qed simp

lemma load_leases_ok:
  assumes "fold_result load_lease rs omap_empty = Inr L"
  shows "omap_find L lid = Some l \<Longrightarrow> loaded_lease rs lid l"
    "tokens_distinct L \<longleftrightarrow> distinct (map lr_fencing_token rs)" "omap_size L \<le> length rs"
proof -
  have "\<forall>lid l. omap_find L lid = Some l \<longrightarrow> loaded_lease rs lid l"
    using assms(1)
    by (rule fold_result_invariant)
      (fastforce simp: load_lease_def result_simps loaded_lease_def split: if_splits)+
  then show loaded: "omap_find L lid = Some l \<Longrightarrow> loaded_lease rs lid l" for lid l by blast
  note all = load_leases_all[OF assms]
  show "tokens_distinct L \<longleftrightarrow> distinct (map lr_fencing_token rs)"
  proof
    assume distinct_tokens: "tokens_distinct L"
    have "r = r'" if rs: "r \<in> set rs" "r' \<in> set rs" and same: "lr_fencing_token r = lr_fencing_token r'" for r r'
    proof -
      have "lr_id r = lr_id r'" using all rs same distinct_tokens unfolding tokens_distinct_def by metis
      then show ?thesis using all rs by (auto simp: distinct_map dest: inj_onD)
    qed
    then show "distinct (map lr_fencing_token rs)" using all by (auto simp: distinct_map intro: inj_onI)
  next
    assume distinct_tokens: "distinct (map lr_fencing_token rs)"
    show "tokens_distinct L"
      unfolding tokens_distinct_def
    proof (intro allI impI)
      fix i j k l
      assume "omap_find L i = Some k" "omap_find L j = Some l" "sl_fencing_token k = sl_fencing_token l"
      then obtain r r' where "r \<in> set rs" "r' \<in> set rs" "lr_id r = i" "lr_id r' = j"
        "lr_fencing_token r = lr_fencing_token r'"
        using loaded unfolding loaded_lease_def by metis
      then show "i = j" using distinct_tokens by (auto simp: distinct_map dest: inj_onD)
    qed
  qed
  have "fold_result load_lease xs m = Inr m' \<Longrightarrow> omap_size m' \<le> omap_size m + length xs" for xs m m'
  proof (induction xs arbitrary: m)
    case (Cons x xs)
    then obtain m1 where m1: "load_lease x m = Inr m1" "fold_result load_lease xs m1 = Inr m'"
      by (auto simp: result_simps)
    have "omap_size m1 \<le> Suc (omap_size m)"
      using m1(1) by (auto simp: load_lease_def result_simps split: if_splits)
    then show ?case using Cons.IH[OF m1(2)] by simp
  qed simp
  from this[OF assms(1)] show "omap_size L \<le> length rs" by simp
qed

lemma load_values_ok:
  assumes "fold_result (load_value r L) vs omap_empty = Inr m" "\<forall>v \<in> set vs. kv_range v"
  shows "\<forall>k v. omap_find m k = Some v \<longrightarrow> kv_ok r k v
    \<and> (kv_lease_id v \<noteq> 0 \<longrightarrow> attached L (kv_lease_id v) k)"
  using assms(1)
  by (rule fold_result_invariant)
    (use assms(2) in \<open>auto simp: load_value_def result_simps validate_key_def kv_ok_def kv_range_def
      attached_def split: if_splits option.splits\<close>)

lemma check_leases_ok:
  assumes "fold_result (check_lease vs n t) (omap_items L) () = Inr ()" "omap_find L lid = Some l"
  shows "lid < n" "sl_fencing_token l < t"
    "oset_member k (sl_attached_keys l) \<Longrightarrow> \<exists>v. omap_find vs k = Some v \<and> kv_lease_id v = lid"
proof -
  have "(lid, l) \<in> set (omap_items L)" using assms(2) by (simp add: om.finds_iff)
  then have check: "check_lease vs n t (lid, l) () = Inr ()" by (rule fold_result_unit_all[OF assms(1)])
  then show "lid < n" "sl_fencing_token l < t" by (auto simp: check_lease_def result_simps not_le)
  assume "oset_member k (sl_attached_keys l)"
  then have "check_attachment vs lid k () = Inr ()"
    using check fold_result_unit_all[of "check_attachment vs lid" "oset_elems (sl_attached_keys l)" k]
    by (auto simp: check_lease_def result_simps oset_member_elems)
  then show "\<exists>v. omap_find vs k = Some v \<and> kv_lease_id v = lid"
    by (auto simp: check_attachment_def result_simps split: option.splits)
qed

text \<open>
  C26.  In every store built from a snapshot the constructor accepts, the attachment index agrees
  with the keys in both directions, the allocation counters are ahead of every lease, the lease
  limit is respected and every key's revisions lie within the store's.  The store satisfies the
  whole store invariant exactly when no two leases of the snapshot share a fencing token, which
  the constructor does not check.  The fields are in the range of their C++ types.
\<close>

theorem snapshot_load_well_formed:
  assumes "store_of_snapshot sn limits = Inr s"
    and "sn_revision sn \<le> int64_max" "sn_next_lease_id sn \<le> int64_max" "\<forall>v \<in> set (sn_values sn). kv_range v"
  shows "index_ok (st_values s) (st_leases s) \<and> values_ok (st_revision s) (st_values s)
    \<and> leases_ok (st_leases s) (st_next_lease_id s) (st_next_fencing_token s) (max_active_leases limits)
    \<and> (store_inv s \<longleftrightarrow> distinct (map lr_fencing_token (sn_leases sn)))"
proof -
  obtain L vs where pre: "0 \<le> sn_revision sn" "0 < sn_next_lease_id sn" "sn_next_fencing_token sn \<noteq> 0"
      "length (sn_leases sn) \<le> max_active_leases limits"
    and L: "fold_result load_lease (sn_leases sn) omap_empty = Inr L"
    and vs: "fold_result (load_value (sn_revision sn) L) (sn_values sn) omap_empty = Inr vs"
    and chk: "fold_result (check_lease vs (sn_next_lease_id sn) (sn_next_fencing_token sn)) (omap_items L) () = Inr ()"
    and s: "s = \<lparr>st_values = vs, st_limits = limits, st_revision = sn_revision sn,
          st_compact_revision = sn_revision sn, st_history = [], st_watchers = omap_empty,
          st_leases = L, st_logical_tick = sn_logical_tick sn, st_next_lease_id = sn_next_lease_id sn,
          st_next_fencing_token = sn_next_fencing_token sn\<rparr>"
    using assms(1) by (auto simp: store_of_snapshot_def result_simps not_less)
  note leases = load_leases_ok[OF L]
  note vals = load_values_ok[OF vs assms(4)]
  have ok: "leases_ok L (sn_next_lease_id sn) (sn_next_fencing_token sn) (max_active_leases limits)"
    using leases(1) check_leases_ok(1,2)[OF chk] order_trans[OF leases(3) pre(4)]
    unfolding leases_ok_def loaded_lease_def by blast
  moreover have "index_ok vs L"
    using vals check_leases_ok(3)[OF chk] unfolding index_ok_def attached_def by blast
  moreover have "values_ok (sn_revision sn) vs" using vals by (simp add: values_ok_def)
  ultimately show ?thesis
    using pre assms(2,3) leases(2)
    by (simp add: s store_inv_def history_ok_def watchers_ok_def)
qed

end
