(* ===== verification/Machines.thy ===== *)
theory Machines
  imports Main
begin

text \<open>
  The interface of a component that is driven by a sequence of operations: its step function
  and its invariant.  The facts about whole runs are proved here once, from the law that one
  step keeps the invariant, and used for the store and for the replicated-log components.
\<close>

locale machine =
  fixes step :: "'op \<Rightarrow> 's \<Rightarrow> 's" and inv :: "'s \<Rightarrow> bool"
  assumes inv_step: "inv s \<Longrightarrow> inv (step op s)"
begin

lemma inv_run: "inv s \<Longrightarrow> inv (fold step ops s)"
  by (induction ops arbitrary: s) (simp_all add: inv_step)

lemma run_induct:
  assumes "inv s" "P s" "\<And>op s. inv s \<Longrightarrow> P s \<Longrightarrow> P (step op s)"
  shows "P (fold step ops s)"
  using assms(1,2) by (induction ops arbitrary: s) (simp_all add: inv_step assms(3))

lemma mono_run:
  fixes m :: "'s \<Rightarrow> 'm :: order"
  assumes "inv s" "\<And>op s. inv s \<Longrightarrow> m s \<le> m (step op s)"
  shows "m s \<le> m (fold step ops s)"
  by (rule run_induct[where P = "\<lambda>t. m s \<le> m t"]) (use assms order_trans in blast)+

lemma const_run:
  assumes "inv s" "\<And>op s. inv s \<Longrightarrow> f (step op s) = f s"
  shows "f (fold step ops s) = f s"
  by (rule run_induct[where P = "\<lambda>t. f t = f s"]) (use assms in auto)

end

end
