(* ===== verification/Store_Machine.thy ===== *)
theory Store_Machine
  imports Store_Transaction Store_Lease Store_Watch Store_Snapshot Machines
begin

text \<open>
  The store as a state machine over all its state-changing operations.  The invariant holds on
  every run, the revision, the clock, the compaction boundary and the fencing-token counter
  never move backwards, and a fencing token that is not held by a live lease never becomes
  valid again.
\<close>

section \<open>Steps\<close>

datatype store_operation =
    Op_put byte_sequence byte_sequence
  | Op_erase byte_sequence
  | Op_compare_and_set byte_sequence int byte_sequence
  | Op_transaction transaction_request
  | Op_grant_lease lease_grant_request
  | Op_keep_alive lease_keep_alive_request
  | Op_revoke_lease lease_revoke_request
  | Op_expire_leases lease_tick
  | Op_create_watch watch_request
  | Op_poll_watch watch_id
  | Op_request_watch_progress watch_id
  | Op_cancel_watch watch_id

fun store_step :: "store_operation \<Rightarrow> store \<Rightarrow> store" where
  "store_step (Op_put k v) s = state_after s (put s k v)"
| "store_step (Op_erase k) s = state_after s (erase s k)"
| "store_step (Op_compare_and_set k e v) s = state_after s (compare_and_set s k e v)"
| "store_step (Op_transaction r) s = state_after s (transaction s r)"
| "store_step (Op_grant_lease r) s = state_after s (grant_lease s r)"
| "store_step (Op_keep_alive r) s = state_after s (keep_alive s r)"
| "store_step (Op_revoke_lease r) s = state_after s (revoke_lease s r)"
| "store_step (Op_expire_leases t) s = state_after s (expire_leases s t)"
| "store_step (Op_create_watch r) s = state_after s (create_watch s r)"
| "store_step (Op_poll_watch w) s = state_after s (poll_watch s w)"
| "store_step (Op_request_watch_progress w) s =
     (case request_watch_progress s w of Inl e \<Rightarrow> s | Inr s' \<Rightarrow> s')"
| "store_step (Op_cancel_watch w) s = state_after s (cancel_watch s w)"

abbreviation store_run :: "store_operation list \<Rightarrow> store \<Rightarrow> store" where
  "store_run ops s \<equiv> fold store_step ops s"

section \<open>What every step keeps\<close>

text \<open>The lease identifier and token pairs that are live.\<close>

definition holds_token :: "store \<Rightarrow> lease_id \<Rightarrow> fencing_token \<Rightarrow> bool" where
  "holds_token s lid t \<longleftrightarrow> (\<exists>l. omap_find (st_leases s) lid = Some l \<and> sl_fencing_token l = t)"

text \<open>
  The relation between the stores before and after one step: counters and clocks do not move
  backwards, and a live token is an old one or a newly allocated one.
\<close>

definition advances :: "store \<Rightarrow> store \<Rightarrow> bool" where
  "advances s s' \<longleftrightarrow>
     st_revision s \<le> st_revision s' \<and> st_revision s' \<le> st_revision s + 1
   \<and> st_compact_revision s \<le> st_compact_revision s'
   \<and> st_logical_tick s \<le> st_logical_tick s'
   \<and> st_next_fencing_token s \<le> st_next_fencing_token s'
   \<and> st_next_lease_id s \<le> st_next_lease_id s'
   \<and> st_limits s' = st_limits s
   \<and> (\<forall>lid t. holds_token s' lid t \<longrightarrow> holds_token s lid t \<or> st_next_fencing_token s \<le> t)"

definition step_ok :: "store \<Rightarrow> store \<Rightarrow> bool" where
  "step_ok s s' \<longleftrightarrow> store_inv s' \<and> advances s s'"

lemma advances_refl [simp]: "advances s s"
  by (simp add: advances_def)

lemma step_ok_refl: "store_inv s \<Longrightarrow> step_ok s s"
  by (simp add: step_ok_def)

lemma holds_token_terms:
  "holds_token s lid t \<longleftrightarrow> map_option fst (map_option lease_terms (omap_find (st_leases s) lid)) = Some t"
  by (auto simp: holds_token_def lease_terms_def)

lemma same_leases_token: "same_leases (st_leases s) (st_leases s') \<Longrightarrow> holds_token s' lid t \<longleftrightarrow> holds_token s lid t"
  unfolding holds_token_terms same_leases_def by simp

lemma trim_history_mono:
  assumes "history_ok h c r"
  shows "c \<le> snd (trim_history limit (h @ [\<lparr>eb_revision = r + 1, eb_events = events\<rparr>]) c)"
proof -
  have "map eb_revision (h @ [\<lparr>eb_revision = r + 1, eb_events = events\<rparr>]) = [c + 1..r + 1]" "c \<le> r + 1"
    using assms by (auto simp: history_ok_def upto_snoc)
  then show ?thesis using trim_history_spec by (metis prod.collapse)
qed

text \<open>A mutation at the next revision that leaves the lease terms alone.\<close>

lemma commit_step_ok:
  assumes "store_inv s" "store_inv (commit_mutation s vs L (st_revision s + 1) events)"
    and "\<And>lid l. omap_find L lid = Some l \<Longrightarrow> holds_token s lid (sl_fencing_token l)" "st_logical_tick s \<le> t"
  shows "step_ok s ((commit_mutation s vs L (st_revision s + 1) events)\<lparr>st_logical_tick := t\<rparr>)"
proof -
  have "history_ok (st_history s) (st_compact_revision s) (st_revision s)"
    using assms(1) by (simp add: store_inv_def)
  from trim_history_mono[OF this] show ?thesis
    using assms by (auto simp: step_ok_def advances_def commit_mutation_watch_fields holds_token_def)
qed

text \<open>An operation that keeps the store or ends in one mutation at the next revision.\<close>

definition publishes_once :: "store \<Rightarrow> store \<Rightarrow> bool" where
  "publishes_once s s' \<longleftrightarrow> (\<exists>t. s' = s\<lparr>st_logical_tick := t\<rparr>)
     \<or> (\<exists>vs L events t. s' = (commit_mutation s vs L (st_revision s + 1) events)\<lparr>st_logical_tick := t\<rparr>)"

lemma publishes_once_step_ok:
  assumes "store_inv s" "publishes_once s s'" "store_inv s'" "st_logical_tick s \<le> st_logical_tick s'"
    and "\<And>lid t. holds_token s' lid t \<Longrightarrow> holds_token s lid t"
  shows "step_ok s s'"
  using assms(2) unfolding publishes_once_def
proof (elim disjE exE)
  fix t
  assume s': "s' = s\<lparr>st_logical_tick := t\<rparr>"
  show ?thesis using assms(3-5) unfolding step_ok_def by (simp add: advances_def s')
next
  fix vs L events t
  assume s': "s' = (commit_mutation s vs L (st_revision s + 1) events)\<lparr>st_logical_tick := t\<rparr>"
  show ?thesis
    unfolding s' using assms(1,3-5) by (intro commit_step_ok) (auto simp: s' holds_token_def)
qed

lemma publishes_once_same: "publishes_once s s"
  unfolding publishes_once_def by (metis store.surjective store.update_convs(8))

lemma publishes_once_commit: "publishes_once s (commit_mutation s vs L (st_revision s + 1) events)"
  unfolding publishes_once_def by (metis store.surjective store.update_convs(8))

lemma put_locked_publishes: "put_locked s k v = Inr (s', res) \<Longrightarrow> publishes_once s s'"
  by (auto simp: put_locked_def Let_def result_simps publishes_once_commit)

lemma erase_publishes: "erase s k = Inr (s', res) \<Longrightarrow> publishes_once s s'"
  by (auto simp: erase_def result_simps publishes_once_commit publishes_once_same split: option.splits)

lemma put_step_ok: "store_inv s \<Longrightarrow> put s k v = Inr (s', res) \<Longrightarrow> step_ok s s'"
  using put_locked_Inr[of s k v s' res] put_locked_publishes[of s k v s' res]
  by (intro publishes_once_step_ok) (auto simp: put_def result_simps validate_key_def same_leases_token)

lemma erase_tick: "erase s k = Inr (s', res) \<Longrightarrow> st_logical_tick s' = st_logical_tick s"
  by (auto simp: erase_def result_simps split: option.splits)

lemma erase_step_ok:
  assumes "store_inv s" "erase s k = Inr (s', res)"
  shows "step_ok s s'"
  using erase_tick[OF assms(2)] same_leases_token[OF erase_Inr(8)[OF assms]]
  by (intro publishes_once_step_ok[OF assms(1) erase_publishes[OF assms(2)] erase_Inr(2)[OF assms]]) simp_all

lemma compare_and_set_step_ok:
  assumes "store_inv s" "compare_and_set s k e v = Inr (s', res)"
  shows "step_ok s s'"
proof (cases "cas_succeeded res")
  case True
  then show ?thesis using compare_and_set_Inr(5)[OF assms True] put_step_ok[OF assms(1)] by blast
next
  case False
  then show ?thesis using compare_and_set_Inr(6)[OF assms False] step_ok_refl[OF assms(1)] by simp
qed

lemma publishes_once_tick: "publishes_once s (s\<lparr>st_logical_tick := t\<rparr>)"
  by (auto simp: publishes_once_def)

lemma publishes_once_commit_tick:
  "publishes_once s ((commit_mutation s vs L (st_revision s + 1) events)\<lparr>st_logical_tick := t\<rparr>)"
  unfolding publishes_once_def by blast

lemma transaction_step_ok:
  assumes "store_inv s" "transaction s request = Inr (s', res)"
  shows "step_ok s s'"
proof -
  let ?ops = "tx_branch request (txr_succeeded res)"
  obtain verified bc where sel: "tx_select s request = Inr (txr_succeeded res, verified)"
    and chk: "fold_result (check_operation (st_values s) verified) ?ops
        \<lparr>bc_put_keys = [], bc_delete_ranges = [], bc_effective = False\<rparr> = Inr bc"
    and rev: "branch_writes (st_values s) ?ops \<Longrightarrow> st_revision s \<noteq> int64_max"
    using transaction_Inr[OF assms] by metis
  have eff: "bc_effective bc \<longleftrightarrow> branch_writes (st_values s) ?ops"
    using check_effective[OF chk] by (simp add: branch_writes_def)
  have facts: "store_inv s'" "same_leases (st_leases s) (st_leases s')"
    "\<not> branch_writes (st_values s) ?ops \<longrightarrow>
       s' = (if tx_lease_ownership request = [] then s else s\<lparr>st_logical_tick := tx_lease_tick request\<rparr>)"
    "st_logical_tick s' = (if tx_lease_ownership request = [] then st_logical_tick s else tx_lease_tick request)"
    using transaction_runs[OF assms(1) sel chk rev] unfolding assms(2) by simp_all
  have "publishes_once s s'"
  proof (cases "bc_effective bc")
    case True
    then show ?thesis
      using assms(2) unfolding transaction_def sel
      by (auto simp: Let_def chk and_then_eq_Inr next_revision_locked_Inr publishes_once_commit
          publishes_once_commit_tick split: if_splits)
  next
    case False
    then show ?thesis using facts(3) eff by (auto simp: publishes_once_same publishes_once_tick)
  qed
  moreover have "st_logical_tick s \<le> st_logical_tick s'"
    using tx_select_Inr(4)[OF sel] facts(4) by auto
  ultimately show ?thesis
    using facts by (intro publishes_once_step_ok[OF assms(1)]) (simp_all add: same_leases_token)
qed

lemma watchers_step_ok: "store_inv (s\<lparr>st_watchers := ws\<rparr>) \<Longrightarrow> step_ok s (s\<lparr>st_watchers := ws\<rparr>)"
  by (simp add: step_ok_def advances_def holds_token_def)

lemma grant_lease_step_ok:
  assumes "store_inv s" "grant_lease s request = Inr (s', res)"
  shows "step_ok s s'"
proof -
  note facts = grant_lease_Inr[OF assms]
  have "st_next_fencing_token s \<le> st_next_fencing_token s'"
    using less_plus1[OF facts(7)] by (simp add: facts(6))
  moreover have "holds_token s' lid t \<longrightarrow> holds_token s lid t \<or> st_next_fencing_token s \<le> t" for lid t
    using facts(2) by (auto simp: holds_token_def split: if_splits)
  moreover have "st_compact_revision s' = st_compact_revision s"
    using assms(2) by (auto simp: grant_lease_def result_simps Let_def)
  ultimately show ?thesis using facts by (simp add: step_ok_def advances_def)
qed

lemma keep_alive_step_ok:
  assumes "store_inv s" "keep_alive s request = Inr (s', res)"
  shows "step_ok s s'"
proof -
  note facts = keep_alive_inv[OF assms]
  have "holds_token s' lid t \<longrightarrow> holds_token s lid t" for lid t
    using assms by (cases rule: keep_alive_cases) (auto simp: holds_token_def)
  moreover have "st_compact_revision s' = st_compact_revision s"
    using assms by (cases rule: keep_alive_cases) auto
  ultimately show ?thesis using facts by (auto simp: step_ok_def advances_def)
qed

lemma remove_leases_publishes:
  assumes "store_inv s" "remove_leases_locked s ids code = Inr (s', res)"
  shows "publishes_once s (s'\<lparr>st_logical_tick := t\<rparr>)"
proof (cases "ids = []")
  case True
  then show ?thesis
    using assms(2) publishes_once_tick[of s t] by (auto simp: remove_leases_locked_def Let_def result_simps)
next
  case False
  then show ?thesis
    using assms(2)
    by (auto simp: remove_leases_locked_def Let_def result_simps publishes_once_commit_tick)
qed

lemma cleaned_up_token: "cleaned_up s ids s' \<Longrightarrow> holds_token s' lid t \<Longrightarrow> holds_token s lid t"
  by (auto simp: cleaned_up_def holds_token_def split: if_splits)

lemma expire_leases_step_ok:
  assumes "store_inv s" "expire_leases s tick = Inr (s', res)"
  shows "step_ok s s'"
proof -
  have "publishes_once s s'"
    using assms(2) remove_leases_publishes[OF assms(1)] by (auto simp: expire_leases_def result_simps)
  then show ?thesis
    using expire_leases_inv[OF assms] cleaned_up_token
    by (intro publishes_once_step_ok[OF assms(1)]) auto
qed

lemma revoke_lease_step_ok:
  assumes "store_inv s" "revoke_lease s request = Inr (s', res)"
  shows "step_ok s s'"
proof -
  note facts = revoke_lease_inv[OF assms]
  have "publishes_once s s'"
    using assms(2) remove_leases_publishes[OF assms(1)]
    by (auto simp: revoke_lease_def result_simps Let_def publishes_once_tick split: option.splits if_splits)
  moreover have "holds_token s lid t" if "holds_token s' lid t" for lid t
    using that facts(8,9) cleaned_up_token[of s "{lv_id request}" s']
    by (cases "lcr_code res = Lease_ok") (auto simp: holds_token_def)
  ultimately show ?thesis
    using facts(1-3) by (intro publishes_once_step_ok[OF assms(1)]) auto
qed

section \<open>Runs\<close>

lemma state_after_step_ok:
  assumes "store_inv s" "\<And>s' x. r = Inr (s', x) \<Longrightarrow> step_ok s s'"
  shows "step_ok s (state_after s r)"
  using assms by (auto simp: state_after_def step_ok_refl split: sum.splits)

lemma store_step_ok:
  assumes "store_inv s"
  shows "step_ok s (store_step op s)"
proof (cases op)
  case (Op_create_watch r)
  show ?thesis
    unfolding Op_create_watch store_step.simps
    by (rule state_after_step_ok[OF assms]) (metis create_watch_Inr[OF assms] watchers_step_ok)
next
  case (Op_poll_watch w)
  show ?thesis
    unfolding Op_poll_watch store_step.simps
    by (rule state_after_step_ok[OF assms]) (metis poll_watch_inv[OF assms] watchers_step_ok)
next
  case (Op_request_watch_progress w)
  show ?thesis
    unfolding Op_request_watch_progress store_step.simps
    by (cases "request_watch_progress s w")
      (simp add: step_ok_refl[OF assms], metis request_watch_progress_inv[OF assms] watchers_step_ok sum.case(2))
next
  case (Op_cancel_watch w)
  show ?thesis
    unfolding Op_cancel_watch store_step.simps
    by (rule state_after_step_ok[OF assms]) (metis cancel_watch_inv[OF assms] watchers_step_ok)
qed (use assms in \<open>simp_all add: state_after_step_ok put_step_ok erase_step_ok compare_and_set_step_ok
      transaction_step_ok grant_lease_step_ok keep_alive_step_ok revoke_lease_step_ok expire_leases_step_ok\<close>)

interpretation sm: machine store_step store_inv
  by unfold_locales (use store_step_ok in \<open>simp add: step_ok_def\<close>)

lemma store_step_advances: "store_inv s \<Longrightarrow> advances s (store_step op s)"
  using store_step_ok[of s op] by (simp add: step_ok_def)

lemma store_run_tokens:
  assumes "store_inv s" "t < st_next_fencing_token s" "\<not> holds_token s lid t"
  shows "t < st_next_fencing_token (store_run ops s) \<and> \<not> holds_token (store_run ops s) lid t"
proof (rule sm.run_induct[where P = "\<lambda>s. t < st_next_fencing_token s \<and> \<not> holds_token s lid t"])
  fix op s
  assume "store_inv s" and *: "t < st_next_fencing_token s \<and> \<not> holds_token s lid t"
  then have "advances s (store_step op s)" by (intro store_step_advances)
  then show "t < st_next_fencing_token (store_step op s) \<and> \<not> holds_token (store_step op s) lid t"
    using * unfolding advances_def by (metis less_le_trans not_le)
qed (use assms in auto)

text \<open>
  C6.  Every state the store can reach is well formed: from a freshly constructed store, any
  sequence of operations, whether they succeed or throw, leads to a store whose attachment
  index, history, watchers, lease table and counters satisfy the invariant.
\<close>

theorem reachable_store_well_formed:
  assumes "store_create r limits = Inr s" "r \<le> int64_max"
  shows "store_inv (store_run ops s)"
  using sm.inv_run[OF store_create_inv[OF assms]] .

text \<open>
  C27.  Revisions, the compaction boundary, the logical clock and the allocation counters never
  move backwards, and one operation allocates at most one revision.
\<close>

theorem store_run_monotone:
  assumes "store_inv s"
  shows "st_revision s \<le> st_revision (store_run ops s)
    \<and> st_revision (store_run ops s) \<le> st_revision s + int (length ops)
    \<and> st_compact_revision s \<le> st_compact_revision (store_run ops s)
    \<and> st_compact_revision (store_run ops s) \<le> st_revision (store_run ops s)
    \<and> st_logical_tick s \<le> st_logical_tick (store_run ops s)
    \<and> st_next_lease_id s \<le> st_next_lease_id (store_run ops s)
    \<and> st_next_fencing_token s \<le> st_next_fencing_token (store_run ops s)"
proof (intro conjI)
  show "st_revision (store_run ops s) \<le> st_revision s + int (length ops)"
    using assms
  proof (induction ops arbitrary: s)
    case (Cons op ops)
    then show ?case
      using Cons.IH[OF sm.inv_step[OF Cons.prems], of op] store_step_advances[OF Cons.prems, of op]
      by (simp add: advances_def)
  qed simp
  show "st_compact_revision (store_run ops s) \<le> st_revision (store_run ops s)"
    using sm.inv_run[OF assms, of ops] by (simp add: store_inv_def history_ok_def)
qed (rule sm.mono_run[OF assms]; use store_step_advances in \<open>simp add: advances_def\<close>)+

text \<open>
  C9.  Fencing: once no live lease holds a given identifier and allocated token, that pair never
  becomes live again, whatever operations follow; so a transaction presenting it takes its
  failure branch forever.
\<close>

theorem stale_owner_fenced_forever:
  assumes "store_inv s" "lo_fencing_token o1 < st_next_fencing_token s"
    and "\<nexists>l. omap_find (st_leases s) (lo_id o1) = Some l \<and> sl_fencing_token l = lo_fencing_token o1"
    and "o1 \<in> set (tx_lease_ownership request)" "transaction (store_run ops s) request = Inr (s', res)"
  shows "\<not> txr_succeeded res"
proof
  assume "txr_succeeded res"
  let ?s = "store_run ops s"
  obtain verified bc where "tx_select ?s request = Inr (txr_succeeded res, verified)"
    using transaction_Inr[OF sm.inv_run[OF assms(1)] assms(5)] by metis
  from tx_select_Inr(1)[OF this] have "ownership_matches (st_leases ?s) (tx_lease_tick request) o1"
    using assms(4) \<open>txr_succeeded res\<close> by auto
  then have "holds_token ?s (lo_id o1) (lo_fencing_token o1)"
    by (auto simp: ownership_matches_def holds_token_def split: option.splits)
  moreover have "\<not> holds_token s (lo_id o1) (lo_fencing_token o1)"
    using assms(3) by (simp add: holds_token_def)
  ultimately show False using store_run_tokens[OF assms(1,2)] by blast
qed

end
