(* ===== verification/Store_Examples.thy ===== *)
theory Store_Examples
  imports Store_Machine
begin

text \<open>
  Concrete stores and requests on which the properties of the store components apply: a small
  empty store, and one that holds two leases, a leased and a plain key, and a watcher.
\<close>

definition small_limits :: store_limits where
  "small_limits = \<lparr>max_key_bytes = 4, max_value_bytes = 4, max_transaction_operations = 4,
     max_watchers = 4, max_watch_history_revisions = 4, max_watch_pending_responses = 4,
     max_active_leases = 4\<rparr>"

definition empty_store :: store where
  "empty_store = \<lparr>st_values = omap_empty, st_limits = small_limits, st_revision = 0,
     st_compact_revision = 0, st_history = [], st_watchers = omap_empty, st_leases = omap_empty,
     st_logical_tick = 0, st_next_lease_id = 1, st_next_fencing_token = 1\<rparr>"

abbreviation no_id :: request_id where
  "no_id \<equiv> \<lparr>rid_client = 0, rid_sequence = 0\<rparr>"

definition key_a :: byte_sequence where "key_a = [97]"
definition key_b :: byte_sequence where "key_b = [98]"
definition key_z :: byte_sequence where "key_z = [122]"

definition grant_request :: "u64 \<Rightarrow> lease_grant_request" where
  "grant_request ttl = \<lparr>lg_request_id = no_id, lg_requested_id = 0, lg_ttl = ttl, lg_tick = 5\<rparr>"

definition owner :: lease_ownership where
  "owner = \<lparr>lo_id = 1, lo_fencing_token = 1\<rparr>"

text \<open>If the owner of lease 1 is live and \<open>key_a\<close> is absent, put it under the lease.\<close>

definition leased_put :: transaction_request where
  "leased_put = \<lparr>tx_request_id = no_id,
     tx_comparisons = [\<lparr>cmp_key = key_a, cmp_target = Target_version, cmp_result = Cmp_equal,
       cmp_expected = Expected_int 0\<rparr>],
     tx_lease_ownership = [owner], tx_lease_tick = 6,
     tx_success = [Put_Operation \<lparr>pq_request_id = no_id, pq_key = key_a, pq_value = [1],
       pq_lease_id = 1, pq_return_previous = False\<rparr>],
     tx_failure = []\<rparr>"

definition watch_all :: "int \<Rightarrow> watch_request" where
  "watch_all start = \<lparr>wq_id = 7, wq_range = \<lparr>kr_start = key_a, kr_end = key_z\<rparr>,
     wq_start_revision = start, wq_filter = Include_all, wq_progress_notifications = False\<rparr>"

definition busy_store :: store where
  "busy_store = store_run [Op_grant_lease (grant_request 10), Op_grant_lease (grant_request 100),
     Op_transaction leased_put, Op_put key_b [2]] empty_store"

lemma empty_store_created: "store_create 0 small_limits = Inr empty_store"
  by (simp add: store_create_def empty_store_def)

lemma empty_store_inv: "store_inv empty_store"
  using store_create_inv[OF empty_store_created] by simp

lemma busy_store_inv: "store_inv busy_store"
  unfolding busy_store_def by (rule sm.inv_run[OF empty_store_inv])

lemma runs:
  assumes "\<not> isl r"
  obtains s x where "r = Inr (s, x)"
  using assms by (cases r) auto

section \<open>Key-value operations\<close>

theorem put_effect_witness:
  "\<exists>s' res. put busy_store key_a [9] = Inr (s', res) \<and> omap_find (st_values s') key_a = Some (pr_current res)
     \<and> kv_version (pr_current res) = 2 \<and> \<not> attached (st_leases s') 1 key_a"
proof -
  have "\<not> isl (put busy_store key_a [9])" by code_simp
  then obtain s' res where run: "put busy_store key_a [9] = Inr (s', res)" by (rule runs)
  moreover have "map_option kv_version (omap_find (st_values busy_store) key_a) = Some 1" by code_simp
  ultimately show ?thesis using put_effect[OF busy_store_inv run] by auto
qed

theorem put_errors_witness:
  "put busy_store [] [9] = Inl (Invalid_Argument ''key must not be empty'')
   \<and> (\<exists>s' res. put_locked busy_store key_b [9] = Inr (s', res))"
proof -
  have "key_b \<noteq> []" "st_revision busy_store \<noteq> int64_max"
    "\<not> version_exhausted (omap_find (st_values busy_store) key_b)"
    by code_simp+
  then show ?thesis using put_errors[OF busy_store_inv, of key_b] put_errors[OF busy_store_inv, of "[]"] by simp
qed

theorem store_range_exact_witness:
  "\<exists>res. store_range busy_store key_a key_z = Inr res
     \<and> set (rr_values res) = {kv. key_a \<le> kv_key kv \<and> kv_key kv < key_z
         \<and> omap_find (st_values busy_store) (kv_key kv) = Some kv}"
proof -
  have "key_a \<noteq> []" "key_z \<noteq> []" "key_a < key_z" by code_simp+
  then show ?thesis using store_range_exact[OF busy_store_inv, of key_a key_z] by blast
qed

theorem compare_and_set_once_witness:
  "\<exists>s' res. compare_and_set busy_store key_a 1 [3] = Inr (s', res) \<and> cas_succeeded res
     \<and> (\<exists>again. compare_and_set s' key_a 1 [4] = Inr (s', again) \<and> \<not> cas_succeeded again)"
proof -
  have "\<not> isl (compare_and_set busy_store key_a 1 [3])" by code_simp
  then obtain s' res where run: "compare_and_set busy_store key_a 1 [3] = Inr (s', res)" by (rule runs)
  have "map_option kv_mod_revision (omap_find (st_values busy_store) key_a) = Some 1" by code_simp
  then show ?thesis using compare_and_set_once[OF busy_store_inv run] run by auto
qed

theorem kv_run_refines_witness:
  "abs_kv (fold kv_step [Cmd_put key_a [1], Cmd_cas key_a 1 [2], Cmd_erase key_a] empty_store)
     = fold spec_step [Cmd_put key_a [1], Cmd_cas key_a 1 [2], Cmd_erase key_a] (abs_kv empty_store)
   \<and> spec_revision (fold spec_step [Cmd_put key_a [1], Cmd_cas key_a 1 [2], Cmd_erase key_a] (abs_kv empty_store)) = 3"
proof
  show "spec_revision (fold spec_step [Cmd_put key_a [1], Cmd_cas key_a 1 [2], Cmd_erase key_a] (abs_kv empty_store)) = 3"
    by code_simp
qed (use kv_run_refines[OF empty_store_inv] in blast)

section \<open>Transactions\<close>

text \<open>A transaction on the busy store that replaces \<open>key_a\<close>, deletes \<open>key_b\<close> and reads.\<close>

definition swap_keys :: transaction_request where
  "swap_keys = \<lparr>tx_request_id = no_id, tx_comparisons = [], tx_lease_ownership = [owner], tx_lease_tick = 7,
     tx_success = [Put_Operation \<lparr>pq_request_id = no_id, pq_key = key_a, pq_value = [5],
         pq_lease_id = 1, pq_return_previous = True\<rparr>,
       Delete_Operation \<lparr>dq_request_id = no_id, dq_range = \<lparr>kr_start = key_b, kr_end = key_z\<rparr>,
         dq_return_previous = True\<rparr>],
     tx_failure = []\<rparr>"

lemma swap_keys_runs:
  obtains s' res where "transaction busy_store swap_keys = Inr (s', res)"
  by (rule runs[of "transaction busy_store swap_keys"]) (code_simp, blast)

lemma swap_keys_succeeds: "map_sum id (txr_succeeded \<circ> snd) (transaction busy_store swap_keys) = Inr True"
  by code_simp

theorem transaction_effect_witness:
  "\<exists>s' res. transaction busy_store swap_keys = Inr (s', res) \<and> txr_succeeded res
     \<and> st_revision s' = st_revision busy_store + 1
     \<and> omap_find (st_values s') = fold (abs_operation (st_revision s')) (tx_success swap_keys)
         (omap_find (st_values busy_store))"
proof -
  obtain s' res where run: "transaction busy_store swap_keys = Inr (s', res)" by (rule swap_keys_runs)
  moreover have "txr_succeeded res" using swap_keys_succeeds run by simp
  moreover have "branch_writes (st_values busy_store) (tx_branch swap_keys True)" by code_simp
  ultimately show ?thesis
    using transaction_effect[OF busy_store_inv run] by (simp add: tx_branch_def)
qed

theorem transaction_refusals_witness:
  "\<exists>e m. transaction busy_store (swap_keys\<lparr>tx_lease_tick := 1\<rparr>) = Inl e
     \<and> (e = Invalid_Argument m \<or> e = Overflow_Error m)"
proof -
  have "isl (transaction busy_store (swap_keys\<lparr>tx_lease_tick := 1\<rparr>))" by code_simp
  then obtain e where "transaction busy_store (swap_keys\<lparr>tx_lease_tick := 1\<rparr>) = Inl e"
    by (auto simp: isl_def)
  then show ?thesis using transaction_refusals[OF busy_store_inv] by blast
qed

theorem transaction_writes_independent_witness:
  "\<exists>s' res. transaction busy_store swap_keys = Inr (s', res)
     \<and> omap_find (st_values s') key_a = Some (next_key_value key_a [5]
         (omap_find (st_values busy_store) key_a) (st_revision s') 1)
     \<and> omap_find (st_values s') key_b = None"
proof -
  obtain s' res where run: "transaction busy_store swap_keys = Inr (s', res)" by (rule swap_keys_runs)
  let ?put = "\<lparr>pq_request_id = no_id, pq_key = key_a, pq_value = [5], pq_lease_id = 1, pq_return_previous = True\<rparr>"
  let ?del = "\<lparr>dq_request_id = no_id, dq_range = \<lparr>kr_start = key_b, kr_end = key_z\<rparr>, dq_return_previous = True\<rparr>"
  have "txr_succeeded res" using swap_keys_succeeds run by simp
  then have "Put_Operation ?put \<in> set (tx_branch swap_keys (txr_succeeded res))"
    "Delete_Operation ?del \<in> set (tx_branch swap_keys (txr_succeeded res))"
    by (simp_all add: tx_branch_def swap_keys_def)
  moreover have "contains_key (dq_range ?del) key_b" by code_simp
  ultimately show ?thesis
    using transaction_writes_independent[OF busy_store_inv run] run by fastforce
qed

theorem transaction_fencing_witness:
  "\<exists>s' res. transaction busy_store swap_keys = Inr (s', res) \<and> txr_succeeded res
     \<and> (\<exists>l. omap_find (st_leases busy_store) 1 = Some l \<and> sl_fencing_token l = 1 \<and> 7 < sl_expiry_tick l)"
proof -
  obtain s' res where run: "transaction busy_store swap_keys = Inr (s', res)" by (rule swap_keys_runs)
  have ok: "txr_succeeded res" using swap_keys_succeeds run by simp
  have mem: "owner \<in> set (tx_lease_ownership swap_keys)" by (simp add: swap_keys_def)
  show ?thesis
    using transaction_fencing[OF busy_store_inv run mem ok] run ok by (auto simp: owner_def swap_keys_def)
qed

theorem compare_and_set_is_transaction_witness:
  "\<exists>s' res res'. compare_and_set busy_store key_a 1 [3] = Inr (s', res)
     \<and> transaction busy_store (cas_request key_a 1 [3]) = Inr (s', res') \<and> txr_succeeded res' = cas_succeeded res"
proof -
  have "\<not> isl (compare_and_set busy_store key_a 1 [3])" by code_simp
  then obtain s' res where run: "compare_and_set busy_store key_a 1 [3] = Inr (s', res)" by (rule runs)
  then show ?thesis using compare_and_set_is_transaction[OF busy_store_inv _ run] by auto
qed

section \<open>Leases\<close>

theorem expire_leases_exact_witness:
  "\<exists>s' res. expire_leases busy_store 20 = Inr (s', res) \<and> st_revision s' = 3
     \<and> omap_find (st_leases s') 1 = None \<and> omap_find (st_leases s') 2 = omap_find (st_leases busy_store) 2
     \<and> omap_find (st_values s') key_b = omap_find (st_values busy_store) key_b"
proof -
  have "\<not> isl (expire_leases busy_store 20)" by code_simp
  then obtain s' res where run: "expire_leases busy_store 20 = Inr (s', res)" by (rule runs)
  have "map_option sl_expiry_tick (omap_find (st_leases busy_store) 1) = Some 15"
    "map_option sl_expiry_tick (omap_find (st_leases busy_store) 2) = Some 105"
    "map_option kv_lease_id (omap_find (st_values busy_store) key_b) = Some 0"
    "omap_find (st_leases busy_store) 0 = None" "st_revision busy_store = 2"
    by code_simp+
  then show ?thesis
    using expire_leases_exact[OF busy_store_inv run] run by (auto 0 4)
qed

definition revoke_request :: "lease_id \<Rightarrow> u64 \<Rightarrow> lease_revoke_request" where
  "revoke_request lid token =
     \<lparr>lv_request_id = no_id, lv_id = lid, lv_fencing_token = token, lv_tick = 8\<rparr>"

theorem lease_cleanup_refusals_witness:
  "expire_leases busy_store 1 = Inl (Invalid_Argument ''lease tick must not move backwards'')
   \<and> revoke_lease busy_store (revoke_request 0 0) = Inl (Invalid_Argument ''invalid revoke ownership'')"
proof -
  have "isl (expire_leases busy_store 1)" "isl (revoke_lease busy_store (revoke_request 0 0))"
    "st_revision busy_store \<noteq> int64_max" "st_logical_tick busy_store \<le> 8"
    by code_simp+
  then obtain e f where e: "expire_leases busy_store 1 = Inl e"
    and f: "revoke_lease busy_store (revoke_request 0 0) = Inl f"
    and "st_revision busy_store \<noteq> int64_max" "\<not> 8 < st_logical_tick busy_store"
    by (auto simp: isl_def not_less)
  then show ?thesis
    using lease_cleanup_refusals[OF busy_store_inv, of 1 e "revoke_request 0 0"]
      lease_cleanup_refusals[OF busy_store_inv, of 1 f "revoke_request 0 0"]
    by (simp add: revoke_request_def)
qed

theorem grant_lease_effect_witness:
  "\<exists>s' res. grant_lease busy_store \<lparr>lg_request_id = no_id, lg_requested_id = 9, lg_ttl = 4, lg_tick = 6\<rparr> = Inr (s', res)
     \<and> unat (lr_expiry_tick (lgr_lease res)) = 10 \<and> \<not> omap_has (st_leases busy_store) (lr_id (lgr_lease res))"
proof -
  let ?r = "\<lparr>lg_request_id = no_id, lg_requested_id = 9, lg_ttl = 4, lg_tick = 6\<rparr>"
  have "\<not> isl (grant_lease busy_store ?r)" by code_simp
  then obtain s' res where run: "grant_lease busy_store ?r = Inr (s', res)" by (rule runs)
  then show ?thesis using grant_lease_effect[OF busy_store_inv run] by auto
qed

theorem keep_alive_effect_witness:
  "\<exists>s' res. keep_alive busy_store \<lparr>lk_id = 1, lk_fencing_token = 1, lk_tick = 9\<rparr> = Inr (s', res)
     \<and> llr_code res = Lease_ok \<and> time_to_live s' \<lparr>lt_id = 1, lt_tick = 9\<rparr> = Inr res"
proof -
  let ?r = "\<lparr>lk_id = 1, lk_fencing_token = 1, lk_tick = 9\<rparr>"
  have "\<not> isl (keep_alive busy_store ?r)" by code_simp
  then obtain s' res where run: "keep_alive busy_store ?r = Inr (s', res)" by (rule runs)
  have "map_option (\<lambda>l. 9 < sl_expiry_tick l \<and> sl_fencing_token l = 1) (omap_find (st_leases busy_store) 1) = Some True"
    by code_simp
  then show ?thesis using keep_alive_effect[OF busy_store_inv run] run by auto
qed

theorem revoke_lease_effect_witness:
  "\<exists>s' res. revoke_lease busy_store (revoke_request 1 1) = Inr (s', res) \<and> lcr_code res = Lease_ok
     \<and> omap_find (st_values s') key_a = None \<and> \<not> omap_has (st_leases s') 1"
proof -
  have "\<not> isl (revoke_lease busy_store (revoke_request 1 1))" by code_simp
  then obtain s' res where run: "revoke_lease busy_store (revoke_request 1 1) = Inr (s', res)" by (rule runs)
  have "map_option sl_fencing_token (omap_find (st_leases busy_store) 1) = Some 1"
    "map_option kv_lease_id (omap_find (st_values busy_store) key_a) = Some 1"
    by code_simp+
  then show ?thesis
    using revoke_lease_effect[OF busy_store_inv run] run by (auto simp: revoke_request_def)
qed

section \<open>Watches\<close>

definition watch_actions :: "watch_action list" where
  "watch_actions = [Publish omap_empty omap_empty
     [put_event 3 (next_key_value key_a [8] None 3 0) None], Create ((watch_all 0)\<lparr>wq_id := 8\<rparr>), Progress 7, Poll 8, Poll 7]"

theorem watch_stream_complete_witness:
  "\<exists>s0 res s' published delivered w started. create_watch busy_store (watch_all 2) = Inr (s0, res)
     \<and> watch_run 7 watch_actions s0 = (s', published, delivered)
     \<and> omap_find (st_watchers s') 7 = Some w \<and> length delivered = 1 \<and> length (ws_pending w) = 2
     \<and> started = watch_all 2 \<and> ws_request w = started
     \<and> delivered @ ws_pending w = due_responses started (st_history busy_store) @ owed started (st_revision busy_store) watch_actions"
proof -
  have eval: "(case create_watch busy_store (watch_all 2) of Inl e \<Rightarrow> False | Inr (s0, res) \<Rightarrow>
      (case watch_run 7 watch_actions s0 of (s', published, delivered) \<Rightarrow>
       (case omap_find (st_watchers s') 7 of None \<Rightarrow> False | Some w \<Rightarrow>
          ws_terminal w = None \<and> length delivered = 1 \<and> length (ws_pending w) = 2)))"
    by code_simp
  have facts: "wq_id (watch_all 2) = 7" "\<not> id_reused 7 watch_actions" "watch_start_revision busy_store (watch_all 2) = Inr 2"
    by code_simp+
  have "\<not> isl (create_watch busy_store (watch_all 2))" by code_simp
  then obtain s0 res where create: "create_watch busy_store (watch_all 2) = Inr (s0, res)" by (rule runs)
  obtain s' published delivered where run: "watch_run 7 watch_actions s0 = (s', published, delivered)"
    by (metis surj_pair)
  obtain w where w: "omap_find (st_watchers s') 7 = Some w" "ws_terminal w = None"
    "length delivered = 1" "length (ws_pending w) = 2"
    using eval create run by (auto split: option.splits)
  have started: "(watch_all 2)\<lparr>wq_start_revision := 2\<rparr> = watch_all 2" by (simp add: watch_all_def)
  show ?thesis
    using watch_stream_complete[OF busy_store_inv create, unfolded facts(1), OF run facts(2)] create run w facts(3) started
    by auto
qed

theorem watch_replay_is_live_witness:
  "\<exists>s0 res s1 t p q d d' w t' res'. create_watch busy_store (watch_all 0) = Inr (s0, res)
     \<and> watch_run 7 (take 1 watch_actions) s0 = (s1, p, d) \<and> watch_run 7 (take 1 watch_actions) busy_store = (t, q, d')
     \<and> create_watch t ((watch_all 0)\<lparr>wq_start_revision := st_revision busy_store + 1\<rparr>) = Inr (t', res')
     \<and> omap_find (st_watchers s1) 7 = Some w \<and> omap_find (st_watchers t') 7 = Some w \<and> length (ws_pending w) = 1"
proof -
  let ?acts = "take 1 watch_actions"
  have eval: "(case create_watch busy_store (watch_all 0) of Inl e \<Rightarrow> False | Inr (s0, res) \<Rightarrow>
      (case watch_run 7 ?acts s0 of (s1, p, d) \<Rightarrow>
       (case omap_find (st_watchers s1) 7 of None \<Rightarrow> False | Some w \<Rightarrow>
          ws_terminal w = None \<and> length (ws_pending w) = 1)))"
    "(case watch_run 7 ?acts busy_store of (t, q, d') \<Rightarrow> st_compact_revision t \<le> st_revision busy_store)"
    by code_simp+
  have "\<not> isl (create_watch busy_store (watch_all 0))" by code_simp
  then obtain s0 res where create: "create_watch busy_store (watch_all 0) = Inr (s0, res)" by (rule runs)
  obtain s1 p d where live: "watch_run 7 ?acts s0 = (s1, p, d)" by (metis surj_pair)
  obtain t q d' where later: "watch_run 7 ?acts busy_store = (t, q, d')" by (metis surj_pair)
  obtain w where w: "omap_find (st_watchers s1) 7 = Some w" "ws_terminal w = None" "length (ws_pending w) = 1"
    using eval(1) create live by (auto split: option.splits)
  have "wq_id (watch_all 0) = 7" "wq_start_revision (watch_all 0) = 0" "publishes ?acts"
    by (simp_all add: watch_all_def publishes_def watch_actions_def)
  moreover have "st_compact_revision t \<le> st_revision busy_store" using eval(2) later by simp
  ultimately show ?thesis
    using watch_replay_is_live[OF busy_store_inv create, of ?acts] create live later w by fastforce
qed

section \<open>Snapshots and runs\<close>

theorem snapshot_roundtrip_witness:
  "store_of_snapshot (snapshot busy_store) (st_limits busy_store)
     = Inr (busy_store\<lparr>st_compact_revision := st_revision busy_store, st_history := [], st_watchers := omap_empty\<rparr>)"
  using snapshot_roundtrip[OF busy_store_inv] by blast

theorem snapshot_load_well_formed_witness:
  "\<exists>s. store_of_snapshot (snapshot busy_store) small_limits = Inr s \<and> index_ok (st_values s) (st_leases s) \<and> store_inv s"
proof -
  have "\<not> isl (store_of_snapshot (snapshot busy_store) small_limits)" by code_simp
  then obtain s where load: "store_of_snapshot (snapshot busy_store) small_limits = Inr s"
    by (cases "store_of_snapshot (snapshot busy_store) small_limits") auto
  have "sn_revision (snapshot busy_store) \<le> int64_max" "sn_next_lease_id (snapshot busy_store) \<le> int64_max"
    "distinct (map lr_fencing_token (sn_leases (snapshot busy_store)))"
    "list_all kv_range (sn_values (snapshot busy_store))"
    by code_simp+
  then show ?thesis
    using snapshot_load_well_formed[OF load] load by (simp add: list_all_iff)
qed

text \<open>A snapshot in which two leases share their fencing token is accepted.\<close>

definition shared_token_snapshot :: store_snapshot where
  "shared_token_snapshot = (snapshot busy_store)\<lparr>sn_leases := map (\<lambda>r. r\<lparr>lr_fencing_token := 1\<rparr>) (sn_leases (snapshot busy_store))\<rparr>"

lemma shared_token_snapshot_accepted:
  "\<exists>s. store_of_snapshot shared_token_snapshot small_limits = Inr s \<and> \<not> store_inv s"
proof -
  have "(case store_of_snapshot shared_token_snapshot small_limits of Inl e \<Rightarrow> False | Inr s \<Rightarrow>
      (case omap_find (st_leases s) 1 of None \<Rightarrow> False | Some k \<Rightarrow>
       (case omap_find (st_leases s) 2 of None \<Rightarrow> False | Some l \<Rightarrow> sl_fencing_token k = sl_fencing_token l)))"
    by code_simp
  then obtain s k l where load: "store_of_snapshot shared_token_snapshot small_limits = Inr s"
    and leases: "omap_find (st_leases s) 1 = Some k" "omap_find (st_leases s) 2 = Some l" "sl_fencing_token k = sl_fencing_token l"
    by (auto split: sum.splits option.splits)
  have "\<not> tokens_distinct (st_leases s)"
  proof
    assume "tokens_distinct (st_leases s)"
    then have "(1 :: lease_id) = 2" using leases unfolding tokens_distinct_def by metis
    then show False by simp
  qed
  then show ?thesis using load by (auto simp: store_inv_def)
qed

theorem reachable_store_well_formed_witness:
  "store_inv (store_run [Op_put key_a [1], Op_erase key_a, Op_erase key_a] empty_store)
   \<and> st_revision (store_run [Op_put key_a [1], Op_erase key_a, Op_erase key_a] empty_store) = 2"
proof
  show "store_inv (store_run [Op_put key_a [1], Op_erase key_a, Op_erase key_a] empty_store)"
    by (rule reachable_store_well_formed[OF empty_store_created]) (simp add: int64_max_def)
qed code_simp

theorem store_run_monotone_witness:
  "st_revision busy_store \<le> st_revision (store_run [Op_expire_leases 20, Op_put key_a [1]] busy_store)
   \<and> st_logical_tick busy_store \<le> st_logical_tick (store_run [Op_expire_leases 20, Op_put key_a [1]] busy_store)"
  using store_run_monotone[OF busy_store_inv] by blast

text \<open>Lease 1 expires at tick 15; its identifier is granted again; the old owner stays fenced.\<close>

definition expired_store :: store where
  "expired_store = store_run [Op_expire_leases 20] busy_store"

definition regrant :: "store_operation list" where
  "regrant = [Op_grant_lease \<lparr>lg_request_id = no_id, lg_requested_id = 1, lg_ttl = 50, lg_tick = 21\<rparr>]"

theorem stale_owner_fenced_forever_witness:
  "\<exists>s' res. transaction (store_run regrant expired_store) (swap_keys\<lparr>tx_lease_tick := 22\<rparr>) = Inr (s', res)
     \<and> \<not> txr_succeeded res \<and> omap_has (st_leases (store_run regrant expired_store)) 1"
proof -
  have inv: "store_inv expired_store" unfolding expired_store_def by (rule sm.inv_run[OF busy_store_inv])
  have eval: "\<not> isl (transaction (store_run regrant expired_store) (swap_keys\<lparr>tx_lease_tick := 22\<rparr>))"
    "lo_fencing_token owner < st_next_fencing_token expired_store"
    "omap_find (st_leases expired_store) (lo_id owner) = None"
    "omap_has (st_leases (store_run regrant expired_store)) 1"
    by code_simp+
  obtain s' res where run: "transaction (store_run regrant expired_store) (swap_keys\<lparr>tx_lease_tick := 22\<rparr>) = Inr (s', res)"
    using runs[OF eval(1)] by metis
  have "owner \<in> set (tx_lease_ownership (swap_keys\<lparr>tx_lease_tick := 22\<rparr>))" by (simp add: swap_keys_def)
  then have "\<not> txr_succeeded res"
    using stale_owner_fenced_forever[OF inv eval(2) _ _ run] eval(3) by simp
  then show ?thesis using run eval(4) by blast
qed

end
