(* ===== verification/Raft_Types.thy ===== *)
theory Raft_Types
  imports Store_Types
begin

text \<open>
  The value types of the Raft components, one record or datatype per struct or enum of
  \<^verbatim>\<open>src/include/kura/metadata/raft\<close>.  \<open>Term\<close>, \<open>LogIndex\<close>, \<open>NodeId\<close> and \<open>ReadIndexContext\<close> are the
  unsigned 64-bit field they wrap.
\<close>

text \<open>\<open>operator<=>\<close> of \<open>RequestId\<close> compares the client, then the sequence number.\<close>

instantiation request_id_ext :: (linorder) linorder
begin

definition less_eq_request_id_ext :: "'a request_id_scheme \<Rightarrow> 'a request_id_scheme \<Rightarrow> bool" where
  "less_eq_request_id_ext a b \<longleftrightarrow> rid_client a < rid_client b \<or> rid_client a = rid_client b \<and>
     (rid_sequence a < rid_sequence b \<or> rid_sequence a = rid_sequence b \<and> request_id.more a \<le> request_id.more b)"

definition less_request_id_ext :: "'a request_id_scheme \<Rightarrow> 'a request_id_scheme \<Rightarrow> bool" where
  "less_request_id_ext a b \<longleftrightarrow> a \<le> b \<and> \<not> b \<le> a"

instance
proof
  fix a b c :: "'a request_id_scheme"
  show "(a < b) = (a \<le> b \<and> \<not> b \<le> a)" by (simp add: less_request_id_ext_def)
  show "a \<le> a" by (simp add: less_eq_request_id_ext_def)
  show "a \<le> b \<Longrightarrow> b \<le> c \<Longrightarrow> a \<le> c" by (auto simp: less_eq_request_id_ext_def)
  show "a \<le> b \<Longrightarrow> b \<le> a \<Longrightarrow> a = b" by (auto simp: less_eq_request_id_ext_def intro: request_id.equality)
  show "a \<le> b \<or> b \<le> a" by (auto simp: less_eq_request_id_ext_def)
qed

end

type_synonym raft_term = u64
type_synonym log_index = u64
type_synonym node_id = u64
type_synonym read_index_context = u64

record command_envelope =
  ce_request_id :: request_id
  ce_type_tag :: u32
  ce_payload :: "byte list"

record log_entry =
  le_term :: raft_term
  le_index :: log_index
  le_command :: command_envelope

record cluster_membership =
  cm_voters :: "node_id list"
  cm_learners :: "node_id list"

record snapshot_metadata =
  sm_last_included_index :: log_index
  sm_last_included_term :: raft_term
  sm_store_revision :: int
  sm_compaction_revision :: int
  sm_membership :: cluster_membership
  sm_format_version :: u32

record raft_hard_state =
  hs_current_term :: raft_term
  hs_voted_for :: "node_id option"

record persistent_raft_state =
  ps_current_term :: raft_term
  ps_voted_for :: "node_id option"
  ps_snapshot :: "snapshot_metadata option"
  ps_log :: "log_entry list"

record request_vote_request =
  rv_term :: raft_term
  rv_candidate :: node_id
  rv_last_log_index :: log_index
  rv_last_log_term :: raft_term

record request_vote_response =
  rvr_term :: raft_term
  rvr_granted :: bool

record append_entries_request =
  ae_term :: raft_term
  ae_leader :: node_id
  ae_previous_log_index :: log_index
  ae_previous_log_term :: raft_term
  ae_entries :: "log_entry list"
  ae_leader_commit :: log_index
  ae_read_context :: "read_index_context option"

record append_entries_response =
  aer_term :: raft_term
  aer_succeeded :: bool
  aer_matched_index :: log_index
  aer_read_context :: "read_index_context option"

datatype raft_role = Follower | Candidate | Leader | Learner

record persist_raft_hard_state =
  ph_request_id :: u64
  ph_state :: raft_hard_state

record raft_snapshot =
  rs_metadata :: snapshot_metadata
  rs_state :: "byte list"
  rs_checksum :: u32

record install_snapshot_request =
  is_term :: raft_term
  is_leader :: node_id
  is_transfer_id :: u64
  is_metadata :: snapshot_metadata
  is_offset :: u64
  is_total_size :: u64
  is_chunk :: "byte list"
  is_state_checksum :: u32
  is_done :: bool
  is_read_context :: "read_index_context option"

record install_snapshot_response =
  isr_term :: raft_term
  isr_transfer_id :: u64
  isr_succeeded :: bool
  isr_last_included_index :: log_index
  isr_read_context :: "read_index_context option"

end
