(* ===== verification/Figure2.thy ===== *)
theory Figure2
  imports Raft_Types
begin

text \<open>
  The executable Figure 2 specification of Raft (\<^verbatim>\<open>src/src/figure2_spec.cpp\<close>,
  \<^verbatim>\<open>src/include/kura/metadata/raft/figure2_spec.hpp\<close>): the state of one server, its validation,
  one function per handler, the gate that holds back effects until the hard state is durable,
  and the step function.  The source's \<open>step\<close> works on a copy of the state and returns it, so
  an exception is \<open>Inl\<close> and leaves the caller's state as it was.
\<close>

section \<open>State, events and effects\<close>

datatype rule_id =
    Observe_higher_term | Apply_committed_rule | Follower_election_timeout
  | Request_vote_reject_stale | Request_vote_grant | Request_vote_deny
  | Append_entries_reject_stale | Append_entries_reject_log_mismatch | Append_entries_accept
  | Append_entries_advance_commit | Candidate_start_election | Candidate_restart_election
  | Candidate_win_election | Candidate_accept_append_entries | Leader_initialize
  | Leader_append_client | Leader_replicate | Leader_record_replication
  | Leader_retry_replication | Leader_advance_commit | Leader_heartbeat

record volatile_state =
  vs_commit_index :: log_index
  vs_last_applied :: log_index

record peer_progress =
  pp_next_index :: log_index
  pp_match_index :: log_index

record leader_state =
  ls_progress :: "(node_id, peer_progress) omap"
  ls_pending_clients :: "log_index oset"

datatype f2_event =
    Election_timeout
  | Heartbeat_timeout
  | Apply_committed
  | Observe_term raft_term
  | Receive_request_vote node_id request_vote_request
  | Receive_request_vote_response node_id request_vote_response
  | Receive_append_entries node_id append_entries_request
  | Receive_append_entries_response node_id append_entries_response
  | Receive_client_command command_envelope
  | Raft_hard_state_persisted u64 raft_hard_state

datatype f2_effect =
    Persist_raft_hard_state persist_raft_hard_state
  | Persist_log
  | Send_request_vote node_id request_vote_request
  | Send_request_vote_response node_id request_vote_response
  | Send_append_entries node_id append_entries_request
  | Send_append_entries_response node_id append_entries_response
  | Reset_election_timer
  | Apply_command log_index command_envelope
  | Complete_client_command log_index

record pending_hard_state_persistence =
  pd_request :: persist_raft_hard_state
  pd_deferred_effects :: "f2_effect list"

record f2_state =
  f2_node :: node_id
  f2_peers :: "node_id list"
  f2_role :: raft_role
  f2_persistent :: persistent_raft_state
  f2_volatile :: volatile_state
  f2_known_leader :: "node_id option"
  f2_votes_received :: "node_id oset"
  f2_leader :: "leader_state option"
  f2_next_request_id :: u64
  f2_pending :: "pending_hard_state_persistence option"

record step_result =
  sr_state :: f2_state
  sr_rules :: "rule_id list"
  sr_effects :: "f2_effect list"

section \<open>Log access\<close>

abbreviation f2_term :: "f2_state \<Rightarrow> raft_term" where
  "f2_term s \<equiv> ps_current_term (f2_persistent s)"

abbreviation f2_vote :: "f2_state \<Rightarrow> node_id option" where
  "f2_vote s \<equiv> ps_voted_for (f2_persistent s)"

abbreviation f2_log :: "f2_state \<Rightarrow> log_entry list" where
  "f2_log s \<equiv> ps_log (f2_persistent s)"

abbreviation f2_commit :: "f2_state \<Rightarrow> log_index" where
  "f2_commit s \<equiv> vs_commit_index (f2_volatile s)"

abbreviation f2_applied :: "f2_state \<Rightarrow> log_index" where
  "f2_applied s \<equiv> vs_last_applied (f2_volatile s)"

text \<open>The index the snapshot covers, or 0: the local \<open>base\<close> of the source's functions.\<close>

definition log_base :: "persistent_raft_state \<Rightarrow> log_index" where
  "log_base p = (case ps_snapshot p of None \<Rightarrow> 0 | Some m \<Rightarrow> sm_last_included_index m)"

definition last_index :: "f2_state \<Rightarrow> log_index" where
  "last_index s = (if f2_log s = [] then log_base (f2_persistent s) else le_index (last (f2_log s)))"

definition last_term :: "f2_state \<Rightarrow> raft_term" where
  "last_term s = (if f2_log s = []
     then (case ps_snapshot (f2_persistent s) of None \<Rightarrow> 0 | Some m \<Rightarrow> sm_last_included_term m)
     else le_term (last (f2_log s)))"

text \<open>\<open>std::vector::at\<close>.\<close>

definition vector_at :: "'a list \<Rightarrow> u64 \<Rightarrow> 'a result" where
  "vector_at xs i = (if unat i < length xs then Inr (xs ! unat i) else Inl (Out_Of_Range ''vector''))"

definition term_at :: "f2_state \<Rightarrow> log_index \<Rightarrow> raft_term result" where
  "term_at s index =
     (if index = 0 then Inr 0
      else let base = log_base (f2_persistent s) in
        case ps_snapshot (f2_persistent s) of
          Some m \<Rightarrow>
            if index = base then Inr (sm_last_included_term m)
            else if index \<le> base then Inl (Out_Of_Range ''Raft log index was compacted'')
            else and_then (vector_at (f2_log s) (index - base - 1)) (\<lambda>e. Inr (le_term e))
        | None \<Rightarrow>
            if index \<le> base then Inl (Out_Of_Range ''Raft log index was compacted'')
            else and_then (vector_at (f2_log s) (index - base - 1)) (\<lambda>e. Inr (le_term e)))"

definition majority :: "f2_state \<Rightarrow> nat" where
  "majority s = (length (f2_peers s) + 1) div 2 + 1"

definition ensure_peer :: "f2_state \<Rightarrow> node_id \<Rightarrow> unit result" where
  "ensure_peer s peer =
     throw_if (peer \<notin> set (f2_peers s)) (Invalid_Argument ''RPC sender is not a voting peer'')"

definition is_log_at_least_as_up_to_date :: "f2_state \<Rightarrow> raft_term \<Rightarrow> log_index \<Rightarrow> bool" where
  "is_log_at_least_as_up_to_date s candidate_last_term candidate_last_index \<longleftrightarrow>
     candidate_last_term > last_term s
   \<or> candidate_last_term = last_term s \<and> candidate_last_index \<ge> last_index s"

definition hard_state :: "f2_state \<Rightarrow> raft_hard_state" where
  "hard_state s = \<lparr>hs_current_term = f2_term s, hs_voted_for = f2_vote s\<rparr>"

section \<open>Validation\<close>

fun peer_violations :: "node_id \<Rightarrow> node_id list \<Rightarrow> node_id list \<Rightarrow> string list" where
  "peer_violations node seen [] = []"
| "peer_violations node seen (peer # peers) =
     (if peer = node then [''peer list contains the local node''] else [])
   @ (if peer \<in> set seen then [''peer list contains a duplicate''] else [])
   @ peer_violations node (peer # seen) peers"

fun log_violations :: "raft_term \<Rightarrow> u64 \<Rightarrow> log_entry list \<Rightarrow> string list" where
  "log_violations current expected [] = []"
| "log_violations current expected (entry # entries) =
     (if le_index entry \<noteq> expected
      then [''log indexes must be contiguous after the snapshot'']
      else if le_term entry > current then [''log entry term exceeds currentTerm'']
      else log_violations current (expected + 1) entries)"

definition progress_violations :: "leader_state \<Rightarrow> u64 \<Rightarrow> node_id \<Rightarrow> string list" where
  "progress_violations l log_end peer =
     (case omap_find (ls_progress l) peer of
        None \<Rightarrow> [''leader progress is missing a peer'']
      | Some p \<Rightarrow>
          (if pp_next_index p < 1 \<or> pp_next_index p > log_end + 1
           then [''peer nextIndex is outside the log''] else [])
        @ (if pp_match_index p > log_end \<or> pp_match_index p \<ge> pp_next_index p
           then [''peer matchIndex/nextIndex is invalid''] else []))"

definition leader_violations :: "f2_state \<Rightarrow> leader_state \<Rightarrow> string list" where
  "leader_violations s l =
     (if omap_size (ls_progress l) \<noteq> length (f2_peers s)
      then [''leader progress does not cover every peer''] else [])
   @ concat (map (progress_violations l (last_index s)) (f2_peers s))
   @ concat (map (\<lambda>pending. if pending = 0 \<or> pending > last_index s
        then [''pending client index is outside the log''] else [])
       (oset_elems (ls_pending_clients l)))"

definition violation_if :: "bool \<Rightarrow> string \<Rightarrow> string list" where
  "violation_if b message = (if b then [message] else [])"

definition validate :: "f2_state \<Rightarrow> string list" where
  "validate s =
     (let p = f2_persistent s; base = log_base p; log_end = last_index s in
        peer_violations (f2_node s) [] (f2_peers s)
      @ violation_if (case ps_snapshot p of None \<Rightarrow> False | Some m \<Rightarrow> sm_last_included_index m = 0)
          ''snapshot index must be nonzero''
      @ violation_if (case ps_snapshot p of None \<Rightarrow> False
          | Some m \<Rightarrow> sm_last_included_term m = 0 \<or> sm_last_included_term m > ps_current_term p)
          ''snapshot term must be nonzero and not exceed currentTerm''
      @ violation_if (f2_commit s < base \<or> f2_applied s < base) ''commit/apply index precedes the snapshot''
      @ log_violations (ps_current_term p) (base + 1) (ps_log p)
      @ violation_if (f2_commit s > log_end) ''commitIndex exceeds the last log index''
      @ violation_if (f2_applied s > f2_commit s) ''lastApplied exceeds commitIndex''
      @ violation_if (f2_role s = Leader \<and> f2_leader s = None) ''leader role lacks leader-only state''
      @ violation_if (f2_role s \<noteq> Leader \<and> f2_leader s \<noteq> None) ''non-leader retains leader-only state''
      @ violation_if (f2_role s \<noteq> Candidate \<and> oset_elems (f2_votes_received s) \<noteq> [])
          ''non-candidate retains received votes''
      @ violation_if (f2_next_request_id s = 0) ''next hard-state request ID is zero''
      @ violation_if (case f2_pending s of None \<Rightarrow> False | Some d \<Rightarrow> ph_request_id (pd_request d) = 0)
          ''pending hard-state request ID is zero''
      @ concat (map (\<lambda>voter. violation_if (voter \<noteq> f2_node s \<and> voter \<notin> set (f2_peers s))
          ''candidate has a vote from a non-peer'') (oset_elems (f2_votes_received s)))
      @ (case f2_leader s of None \<Rightarrow> [] | Some l \<Rightarrow> leader_violations s l))"

definition ensure_valid :: "f2_state \<Rightarrow> string \<Rightarrow> unit result" where
  "ensure_valid s when = (case validate s of [] \<Rightarrow> Inr ()
     | v # _ \<Rightarrow> Inl (Invalid_Argument (when @ '': '' @ v)))"

section \<open>Effects and the persistence gate\<close>

definition push_rule :: "rule_id \<Rightarrow> step_result \<Rightarrow> step_result" where
  "push_rule rule r = r\<lparr>sr_rules := sr_rules r @ [rule]\<rparr>"

definition push_effect :: "f2_effect \<Rightarrow> step_result \<Rightarrow> step_result" where
  "push_effect e r = r\<lparr>sr_effects := sr_effects r @ [e]\<rparr>"

definition set_state :: "f2_state \<Rightarrow> step_result \<Rightarrow> step_result" where
  "set_state s r = r\<lparr>sr_state := s\<rparr>"

definition persist_hard_state :: "step_result \<Rightarrow> step_result result" where
  "persist_hard_state r =
     (let request_id = f2_next_request_id (sr_state r) in
      if request_id = 0 \<or> request_id = uint64_max
      then Inl (Overflow_Error ''Raft hard-state request ID exhausted'')
      else Inr (push_effect (Persist_raft_hard_state
             \<lparr>ph_request_id = request_id, ph_state = hard_state (sr_state r)\<rparr>)
           (set_state ((sr_state r)\<lparr>f2_next_request_id := request_id + 1\<rparr>) r)))"

fun is_persist :: "f2_effect \<Rightarrow> bool" where
  "is_persist (Persist_raft_hard_state q) = True"
| "is_persist _ = False"

definition gate_on_hard_state :: "step_result \<Rightarrow> step_result result" where
  "gate_on_hard_state r =
     (case dropWhile (\<lambda>e. \<not> is_persist e) (sr_effects r) of
        Persist_raft_hard_state request # deferred \<Rightarrow>
          if f2_pending (sr_state r) \<noteq> None
          then Inl (Logic_Error ''Raft hard-state persistence is already pending'')
          else Inr (r\<lparr>sr_effects := takeWhile (\<lambda>e. \<not> is_persist e) (sr_effects r)
                        @ [Persist_raft_hard_state request],
                      sr_state := (sr_state r)\<lparr>f2_pending :=
                        Some \<lparr>pd_request = request, pd_deferred_effects = deferred\<rparr>\<rparr>\<rparr>)
      | _ \<Rightarrow> Inr r)"

definition append_request ::
    "f2_state \<Rightarrow> node_id \<Rightarrow> read_index_context option \<Rightarrow> append_entries_request result" where
  "append_request s peer read_context =
     (case f2_leader s of
        None \<Rightarrow> Inl Undefined_Behaviour
      | Some l \<Rightarrow>
          (case omap_find (ls_progress l) peer of
             None \<Rightarrow> Inl (Out_Of_Range ''map'')
           | Some progress \<Rightarrow>
               let base = log_base (f2_persistent s);
                   next = max (pp_next_index progress) (base + 1);
                   previous = next - 1;
                   entries = (if next \<le> last_index s then drop (unat (next - base - 1)) (f2_log s) else [])
               in and_then (term_at s previous) (\<lambda>previous_term.
                  Inr \<lparr>ae_term = f2_term s, ae_leader = f2_node s, ae_previous_log_index = previous,
                       ae_previous_log_term = previous_term, ae_entries = entries,
                       ae_leader_commit = f2_commit s, ae_read_context = read_context\<rparr>)))"

definition send_append ::
    "read_index_context option \<Rightarrow> node_id \<Rightarrow> step_result \<Rightarrow> step_result result" where
  "send_append read_context peer r =
     and_then (append_request (sr_state r) peer read_context) (\<lambda>request.
     Inr (push_effect (Send_append_entries peer request) (push_rule Leader_replicate r)))"

section \<open>Handlers\<close>

definition initial_progress :: "log_index \<Rightarrow> node_id list \<Rightarrow> (node_id, peer_progress) omap" where
  "initial_progress next peers = fold (\<lambda>peer m. if omap_has m peer then m
     else omap_put peer \<lparr>pp_next_index = next, pp_match_index = 0\<rparr> m) peers omap_empty"

definition initialize_leader :: "step_result \<Rightarrow> step_result result" where
  "initialize_leader r =
     (let s = sr_state r in
      if last_index s = uint64_max then Inl (Overflow_Error ''Raft log index exhausted'')
      else let s' = s\<lparr>f2_role := Leader, f2_votes_received := oset_empty,
                 f2_known_leader := Some (f2_node s),
                 f2_leader := Some \<lparr>ls_progress = initial_progress (last_index s + 1) (f2_peers s),
                   ls_pending_clients = oset_empty\<rparr>\<rparr>
           in fold_result (send_append None) (f2_peers s)
                (push_rule Leader_initialize (push_rule Candidate_win_election (set_state s' r))))"

definition vote_request :: "f2_state \<Rightarrow> request_vote_request" where
  "vote_request s = \<lparr>rv_term = f2_term s, rv_candidate = f2_node s,
     rv_last_log_index = last_index s, rv_last_log_term = last_term s\<rparr>"

definition candidate_state :: "f2_state \<Rightarrow> f2_state" where
  "candidate_state s = s\<lparr>f2_persistent := (f2_persistent s)\<lparr>ps_current_term := f2_term s + 1,
       ps_voted_for := Some (f2_node s)\<rparr>,
     f2_role := Candidate, f2_known_leader := None, f2_leader := None,
     f2_votes_received := oset_insert (f2_node s) oset_empty\<rparr>"

definition start_election :: "step_result \<Rightarrow> step_result result" where
  "start_election r =
     (if f2_term (sr_state r) = uint64_max then Inl (Overflow_Error ''Raft term exhausted'')
      else and_then (persist_hard_state (push_rule Candidate_start_election
             (set_state (candidate_state (sr_state r)) r))) (\<lambda>r1.
        let r2 = fold (\<lambda>peer. push_effect (Send_request_vote peer (vote_request (sr_state r1))))
              (f2_peers (sr_state r1)) (push_effect Reset_election_timer r1)
        in if majority (sr_state r2) = 1 then initialize_leader r2 else Inr r2))"

definition follower_in_term :: "raft_term \<Rightarrow> f2_state \<Rightarrow> f2_state" where
  "follower_in_term observed s = s\<lparr>f2_persistent := (f2_persistent s)\<lparr>ps_current_term := observed,
       ps_voted_for := None\<rparr>,
     f2_role := Follower, f2_known_leader := None, f2_votes_received := oset_empty,
     f2_leader := None\<rparr>"

definition observe_higher_term :: "raft_term \<Rightarrow> step_result \<Rightarrow> step_result result" where
  "observe_higher_term observed r =
     (if observed > f2_term (sr_state r)
      then persist_hard_state (push_rule Observe_higher_term
             (set_state (follower_in_term observed (sr_state r)) r))
      else Inr r)"

definition vote_reply :: "node_id \<Rightarrow> bool \<Rightarrow> step_result \<Rightarrow> step_result" where
  "vote_reply to granted r = push_effect (Send_request_vote_response to
     \<lparr>rvr_term = f2_term (sr_state r), rvr_granted = granted\<rparr>) r"

definition handle_request_vote :: "node_id \<Rightarrow> request_vote_request \<Rightarrow> step_result \<Rightarrow> step_result result" where
  "handle_request_vote sender request r =
     and_then (ensure_peer (sr_state r) sender) (\<lambda>_.
     and_then (throw_if (rv_candidate request \<noteq> sender)
        (Invalid_Argument ''RequestVote sender does not match candidate'')) (\<lambda>_.
     and_then (observe_higher_term (rv_term request) r) (\<lambda>r1.
     let s = sr_state r1 in
     if rv_term request < f2_term s
     then Inr (vote_reply sender False (push_rule Request_vote_reject_stale r1))
     else
       let can_vote = (f2_vote s = None \<or> f2_vote s = Some (rv_candidate request));
           fresh = is_log_at_least_as_up_to_date s (rv_last_log_term request) (rv_last_log_index request)
       in if can_vote \<and> fresh
          then
            let changed = (f2_vote s \<noteq> Some (rv_candidate request));
                r2 = push_rule Request_vote_grant (set_state (s\<lparr>f2_persistent :=
                  (f2_persistent s)\<lparr>ps_voted_for := Some (rv_candidate request)\<rparr>\<rparr>) r1)
            in and_then (if changed then persist_hard_state r2 else Inr r2) (\<lambda>r3.
               Inr (vote_reply sender True (push_effect Reset_election_timer r3)))
          else Inr (vote_reply sender False (push_rule Request_vote_deny r1)))))"

definition handle_request_vote_response ::
    "node_id \<Rightarrow> request_vote_response \<Rightarrow> step_result \<Rightarrow> step_result result" where
  "handle_request_vote_response sender response r =
     and_then (ensure_peer (sr_state r) sender) (\<lambda>_.
     and_then (observe_higher_term (rvr_term response) r) (\<lambda>r1.
     let s = sr_state r1 in
     if f2_role s \<noteq> Candidate \<or> rvr_term response \<noteq> f2_term s \<or> \<not> rvr_granted response
     then Inr r1
     else
       let s' = s\<lparr>f2_votes_received := oset_insert sender (f2_votes_received s)\<rparr>
       in if length (oset_elems (f2_votes_received s')) \<ge> majority s'
          then initialize_leader (set_state s' r1)
          else Inr (set_state s' r1)))"

definition append_reply ::
    "node_id \<Rightarrow> bool \<Rightarrow> log_index \<Rightarrow> read_index_context option \<Rightarrow> step_result \<Rightarrow> step_result" where
  "append_reply to succeeded matched read_context r = push_effect (Send_append_entries_response to
     \<lparr>aer_term = f2_term (sr_state r), aer_succeeded = succeeded, aer_matched_index = matched,
      aer_read_context = read_context\<rparr>) r"

definition set_log :: "log_entry list \<Rightarrow> f2_state \<Rightarrow> f2_state" where
  "set_log log s = s\<lparr>f2_persistent := (f2_persistent s)\<lparr>ps_log := log\<rparr>\<rparr>"

definition set_commit :: "log_index \<Rightarrow> f2_state \<Rightarrow> f2_state" where
  "set_commit index s = s\<lparr>f2_volatile := (f2_volatile s)\<lparr>vs_commit_index := index\<rparr>\<rparr>"

fun entries_contiguous :: "u64 \<Rightarrow> log_entry list \<Rightarrow> bool" where
  "entries_contiguous expected [] = True"
| "entries_contiguous expected (e # es) = (le_index e = expected \<and> entries_contiguous (expected + 1) es)"

text \<open>
  The loop over the incoming entries.  \<open>None\<close> is the early return on a conflict with a committed
  entry; otherwise the state with the conflicting suffix erased, the entries still to append,
  and whether something was erased.
\<close>

fun reconcile :: "f2_state \<Rightarrow> log_entry list \<Rightarrow> (f2_state \<times> log_entry list \<times> bool) option result" where
  "reconcile s [] = Inr (Some (s, [], False))"
| "reconcile s (e # es) =
     (if le_index e > last_index s then Inr (Some (s, e # es, False))
      else and_then (term_at s (le_index e)) (\<lambda>local_term.
        if local_term \<noteq> le_term e
        then if le_index e \<le> f2_commit s then Inr None
             else Inr (Some (set_log (take (unat (le_index e - log_base (f2_persistent s) - 1)) (f2_log s)) s,
                    e # es, True))
        else reconcile s es))"

definition previous_matches :: "f2_state \<Rightarrow> append_entries_request \<Rightarrow> bool result" where
  "previous_matches s request =
     (let previous = ae_previous_log_index request in
      if previous \<ge> log_base (f2_persistent s) \<and> previous \<le> last_index s
      then and_then (term_at s previous) (\<lambda>t. Inr (t = ae_previous_log_term request))
      else Inr False)"

text \<open>The part of \<open>handle_append_entries\<close> after the previous entry matched.\<close>

definition accept_entries :: "node_id \<Rightarrow> append_entries_request \<Rightarrow> step_result \<Rightarrow> step_result result" where
  "accept_entries sender request r =
     (let previous = ae_previous_log_index request; entries = ae_entries request;
          matched = previous + of_nat (length entries) in
      and_then (throw_if (\<not> entries_contiguous (previous + 1) entries)
        (Invalid_Argument ''AppendEntries entries are not contiguous'')) (\<lambda>_.
      and_then (reconcile (sr_state r) entries) (\<lambda>outcome.
      case outcome of
        None \<Rightarrow> Inr (append_reply sender False 0 (ae_read_context request)
            (push_rule Append_entries_reject_log_mismatch r))
      | Some (s, incoming, erased) \<Rightarrow>
          let s1 = (if incoming \<noteq> [] then set_log (f2_log s @ incoming) s else s);
              log_changed = (erased \<or> incoming \<noteq> []);
              r1 = push_rule Append_entries_accept (set_state s1 r);
              r2 = (if log_changed then push_effect Persist_log r1 else r1);
              bounded = min (ae_leader_commit request) matched;
              r3 = (if ae_leader_commit request > f2_commit s1 \<and> bounded > f2_commit s1
                    then push_rule Append_entries_advance_commit (set_state (set_commit bounded s1) r2)
                    else r2)
          in Inr (append_reply sender True matched (ae_read_context request) r3))))"

definition handle_append_entries :: "node_id \<Rightarrow> append_entries_request \<Rightarrow> step_result \<Rightarrow> step_result result" where
  "handle_append_entries sender request r =
     and_then (ensure_peer (sr_state r) sender) (\<lambda>_.
     and_then (throw_if (ae_leader request \<noteq> sender)
        (Invalid_Argument ''AppendEntries sender does not match leader'')) (\<lambda>_.
     let was_candidate = (f2_role (sr_state r) = Candidate) in
     and_then (observe_higher_term (ae_term request) r) (\<lambda>r1.
     if ae_term request < f2_term (sr_state r1)
     then Inr (append_reply sender False 0 (ae_read_context request) (push_rule Append_entries_reject_stale r1))
     else
       let r2 = (if was_candidate then push_rule Candidate_accept_append_entries r1 else r1);
           s = (sr_state r2)\<lparr>f2_role := Follower, f2_leader := None, f2_votes_received := oset_empty,
                 f2_known_leader := Some sender\<rparr>;
           r3 = push_effect Reset_election_timer (set_state s r2)
       in and_then (previous_matches s request) (\<lambda>matches.
          if \<not> matches
          then Inr (append_reply sender False 0 (ae_read_context request)
                 (push_rule Append_entries_reject_log_mismatch r3))
          else accept_entries sender request r3))))"

text \<open>
  The loop of \<open>advance_leader_commit\<close> from the last index down to the old commit index; the
  counter is the number of candidates left.
\<close>

definition replicated_count :: "leader_state \<Rightarrow> log_index \<Rightarrow> nat" where
  "replicated_count l candidate =
     1 + length (filter (\<lambda>p. pp_match_index p \<ge> candidate) (omap_values (ls_progress l)))"

fun find_commit :: "f2_state \<Rightarrow> leader_state \<Rightarrow> log_index \<Rightarrow> nat \<Rightarrow> log_index option result" where
  "find_commit s l candidate 0 = Inr None"
| "find_commit s l candidate (Suc n) =
     and_then (term_at s candidate) (\<lambda>t.
     if t = f2_term s \<and> replicated_count l candidate \<ge> majority s then Inr (Some candidate)
     else find_commit s l (candidate - 1) n)"

definition advance_leader_commit :: "step_result \<Rightarrow> step_result result" where
  "advance_leader_commit r =
     (let s = sr_state r in
      case f2_leader s of
        None \<Rightarrow> Inl Undefined_Behaviour
      | Some l \<Rightarrow>
          and_then (find_commit s l (last_index s) (unat (last_index s) - unat (f2_commit s))) (\<lambda>found.
          case found of
            None \<Rightarrow> Inr r
          | Some candidate \<Rightarrow>
              Inr (push_rule Leader_advance_commit (set_state (set_commit candidate s) r))))"

definition set_progress :: "node_id \<Rightarrow> peer_progress \<Rightarrow> leader_state \<Rightarrow> f2_state \<Rightarrow> f2_state" where
  "set_progress peer progress l s =
     s\<lparr>f2_leader := Some (l\<lparr>ls_progress := omap_put peer progress (ls_progress l)\<rparr>)\<rparr>"

definition handle_append_entries_response ::
    "node_id \<Rightarrow> append_entries_response \<Rightarrow> step_result \<Rightarrow> step_result result" where
  "handle_append_entries_response sender response r =
     and_then (ensure_peer (sr_state r) sender) (\<lambda>_.
     and_then (observe_higher_term (aer_term response) r) (\<lambda>r1.
     let s = sr_state r1 in
     if f2_role s \<noteq> Leader \<or> aer_term response \<noteq> f2_term s then Inr r1
     else case f2_leader s of
       None \<Rightarrow> Inl Undefined_Behaviour
     | Some l \<Rightarrow>
         (case omap_find (ls_progress l) sender of
            None \<Rightarrow> Inl (Invalid_Argument ''AppendEntries response from non-peer'')
          | Some progress \<Rightarrow>
              if aer_succeeded response
              then if aer_matched_index response > last_index s
                   then Inl (Invalid_Argument ''matched index exceeds leader log'')
                   else
                     let match = max (pp_match_index progress) (aer_matched_index response);
                         updated = \<lparr>pp_next_index = match + 1, pp_match_index = match\<rparr>
                     in advance_leader_commit (push_rule Leader_record_replication
                          (set_state (set_progress sender updated l s) r1))
              else
                let updated = progress\<lparr>pp_next_index :=
                      max (pp_match_index progress + 1) (max 1 (pp_next_index progress - 1))\<rparr>
                in send_append (aer_read_context response) sender
                     (push_rule Leader_retry_replication (set_state (set_progress sender updated l s) r1)))))"

definition handle_apply :: "step_result \<Rightarrow> step_result result" where
  "handle_apply r =
     (let s = sr_state r in
      if f2_commit s \<le> f2_applied s then Inr r
      else
        let index = f2_applied s + 1;
            s1 = s\<lparr>f2_volatile := (f2_volatile s)\<lparr>vs_last_applied := index\<rparr>\<rparr>
        in and_then (vector_at (f2_log s1) (index - log_base (f2_persistent s1) - 1)) (\<lambda>entry.
           let r1 = push_effect (Apply_command index (le_command entry))
                 (push_rule Apply_committed_rule (set_state s1 r))
           in Inr (case f2_leader s1 of
                None \<Rightarrow> r1
              | Some l \<Rightarrow>
                  if oset_member index (ls_pending_clients l)
                  then push_effect (Complete_client_command index)
                    (set_state (s1\<lparr>f2_leader := Some (l\<lparr>ls_pending_clients :=
                       oset_erase index (ls_pending_clients l)\<rparr>)\<rparr>) r1)
                  else r1)))"

definition handle_client :: "command_envelope \<Rightarrow> step_result \<Rightarrow> step_result result" where
  "handle_client command r =
     (let s = sr_state r in
      if f2_role s \<noteq> Leader then Inr r
      else if last_index s = uint64_max then Inl (Overflow_Error ''Raft log index exhausted'')
      else case f2_leader s of
        None \<Rightarrow> Inl Undefined_Behaviour
      | Some l \<Rightarrow>
          let index = last_index s + 1;
              entry = \<lparr>le_term = f2_term s, le_index = index, le_command = command\<rparr>;
              s1 = (set_log (f2_log s @ [entry]) s)\<lparr>f2_leader :=
                Some (l\<lparr>ls_pending_clients := oset_insert index (ls_pending_clients l)\<rparr>)\<rparr>
          in and_then (fold_result (send_append None) (f2_peers s1)
                 (push_effect Persist_log (push_rule Leader_append_client (set_state s1 r))))
               advance_leader_commit)"

definition handle_timeout :: "step_result \<Rightarrow> step_result result" where
  "handle_timeout r =
     (case f2_role (sr_state r) of
        Leader \<Rightarrow> fold_result (send_append None) (f2_peers (sr_state r)) (push_rule Leader_heartbeat r)
      | Follower \<Rightarrow> start_election (push_rule Follower_election_timeout r)
      | Candidate \<Rightarrow> start_election (push_rule Candidate_restart_election r)
      | Learner \<Rightarrow> Inr r)"

section \<open>The step function\<close>

fun dispatch :: "f2_event \<Rightarrow> step_result \<Rightarrow> step_result result" where
  "dispatch Election_timeout r = (if f2_role (sr_state r) \<noteq> Leader then handle_timeout r else Inr r)"
| "dispatch Heartbeat_timeout r = (if f2_role (sr_state r) = Leader then handle_timeout r else Inr r)"
| "dispatch Apply_committed r = handle_apply r"
| "dispatch (Observe_term t) r = observe_higher_term t r"
| "dispatch (Receive_request_vote sender request) r = handle_request_vote sender request r"
| "dispatch (Receive_request_vote_response sender response) r = handle_request_vote_response sender response r"
| "dispatch (Receive_append_entries sender request) r = handle_append_entries sender request r"
| "dispatch (Receive_append_entries_response sender response) r = handle_append_entries_response sender response r"
| "dispatch (Receive_client_command command) r = handle_client command r"
| "dispatch (Raft_hard_state_persisted request_id state) r =
     (case f2_pending (sr_state r) of
        None \<Rightarrow> Inl Undefined_Behaviour
      | Some pending \<Rightarrow>
          if request_id \<noteq> ph_request_id (pd_request pending) \<or> state \<noteq> ph_state (pd_request pending)
          then Inl (Invalid_Argument ''Raft hard-state completion does not match pending request'')
          else Inr (r\<lparr>sr_state := (sr_state r)\<lparr>f2_pending := None\<rparr>,
                      sr_effects := pd_deferred_effects pending\<rparr>))"

fun is_completion :: "f2_event \<Rightarrow> bool" where
  "is_completion (Raft_hard_state_persisted request_id state) = True"
| "is_completion _ = False"

definition f2_step :: "f2_state \<Rightarrow> f2_event \<Rightarrow> step_result result" where
  "f2_step s event =
     and_then (ensure_valid s ''invalid pre-state'') (\<lambda>_.
     and_then (throw_if (f2_pending s \<noteq> None \<and> \<not> is_completion event)
        (Logic_Error ''Raft core input is blocked on hard-state persistence'')) (\<lambda>_.
     and_then (throw_if (f2_pending s = None \<and> is_completion event)
        (Invalid_Argument ''unexpected Raft hard-state persistence completion'')) (\<lambda>_.
     and_then (dispatch event \<lparr>sr_state = s, sr_rules = [], sr_effects = []\<rparr>) (\<lambda>r.
     and_then (gate_on_hard_state r) (\<lambda>r'.
     and_then (ensure_valid (sr_state r') ''invalid post-state'') (\<lambda>_. Inr r'))))))"

end
