(* ===== verification/Figure2_Election.thy ===== *)
theory Figure2_Election
  imports Figure2
begin

text \<open>
  Terms, votes and the persistence gate of the Figure 2 specification.  The lemmas follow one
  step through its handlers and show that the hard state only moves forward, that every message
  a server releases is covered by a hard state that is already durable, and under which
  circumstances a server becomes candidate or leader.
\<close>

section \<open>Order on hard states\<close>

text \<open>A later hard state of the same server: a higher term, or the same term with the vote kept.\<close>

definition hs_le :: "raft_hard_state \<Rightarrow> raft_hard_state \<Rightarrow> bool" where
  "hs_le a b \<longleftrightarrow> hs_current_term a < hs_current_term b
     \<or> hs_current_term a = hs_current_term b \<and> (hs_voted_for a = None \<or> hs_voted_for a = hs_voted_for b)"

lemma hs_le_refl [simp]: "hs_le a a"
  by (simp add: hs_le_def)

lemma hs_le_trans: "hs_le a b \<Longrightarrow> hs_le b c \<Longrightarrow> hs_le a c"
  unfolding hs_le_def using less_trans by auto

lemma hs_le_vote:
  "hs_le \<lparr>hs_current_term = t, hs_voted_for = Some c\<rparr> \<lparr>hs_current_term = t, hs_voted_for = v\<rparr> \<Longrightarrow> v = Some c"
  by (simp add: hs_le_def)

section \<open>Effects covered by durable state\<close>

text \<open>What a message promises about the durable hard state of its sender.\<close>

fun effect_ok :: "raft_hard_state \<Rightarrow> f2_effect \<Rightarrow> bool" where
  "effect_ok d (Send_request_vote to q) \<longleftrightarrow>
     d = \<lparr>hs_current_term = rv_term q, hs_voted_for = Some (rv_candidate q)\<rparr>"
| "effect_ok d (Send_request_vote_response to q) \<longleftrightarrow>
     hs_current_term d = rvr_term q \<and> (rvr_granted q \<longrightarrow> hs_voted_for d = Some to)"
| "effect_ok d (Send_append_entries to q) \<longleftrightarrow> hs_current_term d = ae_term q"
| "effect_ok d (Send_append_entries_response to q) \<longleftrightarrow> hs_current_term d = aer_term q"
| "effect_ok d _ \<longleftrightarrow> True"

text \<open>
  A list of effects in which each persistence request moves the durable state forward and each
  message is covered by the last request before it.
\<close>

fun effects_ok :: "raft_hard_state \<Rightarrow> f2_effect list \<Rightarrow> bool" where
  "effects_ok d [] = True"
| "effects_ok d (Persist_raft_hard_state q # es) = (hs_le d (ph_state q) \<and> effects_ok (ph_state q) es)"
| "effects_ok d (e # es) = (effect_ok d e \<and> effects_ok d es)"

fun durable_after :: "raft_hard_state \<Rightarrow> f2_effect list \<Rightarrow> raft_hard_state" where
  "durable_after d [] = d"
| "durable_after d (Persist_raft_hard_state q # es) = durable_after (ph_state q) es"
| "durable_after d (e # es) = durable_after d es"

lemma durable_after_append [simp]: "durable_after d (es @ fs) = durable_after (durable_after d es) fs"
  by (induction d es rule: durable_after.induct) auto

lemma effects_ok_append [simp]:
  "effects_ok d (es @ fs) \<longleftrightarrow> effects_ok d es \<and> effects_ok (durable_after d es) fs"
  by (induction d es rule: effects_ok.induct) auto

lemma effects_ok_le: "effects_ok d es \<Longrightarrow> hs_le d (durable_after d es)"
  by (induction d es rule: effects_ok.induct) (auto intro: hs_le_trans)

lemma single_effect [simp]:
  "\<not> is_persist e \<Longrightarrow> durable_after d [e] = d"
  "\<not> is_persist e \<Longrightarrow> effects_ok d [e] \<longleftrightarrow> effect_ok d e"
  by (cases e; simp)+

lemma effects_ok_takeWhile:
  "effects_ok d es \<Longrightarrow> e \<in> set (takeWhile (\<lambda>e. \<not> is_persist e) es) \<Longrightarrow> effect_ok d e"
  by (induction d es rule: effects_ok.induct) (auto split: if_splits)

lemma no_persist_durable: "\<forall>e \<in> set es. \<not> is_persist e \<Longrightarrow> durable_after d es = d"
  by (induction d es rule: durable_after.induct) auto

lemma effects_ok_split:
  assumes "effects_ok d es" "dropWhile (\<lambda>e. \<not> is_persist e) es = Persist_raft_hard_state q # fs"
  shows "hs_le d (ph_state q)" "effects_ok (ph_state q) fs"
    "durable_after d es = durable_after (ph_state q) fs"
proof -
  let ?pre = "takeWhile (\<lambda>e. \<not> is_persist e) es"
  have es: "es = ?pre @ Persist_raft_hard_state q # fs"
    using assms(2) by (metis takeWhile_dropWhile_id)
  have "\<forall>e \<in> set ?pre. \<not> is_persist e" by (auto dest: set_takeWhileD)
  then have pre: "durable_after d ?pre = d" by (rule no_persist_durable)
  have "effects_ok d (?pre @ Persist_raft_hard_state q # fs)" using assms(1) es by simp
  then show "hs_le d (ph_state q)" "effects_ok (ph_state q) fs" by (simp_all add: pre)
  have "durable_after d (?pre @ Persist_raft_hard_state q # fs) = durable_after (ph_state q) fs"
    by (simp add: pre)
  then show "durable_after d es = durable_after (ph_state q) fs" using es by simp
qed

section \<open>The handlers and the hard state\<close>

text \<open>The effects collected so far are covered, and lead to the hard state of the working state.\<close>

definition flow :: "raft_hard_state \<Rightarrow> step_result \<Rightarrow> bool" where
  "flow d r \<longleftrightarrow> effects_ok d (sr_effects r) \<and> durable_after d (sr_effects r) = hard_state (sr_state r)"

lemma push_fields [simp]:
  "sr_state (push_rule x r) = sr_state r" "sr_effects (push_rule x r) = sr_effects r"
  "sr_state (push_effect e r) = sr_state r" "sr_effects (push_effect e r) = sr_effects r @ [e]"
  "sr_state (set_state s r) = s" "sr_effects (set_state s r) = sr_effects r"
  by (simp_all add: push_rule_def push_effect_def set_state_def)

lemma flow_push:
  "flow d r \<Longrightarrow> \<not> is_persist e \<Longrightarrow> effect_ok (hard_state (sr_state r)) e \<Longrightarrow> flow d (push_effect e r)"
  by (simp add: flow_def)

lemma flow_set_state: "flow d r \<Longrightarrow> hard_state s = hard_state (sr_state r) \<Longrightarrow> flow d (set_state s r)"
  by (simp add: flow_def)

lemma flow_push_rule: "flow d (push_rule x r) \<longleftrightarrow> flow d r"
  by (simp add: flow_def)

lemma persist_hard_state_Inr:
  assumes "persist_hard_state r = Inr r'"
  shows "sr_state r' = (sr_state r)\<lparr>f2_next_request_id := f2_next_request_id (sr_state r) + 1\<rparr>"
    and "\<exists>rid. rid \<noteq> 0 \<and> sr_effects r' = sr_effects r @ [Persist_raft_hard_state
      \<lparr>ph_request_id = rid, ph_state = hard_state (sr_state r)\<rparr>]"
  using assms by (auto simp: persist_hard_state_def Let_def split: if_splits)

lemma hard_state_next_id [simp]: "hard_state (s\<lparr>f2_next_request_id := n\<rparr>) = hard_state s"
  by (simp add: hard_state_def)

lemma flow_persist:
  assumes "flow d r0" "sr_effects r = sr_effects r0" "hs_le (hard_state (sr_state r0)) (hard_state (sr_state r))"
    and "persist_hard_state r = Inr r'"
  shows "flow d r'" "hard_state (sr_state r') = hard_state (sr_state r)"
  using assms persist_hard_state_Inr[OF assms(4)] by (auto simp: flow_def)

lemma append_request_term: "append_request s peer c = Inr q \<Longrightarrow> ae_term q = f2_term s"
  by (auto simp: append_request_def Let_def result_simps split: option.splits)

lemma send_append_Inr:
  assumes "send_append c peer r = Inr r'"
  shows "sr_state r' = sr_state r" "flow d r \<Longrightarrow> flow d r'"
  using assms append_request_term
  by (auto simp: send_append_def result_simps flow_push_rule hard_state_def intro!: flow_push)

lemma send_appends_Inr:
  assumes "fold_result (send_append c) peers r = Inr r'"
  shows "sr_state r' = sr_state r \<and> (flow d r \<longrightarrow> flow d r')"
  using assms
  by (rule fold_result_invariant[where P = "\<lambda>x. sr_state x = sr_state r \<and> (flow d r \<longrightarrow> flow d x)"])
    (auto dest: send_append_Inr)

text \<open>What a handler keeps of the server, and how it may change role.\<close>

abbreviation votes_of :: "f2_state \<Rightarrow> node_id set" where
  "votes_of s \<equiv> set (oset_elems (f2_votes_received s))"

definition keeps :: "f2_state \<Rightarrow> f2_state \<Rightarrow> bool" where
  "keeps s s' \<longleftrightarrow> f2_node s' = f2_node s \<and> f2_peers s' = f2_peers s \<and> f2_pending s' = f2_pending s
     \<and> hs_le (hard_state s) (hard_state s')"

definition elects :: "node_id set \<Rightarrow> f2_state \<Rightarrow> f2_state \<Rightarrow> bool" where
  "elects granted s s' \<longleftrightarrow>
     (f2_role s' = Candidate \<longrightarrow>
        f2_vote s' = Some (f2_node s') \<and> votes_of s' \<subseteq> {f2_node s'}
        \<or> f2_role s = Candidate \<and> hard_state s' = hard_state s \<and> votes_of s' \<subseteq> votes_of s \<union> granted)
   \<and> (f2_role s' = Leader \<longrightarrow>
        f2_role s = Leader \<and> hard_state s' = hard_state s
        \<or> f2_peers s' = [] \<and> f2_vote s' = Some (f2_node s')
        \<or> f2_role s = Candidate \<and> hard_state s' = hard_state s \<and> majority s \<le> card (votes_of s \<union> granted))"

definition handled :: "node_id set \<Rightarrow> raft_hard_state \<Rightarrow> step_result \<Rightarrow> step_result \<Rightarrow> bool" where
  "handled granted d r r' \<longleftrightarrow> flow d r' \<and> keeps (sr_state r) (sr_state r')
     \<and> elects granted (sr_state r) (sr_state r')"

lemma keeps_refl [simp]: "keeps s s"
  by (simp add: keeps_def)

lemma elects_refl [simp]: "elects G s s"
  by (auto simp: elects_def)

lemma keeps_trans: "keeps s s' \<Longrightarrow> keeps s' s'' \<Longrightarrow> keeps s s''"
  by (auto simp: keeps_def intro: hs_le_trans)

lemma elects_same_election:
  "f2_role s' = f2_role s \<Longrightarrow> hard_state s' = hard_state s \<Longrightarrow> f2_votes_received s' = f2_votes_received s
     \<Longrightarrow> elects G s s'"
  by (auto simp: elects_def)

lemma elects_quiet: "f2_role s' \<noteq> Candidate \<Longrightarrow> f2_role s' \<noteq> Leader \<Longrightarrow> elects G s s'"
  by (auto simp: elects_def)

lemma oset_elems_empty [simp]: "oset_elems oset_empty = []"
  by (simp add: oset_elems_def oset_empty_def omap_keys_def)

lemma length_oset: "length (oset_elems s) = card (set (oset_elems s))"
  using distinct_card[OF sorted_wrt_less_distinct[OF oset_elems_sorted[of s]]] by simp

lemma initialize_leader_Inr:
  assumes "initialize_leader r = Inr r'"
  shows "f2_role (sr_state r') = Leader" "hard_state (sr_state r') = hard_state (sr_state r)"
    "f2_node (sr_state r') = f2_node (sr_state r)" "f2_peers (sr_state r') = f2_peers (sr_state r)"
    "f2_pending (sr_state r') = f2_pending (sr_state r)" "flow d r \<Longrightarrow> flow d r'"
proof -
  define s' where "s' = (sr_state r)\<lparr>f2_role := Leader, f2_votes_received := oset_empty,
       f2_known_leader := Some (f2_node (sr_state r)),
       f2_leader := Some \<lparr>ls_progress = initial_progress (last_index (sr_state r) + 1) (f2_peers (sr_state r)),
         ls_pending_clients = oset_empty\<rparr>\<rparr>"
  have run: "fold_result (send_append None) (f2_peers (sr_state r))
      (push_rule Leader_initialize (push_rule Candidate_win_election (set_state s' r))) = Inr r'"
    using assms by (simp add: initialize_leader_def Let_def s'_def split: if_splits)
  have same: "hard_state s' = hard_state (sr_state r)" by (simp add: s'_def hard_state_def)
  have st: "sr_state r' = s'" using send_appends_Inr[OF run] by simp
  show "f2_role (sr_state r') = Leader" "hard_state (sr_state r') = hard_state (sr_state r)"
    "f2_node (sr_state r') = f2_node (sr_state r)" "f2_peers (sr_state r') = f2_peers (sr_state r)"
    "f2_pending (sr_state r') = f2_pending (sr_state r)"
    unfolding st by (simp_all add: same) (simp_all add: s'_def)
  show "flow d r'" if "flow d r"
    using send_appends_Inr[OF run, of d] flow_set_state[OF that same] by (simp add: flow_push_rule)
qed

lemma observe_higher_term_Inr:
  assumes "observe_higher_term t r = Inr r'" "flow d r"
  shows "handled G d r r'"
    and "f2_term (sr_state r) < t \<Longrightarrow> f2_role (sr_state r') = Follower \<and> f2_term (sr_state r') = t
      \<and> f2_vote (sr_state r') = None"
    and "\<not> f2_term (sr_state r) < t \<Longrightarrow> r' = r"
proof -
  let ?s = "follower_in_term t (sr_state r)"
  show same: "\<not> f2_term (sr_state r) < t \<Longrightarrow> r' = r"
    using assms(1) by (simp add: observe_higher_term_def)
  have step: "handled G d r r' \<and> f2_role (sr_state r') = Follower \<and> f2_term (sr_state r') = t
      \<and> f2_vote (sr_state r') = None" if lt: "f2_term (sr_state r) < t"
  proof -
    have run: "persist_hard_state (push_rule Observe_higher_term (set_state ?s r)) = Inr r'"
      using assms(1) lt by (simp add: observe_higher_term_def)
    have le: "hs_le (hard_state (sr_state r)) (hard_state ?s)"
      using lt by (simp add: hs_le_def hard_state_def follower_in_term_def)
    have "flow d r'" using flow_persist(1)[OF assms(2) _ _ run] le by simp
    moreover have "sr_state r' = ?s\<lparr>f2_next_request_id := f2_next_request_id ?s + 1\<rparr>"
      using persist_hard_state_Inr(1)[OF run] by simp
    ultimately show ?thesis
      using le by (auto simp: handled_def keeps_def hard_state_def follower_in_term_def intro: elects_quiet)
  qed
  show "f2_term (sr_state r) < t \<Longrightarrow> f2_role (sr_state r') = Follower \<and> f2_term (sr_state r') = t
      \<and> f2_vote (sr_state r') = None"
    using step by blast
  show "handled G d r r'"
    using step same assms(2) by (cases "f2_term (sr_state r) < t") (auto simp: handled_def)
qed

lemma push_effects_flow:
  assumes "flow d r" "\<forall>x \<in> set xs. \<not> is_persist (f x) \<and> effect_ok (hard_state (sr_state r)) (f x)"
  shows "flow d (fold (\<lambda>x. push_effect (f x)) xs r) \<and> sr_state (fold (\<lambda>x. push_effect (f x)) xs r) = sr_state r"
  using assms by (induction xs arbitrary: r) (auto simp: flow_push)

lemma start_election_Inr:
  assumes "start_election r = Inr r'" "flow d r"
  shows "handled G d r r'"
proof -
  let ?s = "candidate_state (sr_state r)"
  have bound: "f2_term (sr_state r) \<noteq> uint64_max"
    using assms(1) by (auto simp: start_election_def)
  obtain r1 where r1: "persist_hard_state (push_rule Candidate_start_election (set_state ?s r)) = Inr r1"
    using assms(1) bound by (auto simp: start_election_def result_simps)
  define r2 where "r2 = fold (\<lambda>peer. push_effect (Send_request_vote peer (vote_request (sr_state r1))))
      (f2_peers (sr_state r1)) (push_effect Reset_election_timer r1)"
  have le: "hs_le (hard_state (sr_state r)) (hard_state ?s)"
    using less_plus1[OF bound] by (simp add: hs_le_def hard_state_def candidate_state_def)
  have "flow d r1" using flow_persist(1)[OF assms(2) _ _ r1] le by simp
  have st1: "sr_state r1 = ?s\<lparr>f2_next_request_id := f2_next_request_id ?s + 1\<rparr>"
    using persist_hard_state_Inr(1)[OF r1] by simp
  have "flow d (push_effect Reset_election_timer r1)" using \<open>flow d r1\<close> by (simp add: flow_push)
  then have r2: "flow d r2" "sr_state r2 = sr_state r1"
    unfolding r2_def
    using push_effects_flow[of d "push_effect Reset_election_timer r1" "f2_peers (sr_state r1)"
        "\<lambda>peer. Send_request_vote peer (vote_request (sr_state r1))"]
    by (simp_all add: vote_request_def st1 hard_state_def candidate_state_def)
  have run: "(if majority (sr_state r2) = 1 then initialize_leader r2 else Inr r2) = Inr r'"
    using assms(1) bound by (simp only: start_election_def if_False r1 and_then_Inr Let_def r2_def)
  have fields: "f2_node (sr_state r1) = f2_node (sr_state r)" "f2_peers (sr_state r1) = f2_peers (sr_state r)"
    "f2_pending (sr_state r1) = f2_pending (sr_state r)" "f2_role (sr_state r1) = Candidate"
    "f2_vote (sr_state r1) = Some (f2_node (sr_state r1))" "votes_of (sr_state r1) = {f2_node (sr_state r1)}"
    "hard_state (sr_state r1) = hard_state ?s"
    by (simp_all add: st1) (simp_all add: candidate_state_def)
  show ?thesis
  proof (cases "majority (sr_state r2) = 1")
    case True
    then have init: "initialize_leader r2 = Inr r'" using run by simp
    have "f2_peers (sr_state r) = []" using True by (cases "f2_peers (sr_state r)") (auto simp: majority_def r2(2) fields)
    moreover have "f2_vote (sr_state r') = f2_vote (sr_state r1)"
      using initialize_leader_Inr(2)[OF init] by (simp add: hard_state_def r2(2))
    ultimately show ?thesis
      using initialize_leader_Inr[OF init] r2 fields le by (simp add: handled_def keeps_def elects_def)
  next
    case False
    then have "r' = r2" using run by simp
    then show ?thesis using r2 fields le by (simp add: handled_def keeps_def elects_def)
  qed
qed

lemma handled_set_state:
  assumes "flow d r" "hard_state s = hard_state (sr_state r)" "keeps (sr_state r) s" "elects G (sr_state r) s"
  shows "handled G d r (set_state s r)"
  using assms by (simp add: handled_def flow_set_state)

lemma handled_push:
  "handled G d r r' \<Longrightarrow> \<not> is_persist e \<Longrightarrow> effect_ok (hard_state (sr_state r')) e
     \<Longrightarrow> handled G d r (push_effect e r')"
  by (simp add: handled_def flow_push)

lemma handled_push_rule [simp]: "handled G d r (push_rule x r') \<longleftrightarrow> handled G d r r'"
  by (simp add: handled_def flow_push_rule)

lemma handled_vote_reply:
  "handled G d r r' \<Longrightarrow> (granted \<Longrightarrow> f2_vote (sr_state r') = Some to) \<Longrightarrow> handled G d r (vote_reply to granted r')"
  by (simp add: vote_reply_def handled_push hard_state_def)

lemma handled_append_reply: "handled G d r r' \<Longrightarrow> handled G d r (append_reply to ok m c r')"
  by (simp add: append_reply_def handled_push hard_state_def)

text \<open>A later working state with the same role, votes and hard state.\<close>

lemma handled_same_election:
  assumes "handled G d r r'" "flow d r''" "keeps (sr_state r') (sr_state r'')"
    and "f2_role (sr_state r'') = f2_role (sr_state r')" "hard_state (sr_state r'') = hard_state (sr_state r')"
    and "f2_votes_received (sr_state r'') = f2_votes_received (sr_state r')"
  shows "handled G d r r''"
proof -
  have "f2_vote (sr_state r'') = f2_vote (sr_state r')" using assms(5) by (simp add: hard_state_def)
  then show ?thesis
    using assms by (auto simp: handled_def elects_def keeps_def intro: hs_le_trans)
qed

definition self_voted :: "f2_state \<Rightarrow> bool" where
  "self_voted s \<longleftrightarrow> (f2_role s = Candidate \<or> f2_role s = Leader \<longrightarrow> f2_vote s = Some (f2_node s))"

lemma handle_request_vote_cases:
  assumes "handle_request_vote sender request r = Inr r'"
  obtains r1 where "observe_higher_term (rv_term request) r = Inr r1"
    "r' = vote_reply sender False (push_rule Request_vote_reject_stale r1)
     \<or> r' = vote_reply sender False (push_rule Request_vote_deny r1)"
  | r1 r2 where "observe_higher_term (rv_term request) r = Inr r1"
    "f2_vote (sr_state r1) = None"
    "persist_hard_state (push_rule Request_vote_grant (set_state ((sr_state r1)\<lparr>f2_persistent :=
       (f2_persistent (sr_state r1))\<lparr>ps_voted_for := Some sender\<rparr>\<rparr>) r1)) = Inr r2"
    "r' = vote_reply sender True (push_effect Reset_election_timer r2)"
  | r1 where "observe_higher_term (rv_term request) r = Inr r1" "f2_vote (sr_state r1) = Some sender"
    "r' = vote_reply sender True (push_effect Reset_election_timer (push_rule Request_vote_grant r1))"
proof -
  obtain r1 where r1: "observe_higher_term (rv_term request) r = Inr r1" and sender: "rv_candidate request = sender"
    and peer: "ensure_peer (sr_state r) sender = Inr ()"
    using assms by (auto simp: handle_request_vote_def result_simps)
  let ?s = "sr_state r1"
  let ?granted = "(f2_vote ?s = None \<or> f2_vote ?s = Some sender)
    \<and> is_log_at_least_as_up_to_date ?s (rv_last_log_term request) (rv_last_log_index request)"
  note run = assms[unfolded handle_request_vote_def peer r1 sender and_then_Inr Let_def]
  have same: "set_state (?s\<lparr>f2_persistent := (f2_persistent ?s)\<lparr>ps_voted_for := Some sender\<rparr>\<rparr>) r1 = r1"
    if "f2_vote ?s = Some sender"
    using that by (simp add: set_state_def)
  consider (no) "rv_term request < f2_term ?s \<or> \<not> ?granted"
    | (new) "\<not> rv_term request < f2_term ?s" "?granted" "f2_vote ?s = None"
    | (again) "\<not> rv_term request < f2_term ?s" "?granted" "f2_vote ?s = Some sender" by blast
  then show ?thesis
  proof cases
    case no
    then show ?thesis using run that(1)[OF r1] by (auto split: if_splits)
  next
    case new
    then show ?thesis using run that(2)[OF r1 new(3)] by (auto simp: result_simps)
  next
    case again
    then show ?thesis using run that(3)[OF r1 again(3)] by (auto simp: same)
  qed
qed

lemma handle_request_vote_Inr:
  assumes "handle_request_vote sender request r = Inr r'" "flow d r" "self_voted (sr_state r)"
  shows "handled G d r r'"
  using assms(1)
proof (cases rule: handle_request_vote_cases)
  case (1 r1)
  then show ?thesis
    using observe_higher_term_Inr(1)[OF 1(1) assms(2), of G] by (auto simp: handled_vote_reply)
next
  case (3 r1)
  then show ?thesis
    using observe_higher_term_Inr(1)[OF 3(1) assms(2), of G] by (simp add: handled_vote_reply handled_push)
next
  case (2 r1 r2)
  let ?s = "(sr_state r1)\<lparr>f2_persistent := (f2_persistent (sr_state r1))\<lparr>ps_voted_for := Some sender\<rparr>\<rparr>"
  note h1 = observe_higher_term_Inr[OF 2(1) assms(2)]
  have "flow d r1" "keeps (sr_state r) (sr_state r1)" using h1(1)[of "{}"] by (simp_all add: handled_def)
  have le: "hs_le (hard_state (sr_state r1)) (hard_state ?s)"
    using 2(2) by (simp add: hs_le_def hard_state_def)
  have role: "f2_role (sr_state r1) \<noteq> Candidate" "f2_role (sr_state r1) \<noteq> Leader"
    using h1(2,3) assms(3) 2(2) by (cases "f2_term (sr_state r) < rv_term request"; auto simp: self_voted_def)+
  have st: "sr_state r2 = ?s\<lparr>f2_next_request_id := f2_next_request_id ?s + 1\<rparr>"
    using persist_hard_state_Inr(1)[OF 2(3)] by simp
  have "flow d r2" using flow_persist(1)[OF \<open>flow d r1\<close> _ _ 2(3)] le by simp
  moreover have "keeps (sr_state r1) (sr_state r2)" using le by (simp add: keeps_def st)
  then have "keeps (sr_state r) (sr_state r2)" by (rule keeps_trans[OF \<open>keeps (sr_state r) (sr_state r1)\<close>])
  moreover have "elects G (sr_state r) (sr_state r2)" by (rule elects_quiet) (use role in \<open>simp_all add: st\<close>)
  ultimately have "handled G d r r2" by (simp add: handled_def)
  then show ?thesis unfolding 2(4) by (simp add: handled_vote_reply handled_push st)
qed

lemma handle_request_vote_response_Inr:
  assumes "handle_request_vote_response sender response r = Inr r'" "flow d r"
  shows "handled (if rvr_granted response \<and> rvr_term response = f2_term (sr_state r) then {sender} else {}) d r r'"
proof -
  obtain r1 where r1: "observe_higher_term (rvr_term response) r = Inr r1"
    and peer: "ensure_peer (sr_state r) sender = Inr ()"
    using assms(1) by (auto simp: handle_request_vote_response_def result_simps)
  note h1 = observe_higher_term_Inr[OF r1 assms(2)]
  let ?s = "sr_state r1"
  let ?s' = "?s\<lparr>f2_votes_received := oset_insert sender (f2_votes_received ?s)\<rparr>"
  note run = assms(1)[unfolded handle_request_vote_response_def peer r1 and_then_Inr Let_def]
  show ?thesis
  proof (cases "f2_role ?s \<noteq> Candidate \<or> rvr_term response \<noteq> f2_term ?s \<or> \<not> rvr_granted response")
    case True
    then have "r' = r1" using run by simp
    then show ?thesis using h1(1) by simp
  next
    case False
    then have "\<not> f2_term (sr_state r) < rvr_term response" using h1(2) by auto
    then have r1_eq: "r1 = r" by (rule h1(3))
    have set: "flow d (set_state ?s' r1)"
      by (rule flow_set_state) (use assms(2) r1_eq in \<open>simp_all add: hard_state_def\<close>)
    have card: "length (oset_elems (f2_votes_received ?s')) = card (votes_of ?s')"
      by (rule length_oset)
    show ?thesis
    proof (cases "length (oset_elems (f2_votes_received ?s')) \<ge> majority ?s'")
      case True
      then have init: "initialize_leader (set_state ?s' r1) = Inr r'" using run False by simp
      show ?thesis
        using initialize_leader_Inr[OF init] set True False r1_eq card
        by (auto simp: handled_def keeps_def elects_def hard_state_def majority_def)
    next
      case 2: False
      then have "r' = set_state ?s' r1" using run False by auto
      then show ?thesis
        using set False r1_eq by (auto simp: handled_def keeps_def elects_def hard_state_def)
    qed
  qed
qed

text \<open>Handlers that change neither the hard state nor the role.\<close>

definition same_election :: "f2_state \<Rightarrow> f2_state \<Rightarrow> bool" where
  "same_election s s' \<longleftrightarrow> f2_node s' = f2_node s \<and> f2_peers s' = f2_peers s \<and> f2_pending s' = f2_pending s
     \<and> hard_state s' = hard_state s \<and> f2_role s' = f2_role s \<and> f2_votes_received s' = f2_votes_received s"

lemma same_election_refl [simp]: "same_election s s"
  by (simp add: same_election_def)

lemma same_election_trans: "same_election s s' \<Longrightarrow> same_election s' s'' \<Longrightarrow> same_election s s''"
  by (simp add: same_election_def)

lemma same_election_updates [simp]:
  "same_election s (set_log log s)" "same_election s (set_commit c s)" "same_election s (set_progress p q l s)"
  by (simp_all add: same_election_def set_log_def set_commit_def set_progress_def hard_state_def)

lemma handled_same:
  assumes "handled G d r r'" "flow d r''" "same_election (sr_state r') (sr_state r'')"
  shows "handled G d r r''"
  using assms(1,2)
  by (rule handled_same_election) (use assms(3) in \<open>simp_all add: same_election_def keeps_def\<close>)

lemma handled_self:
  "flow d r' \<Longrightarrow> same_election (sr_state r) (sr_state r') \<Longrightarrow> handled G d r r'"
  by (simp add: handled_def keeps_def same_election_def elects_same_election)

lemma flow_same: "flow d r \<Longrightarrow> same_election (sr_state r) s \<Longrightarrow> flow d (set_state s r)"
  by (simp add: flow_set_state same_election_def)

lemma reconcile_state: "reconcile s es = Inr (Some (s', rest, erased)) \<Longrightarrow> s' = s \<or> (\<exists>log. s' = set_log log s)"
  by (induction s es rule: reconcile.induct) (auto simp: result_simps split: if_splits)

lemma flow_append_reply: "flow d r \<Longrightarrow> flow d (append_reply to ok m c r)"
  by (simp add: append_reply_def flow_push hard_state_def)

lemma append_reply_state [simp]: "sr_state (append_reply to ok m c r) = sr_state r"
  by (simp add: append_reply_def)

lemma accept_entries_Inr:
  assumes "accept_entries sender request r = Inr r'" "flow d r"
  shows "flow d r' \<and> same_election (sr_state r) (sr_state r')"
proof -
  obtain outcome where out: "reconcile (sr_state r) (ae_entries request) = Inr outcome"
    "entries_contiguous (ae_previous_log_index request + 1) (ae_entries request)"
    using assms(1) by (auto simp: accept_entries_def Let_def result_simps)
  show ?thesis
  proof (cases outcome)
    case None
    then have "r' = append_reply sender False 0 (ae_read_context request)
        (push_rule Append_entries_reject_log_mismatch r)"
      using assms(1) out by (simp add: accept_entries_def Let_def)
    then show ?thesis using assms(2) by (simp add: flow_append_reply flow_push_rule)
  next
    case (Some triple)
    obtain s rest erased where triple: "triple = (s, rest, erased)" by (cases triple)
    have "reconcile (sr_state r) (ae_entries request) = Inr (Some (s, rest, erased))"
      using out(1) Some triple by simp
    from reconcile_state[OF this] have "same_election (sr_state r) s" by auto
    moreover define s1 where "s1 = (if rest \<noteq> [] then set_log (f2_log s @ rest) s else s)"
    ultimately have s1: "same_election (sr_state r) s1"
      by (auto intro: same_election_trans)
    define r1 where "r1 = push_rule Append_entries_accept (set_state s1 r)"
    define r2 where "r2 = (if erased \<or> rest \<noteq> [] then push_effect Persist_log r1 else r1)"
    have r2: "flow d r2" "sr_state r2 = s1"
      using flow_same[OF assms(2) s1] by (auto simp: r2_def r1_def flow_push flow_push_rule)
    let ?m = "ae_previous_log_index request + of_nat (length (ae_entries request))"
    let ?c = "min (ae_leader_commit request) ?m"
    define r3 where "r3 = (if ae_leader_commit request > f2_commit s1 \<and> ?c > f2_commit s1
        then push_rule Append_entries_advance_commit (set_state (set_commit ?c s1) r2) else r2)"
    have r3: "flow d r3 \<and> same_election s1 (sr_state r3)"
      using flow_same[of d r2 "set_commit ?c s1"] r2 by (auto simp: r3_def flow_push_rule)
    have "throw_if (\<not> entries_contiguous (ae_previous_log_index request + 1) (ae_entries request))
        (Invalid_Argument ''AppendEntries entries are not contiguous'') = Inr ()"
      using out(2) by simp
    then have "accept_entries sender request r = Inr (append_reply sender True ?m (ae_read_context request) r3)"
      by (simp only: accept_entries_def Let_def out(1) Some triple and_then_Inr option.case prod.case
          r3_def r2_def r1_def s1_def)
    then have "r' = append_reply sender True ?m (ae_read_context request) r3" using assms(1) by simp
    then show ?thesis using r3 s1 by (auto simp: flow_append_reply intro: same_election_trans)
  qed
qed

lemma handle_append_entries_Inr:
  assumes "handle_append_entries sender request r = Inr r'" "flow d r"
  shows "handled G d r r'"
proof -
  obtain r1 where r1: "observe_higher_term (ae_term request) r = Inr r1" and leader: "ae_leader request = sender"
    and peer: "ensure_peer (sr_state r) sender = Inr ()"
    using assms(1) by (auto simp: handle_append_entries_def result_simps Let_def)
  note h1 = observe_higher_term_Inr(1)[OF r1 assms(2), of G]
  have hard: "handled {} d r r1" by (rule observe_higher_term_Inr(1)[OF r1 assms(2)])
  define r2 where "r2 = (if f2_role (sr_state r) = Candidate then push_rule Candidate_accept_append_entries r1 else r1)"
  define s where "s = (sr_state r2)\<lparr>f2_role := Follower, f2_leader := None, f2_votes_received := oset_empty,
                 f2_known_leader := Some sender\<rparr>"
  define r3 where "r3 = push_effect Reset_election_timer (set_state s r2)"
  note run = assms(1)[unfolded handle_append_entries_def peer r1 leader and_then_Inr Let_def]
  have "sr_state r2 = sr_state r1" "flow d r2"
    using h1 by (auto simp: r2_def handled_def flow_push_rule)
  then have r3: "flow d r3" "sr_state r3 = s"
    using flow_set_state[of d r2 s] by (auto simp: r3_def s_def hard_state_def flow_push)
  have "keeps (sr_state r1) s" using \<open>sr_state r2 = sr_state r1\<close> by (simp add: keeps_def s_def hard_state_def)
  then have "keeps (sr_state r) s" using h1 keeps_trans by (auto simp: handled_def)
  then have h3: "handled G d r r3"
    using r3 by (auto simp: handled_def s_def intro: elects_quiet)
  show ?thesis
  proof (cases "ae_term request < f2_term (sr_state r1)")
    case True
    then show ?thesis using run h1 by (auto simp: handled_append_reply)
  next
    case False
    have "and_then (previous_matches s request) (\<lambda>matches.
        if \<not> matches then Inr (append_reply sender False 0 (ae_read_context request)
                 (push_rule Append_entries_reject_log_mismatch r3))
        else accept_entries sender request r3) = Inr r'"
      using run False by (simp only: if_False r3_def s_def r2_def throw_if_simps and_then_Inr simp_thms)
    then obtain matches where "(if \<not> matches then Inr (append_reply sender False 0 (ae_read_context request)
                 (push_rule Append_entries_reject_log_mismatch r3))
        else accept_entries sender request r3) = Inr r'"
      unfolding and_then_eq_Inr by blast
    then show ?thesis
      using h3 accept_entries_Inr[OF _ r3(1), of sender request r'] handled_same[OF h3, of r']
      by (auto simp: handled_append_reply split: if_splits)
  qed
qed

lemma advance_leader_commit_Inr:
  assumes "advance_leader_commit r = Inr r'" "flow d r"
  shows "flow d r' \<and> same_election (sr_state r) (sr_state r')"
  using assms flow_same[OF assms(2)]
  by (auto simp: advance_leader_commit_def Let_def result_simps flow_push_rule split: option.splits)

lemma handle_append_entries_response_Inr:
  assumes "handle_append_entries_response sender response r = Inr r'" "flow d r"
  shows "handled G d r r'"
proof -
  obtain r1 where r1: "observe_higher_term (aer_term response) r = Inr r1"
    and peer: "ensure_peer (sr_state r) sender = Inr ()"
    using assms(1) by (auto simp: handle_append_entries_response_def result_simps)
  note h1 = observe_higher_term_Inr(1)[OF r1 assms(2), of G]
  then have flow1: "flow d r1" by (simp add: handled_def)
  note run = assms(1)[unfolded handle_append_entries_response_def peer r1 and_then_Inr Let_def]
  have set: "flow d (push_rule x (set_state (set_progress sender p l (sr_state r1)) r1))" for x p l
    using flow_same[OF flow1] by (simp add: flow_push_rule)
  have step: "flow d r' \<and> same_election (sr_state r1) (sr_state r')"
    if "advance_leader_commit (push_rule x (set_state (set_progress sender p l (sr_state r1)) r1)) = Inr r'
      \<or> send_append c sender (push_rule x (set_state (set_progress sender p l (sr_state r1)) r1)) = Inr r'" for x p l c
    using that
  proof
    assume "advance_leader_commit (push_rule x (set_state (set_progress sender p l (sr_state r1)) r1)) = Inr r'"
    from advance_leader_commit_Inr[OF this set] show ?thesis
      using same_election_trans[OF same_election_updates(3)] by (metis push_fields(1,5))
  next
    assume send: "send_append c sender (push_rule x (set_state (set_progress sender p l (sr_state r1)) r1)) = Inr r'"
    from send_append_Inr(1)[OF send] send_append_Inr(2)[OF send set] show ?thesis by simp
  qed
  have "flow d r' \<and> same_election (sr_state r1) (sr_state r')"
  proof (cases "f2_role (sr_state r1) \<noteq> Leader \<or> aer_term response \<noteq> f2_term (sr_state r1)")
    case True
    then show ?thesis using run flow1 by simp
  next
    case False
    then obtain l progress where "f2_leader (sr_state r1) = Some l" "omap_find (ls_progress l) sender = Some progress"
      using run by (auto split: option.splits)
    then show ?thesis using run False step by (simp split: if_splits) blast+
  qed
  then show ?thesis using handled_same[OF h1] by blast
qed

lemma handle_apply_Inr:
  assumes "handle_apply r = Inr r'" "flow d r"
  shows "handled G d r r'"
proof (cases "f2_commit (sr_state r) \<le> f2_applied (sr_state r)")
  case True
  then show ?thesis using assms by (simp add: handle_apply_def Let_def handled_self)
next
  case False
  let ?s = "sr_state r"
  let ?i = "f2_applied ?s + 1"
  define s1 where "s1 = ?s\<lparr>f2_volatile := (f2_volatile ?s)\<lparr>vs_last_applied := ?i\<rparr>\<rparr>"
  obtain e where e: "vector_at (f2_log s1) (?i - log_base (f2_persistent s1) - 1) = Inr e"
    using assms(1) False by (auto simp: handle_apply_def Let_def result_simps s1_def)
  define r1 where "r1 = push_effect (Apply_command ?i (le_command e)) (push_rule Apply_committed_rule (set_state s1 r))"
  have s1: "same_election ?s s1" by (simp add: same_election_def s1_def hard_state_def)
  then have r1: "flow d r1" "sr_state r1 = s1"
    using flow_same[OF assms(2) s1] by (simp_all add: r1_def flow_push flow_push_rule)
  have leader: "same_election ?s (s1\<lparr>f2_leader := x\<rparr>)" for x
    using s1 by (simp add: same_election_def hard_state_def)
  have "handle_apply r = Inr (case f2_leader s1 of None \<Rightarrow> r1 | Some l \<Rightarrow>
      if oset_member ?i (ls_pending_clients l)
      then push_effect (Complete_client_command ?i) (set_state (s1\<lparr>f2_leader := Some (l\<lparr>ls_pending_clients :=
                       oset_erase ?i (ls_pending_clients l)\<rparr>)\<rparr>) r1)
      else r1)"
    using False by (simp only: handle_apply_def Let_def if_False s1_def[symmetric] e and_then_Inr r1_def)
  moreover have "flow d (set_state (s1\<lparr>f2_leader := x\<rparr>) r1)" for x
    by (rule flow_same[OF r1(1)]) (simp add: r1(2) same_election_def hard_state_def)
  ultimately show ?thesis
    using assms(1) r1 s1 leader by (auto split: option.splits if_splits intro!: handled_self flow_push)
qed

lemma handle_client_Inr:
  assumes "handle_client command r = Inr r'" "flow d r"
  shows "handled G d r r'"
proof (cases "f2_role (sr_state r) \<noteq> Leader")
  case True
  then show ?thesis using assms by (simp add: handle_client_def Let_def handled_self)
next
  case False
  let ?s = "sr_state r"
  obtain l where l: "f2_leader ?s = Some l" and bound: "last_index ?s \<noteq> uint64_max"
    using assms(1) False by (auto simp: handle_client_def Let_def split: option.splits if_splits)
  define s1 where "s1 = (set_log (f2_log ?s @ [\<lparr>le_term = f2_term ?s, le_index = last_index ?s + 1,
      le_command = command\<rparr>]) ?s)\<lparr>f2_leader :=
        Some (l\<lparr>ls_pending_clients := oset_insert (last_index ?s + 1) (ls_pending_clients l)\<rparr>)\<rparr>"
  obtain r2 where r2: "fold_result (send_append None) (f2_peers s1)
      (push_effect Persist_log (push_rule Leader_append_client (set_state s1 r))) = Inr r2"
    "advance_leader_commit r2 = Inr r'"
    using assms(1) False l bound by (auto simp: handle_client_def Let_def result_simps s1_def)
  have s1: "same_election ?s s1" by (simp add: same_election_def s1_def set_log_def hard_state_def)
  have "flow d (push_effect Persist_log (push_rule Leader_append_client (set_state s1 r)))"
    using flow_same[OF assms(2) s1] by (simp add: flow_push flow_push_rule)
  then have "flow d r2" "sr_state r2 = s1" using send_appends_Inr[OF r2(1), of d] by simp_all
  then show ?thesis
    using advance_leader_commit_Inr[OF r2(2)] s1 by (auto intro!: handled_self intro: same_election_trans)
qed

lemma handle_timeout_Inr:
  assumes "handle_timeout r = Inr r'" "flow d r"
  shows "handled G d r r'"
proof (cases "f2_role (sr_state r)")
  case Leader
  then have "fold_result (send_append None) (f2_peers (sr_state r)) (push_rule Leader_heartbeat r) = Inr r'"
    using assms(1) by (simp add: handle_timeout_def)
  from send_appends_Inr[OF this, of d] show ?thesis
    using assms(2) by (simp add: handled_self flow_push_rule)
next
  case Follower
  then have "start_election (push_rule Follower_election_timeout r) = Inr r'"
    using assms(1) by (simp add: handle_timeout_def)
  from start_election_Inr[OF this, of d G] show ?thesis
    using assms(2) by (simp add: handled_def flow_push_rule)
next
  case Candidate
  then have "start_election (push_rule Candidate_restart_election r) = Inr r'"
    using assms(1) by (simp add: handle_timeout_def)
  from start_election_Inr[OF this, of d G] show ?thesis
    using assms(2) by (simp add: handled_def flow_push_rule)
next
  case Learner
  then show ?thesis using assms by (simp add: handle_timeout_def handled_self)
qed

section \<open>One step\<close>

text \<open>The voter an event brings a granted vote from, if it is for the server's term.\<close>

fun granted_by :: "f2_event \<Rightarrow> raft_term \<Rightarrow> node_id set" where
  "granted_by (Receive_request_vote_response sender response) t =
     (if rvr_granted response \<and> rvr_term response = t then {sender} else {})"
| "granted_by e t = {}"

lemma dispatch_Inr:
  assumes "dispatch e r = Inr r'" "flow d r" "self_voted (sr_state r)" "\<not> is_completion e"
  shows "handled (granted_by e (f2_term (sr_state r))) d r r'"
  using assms
  by (cases e)
    (auto simp: handled_self split: if_splits intro: handle_timeout_Inr handle_apply_Inr
      observe_higher_term_Inr(1) handle_request_vote_Inr handle_append_entries_Inr
      handle_append_entries_response_Inr handle_client_Inr
      dest: handle_request_vote_response_Inr)

text \<open>
  The relation between a server and its durable hard state: they agree when nothing is pending;
  otherwise the deferred effects lead from the pending request to the current hard state.
\<close>

definition durable_ok :: "raft_hard_state \<Rightarrow> f2_state \<Rightarrow> bool" where
  "durable_ok d s = (case f2_pending s of
      None \<Rightarrow> d = hard_state s
    | Some p \<Rightarrow> hs_le d (ph_state (pd_request p)) \<and> effects_ok (ph_state (pd_request p)) (pd_deferred_effects p)
        \<and> durable_after (ph_state (pd_request p)) (pd_deferred_effects p) = hard_state s)"

fun durable_next :: "f2_event \<Rightarrow> raft_hard_state \<Rightarrow> raft_hard_state" where
  "durable_next (Raft_hard_state_persisted request_id state) d = state"
| "durable_next e d = d"

lemma durable_ok_le: "durable_ok d s \<Longrightarrow> hs_le d (hard_state s)"
  by (auto simp: durable_ok_def split: option.splits) (metis effects_ok_le hs_le_trans)

lemma gate_flow:
  assumes "flow d r" "f2_pending (sr_state r) = None" "gate_on_hard_state r = Inr r'"
  shows "durable_ok d (sr_state r')" "\<forall>x \<in> set (sr_effects r'). effect_ok d x"
    "\<exists>p. sr_state r' = (sr_state r)\<lparr>f2_pending := p\<rparr>"
proof -
  let ?drop = "dropWhile (\<lambda>e. \<not> is_persist e) (sr_effects r)"
  let ?take = "takeWhile (\<lambda>e. \<not> is_persist e) (sr_effects r)"
  have ok: "effects_ok d (sr_effects r)" "durable_after d (sr_effects r) = hard_state (sr_state r)"
    using assms(1) by (simp_all add: flow_def)
  have "durable_ok d (sr_state r') \<and> (\<forall>x \<in> set (sr_effects r'). effect_ok d x)
    \<and> (\<exists>p. sr_state r' = (sr_state r)\<lparr>f2_pending := p\<rparr>)"
  proof (cases ?drop)
    case Nil
    then have r': "r' = r" using assms(3) unfolding gate_on_hard_state_def Nil by simp
    have take: "?take = sr_effects r" using Nil by (metis append.right_neutral takeWhile_dropWhile_id)
    then have "\<forall>e \<in> set (sr_effects r). \<not> is_persist e" by (metis (no_types, lifting) set_takeWhileD)
    then have "hard_state (sr_state r) = d" using ok(2) by (simp add: no_persist_durable)
    then show ?thesis
      using assms(2) effects_ok_takeWhile[OF ok(1)] take r' by (auto simp: durable_ok_def intro!: exI[of _ None])
  next
    case (Cons e deferred)
    then have "is_persist e" using hd_dropWhile[of "\<lambda>e. \<not> is_persist e" "sr_effects r"] by simp
    then obtain q where q: "e = Persist_raft_hard_state q" by (cases e) auto
    have r': "r' = r\<lparr>sr_effects := ?take @ [Persist_raft_hard_state q], sr_state := (sr_state r)\<lparr>f2_pending :=
         Some \<lparr>pd_request = q, pd_deferred_effects = deferred\<rparr>\<rparr>\<rparr>"
      using assms(2,3) unfolding gate_on_hard_state_def Cons q by simp
    show ?thesis
      using effects_ok_split[OF ok(1), of q deferred] effects_ok_takeWhile[OF ok(1)] ok(2) Cons q
      by (auto simp: r' durable_ok_def hard_state_def)
  qed
  then show "durable_ok d (sr_state r')" "\<forall>x \<in> set (sr_effects r'). effect_ok d x"
    "\<exists>p. sr_state r' = (sr_state r)\<lparr>f2_pending := p\<rparr>" by blast+
qed

lemma f2_step_parts:
  assumes "f2_step s e = Inr r"
  obtains r1 where "dispatch e \<lparr>sr_state = s, sr_rules = [], sr_effects = []\<rparr> = Inr r1"
    "gate_on_hard_state r1 = Inr r" "is_completion e \<longleftrightarrow> f2_pending s \<noteq> None"
    "validate s = []" "validate (sr_state r) = []"
  using assms
  by (auto simp: f2_step_def result_simps ensure_valid_def split: list.splits)

text \<open>Everything one step guarantees about terms, votes, roles and released messages.\<close>

lemma f2_step_flow:
  assumes "f2_step s e = Inr r" "durable_ok d s" "self_voted s"
  obtains r1 where "flow (durable_next e d) r1" "f2_pending (sr_state r1) = None" "gate_on_hard_state r1 = Inr r"
    "elects (granted_by e (f2_term s)) s (sr_state r1)" "f2_node (sr_state r1) = f2_node s"
    "f2_peers (sr_state r1) = f2_peers s" "hs_le (hard_state s) (hard_state (sr_state r1))"
    "hs_le d (durable_next e d)"
proof -
  obtain r1 where r1: "dispatch e \<lparr>sr_state = s, sr_rules = [], sr_effects = []\<rparr> = Inr r1"
    "gate_on_hard_state r1 = Inr r" "is_completion e \<longleftrightarrow> f2_pending s \<noteq> None"
    by (rule f2_step_parts[OF assms(1)])
  show ?thesis
  proof (cases "is_completion e")
    case False
    then have pending: "f2_pending s = None" and next_d: "durable_next e d = d"
      using r1(3) by (auto, cases e) auto
    then have "flow d \<lparr>sr_state = s, sr_rules = [], sr_effects = []\<rparr>"
      using assms(2) by (simp add: flow_def durable_ok_def)
    from dispatch_Inr[OF r1(1) this] assms(3) False
    have "handled (granted_by e (f2_term s)) d \<lparr>sr_state = s, sr_rules = [], sr_effects = []\<rparr> r1" by simp
    then show ?thesis
      using that[of r1] r1(2) pending next_d by (simp add: handled_def keeps_def)
  next
    case True
    then obtain rid state where e: "e = Raft_hard_state_persisted rid state" by (cases e) auto
    obtain p where p: "f2_pending s = Some p" using True r1(3) by auto
    have state: "state = ph_state (pd_request p)"
      and r1_eq: "r1 = \<lparr>sr_state = s\<lparr>f2_pending := None\<rparr>, sr_rules = [], sr_effects = pd_deferred_effects p\<rparr>"
      using r1(1) e p by (auto split: if_splits)
    have "hard_state (s\<lparr>f2_pending := None\<rparr>) = hard_state s" by (simp add: hard_state_def)
    then show ?thesis
      using that[of r1] assms(2) p r1(2)
      by (simp add: e state r1_eq flow_def durable_ok_def elects_same_election)
  qed
qed

lemma elects_self_voted:
  assumes "elects G s s'" "self_voted s" "f2_node s' = f2_node s"
  shows "self_voted s'"
  using assms by (auto simp: elects_def self_voted_def hard_state_def)

lemma f2_step_facts:
  assumes "f2_step s e = Inr r" "durable_ok d s" "self_voted s"
  shows "durable_ok (durable_next e d) (sr_state r)"
    and "\<forall>x \<in> set (sr_effects r). effect_ok (durable_next e d) x"
    and "hs_le d (durable_next e d)" "hs_le (hard_state s) (hard_state (sr_state r))"
    and "self_voted (sr_state r)" "elects (granted_by e (f2_term s)) s (sr_state r)"
    and "f2_node (sr_state r) = f2_node s" "f2_peers (sr_state r) = f2_peers s"
proof -
  obtain r1 where r1: "flow (durable_next e d) r1" "f2_pending (sr_state r1) = None" "gate_on_hard_state r1 = Inr r"
    "elects (granted_by e (f2_term s)) s (sr_state r1)" "f2_node (sr_state r1) = f2_node s"
    "f2_peers (sr_state r1) = f2_peers s" "hs_le (hard_state s) (hard_state (sr_state r1))"
    "hs_le d (durable_next e d)"
    by (rule f2_step_flow[OF assms])
  note gate = gate_flow[OF r1(1-3)]
  obtain p where p: "sr_state r = (sr_state r1)\<lparr>f2_pending := p\<rparr>" using gate(3) by blast
  have same: "hard_state (sr_state r) = hard_state (sr_state r1)" by (simp add: p hard_state_def)
  show "durable_ok (durable_next e d) (sr_state r)" "\<forall>x \<in> set (sr_effects r). effect_ok (durable_next e d) x"
    using gate(1,2) by blast+
  show "hs_le d (durable_next e d)" by (rule r1(8))
  show "hs_le (hard_state s) (hard_state (sr_state r))" using r1(7) same by simp
  show elects: "elects (granted_by e (f2_term s)) s (sr_state r)"
    using r1(4) same by (simp add: p elects_def)
  show "f2_node (sr_state r) = f2_node s" "f2_peers (sr_state r) = f2_peers s" using r1(5,6) by (simp_all add: p)
  then show "self_voted (sr_state r)" using elects_self_voted[OF elects assms(3)] by simp
qed

lemma f2_step_completion_role:
  assumes "f2_step s e = Inr r" "is_completion e"
  shows "f2_role (sr_state r) = f2_role s"
proof -
  obtain r1 where r1: "dispatch e \<lparr>sr_state = s, sr_rules = [], sr_effects = []\<rparr> = Inr r1"
    "gate_on_hard_state r1 = Inr r"
    by (rule f2_step_parts[OF assms(1)])
  have "f2_role (sr_state r1) = f2_role s"
    using r1(1) assms(2) by (cases e) (auto split: option.splits if_splits)
  then show ?thesis
    using r1(2) by (auto simp: gate_on_hard_state_def split: list.splits f2_effect.splits if_splits)
qed

lemma f2_step_blocked:
  assumes "f2_step s e = Inr r" "durable_ok d s" "\<not> is_completion e"
  shows "d = hard_state s" "durable_next e d = d"
proof -
  have "f2_pending s = None" by (rule f2_step_parts[OF assms(1)]) (use assms(3) in simp)
  then show "d = hard_state s" using assms(2) by (simp add: durable_ok_def)
  show "durable_next e d = d" using assms(3) by (cases e) auto
qed

text \<open>
  C8.  Persistence comes before communication: along a step of a server, the hard state that
  is durable covers every message the step releases.  A granted vote is sent only when the
  vote for that candidate in that term is durable, a vote request only when the sender's own
  vote is, and every other message only when its term is; and the relation that makes this so
  is kept by the step, with the durable state never moving backwards.
\<close>

theorem messages_covered_by_durable_state:
  assumes "f2_step s e = Inr r" "durable_ok d s" "self_voted s"
  shows "(\<forall>to q. Send_request_vote_response to q \<in> set (sr_effects r) \<longrightarrow> rvr_granted q \<longrightarrow>
        durable_next e d = \<lparr>hs_current_term = rvr_term q, hs_voted_for = Some to\<rparr>)
    \<and> (\<forall>to q. Send_request_vote to q \<in> set (sr_effects r) \<longrightarrow>
        durable_next e d = \<lparr>hs_current_term = rv_term q, hs_voted_for = Some (rv_candidate q)\<rparr>)
    \<and> (\<forall>to q. Send_append_entries to q \<in> set (sr_effects r) \<longrightarrow>
        hs_current_term (durable_next e d) = ae_term q)
    \<and> (\<forall>to q. Send_append_entries_response to q \<in> set (sr_effects r) \<longrightarrow>
        hs_current_term (durable_next e d) = aer_term q)
    \<and> durable_ok (durable_next e d) (sr_state r) \<and> self_voted (sr_state r)
    \<and> hs_le d (durable_next e d)"
proof -
  note facts = f2_step_facts[OF assms]
  have "effect_ok (durable_next e d) x" if "x \<in> set (sr_effects r)" for x
    using facts(2) that by blast
  from this[of "Send_request_vote_response _ _"] this[of "Send_request_vote _ _"]
    this[of "Send_append_entries _ _"] this[of "Send_append_entries_response _ _"]
  show ?thesis using facts(1,3,5) by auto
qed

text \<open>
  C30.  The term of a server never decreases, and within one term its vote never changes once
  it is cast.
\<close>

theorem term_and_vote_stable:
  assumes "f2_step s e = Inr r" "durable_ok d s" "self_voted s"
  shows "f2_term s \<le> f2_term (sr_state r)
    \<and> (f2_term (sr_state r) = f2_term s \<longrightarrow> f2_vote s \<noteq> None \<longrightarrow> f2_vote (sr_state r) = f2_vote s)"
  using f2_step_facts(4)[OF assms] by (auto simp: hs_le_def hard_state_def)

end
