(* ===== verification/Raft_Cluster.thy ===== *)
theory Raft_Cluster
  imports Figure2_Election
begin

text \<open>
  A cluster of servers that run the Figure 2 specification over a network that may lose,
  duplicate, delay and reorder messages, with crashes after which a server restarts from its
  durable hard state.  The result is election safety: in one term at most one server ever
  becomes leader.
\<close>

section \<open>Quorums\<close>

locale quorum_system =
  fixes quorum :: "'n set \<Rightarrow> bool"
  assumes intersect: "quorum P \<Longrightarrow> quorum Q \<Longrightarrow> P \<inter> Q \<noteq> {}"
begin

lemma common_member:
  assumes "quorum P" "quorum Q"
  obtains m where "m \<in> P" "m \<in> Q"
  using intersect[OF assms] by blast

text \<open>If every member votes for one choice only, two choices with a quorum each are the same.\<close>

lemma unique_choice:
  assumes "quorum P" "quorum Q" "\<And>m. m \<in> P \<Longrightarrow> vote m a" "\<And>m. m \<in> Q \<Longrightarrow> vote m b"
    and "\<And>m x y. vote m x \<Longrightarrow> vote m y \<Longrightarrow> x = y"
  shows "a = b"
  using common_member[OF assms(1,2)] assms(3-5) by metis

end

definition majority_of :: "'n set \<Rightarrow> 'n set \<Rightarrow> bool" where
  "majority_of members Q \<longleftrightarrow> finite members \<and> Q \<subseteq> members \<and> card members div 2 < card Q"

interpretation mq: quorum_system "majority_of members" for members
proof
  fix P Q
  assume PQ: "majority_of members P" "majority_of members Q"
  then have fin: "finite P" "finite Q" by (auto simp: majority_of_def finite_subset)
  show "P \<inter> Q \<noteq> {}"
  proof
    assume "P \<inter> Q = {}"
    then have "card P + card Q = card (P \<union> Q)" using fin by (simp add: card_Un_disjoint)
    also have "\<dots> \<le> card members" using PQ by (intro card_mono) (auto simp: majority_of_def)
    finally show False using PQ by (auto simp: majority_of_def)
  qed
qed

section \<open>Cluster states and steps\<close>

record cluster =
  cl_node :: "node_id \<Rightarrow> f2_state"
  cl_durable :: "node_id \<Rightarrow> raft_hard_state"
  cl_sent :: "(node_id \<times> f2_effect) set"
  cl_leaders :: "(node_id \<times> raft_term) set"

text \<open>
  An event may happen at a server if it is local, a completion of its own persistence request,
  or the receipt of a vote message that its sender has released to it.  The contents of
  AppendEntries messages and of their responses do not matter for elections: they may be anything.
\<close>

fun may_receive :: "cluster \<Rightarrow> node_id \<Rightarrow> f2_event \<Rightarrow> bool" where
  "may_receive c n (Receive_request_vote sender q) \<longleftrightarrow> (sender, Send_request_vote n q) \<in> cl_sent c"
| "may_receive c n (Receive_request_vote_response sender q) \<longleftrightarrow>
     (sender, Send_request_vote_response n q) \<in> cl_sent c"
| "may_receive c n e \<longleftrightarrow> True"

text \<open>A server as it restarts: its durable hard state, and nothing volatile.\<close>

definition restarted :: "node_id \<Rightarrow> node_id list \<Rightarrow> raft_hard_state \<Rightarrow> f2_state \<Rightarrow> bool" where
  "restarted n peers d s \<longleftrightarrow> f2_node s = n \<and> f2_peers s = peers \<and> hard_state s = d \<and> f2_role s = Follower
     \<and> f2_votes_received s = oset_empty \<and> f2_leader s = None \<and> f2_pending s = None"

definition leaders_now :: "node_id \<Rightarrow> f2_state \<Rightarrow> (node_id \<times> raft_term) set" where
  "leaders_now n s = (if f2_role s = Leader then {(n, f2_term s)} else {})"

text \<open>
  A change of the state around the specification, as the election core makes it when it applies
  an entry or installs a snapshot: log, indexes and leader bookkeeping change freely, the server
  may fall back to follower, and nothing that concerns elections changes otherwise.
\<close>

definition local_move :: "f2_state \<Rightarrow> f2_state \<Rightarrow> bool" where
  "local_move s s' \<longleftrightarrow> f2_node s' = f2_node s \<and> f2_peers s' = f2_peers s \<and> hard_state s' = hard_state s
     \<and> f2_pending s' = f2_pending s
     \<and> (f2_role s' = f2_role s \<and> f2_votes_received s' = f2_votes_received s
        \<or> f2_role s' = Follower \<and> f2_votes_received s' = oset_empty)"

inductive cluster_step :: "node_id set \<Rightarrow> cluster \<Rightarrow> cluster \<Rightarrow> bool" for members :: "node_id set" where
  server_step: "n \<in> members \<Longrightarrow> may_receive c n e \<Longrightarrow> f2_step (cl_node c n) e = Inr r \<Longrightarrow>
     cluster_step members c (c\<lparr>cl_node := (cl_node c)(n := sr_state r),
       cl_durable := (cl_durable c)(n := durable_next e (cl_durable c n)),
       cl_sent := cl_sent c \<union> Pair n ` set (sr_effects r),
       cl_leaders := cl_leaders c \<union> leaders_now n (sr_state r)\<rparr>)"
| crash: "n \<in> members \<Longrightarrow> restarted n (f2_peers (cl_node c n)) (cl_durable c n) s \<Longrightarrow>
     cluster_step members c (c\<lparr>cl_node := (cl_node c)(n := s)\<rparr>)"
| local_step: "n \<in> members \<Longrightarrow> local_move (cl_node c n) s \<Longrightarrow>
     cluster_step members c (c\<lparr>cl_node := (cl_node c)(n := s)\<rparr>)"
| disk_write: "n \<in> members \<Longrightarrow> f2_pending (cl_node c n) = Some p \<Longrightarrow>
     cluster_step members c (c\<lparr>cl_durable := (cl_durable c)(n := ph_state (pd_request p))\<rparr>)"

definition cluster_init :: "node_id set \<Rightarrow> cluster \<Rightarrow> bool" where
  "cluster_init members c \<longleftrightarrow> finite members \<and> cl_sent c = {} \<and> cl_leaders c = {}
     \<and> (\<forall>n \<in> members. distinct (f2_peers (cl_node c n)) \<and> set (f2_peers (cl_node c n)) = members - {n}
          \<and> restarted n (f2_peers (cl_node c n)) (cl_durable c n) (cl_node c n))"

inductive cluster_reachable :: "node_id set \<Rightarrow> cluster \<Rightarrow> bool" for members :: "node_id set" where
  init: "cluster_init members c \<Longrightarrow> cluster_reachable members c"
| step: "cluster_reachable members c \<Longrightarrow> cluster_step members c c' \<Longrightarrow> cluster_reachable members c'"

inductive_cases cluster_stepE: "cluster_step members c c'"

section \<open>Invariant\<close>

text \<open>\<open>voted c m t x\<close>: the server \<open>m\<close> has voted for \<open>x\<close> in term \<open>t\<close>, by a message or as leader.\<close>

definition voted :: "cluster \<Rightarrow> node_id \<Rightarrow> raft_term \<Rightarrow> node_id \<Rightarrow> bool" where
  "voted c m t x \<longleftrightarrow> (m, Send_request_vote_response x \<lparr>rvr_term = t, rvr_granted = True\<rparr>) \<in> cl_sent c
     \<or> m = x \<and> (x, t) \<in> cl_leaders c"

definition server_ok :: "node_id set \<Rightarrow> cluster \<Rightarrow> node_id \<Rightarrow> bool" where
  "server_ok members c n \<longleftrightarrow> f2_node (cl_node c n) = n \<and> distinct (f2_peers (cl_node c n))
     \<and> set (f2_peers (cl_node c n)) = members - {n}
     \<and> durable_ok (cl_durable c n) (cl_node c n) \<and> self_voted (cl_node c n)
     \<and> (f2_role (cl_node c n) = Candidate \<longrightarrow>
          (\<forall>m \<in> votes_of (cl_node c n). m \<in> members \<and> (m = n \<or> voted c m (f2_term (cl_node c n)) n)))"

definition elected :: "node_id set \<Rightarrow> cluster \<Rightarrow> node_id \<Rightarrow> raft_term \<Rightarrow> bool" where
  "elected members c n t \<longleftrightarrow> n \<in> members \<and> (\<exists>Q. majority_of members Q \<and> (\<forall>m \<in> Q. voted c m t n))"

definition cluster_inv :: "node_id set \<Rightarrow> cluster \<Rightarrow> bool" where
  "cluster_inv members c \<longleftrightarrow> finite members
     \<and> (\<forall>n \<in> members. server_ok members c n)
     \<and> (\<forall>m e. (m, e) \<in> cl_sent c \<longrightarrow> m \<in> members)
     \<and> (\<forall>n t. (n, t) \<in> cl_leaders c \<longrightarrow> elected members c n t)
     \<and> (\<forall>n \<in> members. f2_role (cl_node c n) = Leader \<longrightarrow> (n, f2_term (cl_node c n)) \<in> cl_leaders c)
     \<and> (card members \<noteq> 1 \<longrightarrow>
          (\<forall>m t x. voted c m t x \<longrightarrow> hs_le \<lparr>hs_current_term = t, hs_voted_for = Some x\<rparr> (cl_durable c m))
        \<and> (\<forall>m t x y. voted c m t x \<longrightarrow> voted c m t y \<longrightarrow> x = y))"

lemma cluster_init_inv: "cluster_init members c \<Longrightarrow> cluster_inv members c"
  by (auto simp: cluster_init_def cluster_inv_def server_ok_def restarted_def durable_ok_def
      self_voted_def voted_def)

lemma cluster_crash_inv:
  assumes "cluster_inv members c" "n \<in> members" "restarted n (f2_peers (cl_node c n)) (cl_durable c n) s"
  shows "cluster_inv members (c\<lparr>cl_node := (cl_node c)(n := s)\<rparr>)"
proof -
  have voted: "voted (c\<lparr>cl_node := (cl_node c)(n := s)\<rparr>) = voted c" by (auto simp: fun_eq_iff voted_def)
  show ?thesis
    using assms unfolding cluster_inv_def elected_def voted server_ok_def
    by (auto simp: restarted_def durable_ok_def self_voted_def)
qed

lemma cluster_local_inv:
  assumes inv: "cluster_inv members c" and n: "n \<in> members" and move: "local_move (cl_node c n) s"
  shows "cluster_inv members (c\<lparr>cl_node := (cl_node c)(n := s)\<rparr>)"
proof -
  let ?c = "c\<lparr>cl_node := (cl_node c)(n := s)\<rparr>"
  have voted: "voted ?c = voted c" by (auto simp: fun_eq_iff voted_def)
  have same: "f2_term s = f2_term (cl_node c n)" "f2_vote s = f2_vote (cl_node c n)"
    using move by (simp_all add: local_move_def hard_state_def)
  have ok: "server_ok members c n" using inv n by (simp add: cluster_inv_def)
  have "durable_ok d s = durable_ok d (cl_node c n)" for d
    using move by (cases "f2_pending (cl_node c n)") (simp_all add: local_move_def durable_ok_def)
  moreover have "self_voted (cl_node c n)" using ok by (simp add: server_ok_def)
  then have "self_voted s" using move same by (auto simp: local_move_def self_voted_def)
  moreover have "f2_role s = Candidate \<Longrightarrow> f2_role (cl_node c n) = Candidate \<and> votes_of s = votes_of (cl_node c n)"
    using move by (auto simp: local_move_def)
  ultimately have "server_ok members ?c n"
    using ok move same unfolding server_ok_def voted local_move_def by simp
  moreover have "server_ok members ?c m" if "m \<in> members" "m \<noteq> n" for m
    using inv that unfolding cluster_inv_def server_ok_def voted by simp
  ultimately have "\<forall>m \<in> members. server_ok members ?c m" by blast
  moreover have "f2_role s = Leader \<Longrightarrow> f2_role (cl_node c n) = Leader" using move by (auto simp: local_move_def)
  ultimately show ?thesis using inv same(1) unfolding cluster_inv_def elected_def voted by auto
qed

lemma cluster_disk_inv:
  assumes inv: "cluster_inv members c" and n: "n \<in> members" and p: "f2_pending (cl_node c n) = Some p"
  shows "cluster_inv members (c\<lparr>cl_durable := (cl_durable c)(n := ph_state (pd_request p))\<rparr>)"
proof -
  let ?c = "c\<lparr>cl_durable := (cl_durable c)(n := ph_state (pd_request p))\<rparr>"
  have voted: "voted ?c = voted c" by (auto simp: fun_eq_iff voted_def)
  have ok: "durable_ok (cl_durable c n) (cl_node c n)" using inv n by (simp add: cluster_inv_def server_ok_def)
  then have le: "hs_le (cl_durable c n) (ph_state (pd_request p))" "durable_ok (ph_state (pd_request p)) (cl_node c n)"
    using p by (simp_all add: durable_ok_def)
  have "\<forall>m \<in> members. server_ok members ?c m"
    using inv le(2) unfolding cluster_inv_def server_ok_def voted by simp
  moreover have "hs_le h (cl_durable ?c m)" if "hs_le h (cl_durable c m)" for h m
    using that le(1) hs_le_trans by auto
  ultimately show ?thesis using inv unfolding cluster_inv_def elected_def voted by simp
qed

text \<open>One server takes a step; the facts about its state before and after.\<close>

lemma voted_members: "cluster_inv members c \<Longrightarrow> voted c m t x \<Longrightarrow> m \<in> members"
  by (auto simp: cluster_inv_def voted_def elected_def)

lemma granted_by_voted:
  assumes "cluster_inv members c" "may_receive c n e" "m \<in> granted_by e t"
  shows "voted c m t n"
proof -
  obtain q where e: "e = Receive_request_vote_response m q" "rvr_granted q" "rvr_term q = t"
    using assms(3) by (cases e) (auto split: if_splits)
  then have "q = \<lparr>rvr_term = t, rvr_granted = True\<rparr>" by (cases q) simp
  then show ?thesis using assms(2) e(1) by (simp add: voted_def)
qed

lemma candidate_quorum:
  assumes inv: "cluster_inv members c" and n: "n \<in> members" and recv: "may_receive c n e"
    and cand: "f2_role (cl_node c n) = Candidate"
    and maj: "majority (cl_node c n) \<le> card (votes_of (cl_node c n) \<union> granted_by e (f2_term (cl_node c n)))"
  shows "\<exists>Q. majority_of members Q \<and> (\<forall>m \<in> Q. m = n \<or> voted c m (f2_term (cl_node c n)) n)"
proof -
  let ?s = "cl_node c n"
  let ?Q = "votes_of ?s \<union> granted_by e (f2_term ?s)"
  have ok: "server_ok members c n" "finite members" using inv n by (auto simp: cluster_inv_def)
  then have "length (f2_peers ?s) = card (members - {n})"
    using distinct_card[of "f2_peers ?s"] by (simp add: server_ok_def)
  then have "card members = Suc (length (f2_peers ?s))"
    using card_Suc_Diff1[OF ok(2) n] by simp
  then have card: "card members div 2 < card ?Q" using maj by (simp add: majority_def)
  have votes: "\<forall>m \<in> ?Q. m = n \<or> voted c m (f2_term ?s) n"
    using ok(1) cand granted_by_voted[OF inv recv] by (auto simp: server_ok_def)
  then have "m \<in> members" if "m \<in> ?Q" for m using voted_members[OF inv] n that by metis
  then have "?Q \<subseteq> members" by blast
  then show ?thesis using card votes ok(2) unfolding majority_of_def by blast
qed

lemma server_step_leader:
  assumes inv: "cluster_inv members c" and n: "n \<in> members" and recv: "may_receive c n e"
    and step: "f2_step (cl_node c n) e = Inr r" and lead: "f2_role (sr_state r) = Leader"
  shows "(n, f2_term (sr_state r)) \<in> cl_leaders c
    \<or> members = {n}
    \<or> durable_next e (cl_durable c n) = \<lparr>hs_current_term = f2_term (sr_state r), hs_voted_for = Some n\<rparr>
      \<and> (\<exists>Q. majority_of members Q \<and> (\<forall>m \<in> Q. m = n \<or> voted c m (f2_term (sr_state r)) n))"
proof -
  let ?s = "cl_node c n" and ?d = "cl_durable c n"
  have ok: "server_ok members c n" using inv n by (auto simp: cluster_inv_def)
  then have s: "durable_ok ?d ?s" "self_voted ?s" "f2_node ?s = n" "set (f2_peers ?s) = members - {n}"
    by (auto simp: server_ok_def)
  note facts = f2_step_facts[OF step s(1,2)]
  consider (old) "f2_role ?s = Leader" "hard_state (sr_state r) = hard_state ?s"
    | (alone) "f2_peers ?s = []"
    | (won) "f2_role ?s = Candidate" "hard_state (sr_state r) = hard_state ?s"
      "majority ?s \<le> card (votes_of ?s \<union> granted_by e (f2_term ?s))"
    using facts(6,8) lead unfolding elects_def by auto
  then show ?thesis
  proof cases
    case old
    then show ?thesis using inv n by (auto simp: cluster_inv_def hard_state_def)
  next
    case alone
    then show ?thesis using s(4) n by auto
  next
    case won
    have "\<not> is_completion e" using f2_step_completion_role[OF step] won(1) lead by auto
    from f2_step_blocked[OF step s(1) this]
    have "durable_next e ?d = hard_state ?s" by simp
    moreover have "f2_vote ?s = Some n" using s(2,3) won(1) by (simp add: self_voted_def)
    ultimately show ?thesis
      using candidate_quorum[OF inv n recv won(1,3)] won(2) by (auto simp: hard_state_def)
  qed
qed

lemma server_step_inv:
  assumes inv: "cluster_inv members c" and n: "n \<in> members" and recv: "may_receive c n e"
    and step: "f2_step (cl_node c n) e = Inr r"
  defines "c' \<equiv> c\<lparr>cl_node := (cl_node c)(n := sr_state r),
       cl_durable := (cl_durable c)(n := durable_next e (cl_durable c n)),
       cl_sent := cl_sent c \<union> Pair n ` set (sr_effects r),
       cl_leaders := cl_leaders c \<union> leaders_now n (sr_state r)\<rparr>"
  shows "cluster_inv members c'"
proof -
  let ?s = "cl_node c n" and ?d = "cl_durable c n" and ?s' = "sr_state r"
  let ?d' = "durable_next e ?d"
  have ok: "server_ok members c m" if "m \<in> members" for m using inv that by (auto simp: cluster_inv_def)
  then have s: "durable_ok ?d ?s" "self_voted ?s" "f2_node ?s = n" "distinct (f2_peers ?s)"
    "set (f2_peers ?s) = members - {n}"
    using n by (auto simp: server_ok_def)
  note facts = f2_step_facts[OF step s(1,2)]
  have mono: "voted c' m t x" if "voted c m t x" for m t x
    using that by (auto simp: voted_def c'_def)
  have lead: "(n, f2_term ?s') \<in> cl_leaders c \<or> members = {n}
      \<or> ?d' = \<lparr>hs_current_term = f2_term ?s', hs_voted_for = Some n\<rparr>
        \<and> (\<exists>Q. majority_of members Q \<and> (\<forall>m \<in> Q. m = n \<or> voted c m (f2_term ?s') n))"
    if "f2_role ?s' = Leader" by (rule server_step_leader[OF inv n recv step that])
  have self: "voted c' n (f2_term ?s') n" if "f2_role ?s' = Leader"
    using that by (simp add: voted_def c'_def leaders_now_def)
  have new: "voted c m t x \<or> m = n \<and> ?d' = \<lparr>hs_current_term = t, hs_voted_for = Some x\<rparr>"
    if v: "voted c' m t x" and "members \<noteq> {n}" for m t x
  proof -
    have "effect_ok ?d' (Send_request_vote_response x \<lparr>rvr_term = t, rvr_granted = True\<rparr>)"
      if "Send_request_vote_response x \<lparr>rvr_term = t, rvr_granted = True\<rparr> \<in> set (sr_effects r)"
      using facts(2) that by blast
    then show ?thesis
      using v lead \<open>members \<noteq> {n}\<close> by (auto simp: voted_def c'_def leaders_now_def split: if_splits)
  qed
  have elect: "elected members c' m t" if "(m, t) \<in> cl_leaders c'" for m t
  proof (cases "(m, t) \<in> cl_leaders c")
    case True
    then have "elected members c m t" using inv by (auto simp: cluster_inv_def)
    then show ?thesis using mono unfolding elected_def by blast
  next
    case False
    then have m: "m = n" "t = f2_term ?s'" "f2_role ?s' = Leader"
      using that by (auto simp: c'_def leaders_now_def split: if_splits)
    have "majority_of {n} {n}" by (simp add: majority_of_def)
    then have "\<exists>Q. majority_of members Q \<and> (\<forall>m \<in> Q. m = n \<or> voted c m (f2_term ?s') n)"
      using lead[OF m(3)] False m by blast
    then obtain Q where Q: "majority_of members Q" "\<And>x. x \<in> Q \<Longrightarrow> x = n \<or> voted c x (f2_term ?s') n"
      by blast
    have "voted c' x (f2_term ?s') n" if "x \<in> Q" for x
      using Q(2)[OF that] self[OF m(3)] mono by metis
    then show ?thesis using Q(1) n unfolding elected_def m by blast
  qed
  have servers: "server_ok members c' m" if "m \<in> members" for m
  proof (cases "m = n")
    case False
    then show ?thesis using ok[OF that] mono unfolding server_ok_def by (auto simp: c'_def)
  next
    case True
    have votes: "m' \<in> members \<and> (m' = n \<or> voted c' m' (f2_term ?s') n)"
      if role: "f2_role ?s' = Candidate" and m': "m' \<in> votes_of ?s'" for m'
    proof -
      have "votes_of ?s' \<subseteq> {n} \<or> f2_role ?s = Candidate \<and> f2_term ?s' = f2_term ?s
          \<and> votes_of ?s' \<subseteq> votes_of ?s \<union> granted_by e (f2_term ?s)"
        using facts(6,7) role s(3) by (auto simp: elects_def hard_state_def)
      then consider "m' = n" | "f2_role ?s = Candidate" "f2_term ?s' = f2_term ?s" "m' \<in> votes_of ?s"
        | "f2_term ?s' = f2_term ?s" "m' \<in> granted_by e (f2_term ?s)"
        using m' by blast
      then show ?thesis
      proof cases
        case 1
        then show ?thesis using n by simp
      next
        case 2
        then have "m' \<in> members \<and> (m' = n \<or> voted c m' (f2_term ?s) n)"
          using ok[OF n] by (simp add: server_ok_def)
        then show ?thesis using mono 2(2) by metis
      next
        case 3
        then have "voted c m' (f2_term ?s') n" using granted_by_voted[OF inv recv] by metis
        then show ?thesis using voted_members[OF inv] mono by metis
      qed
    qed
    show ?thesis
      using facts(1,5,7,8) s votes True unfolding server_ok_def by (simp add: c'_def)
  qed
  have V1: "hs_le \<lparr>hs_current_term = t, hs_voted_for = Some x\<rparr> (cl_durable c' m)"
    if v: "voted c' m t x" and many: "card members \<noteq> 1" for m t x
  proof -
    have old: "hs_le \<lparr>hs_current_term = t, hs_voted_for = Some x\<rparr> (cl_durable c m)" if "voted c m t x"
      using inv that many by (auto simp: cluster_inv_def)
    have "members \<noteq> {n}" using many by auto
    from new[OF v this] show ?thesis
    proof
      assume "voted c m t x"
      from old[OF this] show ?thesis using facts(3) hs_le_trans by (auto simp: c'_def)
    qed (simp add: c'_def)
  qed
  have V2: "x = y" if "voted c' m t x" "voted c' m t y" "card members \<noteq> 1" for m t x y
  proof -
    have "members \<noteq> {n}" using that(3) by auto
    from new[OF that(1) this] new[OF that(2) this] V1[OF that(1,3)] V1[OF that(2,3)]
    show ?thesis
      using inv that(3) by (auto simp: cluster_inv_def c'_def dest: hs_le_vote)
  qed
  show ?thesis
    unfolding cluster_inv_def using inv n servers elect V1 V2
    by (auto simp: cluster_inv_def c'_def leaders_now_def)
qed

lemma cluster_reachable_inv: "cluster_reachable members c \<Longrightarrow> cluster_inv members c"
proof (induction rule: cluster_reachable.induct)
  case (init c)
  then show ?case by (rule cluster_init_inv)
next
  case (step c c')
  from step.hyps(2) show ?case
    by (cases rule: cluster_step.cases)
      (use step.IH in \<open>auto intro: cluster_crash_inv server_step_inv cluster_local_inv cluster_disk_inv\<close>)
qed

lemma cluster_inv_one_leader:
  assumes inv: "cluster_inv members c" and "(n, t) \<in> cl_leaders c" "(m, t) \<in> cl_leaders c"
  shows "n = m"
proof -
  obtain P Q where P: "n \<in> members" "majority_of members P" "\<And>x. x \<in> P \<Longrightarrow> voted c x t n"
    and Q: "m \<in> members" "majority_of members Q" "\<And>x. x \<in> Q \<Longrightarrow> voted c x t m"
    using assms unfolding cluster_inv_def elected_def by metis
  show ?thesis
  proof (cases "card members = 1")
    case True
    then show ?thesis using P(1) Q(1) by (auto simp: card_1_singleton_iff)
  next
    case False
    then have "\<And>x y z. voted c x t y \<Longrightarrow> voted c x t z \<Longrightarrow> y = z"
      using inv by (auto simp: cluster_inv_def)
    then show ?thesis using mq.unique_choice[OF P(2) Q(2), of "\<lambda>x y. voted c x t y"] P(3) Q(3) by blast
  qed
qed

text \<open>
  C2.  Election safety: in every reachable state of a cluster whose servers run the
  specification over an unreliable network, change their logs and indexes around it in any way,
  and restart from their durable hard state after crashes, two servers that ever became leader in the same term are the same server.
\<close>

theorem election_safety:
  assumes "cluster_reachable members c" "(n, t) \<in> cl_leaders c" "(m, t) \<in> cl_leaders c"
  shows "n = m"
  using cluster_inv_one_leader[OF cluster_reachable_inv[OF assms(1)] assms(2,3)] .

end
