(* ===== verification/Raft_Examples.thy ===== *)
theory Raft_Examples
  imports Raft_Cluster
begin

text \<open>
  A cluster of three servers in which server 1 wins the election of term 1 with the vote of
  server 2: the concrete states on which the properties of the Figure 2 specification apply.
\<close>

definition fresh_server :: "node_id \<Rightarrow> node_id list \<Rightarrow> f2_state" where
  "fresh_server n peers = \<lparr>f2_node = n, f2_peers = peers, f2_role = Follower,
     f2_persistent = \<lparr>ps_current_term = 0, ps_voted_for = None, ps_snapshot = None, ps_log = []\<rparr>,
     f2_volatile = \<lparr>vs_commit_index = 0, vs_last_applied = 0\<rparr>, f2_known_leader = None,
     f2_votes_received = oset_empty, f2_leader = None, f2_next_request_id = 1, f2_pending = None\<rparr>"

abbreviation no_vote :: raft_hard_state where
  "no_vote \<equiv> \<lparr>hs_current_term = 0, hs_voted_for = None\<rparr>"

abbreviation vote_for_1 :: raft_hard_state where
  "vote_for_1 \<equiv> \<lparr>hs_current_term = 1, hs_voted_for = Some 1\<rparr>"

definition ballot :: request_vote_request where
  "ballot = \<lparr>rv_term = 1, rv_candidate = 1, rv_last_log_index = 0, rv_last_log_term = 0\<rparr>"

definition granted :: request_vote_response where
  "granted = \<lparr>rvr_term = 1, rvr_granted = True\<rparr>"

definition server1 :: f2_state where "server1 = fresh_server 1 [2, 3]"
definition server2 :: f2_state where "server2 = fresh_server 2 [1, 3]"

definition next_state :: "f2_state \<Rightarrow> f2_event \<Rightarrow> f2_state" where
  "next_state s e = sr_state (projr (f2_step s e))"

text \<open>One server of a cluster takes a step, as in the rule of \<open>cluster_step\<close>.\<close>

definition take_step :: "node_id \<Rightarrow> f2_event \<Rightarrow> cluster \<Rightarrow> cluster" where
  "take_step n e c = (let r = projr (f2_step (cl_node c n) e) in
     c\<lparr>cl_node := (cl_node c)(n := sr_state r),
       cl_durable := (cl_durable c)(n := durable_next e (cl_durable c n)),
       cl_sent := cl_sent c \<union> Pair n ` set (sr_effects r),
       cl_leaders := cl_leaders c \<union> leaders_now n (sr_state r)\<rparr>)"

lemma take_step_reachable:
  assumes "cluster_reachable members c" "n \<in> members" "may_receive c n e" "\<not> isl (f2_step (cl_node c n) e)"
  shows "cluster_reachable members (take_step n e c)"
proof -
  have "f2_step (cl_node c n) e = Inr (projr (f2_step (cl_node c n) e))"
    using assms(4) by (simp add: sum.collapse(2))
  from server_step[OF assms(2,3) this] show ?thesis
    using cluster_reachable.step[OF assms(1)] by (simp add: take_step_def Let_def)
qed

definition cluster0 :: cluster where
  "cluster0 = \<lparr>cl_node = (\<lambda>n. if n = 1 then server1 else if n = 2 then server2 else fresh_server 3 [1, 2]),
     cl_durable = (\<lambda>_. no_vote), cl_sent = {}, cl_leaders = {}\<rparr>"

lemma cluster0_init: "cluster_init {1, 2, 3} cluster0"
  by (auto simp: cluster_init_def cluster0_def restarted_def server1_def server2_def fresh_server_def hard_state_def)

text \<open>The events of the election, and the states they lead to.\<close>

definition persisted :: "u64 \<Rightarrow> node_id option \<Rightarrow> f2_event" where
  "persisted rid vote = Raft_hard_state_persisted rid \<lparr>hs_current_term = 1, hs_voted_for = vote\<rparr>"

definition voting1 :: f2_state where "voting1 = next_state server1 Election_timeout"
definition candidate1 :: f2_state where "candidate1 = next_state voting1 (persisted 1 (Some 1))"
definition leader1 :: f2_state where "leader1 = next_state candidate1 (Receive_request_vote_response 2 granted)"
definition observing2 :: f2_state where "observing2 = next_state server2 (Receive_request_vote 1 ballot)"
definition voting2 :: f2_state where "voting2 = next_state observing2 (persisted 1 None)"

definition cluster3 :: cluster where
  "cluster3 = take_step 2 (Receive_request_vote 1 ballot) (take_step 1 (persisted 1 (Some 1))
     (take_step 1 Election_timeout cluster0))"

definition cluster6 :: cluster where
  "cluster6 = take_step 1 (Receive_request_vote_response 2 granted)
     (take_step 2 (persisted 2 (Some 1)) (take_step 2 (persisted 1 None) cluster3))"

lemma steps_succeed:
  "\<not> isl (f2_step server1 Election_timeout)"
  "\<not> isl (f2_step voting1 (persisted 1 (Some 1)))"
  "\<not> isl (f2_step server2 (Receive_request_vote 1 ballot))"
  "\<not> isl (f2_step observing2 (persisted 1 None))"
  "\<not> isl (f2_step voting2 (persisted 2 (Some 1)))"
  "\<not> isl (f2_step candidate1 (Receive_request_vote_response 2 granted))"
  by code_simp+

lemma messages_sent:
  "Send_request_vote 2 ballot \<in> set (sr_effects (projr (f2_step voting1 (persisted 1 (Some 1)))))"
  "Send_request_vote_response 1 granted \<in> set (sr_effects (projr (f2_step voting2 (persisted 2 (Some 1)))))"
  by code_simp+

lemma leader1_leads: "f2_role leader1 = Leader" "f2_term leader1 = 1"
  by code_simp+

lemmas demo_simps = take_step_def Let_def cluster0_def voting1_def candidate1_def leader1_def
  observing2_def voting2_def next_state_def

lemma cluster3_node [simp]:
  "cl_node cluster3 1 = candidate1" "cl_node cluster3 2 = observing2"
  by (simp_all add: cluster3_def demo_simps)

lemma cluster3_reachable: "cluster_reachable {1, 2, 3} cluster3"
  unfolding cluster3_def
  using steps_succeed messages_sent(1)
  by (intro take_step_reachable cluster_reachable.init cluster0_init) (simp_all add: demo_simps persisted_def)

lemma cluster6_reachable: "cluster_reachable {1, 2, 3} cluster6"
  unfolding cluster6_def
  using steps_succeed messages_sent(2)
  by (intro take_step_reachable cluster3_reachable) (simp_all add: take_step_def Let_def demo_simps persisted_def)

lemma cluster6_leader: "(1, 1) \<in> cl_leaders cluster6"
  using leader1_leads by (simp add: cluster6_def take_step_def Let_def leader1_def next_state_def leaders_now_def)

section \<open>Witnesses\<close>

theorem election_safety_witness:
  "cluster_reachable {1, 2, 3} cluster6 \<and> {m. (m, 1) \<in> cl_leaders cluster6} = {1}"
  using election_safety[OF cluster6_reachable cluster6_leader] cluster6_reachable cluster6_leader by auto

theorem messages_covered_by_durable_state_witness:
  "Send_request_vote_response 1 granted \<in> set (sr_effects (projr (f2_step voting2 (persisted 2 (Some 1)))))
   \<and> durable_next (persisted 2 (Some 1)) \<lparr>hs_current_term = 1, hs_voted_for = None\<rparr> = vote_for_1"
proof -
  let ?e = "persisted 2 (Some 1)" and ?d = "\<lparr>hs_current_term = 1, hs_voted_for = None\<rparr>"
  have step: "f2_step voting2 ?e = Inr (projr (f2_step voting2 ?e))"
    using steps_succeed(5) by (simp add: sum.collapse(2))
  have "durable_ok ?d voting2" by code_simp
  moreover have "self_voted voting2" by code_simp
  ultimately have "durable_next ?e ?d = \<lparr>hs_current_term = rvr_term granted, hs_voted_for = Some 1\<rparr>"
    using messages_covered_by_durable_state[OF step] messages_sent(2) by (simp add: granted_def)
  then show ?thesis using messages_sent(2) by (simp add: granted_def)
qed

theorem term_and_vote_stable_witness:
  "f2_term candidate1 \<le> f2_term leader1 \<and> f2_vote leader1 = Some 1"
proof -
  let ?e = "Receive_request_vote_response 2 granted"
  have step: "f2_step candidate1 ?e = Inr (projr (f2_step candidate1 ?e))"
    using steps_succeed(6) by (simp add: sum.collapse(2))
  have "durable_ok vote_for_1 candidate1" by code_simp
  moreover have "self_voted candidate1" by code_simp
  moreover have "f2_vote candidate1 = Some 1" "f2_term candidate1 = 1" by code_simp+
  ultimately show ?thesis
    using term_and_vote_stable[OF step] leader1_leads(2) by (simp add: leader1_def next_state_def)
qed

end
