(* ===== verification/Byte_Codec.thy ===== *)
theory Byte_Codec
  imports Raft_Types
begin

text \<open>
  Little-endian integers in byte vectors, as the wire and file formats of the sources write and
  read them, and the interface of a decoder that reads at an offset.  The locale \<open>codec\<close> states
  the one law a format relies on, that a decoder accepts at an offset exactly the encoding of
  the value it returns, and derives it for sequences of values.
\<close>

unbundle bit_operations_syntax

section \<open>Little-endian integers\<close>

text \<open>
  \<open>le_bytes n v\<close> are the bytes the writing loops push: byte \<open>i\<close> is \<open>(v >> 8 i) & 0xff\<close>.
  \<open>or_bytes\<close> is the reading loop \<open>value |= byte << shift\<close>.
\<close>

definition le_bytes :: "nat \<Rightarrow> 'a :: len word \<Rightarrow> byte list" where
  "le_bytes n v = map (\<lambda>i. ucast (drop_bit (8 * i) v AND 0xff)) [0..<n]"

fun or_bytes :: "'a :: len word \<Rightarrow> nat \<Rightarrow> byte list \<Rightarrow> 'a word" where
  "or_bytes v shift [] = v"
| "or_bytes v shift (b # bs) = or_bytes (v OR push_bit shift (ucast b)) (shift + 8) bs"

lemma length_le_bytes [simp]: "length (le_bytes n v) = n"
  by (simp add: le_bytes_def)

lemma bit_le_bytes:
  assumes "i < n" "k < 8"
  shows "bit (le_bytes n v ! i) k \<longleftrightarrow> bit v (8 * i + k)"
proof -
  have "bit (0xff :: 'a :: len word) k" if "k < LENGTH('a)"
  proof -
    have "(0xff :: 'a word) = mask 8" by (simp add: mask_eq_exp_minus_1)
    moreover have "bit (mask 8 :: 'a word) k" using that assms(2) by (simp add: bit_mask_iff)
    ultimately show ?thesis by (simp only:)
  qed
  moreover have "bit v (8 * i + k) \<Longrightarrow> k < LENGTH('a)" for v :: "'a word"
    using bit_imp_le_length[of v "8 * i + k"] by simp
  ultimately show ?thesis
    using assms by (auto simp: le_bytes_def bit_simps ac_simps)
qed

lemma bit_or_bytes:
  fixes v :: "'a :: len word"
  shows "bit (or_bytes v shift bs) k \<longleftrightarrow> bit v k \<or>
    shift \<le> k \<and> k < LENGTH('a) \<and> (k - shift) div 8 < length bs \<and> bit (bs ! ((k - shift) div 8)) ((k - shift) mod 8)"
proof (induction bs arbitrary: v shift)
  case Nil
  then show ?case by simp
next
  case (Cons b bs)
  consider "k < shift" | "shift \<le> k" "k < shift + 8" | "shift + 8 \<le> k" by linarith
  then show ?case
  proof cases
    case 1
    then show ?thesis using Cons by (simp add: bit_simps)
  next
    case 2
    then show ?thesis using Cons by (auto simp: bit_simps not_le)
  next
    case 3
    then obtain j where "k = shift + 8 + j" using le_Suc_ex by blast
    then have "(k - shift) div 8 = Suc ((k - (shift + 8)) div 8)" "(k - shift) mod 8 = (k - (shift + 8)) mod 8"
      by simp_all
    moreover have "\<not> bit b (k - shift)" using 3 bit_imp_le_length[of b "k - shift"] by auto
    ultimately show ?thesis using Cons 3 by (simp add: bit_simps)
  qed
qed

lemma or_le_bytes:
  fixes v :: "'a :: len word"
  assumes "LENGTH('a) = 8 * n"
  shows "or_bytes 0 0 (le_bytes n v) = v"
proof (rule bit_eqI)
  fix k
  show "bit (or_bytes 0 0 (le_bytes n v) :: 'a word) k = bit v k"
  proof (cases "k < LENGTH('a)")
    case True
    then have "k div 8 < n" using assms by (simp add: less_mult_imp_div_less mult.commute)
    then show ?thesis using True by (simp add: bit_or_bytes bit_le_bytes)
  next
    case False
    then show ?thesis using bit_imp_le_length by blast
  qed
qed

lemma le_or_bytes:
  fixes bs :: "byte list"
  assumes "LENGTH('a :: len) = 8 * n" "length bs = n"
  shows "le_bytes n (or_bytes 0 0 bs :: 'a word) = bs"
proof (rule nth_equalityI)
  fix i
  assume i: "i < length (le_bytes n (or_bytes 0 0 bs :: 'a word))"
  show "le_bytes n (or_bytes 0 0 bs :: 'a word) ! i = bs ! i"
  proof (rule bit_eqI)
    fix k
    assume "possible_bit TYPE(byte) k"
    then have "k < 8" by simp
    moreover have "8 * i + k < LENGTH('a)" using i \<open>k < 8\<close> assms by simp
    ultimately show "bit (le_bytes n (or_bytes 0 0 bs :: 'a word) ! i) k = bit (bs ! i) k"
      using i assms(2) by (simp add: bit_le_bytes bit_or_bytes)
  qed
qed (use assms in simp)

section \<open>Bytes at an offset\<close>

definition bytes_at :: "byte list \<Rightarrow> nat \<Rightarrow> byte list \<Rightarrow> bool" where
  "bytes_at bs offset xs \<longleftrightarrow> offset + length xs \<le> length bs \<and> take (length xs) (drop offset bs) = xs"

lemma bytes_at_append: "bytes_at bs offset (xs @ ys) \<longleftrightarrow> bytes_at bs offset xs \<and> bytes_at bs (offset + length xs) ys"
proof -
  have "take (length xs + length ys) (drop offset bs)
      = take (length xs) (drop offset bs) @ take (length ys) (drop (offset + length xs) bs)"
    by (simp add: take_add add.commute)
  moreover have "length (take (length xs) (drop offset bs)) = length xs" if "offset + length xs \<le> length bs"
    using that by simp
  ultimately show ?thesis
    unfolding bytes_at_def by (auto simp: append_eq_append_conv)
qed

lemma bytes_at_Cons: "bytes_at bs offset (x # xs) \<longleftrightarrow> bytes_at bs offset [x] \<and> bytes_at bs (Suc offset) xs"
  using bytes_at_append[of bs offset "[x]" xs] by simp

lemma bytes_at_single: "bytes_at bs offset [x] \<longleftrightarrow> offset < length bs \<and> bs ! offset = x"
  by (auto simp: bytes_at_def take_Suc_conv_app_nth hd_drop_conv_nth take_Suc)

lemma bytes_at_all: "bytes_at bs 0 xs \<and> length bs = length xs \<longleftrightarrow> bs = xs"
  by (auto simp: bytes_at_def)

lemma bytes_at_here: "offset \<le> length bs \<Longrightarrow> bytes_at bs offset (take n (drop offset bs))"
  by (cases "n \<le> length bs - offset") (auto simp: bytes_at_def min_def)

lemma bytes_at_length: "bytes_at bs offset xs \<Longrightarrow> offset + length xs \<le> length bs"
  by (simp add: bytes_at_def)

section \<open>Decoders\<close>

text \<open>A loop that decodes a fixed number of values one after the other.\<close>

fun decode_times :: "(byte list \<Rightarrow> nat \<Rightarrow> ('a \<times> nat) result) \<Rightarrow> nat \<Rightarrow> byte list \<Rightarrow> nat \<Rightarrow> ('a list \<times> nat) result" where
  "decode_times decode 0 bs offset = Inr ([], offset)"
| "decode_times decode (Suc n) bs offset =
     and_then (decode bs offset) (\<lambda>(x, next).
     and_then (decode_times decode n bs next) (\<lambda>(xs, end). Inr (x # xs, end)))"

locale codec =
  fixes enc :: "'a \<Rightarrow> byte list" and dec :: "byte list \<Rightarrow> nat \<Rightarrow> ('a \<times> nat) result" and ok :: "'a \<Rightarrow> bool"
  assumes parse: "dec bs offset = Inr (x, next) \<longleftrightarrow>
    bytes_at bs offset (enc x) \<and> ok x \<and> next = offset + length (enc x)"
begin

lemma parse_times:
  "offset \<le> length bs \<Longrightarrow> decode_times dec n bs offset = Inr (xs, next) \<longleftrightarrow>
     length xs = n \<and> bytes_at bs offset (concat (map enc xs)) \<and> list_all ok xs
   \<and> next = offset + length (concat (map enc xs))"
proof (induction n arbitrary: offset xs)
  case 0
  then show ?case by (auto simp: bytes_at_def)
next
  case (Suc n)
  have step: "decode_times dec (Suc n) bs offset = Inr (xs, next) \<longleftrightarrow>
    (\<exists>y ys. xs = y # ys \<and> dec bs offset = Inr (y, offset + length (enc y))
      \<and> decode_times dec n bs (offset + length (enc y)) = Inr (ys, next))"
    by (auto simp: result_simps parse)
  show ?case
    unfolding step using Suc.IH
    by (cases xs) (auto simp: parse bytes_at_append dest: bytes_at_length)
qed

text \<open>Decoding one value and then continuing at the offset behind it.\<close>

lemma then_parse:
  "and_then (dec bs offset) (\<lambda>(x, next). k x next) = Inr y \<longleftrightarrow>
     (\<exists>x. bytes_at bs offset (enc x) \<and> ok x \<and> k x (offset + length (enc x)) = Inr y)"
  by (auto simp: result_simps parse)

lemma times_then_parse:
  "offset \<le> length bs \<Longrightarrow> and_then (decode_times dec n bs offset) (\<lambda>(xs, next). k xs next) = Inr y \<longleftrightarrow>
     (\<exists>xs. length xs = n \<and> bytes_at bs offset (concat (map enc xs)) \<and> list_all ok xs
        \<and> k xs (offset + length (concat (map enc xs))) = Inr y)"
  by (auto simp: result_simps parse_times)

lemma inject:
  assumes "ok x" "ok y" "enc x = enc y"
  shows "x = y"
proof -
  have "bytes_at (enc x) 0 (enc x)" by (simp add: bytes_at_def)
  then have "dec (enc x) 0 = Inr (x, length (enc x))" "dec (enc x) 0 = Inr (y, length (enc x))"
    using assms by (simp_all add: parse)
  then show ?thesis by simp
qed

end

end
