(* ===== verification/Checksum.thy ===== *)
theory Checksum
  imports Byte_Codec
begin

text \<open>
  The CRC-32C checksum of the durable formats (\<^verbatim>\<open>src/src/durable_storage.cpp\<close>, class
  \<open>Crc32cAccumulator\<close> and function \<open>crc32c\<close>), and what a reader may rely on: accumulating in
  pieces is the same as accumulating the whole, and a change inside four consecutive bytes
  always changes the checksum.
\<close>

unbundle bit_operations_syntax

definition crc_polynomial :: u32 where
  "crc_polynomial = 0x82f63b78"

definition crc_bit :: "u32 \<Rightarrow> u32" where
  "crc_bit value = drop_bit 1 value XOR (crc_polynomial AND (0 - (value AND 1)))"

definition crc_byte :: "byte \<Rightarrow> u32 \<Rightarrow> u32" where
  "crc_byte b value = (crc_bit ^^ 8) (value XOR ucast b)"

definition crc_update :: "byte list \<Rightarrow> u32 \<Rightarrow> u32" where
  "crc_update bs value = fold crc_byte bs value"

definition crc_finish :: "u32 \<Rightarrow> u32" where
  "crc_finish value = value XOR 0xffffffff"

definition crc32c :: "byte list \<Rightarrow> u32" where
  "crc32c bs = crc_finish (crc_update bs 0xffffffff)"

lemma crc_update_append: "crc_update (xs @ ys) value = crc_update ys (crc_update xs value)"
  by (simp add: crc_update_def)

text \<open>
  The shift register: a step drops bit 0 and, when it was set, adds the polynomial, whose top
  bit is set.  A state without its top bit is therefore reached from its double only.
\<close>

lemma crc_bit_alt: "crc_bit v = drop_bit 1 v XOR (if bit v 0 then crc_polynomial else 0)"
proof -
  have "v AND 1 = (if bit v 0 then 1 else 0)"
    by (rule bit_eqI) (auto simp: bit_simps intro!: gr0I)
  then show ?thesis by (simp add: crc_bit_def)
qed

lemma crc_bit_xor: "crc_bit (v XOR w) = crc_bit v XOR crc_bit w"
  by (rule bit_eqI) (auto simp: crc_bit_alt bit_simps)

lemma crc_bits_xor: "(crc_bit ^^ n) (v XOR w) = (crc_bit ^^ n) v XOR (crc_bit ^^ n) w"
  by (induction n) (simp_all add: crc_bit_xor)

lemma crc_bit_top: "bit (crc_bit v) 31 \<longleftrightarrow> bit v 0"
proof -
  have "bit crc_polynomial 31" by (simp add: crc_polynomial_def)
  moreover have "\<not> bit (drop_bit 1 v) 31" using bit_imp_le_length[of v 32] by (auto simp: bit_simps)
  ultimately show ?thesis by (simp add: crc_bit_alt bit_simps)
qed

lemma crc_bit_undo:
  assumes "\<not> bit (crc_bit v) 31"
  shows "v = push_bit 1 (crc_bit v)"
proof (rule bit_eqI)
  fix k
  assume k: "possible_bit TYPE(u32) k"
  have low: "\<not> bit v 0" using assms by (simp add: crc_bit_top)
  then have "crc_bit v = drop_bit 1 v" by (simp add: crc_bit_alt)
  then have "bit (push_bit 1 (crc_bit v)) k \<longleftrightarrow> 1 \<le> k \<and> bit v (1 + (k - 1))"
    using k by (simp only: bit_push_bit_iff bit_drop_bit_eq comp_def) simp
  then show "bit v k = bit (push_bit 1 (crc_bit v)) k" using low by (cases k) auto
qed

lemma crc_bits_undo:
  assumes "\<And>k. 32 \<le> k + n \<Longrightarrow> \<not> bit ((crc_bit ^^ n) v) k" "n \<le> 32"
  shows "v = push_bit n ((crc_bit ^^ n) v)"
  using assms
proof (induction n)
  case 0
  then show ?case by simp
next
  case (Suc n)
  let ?w = "(crc_bit ^^ n) v"
  have "\<not> bit (crc_bit ?w) 31" using Suc.prems by simp
  then have w: "?w = push_bit 1 (crc_bit ?w)" by (rule crc_bit_undo)
  have "\<not> bit ?w k" if "32 \<le> k + n" for k
    using Suc.prems(1)[of "k - 1"] that Suc.prems(2)
    by (subst w) (cases k; simp only: bit_push_bit_iff; simp)
  then have "v = push_bit n ?w" using Suc by simp
  also have "\<dots> = push_bit n (push_bit 1 (crc_bit ?w))" using w by simp
  finally show ?case by (simp add: push_bit_push_bit)
qed

text \<open>
  The difference of two states before a byte, when the difference after it fits in \<open>8 n\<close> bits:
  it fits in \<open>8 n + 8\<close> bits, the low eight of which are the difference of the two bytes.
\<close>

lemma crc_byte_difference:
  assumes "\<And>k. 8 * n \<le> k \<Longrightarrow> \<not> bit (crc_byte b v XOR crc_byte c w) k" "n \<le> 3"
  shows "v XOR w = push_bit 8 (crc_byte b v XOR crc_byte c w) XOR (ucast b XOR ucast c)"
proof -
  let ?d = "crc_byte b v XOR crc_byte c w"
  have d: "?d = (crc_bit ^^ 8) ((v XOR ucast b) XOR (w XOR ucast c))"
    by (simp only: crc_byte_def crc_bits_xor)
  have "\<not> bit ?d k" if "32 \<le> k + 8" for k using assms that by simp
  then have "(v XOR ucast b) XOR (w XOR ucast c) = push_bit 8 ?d"
    using crc_bits_undo[of 8 "(v XOR ucast b) XOR (w XOR ucast c)"] by (simp only: d) simp
  moreover have "v XOR w = ((v XOR ucast b) XOR (w XOR ucast c)) XOR (ucast b XOR ucast c)"
    by (rule bit_eqI) (auto simp: bit_simps)
  ultimately show ?thesis by simp
qed

lemma crc_byte_inject: "crc_byte b v = crc_byte c w \<Longrightarrow> v XOR w = ucast b XOR ucast c"
  using crc_byte_difference[of 0 b v c w] by simp

lemma xor_0_eq: "v = w" if "v XOR w = 0" for v w :: "'a :: len word"
proof (rule bit_eqI)
  fix k
  have "\<not> bit (v XOR w) k" using that by simp
  then show "bit v k = bit w k" by (simp add: bit_xor_iff)
qed

lemma xor_right_inject: "v XOR x = w XOR x \<longleftrightarrow> v = w" for v w x :: "'a :: len word"
proof
  assume eq: "v XOR x = w XOR x"
  have "bit (v XOR x) k = bit (w XOR x) k" for k by (simp add: eq)
  then show "v = w" by (intro bit_eqI) (simp add: bit_xor_iff, blast)
qed simp

lemma crc_update_inject: "crc_update bs v = crc_update bs w \<Longrightarrow> v = w"
proof (induction bs arbitrary: v w)
  case Nil
  then show ?case by (simp add: crc_update_def)
next
  case (Cons b bs)
  then have "crc_byte b v = crc_byte b w" by (simp add: crc_update_def)
  then have "v XOR w = 0" by (simp add: crc_byte_inject)
  then show ?case by (rule xor_0_eq)
qed

text \<open>The difference of the bytes of two lists, as the little-endian number the register sees.\<close>

fun byte_difference :: "byte list \<Rightarrow> byte list \<Rightarrow> u32" where
  "byte_difference (b # bs) (c # cs) = (ucast b XOR ucast c) XOR push_bit 8 (byte_difference bs cs)"
| "byte_difference _ _ = 0"

lemma bit_byte_difference: "bit (byte_difference bs cs) k \<Longrightarrow> k < 8 * length bs"
proof (induction bs cs arbitrary: k rule: byte_difference.induct)
  case (1 b bs c cs)
  show ?case
  proof (cases "k < 8")
    case False
    then have "\<not> bit b k" "\<not> bit c k" using bit_imp_le_length[of _ k] by fastforce+
    then have "bit (byte_difference bs cs) (k - 8)" using 1(2) by (simp add: bit_simps)
    then show ?thesis using 1(1) by fastforce
  qed simp
qed simp_all

lemma crc_update_difference:
  assumes "length bs = length cs" "length bs \<le> 4" "crc_update bs v = crc_update cs w"
  shows "v XOR w = byte_difference bs cs"
  using assms
proof (induction bs cs arbitrary: v w rule: list_induct2')
  case (4 b bs c cs)
  then have d: "crc_byte b v XOR crc_byte c w = byte_difference bs cs" by (simp add: crc_update_def)
  have "\<not> bit (crc_byte b v XOR crc_byte c w) k" if "8 * length bs \<le> k" for k
    using d bit_byte_difference[of bs cs k] that by fastforce
  then have "v XOR w = push_bit 8 (byte_difference bs cs) XOR (ucast b XOR ucast c)"
    using crc_byte_difference[of "length bs" b v c w] 4(3) d by simp
  then show ?case by (simp add: ac_simps)
qed (simp_all add: crc_update_def)

lemma byte_difference_0: "length bs = length cs \<Longrightarrow> length bs \<le> 4 \<Longrightarrow> byte_difference bs cs = 0 \<Longrightarrow> bs = cs"
proof (induction bs cs rule: list_induct2')
  case (4 b bs c cs)
  let ?d = "byte_difference bs cs"
  have sum: "(ucast b XOR ucast c) XOR push_bit 8 ?d = 0" using 4(4) by simp
  have "bit b k = bit c k" if "k < 8" for k
  proof -
    have "\<not> bit ((ucast b XOR ucast c) XOR push_bit 8 ?d) k" using sum by simp
    then show ?thesis using that by (simp add: bit_simps)
  qed
  then have bc: "b = c" by (intro bit_eqI) simp
  have "\<not> bit ?d k" for k
  proof
    assume k: "bit ?d k"
    then have "k < 24" using bit_byte_difference[OF k] 4(3) by simp
    then have "bit (push_bit 8 ?d) (k + 8)" using k by (simp add: bit_simps)
    then show False using sum bc by simp
  qed
  then have "?d = 0" by (intro bit_eqI) simp
  then show ?case using 4 bc by simp
qed simp_all

text \<open>
  C33.  The checksum detects every corruption that is confined to four consecutive bytes: two
  byte strings of the same length that differ there have different checksums.
\<close>

theorem crc32c_detects_burst:
  assumes "length xs = length ys" "length xs \<le> 4" "xs \<noteq> ys"
  shows "crc32c (pre @ xs @ post) \<noteq> crc32c (pre @ ys @ post)"
proof
  assume "crc32c (pre @ xs @ post) = crc32c (pre @ ys @ post)"
  then have "crc_update (pre @ xs @ post) 0xffffffff = crc_update (pre @ ys @ post) 0xffffffff"
    by (simp add: crc32c_def crc_finish_def xor_right_inject)
  then have "crc_update xs (crc_update pre 0xffffffff) = crc_update ys (crc_update pre 0xffffffff)"
    unfolding crc_update_append by (rule crc_update_inject)
  from crc_update_difference[OF assms(1,2) this] have "byte_difference xs ys = 0" by simp
  then show False using byte_difference_0 assms by blast
qed

end
