(* ===== verification/Raft_Codec.thy ===== *)
theory Raft_Codec
  imports Checksum
begin

text \<open>
  The message and record formats of \<^verbatim>\<open>src/src/raft_election.cpp\<close>: encoders that append to a
  byte vector, decoders that read at an offset, the six messages and the four durable records
  of a simulated Raft node.  Every decoder is shown to accept exactly the encodings of
  well-formed values.
\<close>

section \<open>Integers\<close>

definition append_u32 :: "byte list \<Rightarrow> u32 \<Rightarrow> byte list" where
  "append_u32 bytes value = bytes @ le_bytes 4 value"

definition append_u64 :: "byte list \<Rightarrow> u64 \<Rightarrow> byte list" where
  "append_u64 bytes value = bytes @ le_bytes 8 value"

definition read_u32 :: "byte list \<Rightarrow> nat \<Rightarrow> (u32 \<times> nat) result" where
  "read_u32 bytes offset =
     (if offset > length bytes \<or> length bytes - offset < 4
      then Inl (Invalid_Argument ''truncated Raft payload'')
      else Inr (or_bytes 0 0 (take 4 (drop offset bytes)), offset + 4))"

definition read_u64 :: "byte list \<Rightarrow> nat \<Rightarrow> (u64 \<times> nat) result" where
  "read_u64 bytes offset =
     (if offset > length bytes \<or> length bytes - offset < 8
      then Inl (Invalid_Argument ''truncated Raft payload'')
      else Inr (or_bytes 0 0 (take 8 (drop offset bytes)), offset + 8))"

lemma read_word_parse:
  fixes x :: "'a :: len word"
  assumes "LENGTH('a) = 8 * n"
  shows "offset + n \<le> length bs \<and> x = or_bytes 0 0 (take n (drop offset bs)) \<longleftrightarrow> bytes_at bs offset (le_bytes n x)"
proof
  assume l: "offset + n \<le> length bs \<and> x = or_bytes 0 0 (take n (drop offset bs))"
  then have "length (take n (drop offset bs)) = n" by auto
  from le_or_bytes[OF assms this] have "le_bytes n x = take n (drop offset bs)" using l by simp
  then show "bytes_at bs offset (le_bytes n x)" using l bytes_at_here by simp
next
  assume "bytes_at bs offset (le_bytes n x)"
  then show "offset + n \<le> length bs \<and> x = or_bytes 0 0 (take n (drop offset bs))"
    using or_le_bytes[OF assms, of x] by (simp add: bytes_at_def)
qed

interpretation u32c: codec "le_bytes 4" read_u32 "\<lambda>_. True"
proof
  fix bs offset and x :: u32 and "next"
  show "read_u32 bs offset = Inr (x, next) \<longleftrightarrow>
    bytes_at bs offset (le_bytes 4 x) \<and> True \<and> next = offset + length (le_bytes 4 x)"
    using read_word_parse[of 4 offset bs x] by (auto simp: read_u32_def)
qed

interpretation u64c: codec "le_bytes 8" read_u64 "\<lambda>_. True"
proof
  fix bs offset and x :: u64 and "next"
  show "read_u64 bs offset = Inr (x, next) \<longleftrightarrow>
    bytes_at bs offset (le_bytes 8 x) \<and> True \<and> next = offset + length (le_bytes 8 x)"
    using read_word_parse[of 8 offset bs x] by (auto simp: read_u64_def)
qed

lemma length_u64_list [simp]: "length (concat (map (le_bytes 8) xs)) = 8 * length xs"
  by (induction xs) simp_all

text \<open>Casts between the signed revisions and the unsigned fields of the formats.\<close>

definition int64_ok :: "int \<Rightarrow> bool" where
  "int64_ok i \<longleftrightarrow> int64_min \<le> i \<and> i \<le> int64_max"

definition cast_u64 :: "int \<Rightarrow> u64" where
  "cast_u64 i = word_of_int i"

definition cast_i64 :: "u64 \<Rightarrow> int" where
  "cast_i64 w = sint w"

lemma cast_i64_u64: "int64_ok i \<Longrightarrow> cast_i64 (cast_u64 i) = i"
  unfolding int64_ok_def cast_i64_def cast_u64_def int64_min_def int64_max_def
  by (simp add: int_word_sint)

lemma cast_u64_i64 [simp]: "cast_u64 (cast_i64 w) = w"
  by (simp add: cast_i64_def cast_u64_def)

lemma int64_ok_cast [simp]: "int64_ok (cast_i64 w)"
  using sint_greater_eq[of w] sint_less[of w]
  by (simp add: int64_ok_def cast_i64_def int64_min_def int64_max_def)

section \<open>Counted sequences\<close>

definition size_ok :: "'a list \<Rightarrow> bool" where
  "size_ok xs \<longleftrightarrow> length xs < 2 ^ 64"

lemma unat_size: "size_ok xs \<Longrightarrow> unat (of_nat (length xs) :: u64) = length xs"
  by (simp add: size_ok_def unat_of_nat)

lemma size_ok_unat: "length xs = unat (n :: u64) \<Longrightarrow> size_ok xs"
  using unsigned_less[of n, where ?'a = nat] by (simp add: size_ok_def)

lemma count_iff: "length xs = unat (n :: u64) \<longleftrightarrow> n = of_nat (length xs) \<and> size_ok xs"
  using unat_size[of xs] size_ok_unat[of xs n] by auto

text \<open>
  A count, a check that as many elements of the smallest width fit into the rest of the input,
  and the elements; and a length with as many raw bytes.
\<close>

definition counted_bytes :: "('a \<Rightarrow> byte list) \<Rightarrow> 'a list \<Rightarrow> byte list" where
  "counted_bytes enc xs = le_bytes 8 (of_nat (length xs) :: u64) @ concat (map enc xs)"

definition decode_counted ::
    "(byte list \<Rightarrow> nat \<Rightarrow> ('a \<times> nat) result) \<Rightarrow> nat \<Rightarrow> string \<Rightarrow> byte list \<Rightarrow> nat \<Rightarrow> ('a list \<times> nat) result" where
  "decode_counted decode width message bytes offset =
     and_then (read_u64 bytes offset) (\<lambda>(count, offset).
     and_then (throw_if (unat count > (length bytes - offset) div width) (Invalid_Argument message)) (\<lambda>_.
     decode_times decode (unat count) bytes offset))"

definition decode_payload :: "string \<Rightarrow> byte list \<Rightarrow> nat \<Rightarrow> (byte list \<times> nat) result" where
  "decode_payload message bytes offset =
     and_then (read_u64 bytes offset) (\<lambda>(size, offset).
     and_then (throw_if (unat size > length bytes - offset) (Invalid_Argument message)) (\<lambda>_.
     Inr (take (unat size) (drop offset bytes), offset + unat size)))"

context codec
begin

lemma counted:
  assumes width: "0 < w" "\<And>x. ok x \<Longrightarrow> w \<le> length (enc x)"
  shows "codec (counted_bytes enc) (decode_counted dec w message) (\<lambda>xs. size_ok xs \<and> list_all ok xs)"
proof
  fix bs offset xs "next"
  let ?count = "of_nat (length xs) :: u64" and ?tail = "concat (map enc xs)"
  have times: "decode_times dec n bs (offset + 8) = Inr (xs, next) \<longleftrightarrow>
      length xs = n \<and> bytes_at bs (offset + 8) ?tail \<and> list_all ok xs \<and> next = offset + 8 + length ?tail"
    if "bytes_at bs offset (le_bytes 8 c)" for n and c :: u64
    by (rule parse_times) (use bytes_at_length[OF that] in simp)
  have "decode_counted dec w message bs offset = Inr (xs, next) \<longleftrightarrow>
    (\<exists>count :: u64. bytes_at bs offset (le_bytes 8 count) \<and> \<not> unat count > (length bs - (offset + 8)) div w
       \<and> decode_times dec (unat count) bs (offset + 8) = Inr (xs, next))"
    unfolding decode_counted_def u64c.then_parse by (auto simp: result_simps)
  also have "\<dots> \<longleftrightarrow> (\<exists>count :: u64. bytes_at bs offset (le_bytes 8 count) \<and> \<not> unat count > (length bs - (offset + 8)) div w
       \<and> length xs = unat count \<and> bytes_at bs (offset + 8) ?tail \<and> list_all ok xs \<and> next = offset + 8 + length ?tail)"
    by (simp add: times cong: conj_cong)
  also have "\<dots> \<longleftrightarrow> bytes_at bs offset (counted_bytes enc xs) \<and> (size_ok xs \<and> list_all ok xs)
     \<and> next = offset + length (counted_bytes enc xs)"
  proof -
    have "length xs \<le> (length bs - (offset + 8)) div w" if "bytes_at bs (offset + 8) ?tail" "list_all ok xs"
    proof -
      have "w * length xs \<le> length ?tail" using that(2) width(2) by (induction xs) fastforce+
      also have "\<dots> \<le> length bs - (offset + 8)" using bytes_at_length[OF that(1)] by simp
      finally show ?thesis using width(1) by (simp add: less_eq_div_iff_mult_less_eq mult.commute)
    qed
    then show ?thesis
      using unat_size[of xs] unfolding count_iff counted_bytes_def bytes_at_append
      by (auto simp: not_less add.assoc)
  qed
  finally show "decode_counted dec w message bs offset = Inr (xs, next) \<longleftrightarrow>
    bytes_at bs offset (counted_bytes enc xs) \<and> (size_ok xs \<and> list_all ok xs) \<and> next = offset + length (counted_bytes enc xs)" .
qed

end

interpretation nodesc: codec "counted_bytes (le_bytes 8)" "decode_counted read_u64 8 message"
  "\<lambda>xs. size_ok xs \<and> list_all (\<lambda>_. True) xs" for message
  by (rule u64c.counted) simp_all

definition payload_bytes :: "byte list \<Rightarrow> byte list" where
  "payload_bytes xs = le_bytes 8 (of_nat (length xs) :: u64) @ xs"

interpretation payloadc: codec payload_bytes "decode_payload message" size_ok for message
proof
  fix bs offset xs "next"
  have "decode_payload message bs offset = Inr (xs, next) \<longleftrightarrow>
    (\<exists>size :: u64. bytes_at bs offset (le_bytes 8 size) \<and> \<not> unat size > length bs - (offset + 8)
       \<and> xs = take (unat size) (drop (offset + 8) bs) \<and> next = offset + 8 + unat size)"
    unfolding decode_payload_def u64c.then_parse by (auto simp: result_simps)
  also have "\<dots> \<longleftrightarrow> (\<exists>size :: u64. bytes_at bs offset (le_bytes 8 size) \<and> length xs = unat size
       \<and> bytes_at bs (offset + 8) xs \<and> next = offset + 8 + unat size)"
  proof -
    have "\<not> n > length bs - (offset + 8) \<and> xs = take n (drop (offset + 8) bs) \<longleftrightarrow>
      length xs = n \<and> bytes_at bs (offset + 8) xs" if "bytes_at bs offset (le_bytes 8 c)" for n and c :: u64
      using bytes_at_length[OF that] by (auto simp: bytes_at_def)
    then show ?thesis by (metis (no_types, lifting))
  qed
  also have "\<dots> \<longleftrightarrow> bytes_at bs offset (payload_bytes xs) \<and> size_ok xs \<and> next = offset + length (payload_bytes xs)"
    using unat_size[of xs] unfolding count_iff payload_bytes_def bytes_at_append by (auto simp: add.assoc)
  finally show "decode_payload message bs offset = Inr (xs, next) \<longleftrightarrow>
    bytes_at bs offset (payload_bytes xs) \<and> size_ok xs \<and> next = offset + length (payload_bytes xs)" .
qed

lemma length_counted [simp]: "length (counted_bytes (le_bytes 8) xs) = 8 + 8 * length xs"
  by (simp add: counted_bytes_def)

lemma length_payload [simp]: "length (payload_bytes xs) = 8 + length xs"
  by (simp add: payload_bytes_def)

lemmas parse_simps = u64c.then_parse u32c.then_parse nodesc.then_parse payloadc.then_parse

section \<open>Snapshot metadata, contexts and log entries\<close>

definition append_u64s :: "byte list \<Rightarrow> u64 list \<Rightarrow> byte list" where
  "append_u64s bytes values = fold (\<lambda>value bytes. append_u64 bytes value) values bytes"

definition encode_metadata :: "byte list \<Rightarrow> snapshot_metadata \<Rightarrow> byte list" where
  "encode_metadata bytes m =
     (let bytes = append_u64 bytes (sm_last_included_index m);
          bytes = append_u64 bytes (sm_last_included_term m);
          bytes = append_u64 bytes (cast_u64 (sm_store_revision m));
          bytes = append_u64 bytes (cast_u64 (sm_compaction_revision m));
          bytes = append_u32 bytes (sm_format_version m);
          bytes = append_u64 bytes (of_nat (length (cm_voters (sm_membership m))));
          bytes = append_u64s bytes (cm_voters (sm_membership m));
          bytes = append_u64 bytes (of_nat (length (cm_learners (sm_membership m))))
      in append_u64s bytes (cm_learners (sm_membership m)))"

definition decode_metadata :: "byte list \<Rightarrow> nat \<Rightarrow> (snapshot_metadata \<times> nat) result" where
  "decode_metadata bytes offset =
     and_then (read_u64 bytes offset) (\<lambda>(index, offset).
     and_then (read_u64 bytes offset) (\<lambda>(term, offset).
     and_then (read_u64 bytes offset) (\<lambda>(store_revision, offset).
     and_then (read_u64 bytes offset) (\<lambda>(compaction_revision, offset).
     and_then (read_u32 bytes offset) (\<lambda>(format_version, offset).
     and_then (decode_counted read_u64 8 ''invalid snapshot voter count'' bytes offset) (\<lambda>(voters, offset).
     and_then (decode_counted read_u64 8 ''invalid snapshot learner count'' bytes offset) (\<lambda>(learners, offset).
     Inr (\<lparr>sm_last_included_index = index, sm_last_included_term = term,
           sm_store_revision = cast_i64 store_revision, sm_compaction_revision = cast_i64 compaction_revision,
           sm_membership = \<lparr>cm_voters = voters, cm_learners = learners\<rparr>,
           sm_format_version = format_version\<rparr>, offset))))))))"

definition encode_context :: "byte list \<Rightarrow> read_index_context option \<Rightarrow> byte list" where
  "encode_context bytes context =
     append_u64 (bytes @ [case context of Some _ \<Rightarrow> 1 | None \<Rightarrow> 0])
       (case context of Some c \<Rightarrow> c | None \<Rightarrow> 0)"

text \<open>One raw byte at the offset, \<open>bytes[offset++]\<close>, after the bounds check of the caller.\<close>

definition read_byte :: "string \<Rightarrow> byte list \<Rightarrow> nat \<Rightarrow> (byte \<times> nat) result" where
  "read_byte message bytes offset =
     (if offset \<ge> length bytes then Inl (Invalid_Argument message) else Inr (bytes ! offset, offset + 1))"

interpretation bytec: codec "\<lambda>b. [b]" "read_byte message" "\<lambda>_. True" for message
  by unfold_locales (auto simp: read_byte_def bytes_at_single)

definition decode_context :: "byte list \<Rightarrow> nat \<Rightarrow> (read_index_context option \<times> nat) result" where
  "decode_context bytes offset =
     and_then (read_byte ''truncated ReadIndex context'' bytes offset) (\<lambda>(present, offset).
     and_then (read_u64 bytes offset) (\<lambda>(value, offset).
     and_then (throw_if (present > 1 \<or> present = 0 \<and> value \<noteq> 0 \<or> present \<noteq> 0 \<and> value = 0)
        (Invalid_Argument ''invalid ReadIndex context'')) (\<lambda>_.
     Inr (if present \<noteq> 0 then Some value else None, offset))))"

definition encode_entry :: "byte list \<Rightarrow> log_entry \<Rightarrow> byte list" where
  "encode_entry bytes e =
     (let bytes = append_u64 bytes (le_term e);
          bytes = append_u64 bytes (le_index e);
          bytes = append_u64 bytes (rid_client (ce_request_id (le_command e)));
          bytes = append_u64 bytes (rid_sequence (ce_request_id (le_command e)));
          bytes = append_u32 bytes (ce_type_tag (le_command e));
          bytes = append_u64 bytes (of_nat (length (ce_payload (le_command e))))
      in bytes @ ce_payload (le_command e))"

definition decode_entry :: "byte list \<Rightarrow> nat \<Rightarrow> (log_entry \<times> nat) result" where
  "decode_entry bytes offset =
     and_then (read_u64 bytes offset) (\<lambda>(term, offset).
     and_then (read_u64 bytes offset) (\<lambda>(index, offset).
     and_then (read_u64 bytes offset) (\<lambda>(client, offset).
     and_then (read_u64 bytes offset) (\<lambda>(sequence, offset).
     and_then (read_u32 bytes offset) (\<lambda>(type_tag, offset).
     and_then (decode_payload ''truncated Raft command payload'' bytes offset) (\<lambda>(payload, offset).
     Inr (\<lparr>le_term = term, le_index = index,
           le_command = \<lparr>ce_request_id = \<lparr>rid_client = client, rid_sequence = sequence\<rparr>,
             ce_type_tag = type_tag, ce_payload = payload\<rparr>\<rparr>, offset)))))))"

definition metadata_ok :: "snapshot_metadata \<Rightarrow> bool" where
  "metadata_ok m \<longleftrightarrow> int64_ok (sm_store_revision m) \<and> int64_ok (sm_compaction_revision m)
     \<and> size_ok (cm_voters (sm_membership m)) \<and> size_ok (cm_learners (sm_membership m))"

definition context_ok :: "read_index_context option \<Rightarrow> bool" where
  "context_ok c \<longleftrightarrow> c \<noteq> Some 0"

definition entry_ok :: "log_entry \<Rightarrow> bool" where
  "entry_ok e \<longleftrightarrow> size_ok (ce_payload (le_command e))"

lemma append_u64s_alt: "append_u64s bytes xs = bytes @ concat (map (le_bytes 8) xs)"
  unfolding append_u64s_def by (induction xs arbitrary: bytes) (simp_all add: append_u64_def)

lemma encode_metadata_alt:
  "encode_metadata bytes m = bytes @ le_bytes 8 (sm_last_included_index m) @ le_bytes 8 (sm_last_included_term m)
     @ le_bytes 8 (cast_u64 (sm_store_revision m)) @ le_bytes 8 (cast_u64 (sm_compaction_revision m))
     @ le_bytes 4 (sm_format_version m) @ counted_bytes (le_bytes 8) (cm_voters (sm_membership m))
     @ counted_bytes (le_bytes 8) (cm_learners (sm_membership m))"
  by (simp add: encode_metadata_def Let_def append_u64s_alt append_u64_def append_u32_def counted_bytes_def)

lemma encode_context_alt:
  "encode_context bytes c = bytes @ [if c = None then 0 else 1] @ le_bytes 8 (case c of Some c \<Rightarrow> c | None \<Rightarrow> 0)"
  by (cases c) (simp_all add: encode_context_def append_u64_def)

lemma encode_entry_alt:
  "encode_entry bytes e = bytes @ le_bytes 8 (le_term e) @ le_bytes 8 (le_index e)
     @ le_bytes 8 (rid_client (ce_request_id (le_command e))) @ le_bytes 8 (rid_sequence (ce_request_id (le_command e)))
     @ le_bytes 4 (ce_type_tag (le_command e)) @ payload_bytes (ce_payload (le_command e))"
  by (simp add: encode_entry_def Let_def append_u64_def append_u32_def payload_bytes_def)

lemma revision_parse: "cast_i64 w = i \<longleftrightarrow> w = cast_u64 i \<and> int64_ok i"
  using cast_i64_u64[of i] by auto

interpretation metadatac: codec "encode_metadata []" decode_metadata metadata_ok
proof
  fix bs offset m "next"
  show "decode_metadata bs offset = Inr (m, next) \<longleftrightarrow>
    bytes_at bs offset (encode_metadata [] m) \<and> metadata_ok m \<and> next = offset + length (encode_metadata [] m)"
    unfolding decode_metadata_def parse_simps
    by (cases m; cases "sm_membership m")
      (simp add: encode_metadata_alt metadata_ok_def bytes_at_append list_all_iff revision_parse, auto)
qed

lemma flag_byte: "b \<le> 1 \<longleftrightarrow> b = 0 \<or> b = 1" for b :: byte
  by (auto simp: word_le_nat_alt word_unat_eq_iff)

interpretation contextc: codec "encode_context []" decode_context context_ok
proof
  fix bs offset c "next"
  show "decode_context bs offset = Inr (c, next) \<longleftrightarrow>
    bytes_at bs offset (encode_context [] c) \<and> context_ok c \<and> next = offset + length (encode_context [] c)"
    unfolding decode_context_def bytec.then_parse u64c.then_parse
    by (cases c) (auto simp: encode_context_alt context_ok_def bytes_at_append bytes_at_Cons[of _ _ _ "le_bytes _ _"] result_simps not_less flag_byte)
qed

interpretation entryc: codec "encode_entry []" decode_entry entry_ok
proof
  fix bs offset e "next"
  show "decode_entry bs offset = Inr (e, next) \<longleftrightarrow>
    bytes_at bs offset (encode_entry [] e) \<and> entry_ok e \<and> next = offset + length (encode_entry [] e)"
    unfolding decode_entry_def parse_simps
    by (cases e; cases "le_command e"; cases "ce_request_id (le_command e)")
      (simp add: encode_entry_alt entry_ok_def bytes_at_append, auto)
qed

lemma encode_entry_width: "44 \<le> length (encode_entry [] e)"
  by (simp add: encode_entry_alt)

interpretation entriesc: codec "counted_bytes (encode_entry [])" "decode_counted decode_entry 44 message"
  "\<lambda>es. size_ok es \<and> list_all entry_ok es" for message
  by (rule entryc.counted) (simp_all add: encode_entry_width)

lemma encode_entry_append: "encode_entry bytes e = bytes @ encode_entry [] e"
  by (simp add: encode_entry_alt)

definition encode_entries :: "byte list \<Rightarrow> log_entry list \<Rightarrow> byte list" where
  "encode_entries bytes es = fold (\<lambda>e bytes. encode_entry bytes e) es (append_u64 bytes (of_nat (length es)))"

lemma encode_entries_alt: "encode_entries bytes es = bytes @ counted_bytes (encode_entry []) es"
proof -
  have "fold (\<lambda>e bytes. encode_entry bytes e) es bs = bs @ concat (map (encode_entry []) es)" for bs
  proof (induction es arbitrary: bs)
    case (Cons e es)
    then show ?case using encode_entry_append[of bs e] by simp
  qed simp
  then show ?thesis by (simp add: encode_entries_def append_u64_def counted_bytes_def)
qed

text \<open>A length and bytes that must extend exactly to the end of the input.\<close>

definition decode_rest :: "string \<Rightarrow> string \<Rightarrow> byte list \<Rightarrow> nat \<Rightarrow> byte list result" where
  "decode_rest truncated invalid bytes offset =
     and_then (read_u64 bytes offset) (\<lambda>(size, offset).
     and_then (throw_if (unat size > length bytes - offset) (Invalid_Argument truncated)) (\<lambda>_.
     let rest = drop offset bytes in
     and_then (throw_if (length rest \<noteq> unat size) (Invalid_Argument invalid)) (\<lambda>_.
     Inr rest)))"

lemma chunk_iff:
  assumes "offset \<le> length bs"
  shows "\<not> unat (n :: u64) > length bs - offset \<and> length (drop offset bs) = unat n \<and> drop offset bs = chunk \<longleftrightarrow>
    n = of_nat (length chunk) \<and> size_ok chunk \<and> bytes_at bs offset chunk \<and> length bs = offset + length chunk"
    (is "?l \<longleftrightarrow> ?r")
proof -
  have here: "drop offset bs = chunk \<longleftrightarrow> bytes_at bs offset chunk \<and> length bs = offset + length chunk"
    using assms by (auto simp: bytes_at_def)
  have "?l \<longleftrightarrow> length chunk = unat n \<and> drop offset bs = chunk"
    unfolding length_drop[symmetric] by auto
  then show ?thesis unfolding count_iff here by blast
qed

lemma rest_parse:
  "decode_rest truncated invalid bs offset = Inr chunk \<longleftrightarrow>
     bytes_at bs offset (payload_bytes chunk) \<and> size_ok chunk \<and> length bs = offset + length (payload_bytes chunk)"
proof -
  have c: "\<not> unat n > length bs - (offset + 8) \<and> length (drop (offset + 8) bs) = unat n \<and> drop (offset + 8) bs = chunk \<longleftrightarrow>
    n = of_nat (length chunk) \<and> size_ok chunk \<and> bytes_at bs (offset + 8) chunk \<and> length bs = offset + 8 + length chunk"
    if "bytes_at bs offset (le_bytes 8 n)" for n :: u64
    by (rule chunk_iff) (use bytes_at_length[OF that] in simp)
  have "decode_rest truncated invalid bs offset = Inr chunk \<longleftrightarrow>
    (\<exists>n :: u64. bytes_at bs offset (le_bytes 8 n) \<and> (\<not> unat n > length bs - (offset + 8)
       \<and> length (drop (offset + 8) bs) = unat n \<and> drop (offset + 8) bs = chunk))"
    unfolding decode_rest_def u64c.then_parse by (auto simp: result_simps Let_def)
  also have "\<dots> \<longleftrightarrow> (\<exists>n :: u64. bytes_at bs offset (le_bytes 8 n) \<and> n = of_nat (length chunk) \<and> size_ok chunk
       \<and> bytes_at bs (offset + 8) chunk \<and> length bs = offset + 8 + length chunk)"
    by (simp only: c cong: conj_cong)
  finally show ?thesis by (auto simp: payload_bytes_def bytes_at_append)
qed

lemma rest_then_parse:
  "and_then (decode_rest truncated invalid bs offset) k = Inr y \<longleftrightarrow>
     (\<exists>chunk. bytes_at bs offset (payload_bytes chunk) \<and> size_ok chunk \<and> length bs = offset + length (payload_bytes chunk)
        \<and> k chunk = Inr y)"
  by (auto simp: result_simps rest_parse)

text \<open>A byte that must be 0 or 1.\<close>

definition flag :: "bool \<Rightarrow> byte" where
  "flag b = (if b then 1 else 0)"

lemma flag_parse: "\<not> 1 < b \<and> (b \<noteq> 0) = x \<longleftrightarrow> b = flag x"
  using flag_byte[of b] by (auto simp: flag_def not_less)

definition read_flag :: "string \<Rightarrow> string \<Rightarrow> byte list \<Rightarrow> nat \<Rightarrow> (bool \<times> nat) result" where
  "read_flag truncated invalid bytes offset =
     and_then (read_byte truncated bytes offset) (\<lambda>(b, offset).
     and_then (throw_if (b > 1) (Invalid_Argument invalid)) (\<lambda>_. Inr (b \<noteq> 0, offset)))"

interpretation flagc: codec "\<lambda>b. [flag b]" "read_flag truncated invalid" "\<lambda>_. True" for truncated invalid
proof
  fix bs offset b "next"
  show "read_flag truncated invalid bs offset = Inr (b, next) \<longleftrightarrow>
    bytes_at bs offset [flag b] \<and> True \<and> next = offset + length [flag b]"
    using flag_parse[of "bs ! offset" b] unfolding read_flag_def bytec.then_parse
    by (auto simp: result_simps bytes_at_single)
qed

section \<open>Messages\<close>

definition request_vote_tag :: byte where "request_vote_tag = 1"
definition request_vote_response_tag :: byte where "request_vote_response_tag = 2"
definition hard_state_tag :: byte where "hard_state_tag = 3"
definition append_entries_tag :: byte where "append_entries_tag = 4"
definition append_entries_response_tag :: byte where "append_entries_response_tag = 5"
definition log_state_tag :: byte where "log_state_tag = 6"
definition applied_state_tag :: byte where "applied_state_tag = 7"
definition install_snapshot_tag :: byte where "install_snapshot_tag = 8"
definition install_snapshot_response_tag :: byte where "install_snapshot_response_tag = 9"
definition snapshot_state_tag :: byte where "snapshot_state_tag = 10"

lemmas tag_defs = request_vote_tag_def request_vote_response_tag_def hard_state_tag_def
  append_entries_tag_def append_entries_response_tag_def log_state_tag_def applied_state_tag_def
  install_snapshot_tag_def install_snapshot_response_tag_def snapshot_state_tag_def

datatype decoded_message =
    Request_vote request_vote_request
  | Request_vote_response request_vote_response
  | Append_entries append_entries_request
  | Append_entries_response append_entries_response
  | Install_snapshot install_snapshot_request
  | Install_snapshot_response install_snapshot_response

fun encode_message :: "decoded_message \<Rightarrow> byte list" where
  "encode_message (Request_vote q) =
     (let bytes = append_u64 [request_vote_tag] (rv_term q);
          bytes = append_u64 bytes (rv_candidate q);
          bytes = append_u64 bytes (rv_last_log_index q)
      in append_u64 bytes (rv_last_log_term q))"
| "encode_message (Request_vote_response q) =
     append_u64 [request_vote_response_tag] (rvr_term q) @ [flag (rvr_granted q)]"
| "encode_message (Append_entries q) =
     (let bytes = append_u64 [append_entries_tag] (ae_term q);
          bytes = append_u64 bytes (ae_leader q);
          bytes = append_u64 bytes (ae_previous_log_index q);
          bytes = append_u64 bytes (ae_previous_log_term q);
          bytes = append_u64 bytes (ae_leader_commit q);
          bytes = encode_context bytes (ae_read_context q)
      in encode_entries bytes (ae_entries q))"
| "encode_message (Append_entries_response q) =
     (let bytes = append_u64 [append_entries_response_tag] (aer_term q) @ [flag (aer_succeeded q)];
          bytes = append_u64 bytes (aer_matched_index q)
      in encode_context bytes (aer_read_context q))"
| "encode_message (Install_snapshot q) =
     (let bytes = append_u64 [install_snapshot_tag] (is_term q);
          bytes = append_u64 bytes (is_leader q);
          bytes = append_u64 bytes (is_transfer_id q);
          bytes = encode_metadata bytes (is_metadata q);
          bytes = append_u64 bytes (is_offset q);
          bytes = append_u64 bytes (is_total_size q);
          bytes = append_u32 bytes (is_state_checksum q) @ [flag (is_done q)];
          bytes = encode_context bytes (is_read_context q);
          bytes = append_u64 bytes (of_nat (length (is_chunk q)))
      in bytes @ is_chunk q)"
| "encode_message (Install_snapshot_response q) =
     (let bytes = append_u64 [install_snapshot_response_tag] (isr_term q);
          bytes = append_u64 bytes (isr_transfer_id q) @ [flag (isr_succeeded q)];
          bytes = append_u64 bytes (isr_last_included_index q)
      in encode_context bytes (isr_read_context q))"

fun message_ok :: "decoded_message \<Rightarrow> bool" where
  "message_ok (Append_entries q) \<longleftrightarrow> context_ok (ae_read_context q) \<and> size_ok (ae_entries q) \<and> list_all entry_ok (ae_entries q)"
| "message_ok (Append_entries_response q) \<longleftrightarrow> context_ok (aer_read_context q)"
| "message_ok (Install_snapshot q) \<longleftrightarrow> metadata_ok (is_metadata q) \<and> context_ok (is_read_context q) \<and> size_ok (is_chunk q)"
| "message_ok (Install_snapshot_response q) \<longleftrightarrow> context_ok (isr_read_context q)"
| "message_ok _ \<longleftrightarrow> True"

definition decode_request_vote :: "byte list \<Rightarrow> decoded_message result" where
  "decode_request_vote bytes =
     and_then (read_u64 bytes 1) (\<lambda>(term, offset).
     and_then (read_u64 bytes offset) (\<lambda>(candidate, offset).
     and_then (read_u64 bytes offset) (\<lambda>(last_log_index, offset).
     and_then (read_u64 bytes offset) (\<lambda>(last_log_term, offset).
     Inr (Request_vote \<lparr>rv_term = term, rv_candidate = candidate,
       rv_last_log_index = last_log_index, rv_last_log_term = last_log_term\<rparr>)))))"

definition decode_request_vote_response :: "byte list \<Rightarrow> decoded_message result" where
  "decode_request_vote_response bytes =
     and_then (read_u64 bytes 1) (\<lambda>(term, offset).
     let granted = bytes ! offset in
     and_then (throw_if (granted > 1) (Invalid_Argument ''invalid RequestVote response'')) (\<lambda>_.
     Inr (Request_vote_response \<lparr>rvr_term = term, rvr_granted = (granted \<noteq> 0)\<rparr>)))"

definition decode_append_entries :: "byte list \<Rightarrow> decoded_message result" where
  "decode_append_entries bytes =
     and_then (read_u64 bytes 1) (\<lambda>(term, offset).
     and_then (read_u64 bytes offset) (\<lambda>(leader, offset).
     and_then (read_u64 bytes offset) (\<lambda>(previous_log_index, offset).
     and_then (read_u64 bytes offset) (\<lambda>(previous_log_term, offset).
     and_then (read_u64 bytes offset) (\<lambda>(leader_commit, offset).
     and_then (decode_context bytes offset) (\<lambda>(read_context, offset).
     and_then (decode_counted decode_entry 44 ''invalid AppendEntries count'' bytes offset) (\<lambda>(entries, offset).
     and_then (throw_if (offset \<noteq> length bytes) (Invalid_Argument ''trailing bytes in AppendEntries'')) (\<lambda>_.
     Inr (Append_entries \<lparr>ae_term = term, ae_leader = leader, ae_previous_log_index = previous_log_index,
       ae_previous_log_term = previous_log_term, ae_entries = entries, ae_leader_commit = leader_commit,
       ae_read_context = read_context\<rparr>)))))))))"

definition decode_append_entries_response :: "byte list \<Rightarrow> decoded_message result" where
  "decode_append_entries_response bytes =
     and_then (read_u64 bytes 1) (\<lambda>(term, offset).
     let succeeded = bytes ! offset in
     and_then (read_u64 bytes (offset + 1)) (\<lambda>(matched, offset).
     and_then (decode_context bytes offset) (\<lambda>(context, offset).
     and_then (throw_if (succeeded > 1) (Invalid_Argument ''invalid AppendEntries response'')) (\<lambda>_.
     Inr (Append_entries_response \<lparr>aer_term = term, aer_succeeded = (succeeded \<noteq> 0),
       aer_matched_index = matched, aer_read_context = context\<rparr>)))))"

definition decode_install_snapshot :: "byte list \<Rightarrow> decoded_message result" where
  "decode_install_snapshot bytes =
     and_then (read_u64 bytes 1) (\<lambda>(term, offset).
     and_then (read_u64 bytes offset) (\<lambda>(leader, offset).
     and_then (read_u64 bytes offset) (\<lambda>(transfer_id, offset).
     and_then (decode_metadata bytes offset) (\<lambda>(metadata, offset).
     and_then (read_u64 bytes offset) (\<lambda>(chunk_offset, offset).
     and_then (read_u64 bytes offset) (\<lambda>(total_size, offset).
     and_then (read_u32 bytes offset) (\<lambda>(state_checksum, offset).
     and_then (read_flag ''truncated InstallSnapshot'' ''invalid InstallSnapshot done flag'' bytes offset) (\<lambda>(done, offset).
     and_then (decode_context bytes offset) (\<lambda>(read_context, offset).
     and_then (decode_rest ''truncated InstallSnapshot chunk'' ''invalid InstallSnapshot chunk size'' bytes offset) (\<lambda>chunk.
     Inr (Install_snapshot \<lparr>is_term = term, is_leader = leader, is_transfer_id = transfer_id,
       is_metadata = metadata, is_offset = chunk_offset, is_total_size = total_size, is_chunk = chunk,
       is_state_checksum = state_checksum, is_done = done, is_read_context = read_context\<rparr>)))))))))))"

definition decode_install_snapshot_response :: "byte list \<Rightarrow> decoded_message result" where
  "decode_install_snapshot_response bytes =
     and_then (read_u64 bytes 1) (\<lambda>(term, offset).
     and_then (read_u64 bytes offset) (\<lambda>(transfer_id, offset).
     and_then (read_byte ''truncated InstallSnapshot response'' bytes offset) (\<lambda>(succeeded, offset).
     and_then (read_u64 bytes offset) (\<lambda>(last_included_index, offset).
     and_then (decode_context bytes offset) (\<lambda>(read_context, offset).
     and_then (throw_if (succeeded > 1 \<or> offset \<noteq> length bytes)
        (Invalid_Argument ''invalid InstallSnapshot response'')) (\<lambda>_.
     Inr (Install_snapshot_response \<lparr>isr_term = term, isr_transfer_id = transfer_id,
       isr_succeeded = (succeeded \<noteq> 0), isr_last_included_index = last_included_index,
       isr_read_context = read_context\<rparr>)))))))"

definition decode_message :: "byte list \<Rightarrow> decoded_message result" where
  "decode_message bytes =
     (case bytes of
        [] \<Rightarrow> Inl (Invalid_Argument ''empty Raft election message'')
      | tag # _ \<Rightarrow>
          if tag = request_vote_tag \<and> length bytes = 33 then decode_request_vote bytes
          else if tag = request_vote_response_tag \<and> length bytes = 10 then decode_request_vote_response bytes
          else if tag = append_entries_tag then decode_append_entries bytes
          else if tag = append_entries_response_tag \<and> length bytes = 27 then decode_append_entries_response bytes
          else if tag = install_snapshot_tag then decode_install_snapshot bytes
          else if tag = install_snapshot_response_tag then decode_install_snapshot_response bytes
          else Inl (Invalid_Argument ''unknown Raft election message''))"

subsection \<open>Every decoder accepts exactly the encodings\<close>

lemma encode_metadata_append: "encode_metadata bytes m = bytes @ encode_metadata [] m"
  by (simp add: encode_metadata_alt)

lemma encode_context_append: "encode_context bytes c = bytes @ encode_context [] c"
  by (simp add: encode_context_alt)

lemma length_context [simp]: "length (encode_context [] c) = 9"
  by (simp add: encode_context_alt)

lemmas append_simps = Let_def append_u64_def append_u32_def encode_entries_alt
  encode_metadata_append[of "x # xs" for x xs] encode_context_append[of "x # xs" for x xs]

lemmas message_parse = u64c.then_parse u32c.then_parse bytec.then_parse contextc.then_parse
  metadatac.then_parse entriesc.then_parse flagc.then_parse rest_then_parse

lemma whole_message: "bs = tag # body \<longleftrightarrow> bs \<noteq> [] \<and> hd bs = tag \<and> bytes_at bs 1 body \<and> length bs = Suc (length body)"
  by (cases bs) (auto simp: bytes_at_def)

lemma parse_request_vote:
  "decode_request_vote bs = Inr m \<longleftrightarrow> (\<exists>q. m = Request_vote q \<and> bytes_at bs 1 (tl (encode_message m)))"
proof -
  have "decode_request_vote bs = Inr (Request_vote q) \<longleftrightarrow> bytes_at bs 1 (tl (encode_message (Request_vote q)))" for q
    unfolding decode_request_vote_def message_parse
    by (cases q) (simp add: append_simps bytes_at_append)
  moreover have "\<exists>q. m = Request_vote q" if "decode_request_vote bs = Inr m"
    using that by (auto simp: decode_request_vote_def message_parse)
  ultimately show ?thesis by blast
qed

lemma parse_append_entries:
  "decode_append_entries bs = Inr m \<longleftrightarrow> (\<exists>q. m = Append_entries q \<and> message_ok m
     \<and> bytes_at bs 1 (tl (encode_message m)) \<and> length bs = length (encode_message m))"
proof -
  have "decode_append_entries bs = Inr (Append_entries q) \<longleftrightarrow> message_ok (Append_entries q)
     \<and> bytes_at bs 1 (tl (encode_message (Append_entries q))) \<and> length bs = length (encode_message (Append_entries q))" for q
    unfolding decode_append_entries_def message_parse
    by (cases q) (simp add: append_simps bytes_at_append result_simps, auto)
  moreover have "\<exists>q. m = Append_entries q" if "decode_append_entries bs = Inr m"
    using that by (auto simp: decode_append_entries_def message_parse result_simps)
  ultimately show ?thesis by blast
qed

lemma flag_at: "offset < length bs \<Longrightarrow> \<not> 1 < bs ! offset \<and> (bs ! offset \<noteq> 0) = x \<longleftrightarrow> bytes_at bs offset [flag x]"
  by (simp add: flag_parse bytes_at_single)

lemma parse_request_vote_response:
  assumes "length bs = 10"
  shows "decode_request_vote_response bs = Inr m \<longleftrightarrow>
    (\<exists>q. m = Request_vote_response q \<and> bytes_at bs 1 (tl (encode_message m)))"
proof -
  have "decode_request_vote_response bs = Inr (Request_vote_response q) \<longleftrightarrow>
    bytes_at bs 1 (tl (encode_message (Request_vote_response q)))" for q
    using flag_at[of 9 bs "rvr_granted q"] assms
    unfolding decode_request_vote_response_def message_parse
    by (cases q) (simp add: append_simps bytes_at_append result_simps)
  moreover have "\<exists>q. m = Request_vote_response q" if "decode_request_vote_response bs = Inr m"
    using that by (auto simp: decode_request_vote_response_def message_parse result_simps Let_def)
  ultimately show ?thesis by blast
qed

lemma parse_append_entries_response:
  assumes "length bs = 27"
  shows "decode_append_entries_response bs = Inr m \<longleftrightarrow>
    (\<exists>q. m = Append_entries_response q \<and> message_ok m \<and> bytes_at bs 1 (tl (encode_message m)))"
proof -
  have "decode_append_entries_response bs = Inr (Append_entries_response q) \<longleftrightarrow>
    message_ok (Append_entries_response q) \<and> bytes_at bs 1 (tl (encode_message (Append_entries_response q)))" for q
    using flag_at[of 9 bs "aer_succeeded q"] assms
    unfolding decode_append_entries_response_def message_parse Let_def
    by (cases q) (simp add: append_simps bytes_at_append bytes_at_Cons[of _ _ _ "_ @ _"] message_parse result_simps, auto)
  moreover have "\<exists>q. m = Append_entries_response q" if "decode_append_entries_response bs = Inr m"
    using that by (auto simp: decode_append_entries_response_def message_parse result_simps Let_def)
  ultimately show ?thesis by blast
qed

lemma parse_install_snapshot_response:
  "decode_install_snapshot_response bs = Inr m \<longleftrightarrow> (\<exists>q. m = Install_snapshot_response q \<and> message_ok m
     \<and> bytes_at bs 1 (tl (encode_message m)) \<and> length bs = length (encode_message m))"
proof -
  have "decode_install_snapshot_response bs = Inr (Install_snapshot_response q) \<longleftrightarrow> message_ok (Install_snapshot_response q)
     \<and> bytes_at bs 1 (tl (encode_message (Install_snapshot_response q)))
     \<and> length bs = length (encode_message (Install_snapshot_response q))" for q
    unfolding decode_install_snapshot_response_def message_parse
    by (cases q) (simp add: append_simps bytes_at_append bytes_at_Cons[of _ _ _ "_ @ _"] bytes_at_single result_simps,
        auto simp: flag_def flag_byte not_less)
  moreover have "\<exists>q. m = Install_snapshot_response q" if "decode_install_snapshot_response bs = Inr m"
    using that by (auto simp: decode_install_snapshot_response_def message_parse result_simps)
  ultimately show ?thesis by blast
qed

lemma parse_install_snapshot:
  "decode_install_snapshot bs = Inr m \<longleftrightarrow> (\<exists>q. m = Install_snapshot q \<and> message_ok m
     \<and> bytes_at bs 1 (tl (encode_message m)) \<and> length bs = length (encode_message m))"
proof -
  have "decode_install_snapshot bs = Inr (Install_snapshot q) \<longleftrightarrow> message_ok (Install_snapshot q)
     \<and> bytes_at bs 1 (tl (encode_message (Install_snapshot q)))
     \<and> length bs = length (encode_message (Install_snapshot q))" for q
    unfolding decode_install_snapshot_def message_parse
    by (cases q) (simp add: append_simps bytes_at_append bytes_at_Cons[of _ _ _ "_ @ _"] payload_bytes_def, auto)
  moreover have "\<exists>q. m = Install_snapshot q" if "decode_install_snapshot bs = Inr m"
    using that by (auto simp: decode_install_snapshot_def message_parse result_simps Let_def)
  ultimately show ?thesis by blast
qed

lemma encode_message_shape:
  "encode_message m = (case m of Request_vote _ \<Rightarrow> request_vote_tag | Request_vote_response _ \<Rightarrow> request_vote_response_tag
     | Append_entries _ \<Rightarrow> append_entries_tag | Append_entries_response _ \<Rightarrow> append_entries_response_tag
     | Install_snapshot _ \<Rightarrow> install_snapshot_tag | Install_snapshot_response _ \<Rightarrow> install_snapshot_response_tag)
       # tl (encode_message m)"
  by (cases m) (simp_all add: append_simps)

lemma encode_message_length:
  "length (encode_message (Request_vote q1)) = 33" "length (encode_message (Request_vote_response q2)) = 10"
  "length (encode_message (Append_entries_response q3)) = 27"
  by (simp_all add: append_simps)

lemma message_eq:
  "bs = encode_message m \<longleftrightarrow> bs \<noteq> [] \<and> hd bs = hd (encode_message m) \<and> bytes_at bs 1 (tl (encode_message m))
     \<and> length bs = length (encode_message m)"
  using whole_message[of bs "hd (encode_message m)" "tl (encode_message m)"] encode_message_shape[of m]
  by (metis length_Cons list.sel(1,3))

text \<open>
  C32.  Messages and byte strings correspond one to one: the decoder accepts a byte string
  exactly when it is the encoding of a well-formed message, and returns that message.  Nothing
  is lost on the wire, no two messages share an encoding, and no truncated, padded or otherwise
  altered byte string is taken for a message it does not encode.
\<close>

theorem decode_message_exact:
  "decode_message bs = Inr m \<longleftrightarrow> message_ok m \<and> bs = encode_message m"
proof (cases bs)
  case Nil
  then show ?thesis using encode_message_shape[of m] by (auto simp: decode_message_def)
next
  case (Cons tag rest)
  then have bs: "bs \<noteq> []" "hd bs = tag" by simp_all
  have shape: "hd (encode_message m) = (case m of Request_vote _ \<Rightarrow> request_vote_tag
     | Request_vote_response _ \<Rightarrow> request_vote_response_tag | Append_entries _ \<Rightarrow> append_entries_tag
     | Append_entries_response _ \<Rightarrow> append_entries_response_tag | Install_snapshot _ \<Rightarrow> install_snapshot_tag
     | Install_snapshot_response _ \<Rightarrow> install_snapshot_response_tag)"
    using encode_message_shape[of m] by (metis list.sel(1))
  have "decode_message bs =
      (if tag = request_vote_tag \<and> length bs = 33 then decode_request_vote bs
       else if tag = request_vote_response_tag \<and> length bs = 10 then decode_request_vote_response bs
       else if tag = append_entries_tag then decode_append_entries bs
       else if tag = append_entries_response_tag \<and> length bs = 27 then decode_append_entries_response bs
       else if tag = install_snapshot_tag then decode_install_snapshot bs
       else if tag = install_snapshot_response_tag then decode_install_snapshot_response bs
       else Inl (Invalid_Argument ''unknown Raft election message''))"
    by (simp only: decode_message_def Cons list.case)
  then show ?thesis
    unfolding message_eq[of bs m] shape bs(2)
    using bs(1) encode_message_length
    by (cases m) (auto simp: parse_request_vote parse_request_vote_response parse_append_entries
        parse_append_entries_response parse_install_snapshot parse_install_snapshot_response tag_defs
        simp del: encode_message.simps)
qed

section \<open>Durable records of a simulated node\<close>

definition encode_snapshot_state :: "raft_snapshot \<Rightarrow> byte list" where
  "encode_snapshot_state value =
     (let bytes = encode_metadata [snapshot_state_tag] (rs_metadata value);
          bytes = append_u32 bytes (crc32c (rs_state value));
          bytes = append_u64 bytes (of_nat (length (rs_state value)))
      in bytes @ rs_state value)"

definition decode_snapshot_state :: "byte list \<Rightarrow> raft_snapshot result" where
  "decode_snapshot_state bytes =
     and_then (throw_if (bytes = [] \<or> hd bytes \<noteq> snapshot_state_tag)
        (Invalid_Argument ''invalid simulated Raft snapshot'')) (\<lambda>_.
     and_then (decode_metadata bytes 1) (\<lambda>(metadata, offset).
     and_then (read_u32 bytes offset) (\<lambda>(checksum, offset).
     and_then (decode_rest ''truncated simulated Raft snapshot'' ''corrupt simulated Raft snapshot'' bytes offset) (\<lambda>state.
     and_then (throw_if (crc32c state \<noteq> checksum) (Invalid_Argument ''corrupt simulated Raft snapshot'')) (\<lambda>_.
     Inr \<lparr>rs_metadata = metadata, rs_state = state, rs_checksum = checksum\<rparr>)))))"

definition encode_hard_state :: "raft_hard_state \<Rightarrow> byte list" where
  "encode_hard_state s =
     append_u64 (append_u64 [hard_state_tag] (hs_current_term s) @ [flag (hs_voted_for s \<noteq> None)])
       (case hs_voted_for s of Some v \<Rightarrow> v | None \<Rightarrow> 0)"

definition decode_hard_state :: "byte list \<Rightarrow> raft_hard_state result" where
  "decode_hard_state bytes =
     and_then (throw_if (length bytes \<noteq> 18 \<or> hd bytes \<noteq> hard_state_tag)
        (Invalid_Argument ''invalid simulated Raft hard state'')) (\<lambda>_.
     and_then (read_u64 bytes 1) (\<lambda>(current_term, offset).
     let has_vote = bytes ! offset in
     and_then (read_u64 bytes (offset + 1)) (\<lambda>(vote, offset).
     and_then (throw_if (has_vote > 1 \<or> has_vote = 0 \<and> vote \<noteq> 0 \<or> has_vote \<noteq> 0 \<and> vote = 0)
        (Invalid_Argument ''invalid simulated Raft vote'')) (\<lambda>_.
     Inr \<lparr>hs_current_term = current_term, hs_voted_for = (if has_vote \<noteq> 0 then Some vote else None)\<rparr>))))"

definition encode_log :: "log_entry list \<Rightarrow> byte list" where
  "encode_log log = encode_entries [log_state_tag] log"

definition decode_log :: "byte list \<Rightarrow> log_entry list result" where
  "decode_log bytes =
     and_then (throw_if (bytes = [] \<or> hd bytes \<noteq> log_state_tag)
        (Invalid_Argument ''invalid simulated Raft log'')) (\<lambda>_.
     and_then (decode_counted decode_entry 44 ''invalid simulated Raft log count'' bytes 1) (\<lambda>(log, offset).
     and_then (throw_if (offset \<noteq> length bytes) (Invalid_Argument ''trailing bytes in simulated Raft log'')) (\<lambda>_.
     Inr log)))"

definition encode_applied :: "log_index \<Rightarrow> byte list" where
  "encode_applied index = append_u64 [applied_state_tag] index"

definition decode_applied :: "byte list \<Rightarrow> log_index result" where
  "decode_applied bytes =
     and_then (throw_if (length bytes \<noteq> 9 \<or> hd bytes \<noteq> applied_state_tag)
        (Invalid_Argument ''invalid simulated applied state'')) (\<lambda>_.
     and_then (read_u64 bytes 1) (\<lambda>(index, offset).
     and_then (throw_if (index = 0) (Invalid_Argument ''simulated applied index must be nonzero'')) (\<lambda>_.
     Inr index)))"

lemma decode_snapshot_state_iff:
  "decode_snapshot_state bs = Inr s \<longleftrightarrow>
     metadata_ok (rs_metadata s) \<and> size_ok (rs_state s) \<and> rs_checksum s = crc32c (rs_state s) \<and> bs = encode_snapshot_state s"
proof -
  have enc: "encode_snapshot_state s = snapshot_state_tag # encode_metadata [] (rs_metadata s)
      @ le_bytes 4 (crc32c (rs_state s)) @ payload_bytes (rs_state s)"
    by (simp add: encode_snapshot_state_def append_simps payload_bytes_def)
  show ?thesis
    unfolding enc whole_message decode_snapshot_state_def and_then_eq_Inr[of "throw_if _ _"] throw_if_eq_Inr message_parse
    by (cases s) (simp add: bytes_at_append, auto)
qed

lemma decode_hard_state_iff:
  "decode_hard_state bs = Inr s \<longleftrightarrow> hs_voted_for s \<noteq> Some 0 \<and> bs = encode_hard_state s"
proof -
  have enc: "encode_hard_state s = hard_state_tag # le_bytes 8 (hs_current_term s) @ [flag (hs_voted_for s \<noteq> None)]
      @ le_bytes 8 (case hs_voted_for s of Some v \<Rightarrow> v | None \<Rightarrow> 0)"
    by (simp add: encode_hard_state_def append_simps)
  show ?thesis
    unfolding enc whole_message decode_hard_state_def and_then_eq_Inr[of "throw_if _ _"] throw_if_eq_Inr message_parse Let_def
    by (cases s; cases "hs_voted_for s")
      (simp_all add: bytes_at_append bytes_at_Cons[of _ _ _ "le_bytes _ _"] bytes_at_single,
        auto simp: flag_def flag_byte not_less)
qed

lemma decode_log_iff:
  "decode_log bs = Inr log \<longleftrightarrow> size_ok log \<and> list_all entry_ok log \<and> bs = encode_log log"
proof -
  have enc: "encode_log log = log_state_tag # counted_bytes (encode_entry []) log"
    by (simp add: encode_log_def encode_entries_alt)
  show ?thesis
    unfolding enc whole_message decode_log_def and_then_eq_Inr[of "throw_if _ _"] throw_if_eq_Inr message_parse
    by auto
qed

lemma decode_applied_iff: "decode_applied bs = Inr index \<longleftrightarrow> index \<noteq> 0 \<and> bs = encode_applied index"
proof -
  have enc: "encode_applied index = applied_state_tag # le_bytes 8 index" by (simp add: encode_applied_def append_u64_def)
  show ?thesis
    unfolding enc whole_message decode_applied_def and_then_eq_Inr[of "throw_if _ _"] throw_if_eq_Inr message_parse
    by auto
qed

end
