(* ===== verification/Effects.thy ===== *)
theory Effects
  imports Store_Types
begin

text \<open>
  Computations that change a state and may throw: the member functions of the classes whose
  objects keep the changes made before an exception was thrown.  The storage components use
  them over the disk, the election core over its own fields.
\<close>

type_synonym ('s, 'a) io = "'s \<Rightarrow> 'a result \<times> 's"

definition io_return :: "'a \<Rightarrow> ('s, 'a) io" where
  "io_return x s = (Inr x, s)"

definition io_throw :: "exn \<Rightarrow> ('s, 'a) io" where
  "io_throw e s = (Inl e, s)"

definition io_modify :: "('s \<Rightarrow> 's) \<Rightarrow> ('s, unit) io" where
  "io_modify f s = (Inr (), f s)"

definition io_then :: "('s, 'a) io \<Rightarrow> ('a \<Rightarrow> ('s, 'b) io) \<Rightarrow> ('s, 'b) io" where
  "io_then m k s = (case m s of (Inl e, s') \<Rightarrow> (Inl e, s') | (Inr x, s') \<Rightarrow> k x s')"

definition io_throw_if :: "bool \<Rightarrow> exn \<Rightarrow> ('s, unit) io" where
  "io_throw_if b e = (if b then io_throw e else io_return ())"

text \<open>A catch block that runs a handler and throws again.\<close>

definition io_on_exception :: "('s, 'a) io \<Rightarrow> ('s \<Rightarrow> 's) \<Rightarrow> ('s, 'a) io" where
  "io_on_exception m handler s = (case m s of (Inl e, s') \<Rightarrow> (Inl e, handler s') | (Inr x, s') \<Rightarrow> (Inr x, s'))"

fun io_for :: "'a list \<Rightarrow> ('a \<Rightarrow> ('s, unit) io) \<Rightarrow> ('s, unit) io" where
  "io_for [] body = io_return ()"
| "io_for (x # xs) body = io_then (body x) (\<lambda>_. io_for xs body)"

lemma io_simps [simp]:
  "io_then (io_return x) k = k x" "io_then (io_throw e) k = io_throw e"
  "io_return x s = (Inr x, s)" "io_throw e s = (Inl e, s)" "io_modify f s = (Inr (), f s)"
  by (simp_all add: fun_eq_iff io_then_def io_return_def io_throw_def io_modify_def)

lemma io_throw_if_simps [simp]:
  "io_throw_if True e = io_throw e" "io_throw_if False e = io_return ()"
  by (simp_all add: io_throw_if_def)

lemma io_then_Inr: "m s = (Inr x, s') \<Longrightarrow> io_then m k s = k x s'"
  by (simp add: io_then_def)

lemma io_then_Inl: "m s = (Inl e, s') \<Longrightarrow> io_then m k s = (Inl e, s')"
  by (simp add: io_then_def)

lemma io_then_modify [simp]: "io_then (io_modify f) k s = k () (f s)"
  by (simp add: io_then_def)

text \<open>A range-for loop that carries a local value.\<close>

fun io_fold :: "('x \<Rightarrow> 'a \<Rightarrow> ('s, 'a) io) \<Rightarrow> 'x list \<Rightarrow> 'a \<Rightarrow> ('s, 'a) io" where
  "io_fold body [] a = io_return a"
| "io_fold body (x # xs) a = io_then (body x a) (io_fold body xs)"

definition io_lift :: "('s \<Rightarrow> 'a result) \<Rightarrow> ('s, 'a) io" where
  "io_lift f s = (f s, s)"

lemma io_lift_simps: "f s = Inl e \<Longrightarrow> io_then (io_lift f) k s = (Inl e, s)" "f s = Inr x \<Longrightarrow> io_then (io_lift f) k s = k x s"
  by (simp_all add: io_then_def io_lift_def)

text \<open>
  An invariant of a loop: \<open>P\<close> holds of the carried value and the state before every iteration,
  \<open>Q\<close> of the state in which an iteration throws.
\<close>

lemma io_fold_invariant:
  assumes "io_fold body xs a s = (r, s')" "P a s"
    and "\<And>x a s r s'. x \<in> set xs \<Longrightarrow> P a s \<Longrightarrow> body x a s = (r, s') \<Longrightarrow> (case r of Inl e \<Rightarrow> Q s' | Inr b \<Rightarrow> P b s')"
  shows "case r of Inl e \<Rightarrow> Q s' | Inr b \<Rightarrow> P b s'"
  using assms
proof (induction xs arbitrary: a s)
  case (Cons x xs)
  obtain r1 s1 where run: "body x a s = (r1, s1)" by (cases "body x a s")
  have one: "case r1 of Inl e \<Rightarrow> Q s1 | Inr b \<Rightarrow> P b s1" using Cons.prems(3)[OF _ Cons.prems(2) run] by simp
  show ?case
  proof (cases r1)
    case (Inl e)
    then show ?thesis using Cons.prems(1) run one by (auto simp: io_then_def)
  next
    case (Inr b)
    then have "io_fold body xs b s1 = (r, s')" "P b s1" using Cons.prems(1) run one by (simp_all add: io_then_def)
    then show ?thesis using Cons.IH Cons.prems(3) by (meson list.set_intros(2))
  qed
qed auto

lemma io_thenE:
  assumes "io_then m k s = (r, s')"
  obtains e where "m s = (Inl e, s')" "r = Inl e" | x s1 where "m s = (Inr x, s1)" "k x s1 = (r, s')"
  using assms by (auto simp: io_then_def split: prod.splits sum.splits)

end
