(* ===== verification/Files.thy ===== *)
theory Files
  imports Byte_Codec Effects "HOL-Library.Char_ord"
begin

text \<open>
  The file layer below the durable components: one directory as an ordered map from file names
  to contents, and the operations of the class \<open>DurableFile\<close> and the functions around it
  (\<^verbatim>\<open>src/src/durable_storage.cpp\<close> and \<^verbatim>\<open>src/src/raft_hard_state_store.cpp\<close>) on it, in their
  POSIX branches.

  Every call into the operating system can fail.  Which ones do is decided by a fault oracle:
  the disk counts the calls, a write counts once per byte, and call number \<open>k\<close> fails exactly
  when \<open>F k\<close> holds.  Quantifying over \<open>F\<close> therefore covers every pattern of failures, including
  a write that stops after any number of bytes.  A process that stops is a run in which all
  calls from some point on fail.
\<close>

section \<open>The disk\<close>

type_synonym faults = "nat \<Rightarrow> bool"

record disk =
  dk_files :: "(string, byte list) omap"
  dk_calls :: nat

definition io_error :: exn where
  "io_error = Storage_Error ''operating system error''"

definition set_files :: "(string, byte list) omap \<Rightarrow> disk \<Rightarrow> disk" where
  "set_files fs d = d\<lparr>dk_files := fs\<rparr>"

text \<open>One call: it fails if the oracle says so, and is counted.\<close>

definition system_call :: "faults \<Rightarrow> (disk, unit) io" where
  "system_call F d = (if F (dk_calls d) then Inl io_error else Inr (), d\<lparr>dk_calls := dk_calls d + 1\<rparr>)"

definition create_new :: "faults \<Rightarrow> string \<Rightarrow> (disk, unit) io" where
  "create_new F name = io_then (system_call F) (\<lambda>_ d.
     if omap_has (dk_files d) name then (Inl io_error, d)
     else (Inr (), set_files (omap_put name [] (dk_files d)) d))"

text \<open>Opening an existing file, to read it or to append to it.\<close>

definition open_existing :: "faults \<Rightarrow> string \<Rightarrow> (disk, unit) io" where
  "open_existing F name = io_then (system_call F) (\<lambda>_ d.
     if omap_has (dk_files d) name then (Inr (), d) else (Inl io_error, d))"

definition contents :: "string \<Rightarrow> disk \<Rightarrow> byte list" where
  "contents name d = (case omap_find (dk_files d) name of Some bs \<Rightarrow> bs | None \<Rightarrow> [])"

definition write_byte :: "faults \<Rightarrow> string \<Rightarrow> byte \<Rightarrow> (disk, unit) io" where
  "write_byte F name b = io_then (system_call F) (\<lambda>_.
     io_modify (\<lambda>d. set_files (omap_put name (contents name d @ [b]) (dk_files d)) d))"

definition write_all :: "faults \<Rightarrow> string \<Rightarrow> byte list \<Rightarrow> (disk, unit) io" where
  "write_all F name bytes = io_for bytes (write_byte F name)"

definition synchronize :: "faults \<Rightarrow> (disk, unit) io" where
  "synchronize F = system_call F"

definition close_file :: "faults \<Rightarrow> (disk, unit) io" where
  "close_file F = system_call F"

definition truncate_file :: "faults \<Rightarrow> string \<Rightarrow> nat \<Rightarrow> (disk, unit) io" where
  "truncate_file F name len = io_then (system_call F) (\<lambda>_.
     io_modify (\<lambda>d. set_files (omap_put name (take len (contents name d)) (dk_files d)) d))"

definition read_file :: "faults \<Rightarrow> string \<Rightarrow> nat \<Rightarrow> (disk, byte list) io" where
  "read_file F name maximum = io_then (open_existing F name) (\<lambda>_.
     io_then (system_call F) (\<lambda>_ d.
     if length (contents name d) > maximum
     then (Inl (Storage_Error (''file exceeds configured size limit: '' @ name)), d)
     else io_then (system_call F) (\<lambda>_ d. (Inr (contents name d), d)) d))"

text \<open>Publication without replacement: a second link to the file, then removal of the first.\<close>

definition rename_no_replace :: "faults \<Rightarrow> string \<Rightarrow> string \<Rightarrow> (disk, unit) io" where
  "rename_no_replace F temporary final = io_then (system_call F) (\<lambda>_ d.
     if omap_has (dk_files d) final then (Inl io_error, d)
     else io_then (system_call F) (\<lambda>_. io_modify (\<lambda>d. set_files (omap_drop temporary (dk_files d)) d))
       (set_files (omap_put final (contents temporary d) (dk_files d)) d))"

definition replace_atomically :: "faults \<Rightarrow> string \<Rightarrow> string \<Rightarrow> (disk, unit) io" where
  "replace_atomically F temporary final = io_then (system_call F) (\<lambda>_.
     io_modify (\<lambda>d. set_files (omap_put final (contents temporary d) (omap_drop temporary (dk_files d))) d))"

definition remove_file :: "faults \<Rightarrow> string \<Rightarrow> (disk, unit) io" where
  "remove_file F name = io_then (system_call F) (\<lambda>_ d.
     if omap_has (dk_files d) name then (Inr (), set_files (omap_drop name (dk_files d)) d)
     else (Inl (Storage_Error (''remove '' @ name @ '': file was not present'')), d))"

text \<open>A removal whose error is ignored.\<close>

definition remove_ignored :: "faults \<Rightarrow> string \<Rightarrow> disk \<Rightarrow> disk" where
  "remove_ignored F name d = snd (remove_file F name d)"

definition synchronize_directory_best_effort :: "faults \<Rightarrow> (disk, unit) io" where
  "synchronize_directory_best_effort F = system_call F"

section \<open>What each call can do\<close>

lemma system_call_cases:
  obtains (ok) "system_call F d = (Inr (), d\<lparr>dk_calls := dk_calls d + 1\<rparr>)"
    | (fault) "system_call F d = (Inl io_error, d\<lparr>dk_calls := dk_calls d + 1\<rparr>)" "F (dk_calls d)"
  by (cases "F (dk_calls d)") (auto simp: system_call_def)

lemma system_call_files [simp]: "dk_files (snd (system_call F d)) = dk_files d"
  by (simp add: system_call_def)

text \<open>Without faults every call succeeds.\<close>

abbreviation no_faults :: faults where
  "no_faults \<equiv> \<lambda>_. False"

lemma system_call_no_faults [simp]: "system_call no_faults d = (Inr (), d\<lparr>dk_calls := dk_calls d + 1\<rparr>)"
  by (simp add: system_call_def)

lemma set_files_simps [simp]:
  "dk_files (set_files fs d) = fs" "dk_calls (set_files fs d) = dk_calls d"
  "set_files fs (set_files gs d) = set_files fs d"
  by (simp_all add: set_files_def)

lemma contents_files: "dk_files d = dk_files d' \<Longrightarrow> contents name d = contents name d'"
  by (simp add: contents_def)

lemma contents_calls [simp]: "contents name (d\<lparr>dk_calls := n\<rparr>) = contents name d"
  by (simp add: contents_def)

lemma contents_put [simp]:
  "contents name (set_files (omap_put name' bs fs) d) = (if name = name' then bs else contents name (set_files fs d))"
  by (simp add: contents_def)

text \<open>A write leaves a prefix of the bytes behind the old contents, all of them when it succeeds.\<close>

lemma omap_put_same: "omap_find m k = Some v \<Longrightarrow> omap_put k v m = m"
  by (rule om.ext_finds) simp

lemma write_all_prefix:
  assumes "omap_find (dk_files d) name = Some bs" "write_all F name bytes d = (r, d')"
  obtains k where "k \<le> length bytes" "dk_files d' = omap_put name (bs @ take k bytes) (dk_files d)"
    "r = Inr () \<and> k = length bytes \<or> r = Inl io_error"
  using assms
proof (induction bytes arbitrary: d bs thesis)
  case Nil
  then show ?case using omap_put_same[of "dk_files d"] by (simp add: write_all_def)
next
  case (Cons b bytes)
  show ?case
  proof (cases rule: system_call_cases[of F d])
    case ok
    let ?d = "set_files (omap_put name (bs @ [b]) (dk_files d)) (d\<lparr>dk_calls := dk_calls d + 1\<rparr>)"
    have step: "write_byte F name b d = (Inr (), ?d)"
      using ok Cons.prems(2) by (simp add: write_byte_def io_then_def contents_def set_files_def)
    then have "write_all F name bytes ?d = (r, d')"
      using Cons.prems(3) by (simp add: write_all_def io_then_def)
    moreover have "omap_find (dk_files ?d) name = Some (bs @ [b])" by simp
    ultimately obtain k where k: "k \<le> length bytes"
      "dk_files d' = omap_put name ((bs @ [b]) @ take k bytes) (dk_files ?d)"
      "r = Inr () \<and> k = length bytes \<or> r = Inl io_error"
      using Cons.IH by metis
    moreover have "omap_put name v (omap_put name w m) = omap_put name v m" for v w and m :: "(string, byte list) omap"
      by (rule om.ext_finds) simp
    ultimately show ?thesis using Cons.prems(1)[of "Suc k"] by simp
  next
    case fault
    then have "r = Inl io_error" "dk_files d' = dk_files d"
      using Cons.prems(3) by (auto simp: write_all_def write_byte_def io_then_def)
    then show ?thesis using Cons.prems(1)[of 0] omap_put_same[OF Cons.prems(2)] by simp
  qed
qed

lemma write_all_no_faults:
  assumes "omap_find (dk_files d) name = Some bs"
  obtains d' where "write_all no_faults name bytes d = (Inr (), d')"
    "dk_files d' = omap_put name (bs @ bytes) (dk_files d)"
  using assms
proof (induction bytes arbitrary: d bs thesis)
  case Nil
  then show ?case using omap_put_same[of "dk_files d"] by (simp add: write_all_def)
next
  case (Cons b bytes)
  let ?d = "set_files (omap_put name (bs @ [b]) (dk_files d)) (d\<lparr>dk_calls := dk_calls d + 1\<rparr>)"
  have step: "write_byte no_faults name b d = (Inr (), ?d)"
    using Cons.prems(2) by (simp add: write_byte_def io_then_def contents_def set_files_def)
  have "omap_find (dk_files ?d) name = Some (bs @ [b])" by simp
  then obtain d' where d': "write_all no_faults name bytes ?d = (Inr (), d')"
    "dk_files d' = omap_put name ((bs @ [b]) @ bytes) (dk_files ?d)"
    using Cons.IH by metis
  moreover have "omap_put name v (omap_put name w m) = omap_put name v m" for v w and m :: "(string, byte list) omap"
    by (rule om.ext_finds) simp
  ultimately show ?case using Cons.prems(1)[of d'] step by (simp add: write_all_def io_then_def)
qed

section \<open>Publication of a whole file\<close>

text \<open>
  The sequence by which a complete file gets its final name: create a temporary file, write,
  synchronize and close it, move it to its final name and synchronize the directory.  The flag
  of the state is the local \<open>temporary_exists\<close>; \<open>reached\<close> is called at the six boundaries between
  the steps (the fault hook of the hard-state store, and nothing in the other callers).
\<close>

definition on_disk :: "(disk, 'a) io \<Rightarrow> (disk \<times> bool, 'a) io" where
  "on_disk m p = (case m (fst p) of (r, d) \<Rightarrow> (r, (d, snd p)))"

definition set_temporary :: "bool \<Rightarrow> (disk \<times> bool, unit) io" where
  "set_temporary b = io_modify (\<lambda>p. (fst p, b))"

lemma set_temporary_then: "io_then (set_temporary b) k p = k () (fst p, b)"
  by (simp add: set_temporary_def)

definition publish_file ::
    "faults \<Rightarrow> (nat \<Rightarrow> (disk, unit) io) \<Rightarrow> (disk, unit) io \<Rightarrow> string \<Rightarrow> byte list \<Rightarrow> (disk \<times> bool, unit) io" where
  "publish_file F reached rename temporary bytes =
     io_then (on_disk (create_new F temporary)) (\<lambda>_.
     io_then (set_temporary True) (\<lambda>_.
     io_then (on_disk (reached 0)) (\<lambda>_.
     io_then (on_disk (write_all F temporary bytes)) (\<lambda>_.
     io_then (on_disk (reached 1)) (\<lambda>_.
     io_then (on_disk (synchronize F)) (\<lambda>_.
     io_then (on_disk (reached 2)) (\<lambda>_.
     io_then (on_disk (close_file F)) (\<lambda>_.
     io_then (on_disk (reached 3)) (\<lambda>_.
     io_then (on_disk rename) (\<lambda>_.
     io_then (set_temporary False) (\<lambda>_.
     io_then (on_disk (reached 4)) (\<lambda>_.
     io_then (on_disk (synchronize_directory_best_effort F)) (\<lambda>_.
     on_disk (reached 5))))))))))))))"

text \<open>The catch block: remove the temporary file if it exists, and throw again.\<close>

definition with_cleanup :: "faults \<Rightarrow> string \<Rightarrow> (disk \<times> bool, 'a) io \<Rightarrow> (disk, 'a) io" where
  "with_cleanup F temporary m d = (case m (d, False) of
       (Inl e, d', exists) \<Rightarrow> (Inl e, if exists then remove_ignored F temporary d' else d')
     | (Inr x, d', exists) \<Rightarrow> (Inr x, d'))"

text \<open>A step that changes no file: it may fail, and only counts calls.\<close>

definition quiet :: "(disk, unit) io \<Rightarrow> bool" where
  "quiet m \<longleftrightarrow> (\<forall>d. dk_files (snd (m d)) = dk_files d)"

lemma quiet_system_call [simp]: "quiet (system_call F)" "quiet (synchronize F)" "quiet (close_file F)"
  "quiet (synchronize_directory_best_effort F)" "quiet (io_return ())" "quiet (io_throw e)"
  by (simp_all add: quiet_def synchronize_def close_file_def synchronize_directory_best_effort_def)

lemma quiet_cases:
  assumes "quiet m"
  obtains (ok) d' where "on_disk m (d, b) = (Inr (), (d', b))" "dk_files d' = dk_files d"
    | (fault) d' e where "on_disk m (d, b) = (Inl e, (d', b))" "dk_files d' = dk_files d"
proof (cases "m d")
  case (Pair r d')
  then have "dk_files d' = dk_files d" using assms unfolding quiet_def by (metis snd_conv)
  then show ?thesis using Pair that by (cases r) (auto simp: on_disk_def)
qed

lemma quiet_then:
  assumes "quiet m" "\<And>d'. dk_files d' = dk_files d \<Longrightarrow> P (k () (d', b))"
    "\<And>d' e. dk_files d' = dk_files d \<Longrightarrow> P (Inl e, (d', b))"
  shows "P (io_then (on_disk m) k (d, b))"
  by (rule quiet_cases[OF assms(1), of d b]) (auto simp: io_then_Inr io_then_Inl assms(2,3))

lemma remove_ignored_files: "dk_files (remove_ignored F name d) \<in> {dk_files d, omap_drop name (dk_files d)}"
  by (simp add: remove_ignored_def remove_file_def io_then_def system_call_def)

text \<open>
  The outcome of a publication from the files \<open>fs\<close>: nothing happened; the temporary file holds a
  prefix of the bytes; both names hold all bytes; or only the final name does.  Success is the
  last case.
\<close>

definition published :: "string \<Rightarrow> string \<Rightarrow> byte list \<Rightarrow> (string, byte list) omap \<Rightarrow> unit result \<times> disk \<times> bool \<Rightarrow> bool" where
  "published temporary final bytes fs out = (case out of (r, d, flag) \<Rightarrow>
     r \<noteq> Inr () \<and> \<not> flag \<and> dk_files d = fs
   \<or> r \<noteq> Inr () \<and> flag \<and> \<not> omap_has fs temporary \<and> (\<exists>k. dk_files d = omap_put temporary (take k bytes) fs)
   \<or> r \<noteq> Inr () \<and> flag \<and> \<not> omap_has fs temporary \<and> dk_files d = omap_put temporary bytes (omap_put final bytes fs)
   \<or> \<not> flag \<and> \<not> omap_has fs temporary \<and> dk_files d = omap_put final bytes fs)"

text \<open>What a publication relies on: the move is complete, was not started, or left both names.\<close>

definition moves :: "string \<Rightarrow> string \<Rightarrow> byte list \<Rightarrow> (string, byte list) omap \<Rightarrow> (disk, unit) io \<Rightarrow> bool" where
  "moves temporary final bytes fs rename \<longleftrightarrow> (\<forall>d. dk_files d = omap_put temporary bytes fs \<longrightarrow>
     (case rename d of (Inr _, d') \<Rightarrow> dk_files d' = omap_put final bytes fs
      | (Inl _, d') \<Rightarrow> dk_files d' = omap_put temporary bytes fs
          \<or> dk_files d' = omap_put temporary bytes (omap_put final bytes fs)))"

lemma omap_put_commute: "k \<noteq> k' \<Longrightarrow> omap_put k v (omap_put k' v' m) = omap_put k' v' (omap_put k v m)"
  by (rule om.ext_finds) simp

lemma omap_drop_put_new: "\<not> omap_has m k \<Longrightarrow> omap_drop k (omap_put k v m) = m"
  by (rule om.ext_finds) (auto simp: omap_has_def)

lemma replace_moves:
  assumes "\<not> omap_has fs temporary" "temporary \<noteq> final"
  shows "moves temporary final bytes fs (replace_atomically F temporary final)"
  unfolding moves_def
proof (intro allI impI)
  fix d :: disk
  assume d: "dk_files d = omap_put temporary bytes fs"
  show "case replace_atomically F temporary final d of (Inr _, d') \<Rightarrow> dk_files d' = omap_put final bytes fs
      | (Inl _, d') \<Rightarrow> dk_files d' = omap_put temporary bytes fs
          \<or> dk_files d' = omap_put temporary bytes (omap_put final bytes fs)"
    by (rule system_call_cases[of F d])
      (simp_all add: replace_atomically_def io_then_def d contents_def omap_drop_put_new[OF assms(1)])
qed

lemma rename_moves:
  assumes "\<not> omap_has fs temporary" "temporary \<noteq> final"
  shows "moves temporary final bytes fs (rename_no_replace F temporary final)"
  unfolding moves_def
proof (intro allI impI)
  fix d :: disk
  assume d: "dk_files d = omap_put temporary bytes fs"
  let ?d1 = "d\<lparr>dk_calls := dk_calls d + 1\<rparr>"
  let ?d2 = "set_files (omap_put final bytes (dk_files d)) ?d1"
  have both: "omap_put final bytes (dk_files d) = omap_put temporary bytes (omap_put final bytes fs)"
    using assms(2) by (simp add: d omap_put_commute)
  have drop: "omap_drop temporary (omap_put final bytes (dk_files d)) = omap_put final bytes fs"
    unfolding both using assms by (simp add: omap_drop_put_new)
  show "case rename_no_replace F temporary final d of (Inr _, d') \<Rightarrow> dk_files d' = omap_put final bytes fs
      | (Inl _, d') \<Rightarrow> dk_files d' = omap_put temporary bytes fs
          \<or> dk_files d' = omap_put temporary bytes (omap_put final bytes fs)"
    by (rule system_call_cases[of F d]; rule system_call_cases[of F ?d2])
      (simp_all add: rename_no_replace_def io_then_def d[symmetric] contents_def[of temporary] drop,
        auto simp: d both[unfolded d] omap_drop_put_new assms)
qed

lemma publish_file_outcome:
  assumes reached: "\<And>n. quiet (reached n)"
    and moves: "\<not> omap_has fs temporary \<Longrightarrow> moves temporary final bytes fs rename" and d: "dk_files d = fs"
  shows "published temporary final bytes fs (publish_file F reached rename temporary bytes (d, False))"
proof (cases "create_new F temporary d")
  case (Pair r d1)
  let ?P = "published temporary final bytes fs"
  show ?thesis
  proof (cases r)
    case (Inl e)
    then have "dk_files d1 = fs"
      using Pair d by (auto simp: create_new_def io_then_def system_call_def split: if_splits)
    then show ?thesis
      using Pair Inl by (simp add: publish_file_def io_then_def on_disk_def published_def)
  next
    case (Inr u)
    then have new: "\<not> omap_has fs temporary" and d1: "dk_files d1 = omap_put temporary [] fs"
      using Pair d by (auto simp: create_new_def io_then_def system_call_def split: if_splits)
    have prefix: "?P (Inl e, (d', True))" if "dk_files d' = omap_put temporary (take k bytes) fs" for e d' k
      using that new by (auto simp: published_def)
    have final: "?P (x, (d', False))" if "dk_files d' = omap_put final bytes fs" for x d'
      using that new by (auto simp: published_def)
    have last: "?P (on_disk (reached 5) (d', False))" if "dk_files d' = omap_put final bytes fs" for d'
      by (rule quiet_cases[OF reached[of 5], of d' False]) (simp_all add: final that)
    have tail: "?P (io_then (on_disk (reached 4)) (\<lambda>_. io_then (on_disk (synchronize_directory_best_effort F))
        (\<lambda>_. on_disk (reached 5))) (d', False))" if "dk_files d' = omap_put final bytes fs" for d'
      by (intro quiet_then[where P = ?P] reached quiet_system_call last final) (simp_all add: that)
    have move: "?P (io_then (on_disk rename) (\<lambda>_. io_then (set_temporary False) (\<lambda>_.
        io_then (on_disk (reached 4)) (\<lambda>_. io_then (on_disk (synchronize_directory_best_effort F))
        (\<lambda>_. on_disk (reached 5))))) (d', True))" if d': "dk_files d' = omap_put temporary bytes fs" for d'
    proof (cases "rename d'")
      case (Pair r d'')
      have m: "case (r, d'') of (Inr _, d') \<Rightarrow> dk_files d' = omap_put final bytes fs
        | (Inl _, d') \<Rightarrow> dk_files d' = omap_put temporary bytes fs
          \<or> dk_files d' = omap_put temporary bytes (omap_put final bytes fs)"
        using moves[OF new, unfolded moves_def, rule_format, OF d'] by (simp only: Pair)
      have "on_disk rename (d', True) = (r, (d'', True))" using Pair by (simp add: on_disk_def)
      then show ?thesis
        using prefix[of d'' "length bytes"] new tail m
        by (cases r) (auto simp: io_then_Inr io_then_Inl set_temporary_def published_def)
    qed
    have written: "?P (io_then (on_disk (reached 1)) (\<lambda>_. io_then (on_disk (synchronize F)) (\<lambda>_.
        io_then (on_disk (reached 2)) (\<lambda>_. io_then (on_disk (close_file F)) (\<lambda>_. io_then (on_disk (reached 3)) (\<lambda>_.
        io_then (on_disk rename) (\<lambda>_. io_then (set_temporary False) (\<lambda>_.
        io_then (on_disk (reached 4)) (\<lambda>_. io_then (on_disk (synchronize_directory_best_effort F))
        (\<lambda>_. on_disk (reached 5)))))))))) (d', True))" if "dk_files d' = omap_put temporary bytes fs" for d'
      by (intro quiet_then[where P = ?P] reached quiet_system_call move prefix[of _ "length bytes"]) (simp_all add: that)
    have create: "on_disk (create_new F temporary) (d, False) = (Inr (), (d1, False))"
      using Pair Inr by (simp add: on_disk_def)
    have "?P (io_then (on_disk (write_all F temporary bytes)) (\<lambda>_. io_then (on_disk (reached 1)) (\<lambda>_.
        io_then (on_disk (synchronize F)) (\<lambda>_.
        io_then (on_disk (reached 2)) (\<lambda>_. io_then (on_disk (close_file F)) (\<lambda>_. io_then (on_disk (reached 3)) (\<lambda>_.
        io_then (on_disk rename) (\<lambda>_. io_then (set_temporary False) (\<lambda>_.
        io_then (on_disk (reached 4)) (\<lambda>_. io_then (on_disk (synchronize_directory_best_effort F))
        (\<lambda>_. on_disk (reached 5))))))))))) (d', True))" if d': "dk_files d' = dk_files d1" for d'
    proof (cases "write_all F temporary bytes d'")
      case (Pair r d2)
      have "omap_find (dk_files d') temporary = Some []" by (simp add: d' d1)
      from write_all_prefix[OF this Pair] obtain k where k: "dk_files d2 = omap_put temporary (take k bytes) (dk_files d')"
        "r = Inr () \<and> k = length bytes \<or> r = Inl io_error" by auto
      moreover have "omap_put temporary v (dk_files d') = omap_put temporary v fs" for v
        by (rule om.ext_finds) (simp add: d' d1)
      moreover have "on_disk (write_all F temporary bytes) (d', True) = (r, (d2, True))"
        using Pair by (simp add: on_disk_def)
      ultimately show ?thesis
        using written[of d2] prefix[of d2 k] by (auto simp: io_then_Inr io_then_Inl)
    qed
    then show ?thesis
      unfolding publish_file_def io_then_Inr[where m = "on_disk (create_new F temporary)", OF create]
        set_temporary_then fst_conv
      by (rule quiet_then[where P = ?P, OF reached]) (use d1 prefix[of _ 0] in auto)
  qed
qed

text \<open>Without faults a publication under a new temporary name succeeds.\<close>

lemma publish_file_no_faults:
  assumes reached: "\<And>n d. reached n d = (Inr (), d)" and new: "\<not> omap_has (dk_files d) temporary"
    and rename: "\<And>d'. dk_files d' = omap_put temporary bytes (dk_files d) \<Longrightarrow> fst (rename d') = Inr ()"
  shows "fst (publish_file no_faults reached rename temporary bytes (d, False)) = Inr ()"
proof -
  let ?d = "set_files (omap_put temporary [] (dk_files d)) (d\<lparr>dk_calls := dk_calls d + 1\<rparr>)"
  have "omap_find (dk_files ?d) temporary = Some []" by simp
  then obtain d2 where d2: "write_all no_faults temporary bytes ?d = (Inr (), d2)"
    "dk_files d2 = omap_put temporary ([] @ bytes) (dk_files ?d)"
    by (rule write_all_no_faults)
  have "omap_put temporary bytes (dk_files ?d) = omap_put temporary bytes (dk_files d)"
    by (rule om.ext_finds) simp
  then have "fst (rename d') = Inr ()" if "dk_files d' = dk_files d2" for d'
    using rename d2(2) that by simp
  then obtain d3 where "rename (d2\<lparr>dk_calls := dk_calls d2 + 2\<rparr>) = (Inr (), d3)"
    by (metis disk.select_convs(1) disk.surjective disk.update_convs(2) prod.collapse)
  then show ?thesis
    using new d2(1)
    by (simp add: publish_file_def io_then_def on_disk_def reached create_new_def set_temporary_def io_modify_def
        synchronize_def close_file_def synchronize_directory_best_effort_def)
qed

end
