(* ===== verification/Durable_Format.thy ===== *)
theory Durable_Format
  imports Checksum Files
begin

text \<open>
  What the file formats of \<^verbatim>\<open>src/src/durable_storage.cpp\<close> and \<^verbatim>\<open>src/src/raft_hard_state_store.cpp\<close>
  share: little-endian fields at fixed offsets, checked arithmetic, the storage limits, and file
  names with a decimal number of fixed width.
\<close>

unbundle bit_operations_syntax

section \<open>Fields at fixed offsets\<close>

fun append_le_loop :: "nat \<Rightarrow> 'a :: len word \<Rightarrow> byte list \<Rightarrow> byte list" where
  "append_le_loop 0 current bytes = bytes"
| "append_le_loop (Suc n) current bytes =
     append_le_loop n (drop_bit 8 current) (bytes @ [ucast (current AND 0xff)])"

definition append_le :: "nat \<Rightarrow> byte list \<Rightarrow> 'a :: len word \<Rightarrow> byte list" where
  "append_le width bytes value = append_le_loop width value bytes"

definition read_le :: "string \<Rightarrow> nat \<Rightarrow> byte list \<Rightarrow> nat \<Rightarrow> 'a :: len word result" where
  "read_le message width bytes offset =
     (if offset > length bytes \<or> width > length bytes - offset then Inl (Storage_Error message)
      else Inr (or_bytes 0 0 (take width (drop offset bytes))))"

lemma append_le_alt: "append_le width bytes value = bytes @ le_bytes width value"
proof -
  have "append_le_loop n v bytes = bytes @ le_bytes n v" for n :: nat and v :: "'a word" and bytes
  proof (induction n arbitrary: v bytes)
    case 0
    then show ?case by (simp add: le_bytes_def)
  next
    case (Suc n)
    have "le_bytes (Suc n) v = ucast (v AND 0xff) # le_bytes n (drop_bit 8 v)"
      by (simp add: le_bytes_def upt_conv_Cons map_Suc_upt[symmetric] drop_bit_drop_bit add.commute del: upt_Suc)
    then show ?case using Suc by simp
  qed
  then show ?thesis by (simp add: append_le_def)
qed

lemma read_le_at:
  fixes v :: "'a :: len word"
  assumes "LENGTH('a) = 8 * width"
  shows "read_le message width bs offset = Inr v \<longleftrightarrow> bytes_at bs offset (le_bytes width v)"
proof -
  have "bytes_at bs offset (le_bytes width v) \<longleftrightarrow> offset + width \<le> length bs \<and> v = or_bytes 0 0 (take width (drop offset bs))"
  proof
    assume "bytes_at bs offset (le_bytes width v)"
    then show "offset + width \<le> length bs \<and> v = or_bytes 0 0 (take width (drop offset bs))"
      using or_le_bytes[OF assms, of v] by (simp add: bytes_at_def)
  next
    assume r: "offset + width \<le> length bs \<and> v = or_bytes 0 0 (take width (drop offset bs))"
    then have "length (take width (drop offset bs)) = width" by auto
    from le_or_bytes[OF assms this] have "le_bytes width v = take width (drop offset bs)" using r by simp
    then show "bytes_at bs offset (le_bytes width v)" using r bytes_at_here by simp
  qed
  then show ?thesis by (auto simp: read_le_def)
qed

lemma read_le16: "read_le message 2 bs offset = Inr (v :: 16 word) \<longleftrightarrow> bytes_at bs offset (le_bytes 2 v)"
  by (rule read_le_at) simp

lemma read_le32: "read_le message 4 bs offset = Inr (v :: u32) \<longleftrightarrow> bytes_at bs offset (le_bytes 4 v)"
  by (rule read_le_at) simp

lemma read_le64: "read_le message 8 bs offset = Inr (v :: u64) \<longleftrightarrow> bytes_at bs offset (le_bytes 8 v)"
  by (rule read_le_at) simp

text \<open>A field that is read and then used.\<close>

lemma read_then_parse:
  "and_then (read_le message 2 bs offset) k16 = Inr y \<longleftrightarrow> (\<exists>v :: 16 word. bytes_at bs offset (le_bytes 2 v) \<and> k16 v = Inr y)"
  "and_then (read_le message 4 bs offset) k32 = Inr y \<longleftrightarrow> (\<exists>v :: u32. bytes_at bs offset (le_bytes 4 v) \<and> k32 v = Inr y)"
  "and_then (read_le message 8 bs offset) k64 = Inr y \<longleftrightarrow> (\<exists>v :: u64. bytes_at bs offset (le_bytes 8 v) \<and> k64 v = Inr y)"
  by (auto simp: and_then_eq_Inr read_le16 read_le32 read_le64)

lemma throw_then_parse: "and_then (throw_if b e) k = Inr y \<longleftrightarrow> \<not> b \<and> k () = Inr y"
  by (auto simp: result_simps)

lemma bytes_at_take: "length xs = n \<Longrightarrow> take n bs = xs \<longleftrightarrow> bytes_at bs 0 xs"
  by (auto simp: bytes_at_def) (metis length_take min.cobounded1)

section \<open>Checked arithmetic\<close>

definition checked_add :: "u64 \<Rightarrow> u64 \<Rightarrow> u64 option" where
  "checked_add left right = (if right > uint64_max - left then None else Some (left + right))"

definition checked_multiply :: "u64 \<Rightarrow> u64 \<Rightarrow> u64 option" where
  "checked_multiply left right = (if left \<noteq> 0 \<and> right > uint64_max div left then None else Some (left * right))"

lemma checked_add_iff: "checked_add a b = Some c \<longleftrightarrow> unat c = unat a + unat b"
proof -
  have max: "unat (uint64_max - a) = 2 ^ 64 - 1 - unat a"
    by (simp add: unat_sub unsigned_minus_1_eq_mask mask_eq_exp_minus_1)
  show ?thesis
  proof (cases "b > uint64_max - a")
    case True
    then have "unat a + unat b \<ge> 2 ^ 64" using max unsigned_less[of a, where ?'a = nat]
      by (simp add: word_less_nat_alt)
    then show ?thesis using True unsigned_less[of c, where ?'a = nat] by (simp add: checked_add_def)
  next
    case False
    then have "unat a + unat b < 2 ^ 64"
      using max unsigned_less[of a, where ?'a = nat] by (simp add: word_less_nat_alt)
    then have "unat (a + b) = unat a + unat b" by (simp add: unat_word_ariths)
    then show ?thesis using False by (auto simp: checked_add_def word_unat_eq_iff)
  qed
qed

lemma checked_multiply_iff: "checked_multiply a b = Some c \<longleftrightarrow> unat c = unat a * unat b"
proof (cases "a = 0")
  case True
  then show ?thesis by (auto simp: checked_multiply_def unat_eq_0)
next
  case False
  then have a: "0 < unat a" by (simp add: unat_gt_0)
  have max: "unat (uint64_max div a) = (2 ^ 64 - 1) div unat a"
    by (simp add: unat_div unsigned_minus_1_eq_mask mask_eq_exp_minus_1)
  show ?thesis
  proof (cases "b > uint64_max div a")
    case True
    then have "(2 ^ 64 - 1) div unat a < unat b" using max by (simp add: word_less_nat_alt)
    then have "unat a * unat b > 2 ^ 64 - 1"
      using a by (metis div_less_iff_less_mult mult.commute)
    then show ?thesis using True False unsigned_less[of c, where ?'a = nat] by (simp add: checked_multiply_def)
  next
    case b: False
    then have "unat b \<le> (2 ^ 64 - 1) div unat a" using max by (simp add: word_less_nat_alt not_less)
    then have "unat a * unat b \<le> 2 ^ 64 - 1"
      using a by (metis less_eq_div_iff_mult_less_eq mult.commute)
    then have "unat (a * b) = unat a * unat b" by (simp add: unat_word_ariths)
    then show ?thesis using b by (auto simp: checked_multiply_def word_unat_eq_iff)
  qed
qed

section \<open>Limits\<close>

record storage_limits =
  wal_segment_bytes :: nat
  max_wal_payload_bytes :: nat
  max_recovery_records :: nat
  max_snapshot_bytes :: nat
  max_raft_hard_state_bytes :: nat
  max_snapshot_members :: u32
  snapshot_interval_entries :: nat
  backend_quota_bytes :: nat

end
