(* ===== verification/Hard_State_Store.thy ===== *)
theory Hard_State_Store
  imports Durable_Format
begin

text \<open>
  The file-backed store of the Raft hard state (\<^verbatim>\<open>src/src/raft_hard_state_store.cpp\<close>): the 48-byte
  record, the check of a transition, opening, loading and persisting.  \<open>hook\<close> is the fault hook
  of the constructor, which may throw at any of the six write boundaries; \<open>unique\<close> is the result
  of \<open>unique_suffix\<close>.
\<close>

section \<open>The record\<close>

definition hard_state_magic :: "byte list" where
  "hard_state_magic = [75, 85, 82, 65, 72, 83, 84, 49]"

definition hard_state_name :: string where
  "hard_state_name = ''raft-hard-state.krhs''"

definition hard_state_record_size :: nat where
  "hard_state_record_size = 48"

definition hard_state_format_version :: "16 word" where
  "hard_state_format_version = 1"

record decoded_hard_state =
  dh_generation :: u64
  dh_state :: raft_hard_state

abbreviation hs_fail :: "string \<Rightarrow> 'a result" where
  "hs_fail message \<equiv> Inl (Storage_Error message)"

abbreviation hs_read :: "nat \<Rightarrow> byte list \<Rightarrow> nat \<Rightarrow> 'a :: len word result" where
  "hs_read \<equiv> read_le ''Raft hard-state field extends past end of file''"

definition encode_hard_record :: "u64 \<Rightarrow> raft_hard_state \<Rightarrow> byte list result" where
  "encode_hard_record generation s =
     (if generation = 0 then hs_fail ''Raft hard-state generation must be nonzero''
      else if hs_voted_for s = Some 0 then hs_fail ''Raft votedFor must be absent or a nonzero node ID''
      else if hs_current_term s = 0 \<and> hs_voted_for s \<noteq> None then hs_fail ''Raft term zero cannot contain a vote''
      else
        let bytes = hard_state_magic;
            bytes = append_le 2 bytes hard_state_format_version;
            bytes = append_le 2 bytes (of_nat hard_state_record_size :: 16 word);
            bytes = append_le 4 bytes (0 :: u32);
            bytes = append_le 8 bytes generation;
            bytes = append_le 8 bytes (hs_current_term s);
            bytes = append_le 8 bytes (case hs_voted_for s of Some v \<Rightarrow> v | None \<Rightarrow> 0);
            bytes = append_le 4 bytes (crc32c bytes)
        in Inr (append_le 4 bytes (0 :: u32)))"

definition decode_hard_record :: "byte list \<Rightarrow> decoded_hard_state result" where
  "decode_hard_record view =
     and_then (throw_if (take 8 view \<noteq> hard_state_magic) (Storage_Error ''Raft hard-state magic is invalid'')) (\<lambda>_.
     and_then (hs_read 2 view 8) (\<lambda>version.
     and_then (hs_read 2 view 10) (\<lambda>record_size.
     and_then (hs_read 4 view 12) (\<lambda>flags.
     and_then (hs_read 4 view 44) (\<lambda>reserved.
     and_then (throw_if (version \<noteq> hard_state_format_version \<or> record_size \<noteq> (of_nat hard_state_record_size :: 16 word)
          \<or> flags \<noteq> (0 :: u32) \<or> reserved \<noteq> (0 :: u32))
        (Storage_Error ''Raft hard-state version, size, flags, or reserved field is invalid'')) (\<lambda>_.
     and_then (hs_read 8 view 16) (\<lambda>generation.
     and_then (hs_read 8 view 24) (\<lambda>term.
     and_then (hs_read 8 view 32) (\<lambda>voted_for.
     and_then (throw_if (generation = (0 :: u64)) (Storage_Error ''Raft hard-state generation zero is invalid'')) (\<lambda>_.
     and_then (throw_if (term = (0 :: u64) \<and> voted_for \<noteq> (0 :: u64))
        (Storage_Error ''Raft hard-state term zero contains a vote'')) (\<lambda>_.
     and_then (hs_read 4 view 40) (\<lambda>checksum.
     and_then (throw_if (checksum \<noteq> crc32c (take 40 view)) (Storage_Error ''Raft hard-state checksum mismatch'')) (\<lambda>_.
     Inr \<lparr>dh_generation = generation, dh_state = \<lparr>hs_current_term = term,
       hs_voted_for = (if voted_for = 0 then None else Some voted_for)\<rparr>\<rparr>)))))))))))))"

definition validate_transition :: "raft_hard_state \<Rightarrow> raft_hard_state \<Rightarrow> unit result" where
  "validate_transition current proposed =
     (if hs_voted_for proposed = Some 0 then hs_fail ''Raft votedFor must be absent or a nonzero node ID''
      else if hs_current_term proposed = 0 \<and> hs_voted_for proposed \<noteq> None
      then hs_fail ''Raft term zero cannot contain a vote''
      else if hs_current_term proposed < hs_current_term current then hs_fail ''Raft currentTerm must not regress''
      else if hs_current_term proposed = hs_current_term current
        \<and> hs_voted_for current \<noteq> hs_voted_for proposed \<and> hs_voted_for current \<noteq> None
      then hs_fail ''Raft votedFor must not change or clear within a term''
      else Inr ())"

section \<open>The store\<close>

record hard_state_store =
  hst_disk :: disk
  hst_limits :: storage_limits
  hst_state :: raft_hard_state
  hst_generation :: u64
  hst_healthy :: bool

definition empty_record :: decoded_hard_state where
  "empty_record = \<lparr>dh_generation = 0, dh_state = \<lparr>hs_current_term = 0, hs_voted_for = None\<rparr>\<rparr>"

definition decode_file :: "faults \<Rightarrow> storage_limits \<Rightarrow> (disk, decoded_hard_state) io" where
  "decode_file F limits =
     io_then (open_existing F hard_state_name) (\<lambda>_.
     io_then (system_call F) (\<lambda>_ d.
     let bytes = contents hard_state_name d in
     if length bytes > max_raft_hard_state_bytes limits
     then (hs_fail ''Raft hard-state file exceeds configured size limit'', d)
     else if length bytes \<noteq> hard_state_record_size
     then (hs_fail ''Raft hard-state record is torn or has trailing bytes'', d)
     else io_then (system_call F) (\<lambda>_ d. (decode_hard_record bytes, d)) d))"

definition load_decoded :: "faults \<Rightarrow> storage_limits \<Rightarrow> (disk, decoded_hard_state) io" where
  "load_decoded F limits =
     io_then (system_call F) (\<lambda>_ d.
     if omap_has (dk_files d) hard_state_name then decode_file F limits d else (Inr empty_record, d))"

definition open_store :: "faults \<Rightarrow> storage_limits \<Rightarrow> disk \<Rightarrow> hard_state_store result" where
  "open_store F limits d =
     (if max_raft_hard_state_bytes limits < hard_state_record_size
      then hs_fail ''Raft hard-state storage limit is smaller than the v1 record''
      else case io_then (system_call F) (\<lambda>_. load_decoded F limits) d of
          (Inl e, _) \<Rightarrow> Inl e
        | (Inr decoded, d') \<Rightarrow> Inr \<lparr>hst_disk = d', hst_limits = limits, hst_state = dh_state decoded,
            hst_generation = dh_generation decoded, hst_healthy = True\<rparr>)"

definition load :: "faults \<Rightarrow> (hard_state_store, raft_hard_state) io" where
  "load F s =
     (if \<not> hst_healthy s
      then (hs_fail ''Raft hard-state store must be reopened after a write failure'', s)
      else case load_decoded F (hst_limits s) (hst_disk s) of
          (Inl e, d) \<Rightarrow> (Inl e, s\<lparr>hst_disk := d\<rparr>)
        | (Inr decoded, d) \<Rightarrow>
            (if dh_generation decoded \<noteq> hst_generation s \<or> dh_state decoded \<noteq> hst_state s
             then hs_fail ''Raft hard state changed outside its owning store'' else Inr (hst_state s),
             s\<lparr>hst_disk := d\<rparr>))"

definition temporary_name :: "string \<Rightarrow> string" where
  "temporary_name unique = hard_state_name @ ''.tmp.'' @ unique"

definition reached :: "(nat \<Rightarrow> bool) \<Rightarrow> nat \<Rightarrow> (disk, unit) io" where
  "reached hook boundary = (if hook boundary then io_throw (Storage_Error ''fault hook'') else io_return ())"

definition write_record :: "faults \<Rightarrow> (nat \<Rightarrow> bool) \<Rightarrow> string \<Rightarrow> byte list \<Rightarrow> (disk \<times> bool, unit) io" where
  "write_record F hook unique bytes =
     publish_file F (reached hook) (replace_atomically F (temporary_name unique) hard_state_name)
       (temporary_name unique) bytes"

definition persist ::
    "faults \<Rightarrow> (nat \<Rightarrow> bool) \<Rightarrow> string \<Rightarrow> persist_raft_hard_state \<Rightarrow> (hard_state_store, persist_raft_hard_state) io" where
  "persist F hook unique request s =
     (let reply = \<lparr>ph_request_id = ph_request_id request, ph_state = ph_state request\<rparr> in
      if \<not> hst_healthy s
      then (hs_fail ''Raft hard-state store must be reopened after a write failure'', s)
      else if ph_request_id request = 0
      then (hs_fail ''Raft hard-state persistence request ID must be nonzero'', s)
      else case validate_transition (hst_state s) (ph_state request) of
          Inl e \<Rightarrow> (Inl e, s)
        | Inr _ \<Rightarrow>
            if ph_state request = hst_state s then (Inr reply, s)
            else if hst_generation s = uint64_max then (hs_fail ''Raft hard-state generation would overflow'', s)
            else case encode_hard_record (hst_generation s + 1) (ph_state request) of
                Inl e \<Rightarrow> (Inl e, s)
              | Inr bytes \<Rightarrow>
                  (case with_cleanup F (temporary_name unique) (write_record F hook unique bytes) (hst_disk s) of
                     (Inl e, d) \<Rightarrow> (Inl e, s\<lparr>hst_disk := d, hst_healthy := False\<rparr>)
                   | (Inr _, d) \<Rightarrow> (Inr reply, s\<lparr>hst_disk := d, hst_generation := hst_generation s + 1,
                       hst_state := ph_state request\<rparr>)))"

section \<open>The record is read back exactly\<close>

definition record_ok :: "u64 \<Rightarrow> raft_hard_state \<Rightarrow> bool" where
  "record_ok generation s \<longleftrightarrow> generation \<noteq> 0 \<and> hs_voted_for s \<noteq> Some 0 \<and> (hs_current_term s = 0 \<longrightarrow> hs_voted_for s = None)"

definition record_body :: "u64 \<Rightarrow> raft_hard_state \<Rightarrow> byte list" where
  "record_body generation s = hard_state_magic @ le_bytes 2 hard_state_format_version
     @ le_bytes 2 (48 :: 16 word) @ le_bytes 4 (0 :: u32) @ le_bytes 8 generation @ le_bytes 8 (hs_current_term s)
     @ le_bytes 8 (case hs_voted_for s of Some v \<Rightarrow> v | None \<Rightarrow> 0)"

definition record_bytes :: "u64 \<Rightarrow> raft_hard_state \<Rightarrow> byte list" where
  "record_bytes generation s = record_body generation s @ le_bytes 4 (crc32c (record_body generation s)) @ le_bytes 4 (0 :: u32)"

lemma length_record [simp]: "length (record_body g s) = 40" "length (record_bytes g s) = 48"
  by (simp_all add: record_bytes_def record_body_def hard_state_magic_def)

lemma encode_hard_record_Inr:
  "encode_hard_record g s = (if record_ok g s then Inr (record_bytes g s) else encode_hard_record g s)"
  by (auto simp: encode_hard_record_def record_ok_def Let_def append_le_alt record_bytes_def record_body_def
      hard_state_record_size_def)

lemma encode_hard_record_ok: "record_ok g s \<Longrightarrow> encode_hard_record g s = Inr (record_bytes g s)"
  using encode_hard_record_Inr by metis

lemma decode_hard_record_iff:
  assumes "length bs = 48"
  shows "decode_hard_record bs = Inr r \<longleftrightarrow>
    record_ok (dh_generation r) (dh_state r) \<and> bs = record_bytes (dh_generation r) (dh_state r)"
proof -
  have body: "bytes_at bs 0 (record_body g s) \<Longrightarrow> take 40 bs = record_body g s" for g s
    using bytes_at_take[of "record_body g s" 40 bs] by simp
  have "bs = record_bytes g s \<longleftrightarrow> bytes_at bs 0 (record_bytes g s)" for g s
    using bytes_at_all[of bs "record_bytes g s"] assms by auto
  then have whole: "bs = record_bytes g s \<longleftrightarrow> bytes_at bs 0 (record_body g s)
      \<and> bytes_at bs 40 (le_bytes 4 (crc32c (take 40 bs))) \<and> bytes_at bs 44 (le_bytes 4 (0 :: u32))" for g s
    using body[of g s] by (auto simp: record_bytes_def bytes_at_append)
  have magic: "take 8 bs = hard_state_magic \<longleftrightarrow> bytes_at bs 0 hard_state_magic"
    by (rule bytes_at_take) (simp add: hard_state_magic_def)
  have len: "length hard_state_magic = 8" by (simp add: hard_state_magic_def)
  show ?thesis
    unfolding decode_hard_record_def throw_then_parse read_then_parse whole magic
    by (cases r; cases "dh_state r"; cases "hs_voted_for (dh_state r)")
      (simp add: record_body_def bytes_at_append len record_ok_def hard_state_record_size_def, blast)+
qed

section \<open>What the directory stores\<close>

definition stored :: "(string, byte list) omap \<Rightarrow> decoded_hard_state \<Rightarrow> bool" where
  "stored fs r \<longleftrightarrow> (case omap_find fs hard_state_name of
     None \<Rightarrow> r = empty_record
   | Some bs \<Rightarrow> record_ok (dh_generation r) (dh_state r) \<and> bs = record_bytes (dh_generation r) (dh_state r))"

definition store_record :: "hard_state_store \<Rightarrow> decoded_hard_state" where
  "store_record s = \<lparr>dh_generation = hst_generation s, dh_state = hst_state s\<rparr>"

definition store_ok :: "hard_state_store \<Rightarrow> bool" where
  "store_ok s \<longleftrightarrow> hst_healthy s \<and> 48 \<le> max_raft_hard_state_bytes (hst_limits s)
     \<and> stored (dk_files (hst_disk s)) (store_record s)"

lemma load_decoded_Inr:
  assumes "load_decoded F limits d = (Inr r, d')"
  shows "stored (dk_files d) r" "dk_files d' = dk_files d"
proof -
  have "stored (dk_files d) r \<and> dk_files d' = dk_files d"
    using assms decode_hard_record_iff[of "contents hard_state_name d" r]
    by (auto simp: load_decoded_def decode_file_def open_existing_def io_then_def system_call_def stored_def
        omap_has_def contents_def hard_state_record_size_def Let_def split: if_splits option.splits sum.splits)
  then show "stored (dk_files d) r" "dk_files d' = dk_files d" by simp_all
qed

lemma load_decoded_no_faults:
  assumes "stored (dk_files d) r" "48 \<le> max_raft_hard_state_bytes limits"
  obtains d' where "load_decoded no_faults limits d = (Inr r, d')" "dk_files d' = dk_files d"
proof (cases "omap_find (dk_files d) hard_state_name")
  case None
  then show ?thesis
    using assms that by (simp add: load_decoded_def io_then_def stored_def omap_has_def)
next
  case (Some bs)
  then have bs: "record_ok (dh_generation r) (dh_state r)" "bs = record_bytes (dh_generation r) (dh_state r)"
    using assms(1) by (simp_all add: stored_def)
  then have "decode_hard_record bs = Inr r" by (simp add: decode_hard_record_iff)
  then show ?thesis
    using that Some bs(2) assms(2)
    by (simp add: load_decoded_def decode_file_def open_existing_def io_then_def omap_has_def contents_def
        hard_state_record_size_def Let_def)
qed

lemma open_store_no_faults:
  assumes "stored (dk_files d) r" "48 \<le> max_raft_hard_state_bytes limits"
  obtains t where "open_store no_faults limits d = Inr t" "store_ok t" "store_record t = r"
    "hst_limits t = limits" "dk_files (hst_disk t) = dk_files d"
proof -
  obtain d' where "load_decoded no_faults limits (d\<lparr>dk_calls := dk_calls d + 1\<rparr>) = (Inr r, d')"
    "dk_files d' = dk_files d"
    using load_decoded_no_faults[of "d\<lparr>dk_calls := dk_calls d + 1\<rparr>" r limits] assms by auto
  then show ?thesis
    using that assms
    by (simp add: open_store_def io_then_def store_ok_def store_record_def hard_state_record_size_def)
qed

lemma temporary_name_neq: "temporary_name unique \<noteq> hard_state_name"
  by (simp add: temporary_name_def)

lemma reached_quiet: "quiet (reached hook n)"
  by (simp add: reached_def)

lemma stored_put:
  "name \<noteq> hard_state_name \<Longrightarrow> stored (omap_put name bs fs) r \<longleftrightarrow> stored fs r"
  "name \<noteq> hard_state_name \<Longrightarrow> stored (omap_drop name fs) r \<longleftrightarrow> stored fs r"
  by (simp_all add: stored_def)

lemma write_record_stored:
  assumes "stored (dk_files d) old" "record_ok g s" "with_cleanup F (temporary_name unique)
      (write_record F hook unique (record_bytes g s)) d = (r, d')"
  shows "stored (dk_files d') \<lparr>dh_generation = g, dh_state = s\<rparr> \<or> r \<noteq> Inr () \<and> stored (dk_files d') old"
proof -
  let ?new = "\<lparr>dh_generation = g, dh_state = s\<rparr>" and ?t = "temporary_name unique"
  obtain r1 d1 flag where run: "write_record F hook unique (record_bytes g s) (d, False) = (r1, d1, flag)"
    by (metis prod_cases3)
  have "published ?t hard_state_name (record_bytes g s) (dk_files d) (r1, d1, flag)"
    unfolding run[symmetric] write_record_def
    by (intro publish_file_outcome reached_quiet replace_moves temporary_name_neq refl)
  moreover have "stored (omap_put hard_state_name (record_bytes g s) fs) ?new" for fs
    using assms(2) by (simp add: stored_def)
  ultimately have "stored (dk_files d1) ?new \<or> r1 \<noteq> Inr () \<and> stored (dk_files d1) old"
    using assms(1) temporary_name_neq by (auto simp: published_def stored_put)
  moreover have "r = r1" "dk_files d' = dk_files d1 \<or> dk_files d' = omap_drop ?t (dk_files d1)"
    using assms(3) run remove_ignored_files[of F ?t d1]
    by (auto simp: with_cleanup_def split: sum.splits if_splits)
  ultimately show ?thesis using temporary_name_neq by (auto simp: stored_put)
qed

lemma validate_transition_Inr:
  assumes "validate_transition old new = Inr u"
  shows "hs_current_term old \<le> hs_current_term new" "hs_current_term new = hs_current_term old \<Longrightarrow>
    hs_voted_for old \<noteq> None \<Longrightarrow> hs_voted_for new = hs_voted_for old"
  using assms by (auto simp: validate_transition_def result_simps split: if_splits)

lemma persist_cases:
  assumes "persist F hook unique request s = (r, s')"
  obtains (unchanged) "isl r \<or> r = Inr request \<and> ph_state request = hst_state s" "s' = s"
  | (written) d where "validate_transition (hst_state s) (ph_state request) = Inr ()"
      "isl r \<or> r = Inr request"
      "s' = (if isl r then s\<lparr>hst_disk := d, hst_healthy := False\<rparr>
        else s\<lparr>hst_disk := d, hst_generation := hst_generation s + 1, hst_state := ph_state request\<rparr>)"
      "record_ok (hst_generation s + 1) (ph_state request)"
      "with_cleanup F (temporary_name unique) (write_record F hook unique
        (record_bytes (hst_generation s + 1) (ph_state request))) (hst_disk s) = (map_sum id (\<lambda>_. ()) r, d)"
proof -
  have same: "\<lparr>ph_request_id = ph_request_id request, ph_state = ph_state request\<rparr> = request" by simp
  let ?go = "hst_healthy s \<and> ph_request_id request \<noteq> 0
      \<and> validate_transition (hst_state s) (ph_state request) = Inr () \<and> ph_state request \<noteq> hst_state s
      \<and> hst_generation s \<noteq> uint64_max"
  show ?thesis
  proof (cases ?go)
    case False
    have "snd (persist F hook unique request s) = s \<and> (isl (fst (persist F hook unique request s))
        \<or> fst (persist F hook unique request s) = Inr request \<and> ph_state request = hst_state s)"
    proof (cases "validate_transition (hst_state s) (ph_state request)")
      case (Inl e)
      then show ?thesis by (simp add: persist_def Let_def)
    next
      case (Inr u)
      then show ?thesis using False by (auto simp: persist_def Let_def)
    qed
    then show ?thesis using assms that(1) by simp
  next
    case True
    then have "hst_generation s + 1 \<noteq> 0" by (metis add.inverse_unique add.commute)
    then have ok: "record_ok (hst_generation s + 1) (ph_state request)"
      using True by (auto simp: record_ok_def validate_transition_def split: if_splits)
    obtain x d where run: "with_cleanup F (temporary_name unique) (write_record F hook unique
        (record_bytes (hst_generation s + 1) (ph_state request))) (hst_disk s) = (x, d)"
      by (cases "with_cleanup F (temporary_name unique) (write_record F hook unique
        (record_bytes (hst_generation s + 1) (ph_state request))) (hst_disk s)")
    have "persist F hook unique request s = (case x of
        Inl e \<Rightarrow> (Inl e, s\<lparr>hst_disk := d, hst_healthy := False\<rparr>)
      | Inr _ \<Rightarrow> (Inr request, s\<lparr>hst_disk := d, hst_generation := hst_generation s + 1, hst_state := ph_state request\<rparr>))"
      using True by (cases x) (simp_all add: persist_def Let_def encode_hard_record_ok[OF ok] run)
    then show ?thesis
      using assms True run by (cases x) (simp_all add: that(2)[OF _ _ _ ok])
  qed
qed

lemma persist_returns:
  assumes "hst_healthy s" "ph_request_id request \<noteq> 0"
    "validate_transition (hst_state s) (ph_state request) = Inr ()" "hst_generation s \<noteq> uint64_max"
    "\<not> omap_has (dk_files (hst_disk s)) (temporary_name unique)"
  shows "fst (persist no_faults (\<lambda>_. False) unique request s) = Inr request"
proof -
  have "fst (write_record no_faults (\<lambda>_. False) unique bytes (hst_disk s, False)) = Inr ()" for bytes
    unfolding write_record_def using assms(5)
    by (intro publish_file_no_faults) (simp_all add: reached_def replace_atomically_def io_then_def)
  then have "fst (with_cleanup no_faults (temporary_name unique) (write_record no_faults (\<lambda>_. False) unique bytes)
      (hst_disk s)) = Inr ()" for bytes
    by (simp add: with_cleanup_def split: prod.split sum.split) (metis fst_conv old.sum.distinct(1))
  moreover have "hst_generation s + 1 \<noteq> 0" using assms(4) by (metis add.inverse_unique add.commute)
  then have "record_ok (hst_generation s + 1) (ph_state request)"
    using assms(3) by (auto simp: record_ok_def validate_transition_def split: if_splits)
  ultimately show ?thesis
    using assms by (simp add: persist_def Let_def encode_hard_record_ok split: prod.split sum.split)
      (metis fst_conv old.sum.distinct(1))
qed

text \<open>
  C31.  Persisting a hard state is atomic and durable under every pattern of failing system
  calls, every fault of the hook and a stop at any point: a store opened afterwards finds the
  old state or the requested one, and the requested one if the call returned.  A returned
  state is never a step back: its term is not lower, and within a term a vote is not changed.
\<close>

theorem persist_atomic:
  assumes "store_ok s" "persist F hook unique request s = (r, s')"
  shows "(\<exists>t. open_store no_faults (hst_limits s) (hst_disk s') = Inr t \<and> store_ok t
      \<and> (hst_state t = ph_state request \<or> isl r \<and> hst_state t = hst_state s))
    \<and> (\<not> isl r \<longrightarrow> r = Inr request \<and> store_ok s' \<and> hst_state s' = ph_state request
      \<and> hs_current_term (hst_state s) \<le> hs_current_term (ph_state request)
      \<and> (hs_current_term (ph_state request) = hs_current_term (hst_state s) \<longrightarrow> hs_voted_for (hst_state s) \<noteq> None
          \<longrightarrow> hs_voted_for (ph_state request) = hs_voted_for (hst_state s)))"
proof -
  let ?limits = "hst_limits s"
  have limit: "48 \<le> max_raft_hard_state_bytes ?limits" using assms(1) by (simp add: store_ok_def)
  have reopen: "\<exists>t. open_store no_faults ?limits d = Inr t \<and> store_ok t \<and> hst_state t = dh_state x"
    if "stored (dk_files d) x" for d x
    using open_store_no_faults[OF that limit] by (metis store_record_def decoded_hard_state.select_convs(2))
  from assms(2) show ?thesis
  proof (cases rule: persist_cases)
    case unchanged
    then show ?thesis
      using reopen[of "hst_disk s" "store_record s"] assms(1) by (auto simp: store_ok_def store_record_def)
  next
    case (written d)
    let ?new = "\<lparr>dh_generation = hst_generation s + 1, dh_state = ph_state request\<rparr>"
    have "stored (dk_files d) ?new \<or> isl r \<and> stored (dk_files d) (store_record s)"
      using write_record_stored[OF _ written(4,5)] assms(1) written(2) by (cases r) (auto simp: store_ok_def)
    then show ?thesis
      using reopen[of d ?new] reopen[of d "store_record s"] written assms(1) validate_transition_Inr[OF written(1)]
      by (auto simp: store_ok_def store_record_def)
  qed
qed

end
