(* ===== verification/Text_Streams.thy ===== *)
theory Text_Streams
  imports Store_Types "HOL-Library.Char_ord"
begin

text \<open>
  The parts of the C++ streams and of \<open>std::from_chars\<close> that the sources use: printing of
  numbers, extraction of whitespace-separated words and of lines, and the parsing of a token
  that has to be a number from its first to its last character.
\<close>

section \<open>Printing numbers\<close>

definition digit_char :: "nat \<Rightarrow> char" where
  "digit_char n = char_of (if n < 10 then 48 + n else 87 + n)"

text \<open>What the stream prints for an unsigned number in the given base.\<close>

fun show_number :: "nat \<Rightarrow> nat \<Rightarrow> string" where
  "show_number base n =
     (if n < base \<or> base < 2 then [digit_char n] else show_number base (n div base) @ [digit_char (n mod base)])"

declare show_number.simps [simp del]

text \<open>A signed number is printed in decimal, with a minus sign if it is negative.\<close>

definition show_int :: "int \<Rightarrow> string" where
  "show_int v = (if v < 0 then CHR ''-'' # show_number 10 (nat (- v)) else show_number 10 (nat v))"

section \<open>Digits\<close>

definition is_digit :: "char \<Rightarrow> bool" where
  "is_digit c \<longleftrightarrow> 48 \<le> (of_char c :: nat) \<and> (of_char c :: nat) \<le> 57"

definition digit_value :: "char \<Rightarrow> nat" where
  "digit_value c = of_char c - 48"

definition number_of :: "string \<Rightarrow> nat" where
  "number_of cs = foldl (\<lambda>n c. n * 10 + digit_value c) 0 cs"

lemma digit_char_simps [simp]: "n < 10 \<Longrightarrow> is_digit (digit_char n)" "n < 10 \<Longrightarrow> digit_value (digit_char n) = n"
  by (simp_all add: is_digit_def digit_value_def digit_char_def of_char_of)

lemma digit_value_less: "is_digit c \<Longrightarrow> digit_value c < 10"
  by (auto simp: is_digit_def digit_value_def)

lemma digit_char_inverse: "is_digit c \<Longrightarrow> digit_char (digit_value c) = c"
  using digit_value_less[of c] by (simp add: is_digit_def digit_value_def digit_char_def)

lemma is_digit_order: "is_digit c \<longleftrightarrow> \<not> (c < CHR ''0'' \<or> c > CHR ''9'')"
  by (auto simp: is_digit_def less_char_def)

lemma number_of_append: "number_of (cs @ ds) = number_of cs * 10 ^ length ds + number_of ds"
proof (induction ds rule: rev_induct)
  case Nil
  then show ?case by (simp add: number_of_def)
next
  case (snoc d ds)
  have "number_of (xs @ [d]) = number_of xs * 10 + digit_value d" for xs
    by (simp add: number_of_def)
  then show ?case using snoc by (metis (no_types, lifting) append_assoc distrib_right add.assoc length_append_singleton
        mult.assoc power_Suc2)
qed

lemma number_of_simps [simp]:
  "number_of [] = 0" "number_of [c] = digit_value c" "number_of (replicate n (CHR ''0'') @ cs) = number_of cs"
proof -
  show "number_of [] = 0" "number_of [c] = digit_value c" by (simp_all add: number_of_def)
  have "number_of (replicate n (CHR ''0'')) = 0"
    by (induction n) (simp_all add: number_of_def digit_value_def)
  then show "number_of (replicate n (CHR ''0'') @ cs) = number_of cs" by (simp add: number_of_append)
qed

lemma number_of_show: "number_of (show_number 10 n) = n \<and> (\<forall>c \<in> set (show_number 10 n). is_digit c)"
proof (induction "10 :: nat" n rule: show_number.induct)
  case (1 n)
  then show ?case
    by (cases "n < 10") (simp_all add: show_number.simps[of 10 n] number_of_append)
qed

lemma length_show: "n < 10 ^ Suc k \<Longrightarrow> length (show_number 10 n) \<le> Suc k"
proof (induction k arbitrary: n)
  case (Suc k)
  then have "n div 10 < 10 ^ Suc k" by (simp add: less_mult_imp_div_less)
  then show ?case using Suc.IH[of "n div 10"] by (simp add: show_number.simps[of 10 n])
qed (simp add: show_number.simps)

lemma number_of_bound: "\<forall>c \<in> set cs. is_digit c \<Longrightarrow> number_of cs < 10 ^ length cs"
proof (induction cs)
  case (Cons c cs)
  have "digit_value c \<le> 9" using Cons.prems digit_value_less[of c] by simp
  then have "digit_value c * 10 ^ length cs \<le> 9 * 10 ^ length cs" by (rule mult_le_mono1)
  moreover have "number_of cs < 10 ^ length cs" using Cons by simp
  ultimately have "digit_value c * 10 ^ length cs + number_of cs < 10 * 10 ^ length cs" by linarith
  then show ?case using number_of_append[of "[c]" cs] by simp
qed simp

lemma number_of_inject:
  assumes "length cs = length ds" "\<forall>c \<in> set cs. is_digit c" "\<forall>d \<in> set ds. is_digit d" "number_of cs = number_of ds"
  shows "cs = ds"
  using assms
proof (induction cs ds rule: list_induct2)
  case (Cons c cs d ds)
  let ?k = "10 ^ length cs :: nat"
  have split: "digit_value c * ?k + number_of cs = digit_value d * ?k + number_of ds"
    using Cons.prems(3) Cons.hyps number_of_append[of "[c]" cs] number_of_append[of "[d]" ds] by simp
  have "number_of cs < ?k" "number_of ds < ?k"
    using number_of_bound[of cs] number_of_bound[of ds] Cons.prems Cons.hyps by simp_all
  then have "digit_value c = digit_value d" "number_of cs = number_of ds"
    using arg_cong[OF split, of "\<lambda>x. x div ?k"] arg_cong[OF split, of "\<lambda>x. x mod ?k"] by simp_all
  moreover have "is_digit c" "is_digit d" using Cons.prems by simp_all
  ultimately have "c = d" by (metis digit_char_inverse)
  then show ?case using Cons \<open>number_of cs = number_of ds\<close> by simp
qed simp

section \<open>Words and lines\<close>

text \<open>The white space of the classic locale: space, tab, newline, vertical tab, form feed, return.\<close>

definition is_space :: "char \<Rightarrow> bool" where
  "is_space c \<longleftrightarrow> (of_char c :: nat) = 32 \<or> 9 \<le> (of_char c :: nat) \<and> (of_char c :: nat) \<le> 13"

text \<open>\<open>while (stream >> word)\<close>\<close>

function stream_words :: "string \<Rightarrow> string list" where
  "stream_words cs =
     (let rest = dropWhile is_space cs in
      if rest = [] then [] else takeWhile (\<lambda>c. \<not> is_space c) rest # stream_words (dropWhile (\<lambda>c. \<not> is_space c) rest))"
  by pat_completeness auto
termination
proof (relation "measure length", simp)
  fix cs rest
  assume rest: "rest = dropWhile is_space cs" "rest \<noteq> []"
  then have "\<not> is_space (hd rest)" by (metis hd_dropWhile)
  then have "length (dropWhile (\<lambda>c. \<not> is_space c) rest) < length rest"
    using rest(2) by (cases rest) (simp_all add: length_dropWhile_le le_imp_less_Suc)
  moreover have "length rest \<le> length cs" using rest(1) by (simp add: length_dropWhile_le)
  ultimately show "(dropWhile (\<lambda>c. \<not> is_space c) rest, cs) \<in> measure length" by simp
qed

declare stream_words.simps [simp del]

text \<open>\<open>while (std::getline(stream, line))\<close>\<close>

function stream_lines :: "string \<Rightarrow> string list" where
  "stream_lines cs =
     (if cs = [] then []
      else takeWhile (\<lambda>c. c \<noteq> CHR 0x0A) cs # stream_lines (drop 1 (dropWhile (\<lambda>c. c \<noteq> CHR 0x0A) cs)))"
  by pat_completeness auto
termination
proof (relation "measure length", simp)
  fix cs :: string
  assume "cs \<noteq> []"
  then show "(drop 1 (dropWhile (\<lambda>c. c \<noteq> CHR 0x0A) cs), cs) \<in> measure length"
    using length_dropWhile_le[of "\<lambda>c. c \<noteq> CHR 0x0A" cs] by (cases cs) (auto simp: less_Suc_eq_le)
qed

declare stream_lines.simps [simp del]

text \<open>A token that \<open>std::from_chars\<close> reads to its end without an error.\<close>

definition from_chars_u64 :: "string \<Rightarrow> u64 option" where
  "from_chars_u64 token =
     (if token \<noteq> [] \<and> list_all is_digit token \<and> number_of token < 2 ^ 64 then Some (of_nat (number_of token)) else None)"

definition from_chars_int64 :: "string \<Rightarrow> int option" where
  "from_chars_int64 token =
     (let negative = (token \<noteq> [] \<and> hd token = CHR ''-''); digits = (if negative then tl token else token);
          value = (if negative then - int (number_of digits) else int (number_of digits)) in
      if digits \<noteq> [] \<and> list_all is_digit digits \<and> int64_min \<le> value \<and> value \<le> int64_max then Some value else None)"

section \<open>Reading back what was printed\<close>

abbreviation is_word :: "string \<Rightarrow> bool" where
  "is_word w \<equiv> w \<noteq> [] \<and> (\<forall>c \<in> set w. \<not> is_space c)"

lemma digit_not_space: "is_digit c \<Longrightarrow> \<not> is_space c"
  by (simp add: is_digit_def is_space_def)

lemma show_number_nonempty [simp]: "show_number base n \<noteq> []"
  by (subst show_number.simps) simp

lemma show_number_digits: "c \<in> set (show_number 10 n) \<Longrightarrow> is_digit c"
  using number_of_show by blast

lemma show_number_word: "is_word (show_number 10 n)"
  using show_number_digits digit_not_space by auto

lemma show_number_inject: "show_number 10 m = show_number 10 n \<longleftrightarrow> m = n"
  by (metis number_of_show)

lemma stream_words_simps [simp]:
  "stream_words [] = []"
  "is_word w \<Longrightarrow> stream_words (w @ CHR '' '' # rest) = w # stream_words rest"
  "is_word w \<Longrightarrow> stream_words w = [w]"
proof -
  show nil: "stream_words [] = []" by (simp add: stream_words.simps)
  assume w: "is_word w"
  have none: "dropWhile is_space (w @ r) = w @ r" for r using w by (cases w) simp_all
  have words: "takeWhile (\<lambda>c. \<not> is_space c) w = w" "dropWhile (\<lambda>c. \<not> is_space c) w = []" using w by auto
  have space: "is_space (CHR '' '')" by (simp add: is_space_def)
  then have "stream_words (CHR '' '' # rest) = stream_words rest"
    by (simp add: stream_words.simps[of "CHR '' '' # rest"] stream_words.simps[of rest])
  moreover have "takeWhile (\<lambda>c. \<not> is_space c) (w @ CHR '' '' # rest) = w"
    "dropWhile (\<lambda>c. \<not> is_space c) (w @ CHR '' '' # rest) = CHR '' '' # rest"
    using w space by (simp_all add: takeWhile_append dropWhile_append)
  ultimately show "stream_words (w @ CHR '' '' # rest) = w # stream_words rest"
    using w none[of "CHR '' '' # rest"] by (simp add: stream_words.simps[of "w @ CHR '' '' # rest"])
  show "stream_words w = [w]"
    using w none[of "[]"] by (simp add: stream_words.simps[of w] words nil)
qed

lemma stream_lines_simps [simp]:
  "stream_lines [] = []"
  "CHR 0x0A \<notin> set l \<Longrightarrow> stream_lines (l @ CHR 0x0A # rest) = l # stream_lines rest"
proof -
  show "stream_lines [] = []" by (simp add: stream_lines.simps)
  assume "CHR 0x0A \<notin> set l"
  then have "takeWhile (\<lambda>c. c \<noteq> CHR 0x0A) (l @ CHR 0x0A # rest) = l"
    "dropWhile (\<lambda>c. c \<noteq> CHR 0x0A) (l @ CHR 0x0A # rest) = CHR 0x0A # rest"
    by (auto simp: takeWhile_append dropWhile_append)
  then show "stream_lines (l @ CHR 0x0A # rest) = l # stream_lines rest"
    by (simp add: stream_lines.simps[of "l @ CHR 0x0A # rest"])
qed

lemma from_chars_show_u64 [simp]: "from_chars_u64 (show_number 10 (unat v)) = Some v"
  using number_of_show[of "unat v"] unsigned_less[of v, where ?'a = nat]
  by (simp add: from_chars_u64_def list_all_iff)

lemma show_number_no_minus: "hd (show_number 10 n) \<noteq> CHR ''-''"
proof -
  have "is_digit (hd (show_number 10 n))" by (rule show_number_digits[of _ n]) simp
  then show ?thesis by (auto simp: is_digit_def)
qed

lemma from_chars_show_int64:
  assumes "int64_min \<le> v" "v \<le> int64_max"
  shows "from_chars_int64 (show_int v) = Some v"
  using assms number_of_show show_number_no_minus
  by (auto simp: from_chars_int64_def show_int_def list_all_iff Let_def)

lemma show_int_word: "is_word (show_int v)"
  using show_number_word by (auto simp: show_int_def is_space_def)

lemma show_int_inject: "show_int v = show_int w \<longleftrightarrow> v = w"
proof
  assume eq: "show_int v = show_int w"
  have "v < 0 \<longleftrightarrow> w < 0"
    using eq show_number_no_minus by (metis list.sel(1) show_int_def)
  then show "v = w" using eq by (auto simp: show_int_def show_number_inject split: if_splits)
qed simp

end
