(* ===== verification/File_Names.thy ===== *)
theory File_Names
  imports Durable_Format Text_Streams
begin

text \<open>
  The names of segments and snapshots in \<^verbatim>\<open>src/src/durable_storage.cpp\<close>: a prefix, a decimal
  number of twenty digits and a suffix; and the suffix of temporary files.
\<close>

section \<open>Printing and parsing\<close>

definition unique_suffix :: "u64 \<Rightarrow> u64 \<Rightarrow> string" where
  "unique_suffix clock count = show_number 16 (unat clock) @ ''-'' @ show_number 16 (unat count)"

definition padded :: "nat \<Rightarrow> string \<Rightarrow> string" where
  "padded width text = replicate (width - length text) (CHR ''0'') @ text"

definition decimal_name :: "string \<Rightarrow> u64 \<Rightarrow> string \<Rightarrow> string" where
  "decimal_name start value ending = start @ padded 20 (show_number 10 (unat value)) @ ending"

fun parse_digits :: "u64 \<Rightarrow> string \<Rightarrow> u64 option" where
  "parse_digits value [] = Some value"
| "parse_digits value (character # rest) =
     (if character < CHR ''0'' \<or> character > CHR ''9'' then None
      else let digit = of_nat (of_char character - 48) in
        if value > (uint64_max - digit) div 10 then None
        else parse_digits (value * 10 + digit) rest)"

definition starts_with :: "string \<Rightarrow> string \<Rightarrow> bool" where
  "starts_with name start \<longleftrightarrow> take (length start) name = start"

definition ends_with :: "string \<Rightarrow> string \<Rightarrow> bool" where
  "ends_with name ending \<longleftrightarrow> length ending \<le> length name \<and> drop (length name - length ending) name = ending"

definition parse_decimal_name :: "string \<Rightarrow> string \<Rightarrow> string \<Rightarrow> u64 option" where
  "parse_decimal_name name start ending =
     (if length name \<noteq> length start + 20 + length ending \<or> \<not> starts_with name start \<or> \<not> ends_with name ending
      then None else parse_digits 0 (take 20 (drop (length start) name)))"

section \<open>Names and numbers correspond\<close>

lemma parse_digits_iff:
  "parse_digits v cs = Some w \<longleftrightarrow> (\<forall>c \<in> set cs. is_digit c) \<and> unat w = unat v * 10 ^ length cs + number_of cs"
proof (induction cs arbitrary: v)
  case Nil
  then show ?case by (auto simp: word_unat_eq_iff)
next
  case (Cons c cs)
  show ?case
  proof (cases "is_digit c")
    case True
    let ?d = "of_nat (of_char c - 48) :: u64"
    have d: "unat ?d = digit_value c" using digit_value_less[OF True] by (simp add: digit_value_def unat_of_nat)
    have max: "unat ((uint64_max - ?d) div 10) = (2 ^ 64 - 1 - digit_value c) div 10"
    proof -
      have "unat (uint64_max - ?d) = 2 ^ 64 - 1 - digit_value c"
        using d by (simp add: unat_sub unsigned_minus_1_eq_mask mask_eq_exp_minus_1)
      then show ?thesis by (simp add: unat_div)
    qed
    have num: "number_of (c # cs) = digit_value c * 10 ^ length cs + number_of cs"
      using number_of_append[of "[c]" cs] by simp
    show ?thesis
    proof (cases "v > (uint64_max - ?d) div 10")
      case over: True
      then have "2 ^ 64 \<le> unat v * 10 + digit_value c" using max by (simp add: word_less_nat_alt)
      moreover have "(unat v * 10 + digit_value c) * 1 \<le> (unat v * 10 + digit_value c) * 10 ^ length cs"
        by (rule mult_le_mono2) simp
      then have "unat v * 10 + digit_value c \<le> unat v * 10 ^ length (c # cs) + number_of (c # cs)"
        unfolding num by (simp add: algebra_simps)
      ultimately show ?thesis using over True unsigned_less[of w, where ?'a = nat] by (auto simp: is_digit_order)
    next
      case False
      then have "unat v * 10 + digit_value c < 2 ^ 64" using max digit_value_less[OF True] by (simp add: word_less_nat_alt)
      then have "unat (v * 10 + ?d) = unat v * 10 + digit_value c"
        using d by (simp add: unat_word_ariths)
      then show ?thesis
        using False True Cons.IH[of "v * 10 + ?d"] by (simp add: is_digit_order num algebra_simps)
    qed
  qed (auto simp: is_digit_order)
qed

lemma length_padded: "length (padded 20 (show_number 10 (unat (v :: u64)))) = 20"
  using length_show[of "unat v" 19] unsigned_less[of v, where ?'a = nat] by (simp add: padded_def)

lemma parse_decimal_name_iff: "parse_decimal_name name start ending = Some v \<longleftrightarrow> name = decimal_name start v ending"
proof
  let ?digits = "padded 20 (show_number 10 (unat v))"
  have digits: "\<forall>c \<in> set ?digits. is_digit c" "number_of ?digits = unat v"
    using number_of_show[of "unat v"] by (auto simp: padded_def is_digit_def)
  {
    assume "name = decimal_name start v ending"
    then show "parse_decimal_name name start ending = Some v"
      using digits length_padded[of v]
      by (simp add: parse_decimal_name_def decimal_name_def starts_with_def ends_with_def parse_digits_iff)
  }
  assume parse: "parse_decimal_name name start ending = Some v"
  let ?cs = "take 20 (drop (length start) name)"
  have len: "length name = length start + 20 + length ending" and start: "take (length start) name = start"
    and ending: "drop (length name - length ending) name = ending" and cs: "parse_digits 0 ?cs = Some v"
    using parse by (auto simp: parse_decimal_name_def starts_with_def ends_with_def split: if_splits)
  have "?cs = ?digits"
    using cs digits len length_padded[of v] by (intro number_of_inject) (auto simp: parse_digits_iff)
  moreover have "name = take (length start) name @ ?cs @ drop (length start + 20) name"
    by (metis add.commute append_assoc append_take_drop_id drop_drop)
  moreover have "drop (length start + 20) name = ending" using ending len by simp
  ultimately show "name = decimal_name start v ending" using start by (simp add: decimal_name_def)
qed

lemma decimal_name_inject [simp]: "decimal_name start v ending = decimal_name start w ending \<longleftrightarrow> v = w"
  by (metis option.inject parse_decimal_name_iff)

text \<open>A temporary name ends in a hexadecimal digit, so it is never taken for a published name.\<close>

definition is_hex_digit :: "char \<Rightarrow> bool" where
  "is_hex_digit c \<longleftrightarrow> is_digit c \<or> 97 \<le> (of_char c :: nat) \<and> (of_char c :: nat) \<le> 102"

lemma show_hex_last: "is_hex_digit (last (show_number 16 n)) \<and> show_number 16 n \<noteq> []"
  using mod_less_divisor[of 16 n]
  by (subst (1 2) show_number.simps) (auto simp: is_hex_digit_def is_digit_def digit_char_def of_char_of)

lemma unique_suffix_ends:
  assumes "ending \<noteq> []" "\<not> is_hex_digit (last ending)"
  shows "\<not> ends_with (name @ unique_suffix clock count) ending"
proof
  assume "ends_with (name @ unique_suffix clock count) ending"
  then have "last (name @ unique_suffix clock count) = last ending"
    using assms(1) by (metis append_take_drop_id ends_with_def last_appendR)
  moreover have "last (name @ unique_suffix clock count) = last (show_number 16 (unat count))"
    using show_hex_last[of "unat count"] by (simp add: unique_suffix_def)
  ultimately show False using assms(2) show_hex_last[of "unat count"] by simp
qed

lemma decimal_name_starts: "starts_with (decimal_name start v ending) start" "ends_with (decimal_name start v ending) ending"
  by (simp_all add: decimal_name_def starts_with_def ends_with_def)

section \<open>Publication under a new name\<close>

text \<open>The clock and the counter a temporary name is made of, at each moment.\<close>

type_synonym clock = "nat \<Rightarrow> u64 \<times> u64"

definition temporary_path :: "clock \<Rightarrow> string \<Rightarrow> disk \<Rightarrow> string" where
  "temporary_path now final d = final @ ''.tmp.'' @ unique_suffix (fst (now (dk_calls d))) (snd (now (dk_calls d)))"

definition publish_new :: "faults \<Rightarrow> clock \<Rightarrow> string \<Rightarrow> byte list \<Rightarrow> (disk, unit) io" where
  "publish_new F now final bytes d =
     (let temporary = temporary_path now final d in
      with_cleanup F temporary
        (publish_file F (\<lambda>_. io_return ()) (rename_no_replace F temporary final) temporary bytes) d)"

text \<open>The names with a given ending: a temporary name is none of them.\<close>

lemma temporary_path_ends:
  assumes "ending \<noteq> []" "\<not> is_hex_digit (last ending)"
  shows "\<not> ends_with (temporary_path now final d) ending"
  using unique_suffix_ends[OF assms, of "final @ ''.tmp.''" "fst (now (dk_calls d))" "snd (now (dk_calls d))"]
  by (simp add: temporary_path_def)

lemma publish_new_outcome:
  assumes final: "P final" and temporary: "\<not> P (temporary_path now final d)" and run: "publish_new F now final bytes d = (r, d')"
  shows "isl r \<and> (\<forall>name. P name \<longrightarrow> omap_find (dk_files d') name = omap_find (dk_files d) name)
    \<or> (\<forall>name. P name \<longrightarrow> omap_find (dk_files d') name = omap_find (omap_put final bytes (dk_files d)) name)"
proof -
  let ?t = "temporary_path now final d"
  have neq: "?t \<noteq> final" "P name \<Longrightarrow> name \<noteq> ?t" for name using final temporary by auto
  obtain r1 d1 flag where run1: "publish_file F (\<lambda>_. io_return ()) (rename_no_replace F ?t final) ?t bytes (d, False) = (r1, d1, flag)"
    by (metis prod_cases3)
  have "published ?t final bytes (dk_files d) (r1, d1, flag)"
    unfolding run1[symmetric] by (intro publish_file_outcome rename_moves neq refl) simp_all
  moreover have "r = r1" "dk_files d' = dk_files d1 \<or> dk_files d' = omap_drop ?t (dk_files d1)"
    using run run1 remove_ignored_files[of F ?t d1]
    by (auto simp: publish_new_def Let_def with_cleanup_def split: sum.splits if_splits)
  ultimately show ?thesis using neq by (cases r1) (auto simp: published_def)
qed

lemma publish_new_no_faults:
  assumes "\<not> omap_has (dk_files d) (temporary_path now final d)" "\<not> omap_has (dk_files d) final"
    "temporary_path now final d \<noteq> final"
  shows "fst (publish_new no_faults now final bytes d) = Inr ()
    \<and> dk_files (snd (publish_new no_faults now final bytes d)) = omap_put final bytes (dk_files d)"
proof -
  let ?t = "temporary_path now final d"
  let ?run = "publish_file no_faults (\<lambda>_. io_return ()) (rename_no_replace no_faults ?t final) ?t bytes (d, False)"
  have ok: "fst ?run = Inr ()"
    using assms
    by (intro publish_file_no_faults) (simp_all add: rename_no_replace_def io_then_def omap_has_def)
  obtain r1 d1 flag where run: "?run = (r1, d1, flag)" by (cases ?run)
  have "published ?t final bytes (dk_files d) (r1, d1, flag)"
    unfolding run[symmetric] by (intro publish_file_outcome rename_moves assms(3) refl) simp_all
  then have "dk_files d1 = omap_put final bytes (dk_files d)" using ok run by (auto simp: published_def)
  then show ?thesis using ok run by (simp add: publish_new_def Let_def with_cleanup_def)
qed

end
