(* ===== verification/Wal.thy ===== *)
theory Wal
  imports File_Names
begin

text \<open>
  The class \<open>SegmentedWriteAheadLog\<close> of \<^verbatim>\<open>src/src/durable_storage.cpp\<close>: the segment and record
  formats, recovery with truncation of a torn suffix, appending with segment rotation, and
  truncation of whole segments behind a snapshot.
\<close>

section \<open>Formats\<close>

record wal_entry =
  we_type :: "16 word"
  we_term :: raft_term
  we_index :: log_index
  we_payload :: "byte list"

record stored_snapshot =
  ss_metadata :: snapshot_metadata
  ss_state :: "byte list"
  ss_checksum :: u32

datatype durability = Memory_only | Flush | Synchronize

definition wal_segment_header_size :: nat where
  "wal_segment_header_size = 40"

definition wal_record_header_size :: nat where
  "wal_record_header_size = 40"

definition storage_format_version :: "16 word" where
  "storage_format_version = 1"

definition command_record_type :: "16 word" where
  "command_record_type = 1"

definition wal_magic :: "byte list" where
  "wal_magic = map of_char ''KURAWAL1''"

definition record_magic :: "byte list" where
  "record_magic = map of_char ''KREC''"

abbreviation wal_fail :: "string \<Rightarrow> 'a result" where
  "wal_fail message \<equiv> Inl (Storage_Error message)"

abbreviation wal_read :: "nat \<Rightarrow> byte list \<Rightarrow> nat \<Rightarrow> 'a :: len word result" where
  "wal_read \<equiv> read_le ''durable format field extends past end of file''"

definition make_segment_header :: "u64 \<Rightarrow> u64 \<Rightarrow> byte list" where
  "make_segment_header sequence first_index =
     (let bytes = wal_magic;
          bytes = append_le 2 bytes storage_format_version;
          bytes = append_le 2 bytes (of_nat wal_segment_header_size :: 16 word);
          bytes = append_le 4 bytes (0 :: u32);
          bytes = append_le 8 bytes sequence;
          bytes = append_le 8 bytes first_index;
          bytes = append_le 4 bytes (crc32c bytes)
      in append_le 4 bytes (0 :: u32))"

definition encode_record :: "wal_entry \<Rightarrow> byte list" where
  "encode_record entry =
     (let bytes = record_magic;
          bytes = append_le 2 bytes storage_format_version;
          bytes = append_le 2 bytes (we_type entry);
          bytes = append_le 4 bytes (of_nat wal_record_header_size :: u32);
          bytes = append_le 8 bytes (we_term entry);
          bytes = append_le 8 bytes (we_index entry);
          bytes = append_le 8 bytes (of_nat (length (we_payload entry)) :: u64);
          checksum = crc_update (we_payload entry) (crc_update bytes 0xffffffff)
      in append_le 4 bytes (crc_finish checksum) @ we_payload entry)"

section \<open>Reading a segment\<close>

definition parse_segment_header :: "string \<Rightarrow> byte list \<Rightarrow> u64 option \<Rightarrow> (u64 \<times> u64) result" where
  "parse_segment_header path view expected =
     and_then (throw_if (length view < wal_segment_header_size)
        (Storage_Error (''WAL segment header is truncated: '' @ path))) (\<lambda>_.
     and_then (wal_read 2 view 8) (\<lambda>version.
     and_then (wal_read 2 view 10) (\<lambda>header_size.
     and_then (wal_read 4 view 12) (\<lambda>flags.
     and_then (wal_read 4 view 36) (\<lambda>reserved.
     and_then (throw_if (take 8 view \<noteq> wal_magic \<or> version \<noteq> storage_format_version
          \<or> header_size \<noteq> (of_nat wal_segment_header_size :: 16 word) \<or> flags \<noteq> (0 :: u32) \<or> reserved \<noteq> (0 :: u32))
        (Storage_Error ''WAL segment header is malformed'')) (\<lambda>_.
     and_then (wal_read 8 view 16) (\<lambda>sequence.
     and_then (wal_read 8 view 24) (\<lambda>first_index.
     and_then (wal_read 4 view 32) (\<lambda>checksum.
     and_then (throw_if (sequence = 0 \<or> first_index = 0
          \<or> Some sequence \<noteq> parse_decimal_name path ''wal-'' ''.kwal'' \<or> checksum \<noteq> crc32c (take 32 view))
        (Storage_Error ''WAL segment header checksum or identity is invalid'')) (\<lambda>_.
     and_then (throw_if (expected \<noteq> None \<and> Some first_index \<noteq> expected)
        (Storage_Error ''WAL segment first index has a gap or regression'')) (\<lambda>_.
     Inr (sequence, first_index))))))))))))"

text \<open>
  One turn of the record loop, up to the new record: a torn record in the final segment, a
  failure, or a record and its size.
\<close>

datatype scanned = Torn | Bad exn | Good wal_entry nat

definition torn_or_bad :: "bool \<Rightarrow> string \<Rightarrow> scanned" where
  "torn_or_bad is_final message = (if is_final then Torn else Bad (Storage_Error message))"

definition check_header :: "byte list \<Rightarrow> u64 option \<Rightarrow> (u64 \<times> u64 \<times> u64 \<times> u32) result" where
  "check_header header expected =
     and_then (wal_read 2 header 4) (\<lambda>version.
     and_then (wal_read 2 header 6) (\<lambda>type.
     and_then (wal_read 4 header 8) (\<lambda>header_size.
     and_then (throw_if (take 4 header \<noteq> record_magic \<or> version \<noteq> storage_format_version \<or> type \<noteq> command_record_type
          \<or> header_size \<noteq> (of_nat wal_record_header_size :: u32))
        (Storage_Error ''WAL record header is malformed'')) (\<lambda>_.
     and_then (wal_read 8 header 12) (\<lambda>term.
     and_then (wal_read 8 header 20) (\<lambda>index.
     and_then (wal_read 8 header 28) (\<lambda>payload_length.
     and_then (wal_read 4 header 36) (\<lambda>stored_checksum.
     and_then (throw_if (expected = None) Undefined_Behaviour) (\<lambda>_.
     and_then (throw_if (index = 0 \<or> Some index \<noteq> expected)
        (Storage_Error ''WAL record index has a gap or regression'')) (\<lambda>_.
     Inr (term, index, payload_length, stored_checksum)))))))))))"

definition scan_record ::
    "storage_limits \<Rightarrow> byte list \<Rightarrow> bool \<Rightarrow> u64 \<Rightarrow> nat \<Rightarrow> nat \<Rightarrow> bool \<Rightarrow> u64 option \<Rightarrow> scanned" where
  "scan_record limits view is_final first_index count offset first_record expected =
     (let remaining = length view - offset; header = take wal_record_header_size (drop offset view) in
      if remaining < wal_record_header_size
      then torn_or_bad is_final ''truncated WAL record header in interior segment''
      else case check_header header expected of Inl e \<Rightarrow> Bad e
      | Inr (term, index, payload_length, stored_checksum) \<Rightarrow>
        if first_record \<and> index \<noteq> first_index
        then Bad (Storage_Error ''WAL segment first record does not match its header'')
        else if unat payload_length > max_wal_payload_bytes limits
          \<or> unat payload_length > wal_segment_bytes limits - wal_record_header_size
        then Bad (Storage_Error ''WAL record payload length exceeds configured limit'')
        else case checked_add (of_nat wal_record_header_size) payload_length of
          None \<Rightarrow> Bad (Storage_Error ''WAL record length overflows'')
        | Some record_size \<Rightarrow>
          if unat record_size > remaining
          then torn_or_bad is_final ''truncated WAL record payload in interior segment''
          else let payload = take (unat payload_length) (drop (offset + wal_record_header_size) view) in
            if crc_finish (crc_update payload (crc_update (take 36 header) 0xffffffff)) \<noteq> stored_checksum
            then Bad (Storage_Error ''WAL record checksum mismatch'')
            else if count \<ge> max_recovery_records limits
            then Bad (Storage_Error ''WAL record count exceeds configured limit'')
            else Good \<lparr>we_type = command_record_type, we_term = term, we_index = index, we_payload = payload\<rparr>
              (unat record_size))"

text \<open>
  The record loop.  Its result is the records read so far, the offset reached, the next expected
  index, and how it ended: at the end of the file (no exception, not torn), at a torn record, or
  with an exception.
\<close>

record scan =
  sc_records :: "wal_entry list"
  sc_offset :: nat
  sc_expected :: "u64 option"
  sc_torn :: bool
  sc_error :: "exn option"

lemma scan_record_Good:
  assumes "scan_record limits view is_final first_index count offset first_record expected = Good entry record_size"
  shows "40 \<le> record_size" "offset + record_size \<le> length view"
proof -
  obtain sum n where "checked_add (of_nat wal_record_header_size) n = Some sum" "record_size = unat sum"
    "unat sum \<le> length view - offset" "\<not> length view - offset < wal_record_header_size"
    using assms
    by (auto simp: scan_record_def Let_def torn_or_bad_def split: if_splits sum.splits option.splits prod.splits)
  then show "40 \<le> record_size" "offset + record_size \<le> length view"
    by (auto simp: checked_add_iff wal_record_header_size_def)
qed

function scan_records ::
    "storage_limits \<Rightarrow> byte list \<Rightarrow> bool \<Rightarrow> u64 \<Rightarrow> nat \<Rightarrow> wal_entry list \<Rightarrow> nat \<Rightarrow> u64 option \<Rightarrow> scan" where
  "scan_records limits view is_final first_index count records offset expected =
     (let result = \<lparr>sc_records = records, sc_offset = offset, sc_expected = expected, sc_torn = False, sc_error = None\<rparr> in
      if \<not> offset < length view then result
      else case scan_record limits view is_final first_index (count + length records) offset (records = []) expected of
        Torn \<Rightarrow> result\<lparr>sc_torn := True\<rparr>
      | Bad e \<Rightarrow> result\<lparr>sc_error := Some e\<rparr>
      | Good entry record_size \<Rightarrow>
          if we_index entry = uint64_max \<and> (offset + record_size \<noteq> length view \<or> \<not> is_final)
          then \<lparr>sc_records = records @ [entry], sc_offset = offset + record_size, sc_expected = None, sc_torn = False,
             sc_error = Some (Storage_Error ''WAL contains records after maximum index'')\<rparr>
          else scan_records limits view is_final first_index count (records @ [entry]) (offset + record_size)
            (if we_index entry = uint64_max then None else Some (we_index entry + 1)))"
  by pat_completeness auto
termination
  by (relation "measure (\<lambda>(limits, view, is_final, first_index, count, records, offset, expected). length view - offset)")
    (auto dest: scan_record_Good)

declare scan_records.simps [simp del]

section \<open>The log object\<close>

record segment_info =
  si_path :: string
  si_sequence :: u64
  si_first_index :: u64
  si_maximum_index :: "u64 option"
  si_size :: nat

record wal =
  wl_disk :: disk
  wl_limits :: storage_limits
  wl_segments :: "segment_info list"
  wl_active_file :: "string option"
  wl_last_index :: "u64 option"
  wl_expected_append :: "u64 option"
  wl_active_size :: nat
  wl_recovered_record_count :: nat
  wl_healthy :: bool

definition wal_disk :: "(disk, 'a) io \<Rightarrow> (wal, 'a) io" where
  "wal_disk m s = (case m (wl_disk s) of (r, d) \<Rightarrow> (r, s\<lparr>wl_disk := d\<rparr>))"

text \<open>The names in the directory, in some order, and the check that the sequence has no gap.\<close>

fun collect_segments :: "string list \<Rightarrow> (u64 \<times> string) list \<Rightarrow> (u64 \<times> string) list result" where
  "collect_segments [] found = Inr found"
| "collect_segments (name # names) found =
     (case parse_decimal_name name ''wal-'' ''.kwal'' of
        Some sequence \<Rightarrow>
          if sequence = 0 then wal_fail ''WAL segment sequence zero is invalid''
          else collect_segments names (found @ [(sequence, name)])
      | None \<Rightarrow>
          if starts_with name ''wal-'' \<and> ends_with name ''.kwal''
          then wal_fail (''malformed WAL segment filename: '' @ name)
          else collect_segments names found)"

fun sequence_gap :: "u64 list \<Rightarrow> bool" where
  "sequence_gap (a # b # rest) \<longleftrightarrow> a = uint64_max \<or> b \<noteq> a + 1 \<or> sequence_gap (b # rest)"
| "sequence_gap _ \<longleftrightarrow> False"

definition segment_paths :: "faults \<Rightarrow> (disk, string list) io" where
  "segment_paths F = io_then (system_call F) (\<lambda>_ d.
     (and_then (collect_segments (omap_keys (dk_files d)) []) (\<lambda>found.
      let found = sort_key fst found in
      and_then (throw_if (sequence_gap (map fst found)) (Storage_Error ''WAL segment sequence gap or regression'')) (\<lambda>_.
      Inr (map snd found))), d))"

definition truncate_torn_suffix :: "faults \<Rightarrow> string \<Rightarrow> nat \<Rightarrow> (disk, unit) io" where
  "truncate_torn_suffix F path offset =
     io_then (open_existing F path) (\<lambda>_. io_then (truncate_file F path offset) (\<lambda>_. synchronize F))"

definition last_index_of :: "wal_entry list \<Rightarrow> u64 option \<Rightarrow> u64 option" where
  "last_index_of records old = (if records = [] then old else Some (we_index (last records)))"

definition recover_bytes ::
    "faults \<Rightarrow> string \<Rightarrow> bool \<Rightarrow> u64 option \<Rightarrow> byte list \<Rightarrow> (wal, wal_entry list \<times> u64 option) io" where
  "recover_bytes F path is_final expected bytes s =
     (case parse_segment_header path bytes expected of Inl e \<Rightarrow> (Inl e, s)
     | Inr (sequence, first_index) \<Rightarrow>
       let scan = scan_records (wl_limits s) bytes is_final first_index (wl_recovered_record_count s) []
             wal_segment_header_size (if expected = None then Some first_index else expected);
           maximum_index = last_index_of (sc_records scan) None;
           s = s\<lparr>wl_recovered_record_count := wl_recovered_record_count s + length (sc_records scan),
             wl_last_index := last_index_of (sc_records scan) (wl_last_index s)\<rparr>
       in case sc_error scan of Some e \<Rightarrow> (Inl e, s)
       | None \<Rightarrow>
         io_then (if sc_torn scan then wal_disk (truncate_torn_suffix F path (sc_offset scan)) else io_return ()) (\<lambda>_.
         io_then (io_throw_if (maximum_index = None \<and> \<not> is_final)
           (Storage_Error ''empty WAL segment is not the final segment'')) (\<lambda>_.
         io_then (io_modify (\<lambda>s. s\<lparr>wl_segments := wl_segments s @ [\<lparr>si_path = path, si_sequence = sequence,
           si_first_index = first_index, si_maximum_index = maximum_index,
           si_size = (if sc_torn scan then sc_offset scan else length bytes)\<rparr>]\<rparr>)) (\<lambda>_.
         io_return (sc_records scan, sc_expected scan)))) s)"

definition recover_segment ::
    "faults \<Rightarrow> string \<Rightarrow> bool \<Rightarrow> u64 option \<Rightarrow> (wal, wal_entry list \<times> u64 option) io" where
  "recover_segment F path is_final expected s =
     io_then (wal_disk (read_file F path (wal_segment_bytes (wl_limits s)))) (recover_bytes F path is_final expected) s"

fun recover_segments ::
    "faults \<Rightarrow> string list \<Rightarrow> wal_entry list \<Rightarrow> u64 option \<Rightarrow> (wal, wal_entry list \<times> u64 option) io" where
  "recover_segments F [] entries expected = io_return (entries, expected)"
| "recover_segments F (path # paths) entries expected =
     io_then (recover_segment F path (paths = []) expected) (\<lambda>(records, expected).
     recover_segments F paths (entries @ records) expected)"

definition open_last_segment :: "faults \<Rightarrow> u64 option \<Rightarrow> (wal, unit) io" where
  "open_last_segment F expected s =
     (if wl_segments s = [] then (Inr (), s)
      else let segment = last (wl_segments s) in
        io_then (io_modify (\<lambda>s. s\<lparr>wl_active_size := si_size segment\<rparr>)) (\<lambda>_.
        io_then (wal_disk (open_existing F (si_path segment))) (\<lambda>_.
        io_modify (\<lambda>s. s\<lparr>wl_active_file := Some (si_path segment), wl_expected_append := expected\<rparr>))) s)"

definition recover_locked :: "faults \<Rightarrow> (wal, wal_entry list) io" where
  "recover_locked F =
     io_then (io_modify (\<lambda>s. s\<lparr>wl_active_file := None, wl_segments := [], wl_last_index := None,
       wl_expected_append := None, wl_active_size := 0, wl_recovered_record_count := 0\<rparr>)) (\<lambda>_.
     io_then (wal_disk (segment_paths F)) (\<lambda>paths.
     io_then (recover_segments F paths [] None) (\<lambda>(entries, expected).
     io_then (open_last_segment F expected) (\<lambda>_.
     io_then (io_modify (\<lambda>s. s\<lparr>wl_healthy := True\<rparr>)) (\<lambda>_.
     io_return entries)))))"

section \<open>Appending\<close>

fun validate_entries :: "storage_limits \<Rightarrow> u64 option \<Rightarrow> wal_entry list \<Rightarrow> unit result" where
  "validate_entries limits expected [] = Inr ()"
| "validate_entries limits expected (entry # entries) =
     (if expected = None then wal_fail ''WAL index would overflow''
      else if we_type entry \<noteq> command_record_type then wal_fail ''unsupported WAL record type''
      else if we_index entry = 0 \<or> Some (we_index entry) \<noteq> expected
      then wal_fail ''WAL append index is not the expected next index''
      else if length (we_payload entry) > max_wal_payload_bytes limits
        \<or> wal_record_header_size + length (we_payload entry) > wal_segment_bytes limits - wal_segment_header_size
      then wal_fail ''WAL payload exceeds configured limit''
      else validate_entries limits (if we_index entry = uint64_max then None else Some (we_index entry + 1)) entries)"

definition validate_append :: "wal \<Rightarrow> wal_entry list \<Rightarrow> unit result" where
  "validate_append s entries =
     (let limits = wl_limits s; expected = wl_expected_append s in
      if length entries > max_recovery_records limits - min (max_recovery_records limits) (wl_recovered_record_count s)
      then wal_fail ''WAL record count exceeds configured limit''
      else if expected = None \<and> wl_last_index s \<noteq> None then wal_fail ''WAL index would overflow''
      else case entries of [] \<Rightarrow> Inl Undefined_Behaviour
        | entry # _ \<Rightarrow> validate_entries limits (if expected = None then Some (we_index entry) else expected) entries)"

definition create_segment :: "faults \<Rightarrow> clock \<Rightarrow> u64 \<Rightarrow> u64 \<Rightarrow> (wal, unit) io" where
  "create_segment F now sequence first_index =
     (let final = decimal_name ''wal-'' sequence ''.kwal'' in
      io_then (io_throw_if (sequence = 0 \<or> first_index = 0)
        (Storage_Error ''WAL segment sequence and first index must be nonzero'')) (\<lambda>_.
      io_then (wal_disk (io_then (system_call F) (\<lambda>_ d. (Inr (omap_has (dk_files d) final), d)))) (\<lambda>exists.
      io_then (io_throw_if exists (Storage_Error ''refusing to overwrite existing WAL segment'')) (\<lambda>_.
      io_then (wal_disk (publish_new F now final (make_segment_header sequence first_index))) (\<lambda>_.
      io_then (io_modify (\<lambda>s. s\<lparr>wl_segments := wl_segments s @ [\<lparr>si_path = final, si_sequence = sequence,
        si_first_index = first_index, si_maximum_index = None, si_size = wal_segment_header_size\<rparr>]\<rparr>)) (\<lambda>_.
      io_then (wal_disk (open_existing F final)) (\<lambda>_.
      io_modify (\<lambda>s. s\<lparr>wl_active_file := Some final, wl_active_size := wal_segment_header_size,
        wl_expected_append := Some first_index\<rparr>))))))))"

text \<open>Subtraction of unsigned 64-bit sizes.\<close>

definition minus64 :: "nat \<Rightarrow> nat \<Rightarrow> nat" where
  "minus64 a b = (a + 2 ^ 64 - b) mod 2 ^ 64"

definition ensure_segment :: "faults \<Rightarrow> clock \<Rightarrow> u64 \<Rightarrow> nat \<Rightarrow> (wal, unit) io" where
  "ensure_segment F now first_index record_size s =
     (let next_segment = (\<lambda>s.
        if wl_segments s = [] then create_segment F now 1 first_index s
        else if si_sequence (last (wl_segments s)) = uint64_max then (wal_fail ''WAL segment sequence would overflow'', s)
        else create_segment F now (si_sequence (last (wl_segments s)) + 1) first_index s) in
      if wl_active_file s = None then next_segment s
      else if record_size \<le> minus64 (wal_segment_bytes (wl_limits s)) (wl_active_size s) then (Inr (), s)
      else io_then (wal_disk (synchronize F)) (\<lambda>_.
        io_then (io_modify (\<lambda>s. s\<lparr>wl_active_file := None\<rparr>)) (\<lambda>_.
        if wl_segments s = [] then io_throw Undefined_Behaviour else next_segment)) s)"

text \<open>The body of the append loop.\<close>

definition update_last :: "('a \<Rightarrow> 'a) \<Rightarrow> 'a list \<Rightarrow> 'a list" where
  "update_last f xs = (if xs = [] then [] else butlast xs @ [f (last xs)])"

definition append_one :: "faults \<Rightarrow> clock \<Rightarrow> wal_entry \<Rightarrow> (wal, unit) io" where
  "append_one F now entry =
     (let encoded = encode_record entry in
      io_then (ensure_segment F now (we_index entry) (length encoded)) (\<lambda>_.
      io_then (\<lambda>s. case wl_active_file s of None \<Rightarrow> (Inl Undefined_Behaviour, s)
        | Some path \<Rightarrow> wal_disk (write_all F path encoded) s) (\<lambda>_.
      io_modify (\<lambda>s. s\<lparr>wl_active_size := wl_active_size s + length encoded,
        wl_segments := update_last (\<lambda>segment. segment\<lparr>si_size := wl_active_size s + length encoded,
          si_maximum_index := Some (we_index entry)\<rparr>) (wl_segments s),
        wl_last_index := Some (we_index entry),
        wl_recovered_record_count := wl_recovered_record_count s + 1,
        wl_expected_append := (if we_index entry = uint64_max then None else Some (we_index entry + 1))\<rparr>))))"

definition append_wal :: "faults \<Rightarrow> clock \<Rightarrow> wal_entry list \<Rightarrow> durability \<Rightarrow> (wal, unit) io" where
  "append_wal F now entries durability s =
     (if \<not> wl_healthy s then (wal_fail ''WAL requires recover() after a previous append failure'', s)
      else if entries = [] then (Inr (), s)
      else case validate_append s entries of Inl e \<Rightarrow> (Inl e, s)
      | Inr _ \<Rightarrow>
        io_on_exception
          (io_then (io_for entries (append_one F now)) (\<lambda>_.
           if durability = Synchronize then wal_disk (synchronize F) else io_return ()))
          (\<lambda>s. s\<lparr>wl_healthy := False, wl_active_file := None\<rparr>) s)"

section \<open>Truncation, opening and recovery\<close>

definition removable :: "log_index \<Rightarrow> segment_info list \<Rightarrow> string list" where
  "removable index segments =
     map si_path (filter (\<lambda>segment. case si_maximum_index segment of Some m \<Rightarrow> m \<le> index | None \<Rightarrow> False)
       (butlast segments))"

definition remove_segments :: "faults \<Rightarrow> string list \<Rightarrow> (disk, unit) io" where
  "remove_segments F paths = io_for paths (\<lambda>path.
     io_then (remove_file F path) (\<lambda>_. synchronize_directory_best_effort F))"

definition truncate_through :: "faults \<Rightarrow> log_index \<Rightarrow> stored_snapshot option result \<Rightarrow> (wal, unit) io" where
  "truncate_through F index latest s0 =
     (if index = 0 then (wal_fail ''WAL truncation index must be nonzero'', s0)
      else case latest of Inl e \<Rightarrow> (Inl e, s0)
      | Inr snapshot \<Rightarrow>
        if (case snapshot of None \<Rightarrow> True | Some sn \<Rightarrow> sm_last_included_index (ss_metadata sn) < index)
        then (wal_fail ''WAL truncation is not covered by a durable snapshot'', s0)
        else io_then (recover_locked F) (\<lambda>_ s.
          if length (wl_segments s) < 2 then (Inr (), s)
          else let removals = removable index (wl_segments s) in
            io_on_exception
              (io_then (wal_disk (remove_segments F removals)) (\<lambda>_.
               io_then (recover_locked F) (\<lambda>_. io_return ())))
              (\<lambda>s. s\<lparr>wl_active_file := None, wl_healthy := False\<rparr>)
              (s\<lparr>wl_active_file := None\<rparr>)) s0)"

definition open_wal :: "faults \<Rightarrow> storage_limits \<Rightarrow> disk \<Rightarrow> wal result \<times> disk" where
  "open_wal F limits d =
     (if wal_segment_bytes limits < wal_segment_header_size + wal_record_header_size
        \<or> max_wal_payload_bytes limits > wal_segment_bytes limits - wal_segment_header_size - wal_record_header_size
        \<or> max_recovery_records limits = 0
      then (wal_fail ''WAL storage limits are invalid'', d)
      else case io_then (wal_disk (system_call F)) (\<lambda>_. recover_locked F)
          \<lparr>wl_disk = d, wl_limits = limits, wl_segments = [], wl_active_file = None, wl_last_index = None,
            wl_expected_append = None, wl_active_size = 0, wl_recovered_record_count = 0, wl_healthy = True\<rparr> of
        (Inl e, s) \<Rightarrow> (Inl e, wl_disk s)
      | (Inr _, s) \<Rightarrow> (Inr s, wl_disk s))"

end
