(* ===== verification/Wal_Recovery.thy ===== *)
theory Wal_Recovery
  imports Wal "HOL-Library.Multiset"
begin

text \<open>
  What the segments of a directory mean as a log, and that recovery reads exactly that log, from
  a complete or a torn directory and under every pattern of failing system calls.
\<close>

section \<open>Reading back headers and records\<close>

abbreviation next_index :: "u64 \<Rightarrow> u64 option" where
  "next_index i \<equiv> (if i = uint64_max then None else Some (i + 1))"

definition segment_body :: "u64 \<Rightarrow> u64 \<Rightarrow> byte list" where
  "segment_body sequence first_index = wal_magic @ le_bytes 2 storage_format_version @ le_bytes 2 (40 :: 16 word)
     @ le_bytes 4 (0 :: u32) @ le_bytes 8 sequence @ le_bytes 8 first_index"

definition record_fields :: "wal_entry \<Rightarrow> byte list" where
  "record_fields entry = record_magic @ le_bytes 2 storage_format_version @ le_bytes 2 (we_type entry)
     @ le_bytes 4 (40 :: u32) @ le_bytes 8 (we_term entry) @ le_bytes 8 (we_index entry)
     @ le_bytes 8 (of_nat (length (we_payload entry)) :: u64)"

lemma length_magic [simp]: "length wal_magic = 8" "length record_magic = 4"
  by (simp_all add: wal_magic_def record_magic_def)

lemma length_fields [simp]: "length (segment_body n i) = 32" "length (record_fields entry) = 36"
  by (simp_all add: segment_body_def record_fields_def)

lemma make_segment_header_alt:
  "make_segment_header n i = segment_body n i @ le_bytes 4 (crc32c (segment_body n i)) @ le_bytes 4 (0 :: u32)"
  by (simp add: make_segment_header_def segment_body_def Let_def append_le_alt wal_segment_header_size_def)

lemma encode_record_alt:
  "encode_record entry = record_fields entry
     @ le_bytes 4 (crc_finish (crc_update (we_payload entry) (crc_update (record_fields entry) 0xffffffff)))
     @ we_payload entry"
  by (simp add: encode_record_def record_fields_def Let_def append_le_alt wal_record_header_size_def)

lemma length_encoded [simp]:
  "length (make_segment_header n i) = 40" "length (encode_record entry) = 40 + length (we_payload entry)"
  by (simp_all add: make_segment_header_alt encode_record_alt)

lemma parse_segment_header_ok:
  assumes "n \<noteq> 0" "i \<noteq> 0" "expected = None \<or> expected = Some i"
  shows "parse_segment_header (decimal_name ''wal-'' n ''.kwal'') (make_segment_header n i @ rest) expected = Inr (n, i)"
proof -
  let ?view = "make_segment_header n i @ rest"
  have "bytes_at ?view 0 (make_segment_header n i)" by (simp add: bytes_at_def)
  then have at: "bytes_at ?view 0 wal_magic" "bytes_at ?view 8 (le_bytes 2 storage_format_version)"
    "bytes_at ?view 10 (le_bytes 2 (40 :: 16 word))" "bytes_at ?view 12 (le_bytes 4 (0 :: u32))"
    "bytes_at ?view 16 (le_bytes 8 n)" "bytes_at ?view 24 (le_bytes 8 i)"
    "bytes_at ?view 32 (le_bytes 4 (crc32c (segment_body n i)))" "bytes_at ?view 36 (le_bytes 4 (0 :: u32))"
    by (simp_all add: make_segment_header_alt segment_body_def bytes_at_append)
  moreover have "take 8 ?view = wal_magic" by (rule bytes_at_take[THEN iffD2, OF _ at(1)]) simp
  moreover have "take 32 ?view = segment_body n i" by (simp add: make_segment_header_alt)
  ultimately show ?thesis
    unfolding parse_segment_header_def throw_then_parse read_then_parse
    using assms by (auto simp: parse_decimal_name_iff[THEN iffD2] wal_segment_header_size_def)
qed

definition limits_ok :: "storage_limits \<Rightarrow> bool" where
  "limits_ok limits \<longleftrightarrow> wal_segment_bytes limits < 2 ^ 64 \<and> 80 \<le> wal_segment_bytes limits
     \<and> max_wal_payload_bytes limits \<le> wal_segment_bytes limits - 80 \<and> max_recovery_records limits \<noteq> 0"

definition entry_valid :: "storage_limits \<Rightarrow> u64 option \<Rightarrow> wal_entry \<Rightarrow> bool" where
  "entry_valid limits expected entry \<longleftrightarrow> validate_entries limits expected [entry] = Inr ()"

lemma entry_valid_iff:
  "entry_valid limits expected entry \<longleftrightarrow> we_type entry = command_record_type \<and> we_index entry \<noteq> 0
     \<and> expected = Some (we_index entry) \<and> length (we_payload entry) \<le> max_wal_payload_bytes limits
     \<and> 40 + length (we_payload entry) \<le> wal_segment_bytes limits - 40"
  by (auto simp: entry_valid_def wal_record_header_size_def wal_segment_header_size_def)

lemma validate_entries_Cons:
  "validate_entries limits expected (entry # entries) = Inr () \<longleftrightarrow>
     entry_valid limits expected entry \<and> validate_entries limits (next_index (we_index entry)) entries = Inr ()"
  by (simp add: entry_valid_def)

declare validate_entries.simps(2) [simp del]

lemma entry_length:
  assumes "limits_ok limits" "entry_valid limits expected entry"
  shows "unat (of_nat (length (we_payload entry)) :: u64) = length (we_payload entry)"
    "checked_add 40 (of_nat (length (we_payload entry))) = Some (40 + of_nat (length (we_payload entry)))"
    "unat (40 + of_nat (length (we_payload entry)) :: u64) = 40 + length (we_payload entry)"
proof -
  have small: "40 + length (we_payload entry) < 2 ^ 64" using assms by (auto simp: entry_valid_iff limits_ok_def)
  then show len: "unat (of_nat (length (we_payload entry)) :: u64) = length (we_payload entry)" by (simp add: unat_of_nat)
  show sum: "unat (40 + of_nat (length (we_payload entry)) :: u64) = 40 + length (we_payload entry)"
    using small len by (simp add: unat_word_ariths)
  show "checked_add 40 (of_nat (length (we_payload entry))) = Some (40 + of_nat (length (we_payload entry)))"
    using sum len by (simp add: checked_add_iff)
qed

text \<open>The header of a record, at the place where it was written.\<close>

lemma check_header_ok:
  assumes "limits_ok limits" "entry_valid limits expected entry" "40 \<le> k"
  shows "check_header (take 40 (take k (encode_record entry) @ rest)) expected =
    Inr (we_term entry, we_index entry, of_nat (length (we_payload entry)),
      crc_finish (crc_update (we_payload entry) (crc_update (record_fields entry) 0xffffffff)))"
proof -
  let ?sum = "crc_finish (crc_update (we_payload entry) (crc_update (record_fields entry) 0xffffffff))"
  let ?h = "record_fields entry @ le_bytes 4 ?sum"
  have h: "take 40 (take k (encode_record entry) @ rest) = ?h"
    using assms(3) by (simp add: encode_record_alt)
  have "bytes_at ?h 0 ?h" by (simp add: bytes_at_def)
  then have at: "bytes_at ?h 0 record_magic" "bytes_at ?h 4 (le_bytes 2 storage_format_version)"
    "bytes_at ?h 6 (le_bytes 2 (we_type entry))" "bytes_at ?h 8 (le_bytes 4 (40 :: u32))"
    "bytes_at ?h 12 (le_bytes 8 (we_term entry))" "bytes_at ?h 20 (le_bytes 8 (we_index entry))"
    "bytes_at ?h 28 (le_bytes 8 (of_nat (length (we_payload entry)) :: u64))" "bytes_at ?h 36 (le_bytes 4 ?sum)"
    by (simp_all add: record_fields_def bytes_at_append)
  moreover have "take 4 ?h = record_magic" by (rule bytes_at_take[THEN iffD2, OF _ at(1)]) simp
  ultimately show ?thesis
    unfolding h check_header_def throw_then_parse read_then_parse
    using assms(2) by (auto simp: entry_valid_iff wal_record_header_size_def)
qed

lemma scan_record_complete:
  assumes "limits_ok limits" "entry_valid limits expected entry" "first_record \<longrightarrow> we_index entry = first_index"
    "tally < max_recovery_records limits"
  shows "scan_record limits (pre @ encode_record entry @ post) is_final first_index tally (length pre) first_record expected
    = Good entry (length (encode_record entry))"
proof -
  have header: "check_header (take 40 (encode_record entry @ post)) expected =
    Inr (we_term entry, we_index entry, of_nat (length (we_payload entry)),
      crc_finish (crc_update (we_payload entry) (crc_update (record_fields entry) 0xffffffff)))"
    using check_header_ok[OF assms(1,2), of "length (encode_record entry)" post] by simp
  have "take 36 (take 40 (encode_record entry @ post)) = record_fields entry"
    "take (length (we_payload entry)) (drop 40 (encode_record entry @ post)) = we_payload entry"
    by (simp_all add: encode_record_alt)
  then show ?thesis
    using header assms entry_length[OF assms(1,2)]
    by (auto simp: scan_record_def Let_def wal_record_header_size_def entry_valid_iff limits_ok_def)
qed

lemma scan_record_torn:
  assumes "limits_ok limits" "entry_valid limits expected entry" "first_record \<longrightarrow> we_index entry = first_index"
    "k < length (encode_record entry)"
  shows "scan_record limits (pre @ take k (encode_record entry)) True first_index tally (length pre) first_record expected
    = Torn"
proof (cases "k < 40")
  case True
  then show ?thesis using assms(4) by (simp add: scan_record_def Let_def wal_record_header_size_def torn_or_bad_def)
next
  case False
  then have header: "check_header (take 40 (take k (encode_record entry))) expected =
    Inr (we_term entry, we_index entry, of_nat (length (we_payload entry)),
      crc_finish (crc_update (we_payload entry) (crc_update (record_fields entry) 0xffffffff)))"
    using check_header_ok[OF assms(1,2), of k "[]"] by simp
  then show ?thesis
    using False assms entry_length[OF assms(1,2)]
    by (auto simp: scan_record_def Let_def wal_record_header_size_def torn_or_bad_def entry_valid_iff limits_ok_def)
qed

section \<open>Scanning a segment\<close>

fun expected_after :: "u64 option \<Rightarrow> wal_entry list \<Rightarrow> u64 option" where
  "expected_after expected [] = expected"
| "expected_after expected (entry # entries) = expected_after (next_index (we_index entry)) entries"

lemma expected_after_append [simp]:
  "expected_after expected (es @ fs) = expected_after (expected_after expected es) fs"
  by (induction expected es rule: expected_after.induct) simp_all

lemma validate_entries_append:
  "validate_entries limits expected (es @ fs) = Inr () \<longleftrightarrow>
     validate_entries limits expected es = Inr () \<and> validate_entries limits (expected_after expected es) fs = Inr ()"
  by (induction expected es rule: expected_after.induct) (simp_all add: validate_entries_Cons)

lemma validate_entries_None: "validate_entries limits None es = Inr () \<longleftrightarrow> es = []"
  by (cases es) (simp_all add: validate_entries.simps)

definition records_bytes :: "wal_entry list \<Rightarrow> byte list" where
  "records_bytes es = concat (map encode_record es)"

lemma records_bytes_simps [simp]:
  "records_bytes [] = []" "records_bytes (e # es) = encode_record e @ records_bytes es"
  "records_bytes (es @ fs) = records_bytes es @ records_bytes fs"
  by (simp_all add: records_bytes_def)

text \<open>A torn suffix: a proper prefix of the record that comes next.\<close>

definition torn_suffix :: "storage_limits \<Rightarrow> u64 option \<Rightarrow> byte list \<Rightarrow> bool" where
  "torn_suffix limits expected torn \<longleftrightarrow> torn = [] \<or>
     (\<exists>entry k. entry_valid limits expected entry \<and> k < length (encode_record entry) \<and> torn = take k (encode_record entry))"

lemma scan_records_complete:
  assumes "limits_ok limits" "validate_entries limits expected es = Inr ()"
    "torn_suffix limits (expected_after expected es) torn" "torn \<noteq> [] \<longrightarrow> is_final"
    "is_final \<or> expected_after expected es \<noteq> None" "records = [] \<longrightarrow> expected = Some first_index"
    "tally + length records + length es \<le> max_recovery_records limits"
  shows "scan_records limits (pre @ records_bytes es @ torn) is_final first_index tally records (length pre) expected =
    \<lparr>sc_records = records @ es, sc_offset = length pre + length (records_bytes es),
      sc_expected = expected_after expected es, sc_torn = (torn \<noteq> []), sc_error = None\<rparr>"
  using assms
proof (induction es arbitrary: pre expected records)
  case Nil
  show ?case
  proof (cases "torn = []")
    case True
    then show ?thesis by (simp add: scan_records.simps)
  next
    case False
    then obtain entry k where e: "entry_valid limits expected entry" "k < length (encode_record entry)"
      "torn = take k (encode_record entry)"
      using Nil.prems(3) by (auto simp: torn_suffix_def)
    have "records = [] \<longrightarrow> we_index entry = first_index"
      using e(1) Nil.prems(6) by (auto simp: entry_valid_iff)
    then have "scan_record limits (pre @ torn) True first_index (tally + length records) (length pre) (records = []) expected = Torn"
      unfolding e(3) by (intro scan_record_torn[OF Nil.prems(1) e(1) _ e(2)]) simp
    then show ?thesis using False Nil.prems(4) by (simp add: scan_records.simps)
  qed
next
  case (Cons entry es)
  let ?view = "pre @ records_bytes (entry # es) @ torn" and ?tail = "pre @ encode_record entry"
  have v: "entry_valid limits expected entry" "validate_entries limits (next_index (we_index entry)) es = Inr ()"
    using Cons.prems(2) by (simp_all add: validate_entries_Cons)
  have "scan_record limits ?view is_final first_index (tally + length records) (length pre) (records = []) expected
      = Good entry (length (encode_record entry))"
    using scan_record_complete[OF Cons.prems(1) v(1), of "records = []" first_index "tally + length records" pre
        "records_bytes es @ torn"] v(1) Cons.prems(6,7)
    by (simp add: entry_valid_iff)
  moreover have "length pre < length ?view" by simp
  moreover have "\<not> (we_index entry = uint64_max \<and> (length pre + length (encode_record entry) \<noteq> length ?view \<or> \<not> is_final))"
  proof (cases "we_index entry = uint64_max")
    case True
    then have "es = []" using v(2) by (simp add: validate_entries_None)
    then show ?thesis
      using True Cons.prems(3,5) by (auto simp: torn_suffix_def entry_valid_iff)
  qed simp
  ultimately have step: "scan_records limits ?view is_final first_index tally records (length pre) expected =
      scan_records limits (?tail @ records_bytes es @ torn) is_final first_index tally (records @ [entry]) (length ?tail)
        (next_index (we_index entry))"
    by (subst scan_records.simps) (auto simp: Let_def simp del: length_encoded)
  show ?case
    unfolding step using Cons.IH[OF Cons.prems(1) v(2), of "records @ [entry]" ?tail] Cons.prems by simp
qed

section \<open>The directory as a log\<close>

record seg =
  sg_sequence :: u64
  sg_first :: u64
  sg_entries :: "wal_entry list"

definition seg_name :: "seg \<Rightarrow> string" where
  "seg_name sg = decimal_name ''wal-'' (sg_sequence sg) ''.kwal''"

definition seg_bytes :: "seg \<Rightarrow> byte list" where
  "seg_bytes sg = make_segment_header (sg_sequence sg) (sg_first sg) @ records_bytes (sg_entries sg)"

definition seg_next :: "seg \<Rightarrow> u64 option" where
  "seg_next sg = expected_after (Some (sg_first sg)) (sg_entries sg)"

definition seg_ok :: "storage_limits \<Rightarrow> seg \<Rightarrow> bool" where
  "seg_ok limits sg \<longleftrightarrow> sg_sequence sg \<noteq> 0 \<and> sg_first sg \<noteq> 0
     \<and> validate_entries limits (Some (sg_first sg)) (sg_entries sg) = Inr ()
     \<and> length (seg_bytes sg) \<le> wal_segment_bytes limits"

definition linked :: "seg \<Rightarrow> seg \<Rightarrow> bool" where
  "linked a b \<longleftrightarrow> sg_entries a \<noteq> [] \<and> sg_sequence a \<noteq> uint64_max \<and> sg_sequence b = sg_sequence a + 1
     \<and> seg_next a = Some (sg_first b)"

fun seg_files :: "seg list \<Rightarrow> byte list \<Rightarrow> (string \<times> byte list) list" where
  "seg_files [] torn = []"
| "seg_files (sg # sgs) torn = (seg_name sg, seg_bytes sg @ (if sgs = [] then torn else [])) # seg_files sgs torn"

definition wal_name :: "string \<Rightarrow> bool" where
  "wal_name name \<longleftrightarrow> starts_with name ''wal-'' \<and> ends_with name ''.kwal''"

definition log_entries :: "seg list \<Rightarrow> wal_entry list" where
  "log_entries sgs = concat (map sg_entries sgs)"

lemma log_entries_simps [simp]:
  "log_entries [] = []" "log_entries (sg # sgs) = sg_entries sg @ log_entries sgs"
  "log_entries (sgs @ sgs') = log_entries sgs @ log_entries sgs'"
  by (simp_all add: log_entries_def)

definition torn_ok :: "storage_limits \<Rightarrow> seg list \<Rightarrow> byte list \<Rightarrow> bool" where
  "torn_ok limits sgs torn \<longleftrightarrow> torn = [] \<or> sgs \<noteq> [] \<and> torn_suffix limits (seg_next (last sgs)) torn
     \<and> length (seg_bytes (last sgs)) + length torn \<le> wal_segment_bytes limits"

definition log_on_disk :: "storage_limits \<Rightarrow> (string, byte list) omap \<Rightarrow> seg list \<Rightarrow> byte list \<Rightarrow> bool" where
  "log_on_disk limits fs sgs torn \<longleftrightarrow> limits_ok limits \<and> (\<forall>sg \<in> set sgs. seg_ok limits sg) \<and> successively linked sgs
     \<and> torn_ok limits sgs torn \<and> length (log_entries sgs) \<le> max_recovery_records limits
     \<and> (\<forall>name. wal_name name \<longrightarrow> omap_find fs name = map_of (seg_files sgs torn) name)"

lemma seg_name_wal [simp]: "wal_name (seg_name sg)"
  by (simp add: wal_name_def seg_name_def decimal_name_starts)

lemma seg_name_eq: "seg_name a = seg_name b \<longleftrightarrow> sg_sequence a = sg_sequence b"
  by (simp add: seg_name_def)

lemma map_fst_seg_files [simp]: "map fst (seg_files sgs torn) = map seg_name sgs"
  by (induction sgs) simp_all

lemma map_of_seg_files_None: "map_of (seg_files sgs torn) name = None \<longleftrightarrow> name \<notin> seg_name ` set sgs"
  by (simp only: map_of_eq_None_iff set_map[symmetric] map_fst_seg_files)

lemma linked_less: "linked a b \<Longrightarrow> sg_sequence a < sg_sequence b"
  by (simp add: linked_def less_plus1)

lemma linked_sorted:
  assumes "successively linked sgs"
  shows "sorted_wrt (<) (map sg_sequence sgs)"
proof -
  have "successively (\<lambda>a b. sg_sequence a < sg_sequence b) sgs"
    using assms by (rule successively_mono) (simp add: linked_less)
  then have "successively (<) (map sg_sequence sgs)" by (simp add: successively_map)
  then show ?thesis by (simp add: successively_iff_sorted_wrt_strong[OF less_trans])
qed

lemma collect_segments_ok:
  assumes "\<forall>name \<in> set names. wal_name name \<longrightarrow> (\<exists>n. n \<noteq> 0 \<and> name = decimal_name ''wal-'' n ''.kwal'')"
  shows "collect_segments names found = Inr (found @
    map (\<lambda>name. (the (parse_decimal_name name ''wal-'' ''.kwal''), name)) (filter wal_name names))"
  using assms
proof (induction names arbitrary: found)
  case (Cons name names)
  show ?case
  proof (cases "wal_name name")
    case True
    then obtain n where "n \<noteq> 0" "name = decimal_name ''wal-'' n ''.kwal''" using Cons.prems by auto
    then show ?thesis using Cons True by (simp add: parse_decimal_name_iff[THEN iffD2])
  next
    case False
    then have "parse_decimal_name name ''wal-'' ''.kwal'' = None"
      using parse_decimal_name_iff[of name "''wal-''" "''.kwal''"] decimal_name_starts
      by (metis not_None_eq wal_name_def)
    then show ?thesis using Cons False by (simp add: wal_name_def)
  qed
qed simp

lemma no_sequence_gap: "successively linked sgs \<Longrightarrow> \<not> sequence_gap (map sg_sequence sgs)"
  by (induction sgs rule: induct_list012) (auto simp: linked_def)

lemma segment_paths_names:
  assumes sorted: "sorted_wrt (<) (map sg_sequence sgs)" and nonzero: "\<forall>sg \<in> set sgs. sg_sequence sg \<noteq> 0"
    and names: "\<And>name. wal_name name \<Longrightarrow> omap_has (dk_files d) name \<longleftrightarrow> name \<in> seg_name ` set sgs"
  shows "segment_paths F d = (if F (dk_calls d) then Inl io_error
      else if sequence_gap (map sg_sequence sgs) then Inl (Storage_Error ''WAL segment sequence gap or regression'')
      else Inr (map seg_name sgs), d\<lparr>dk_calls := dk_calls d + 1\<rparr>)"
proof -
  let ?pair = "\<lambda>name. (the (parse_decimal_name name ''wal-'' ''.kwal''), name)"
  let ?found = "map ?pair (filter wal_name (omap_keys (dk_files d)))"
  let ?segs = "map (\<lambda>sg. (sg_sequence sg, seg_name sg)) sgs"
  have pair: "?pair (seg_name sg) = (sg_sequence sg, seg_name sg)" for sg
    by (simp add: seg_name_def parse_decimal_name_iff[THEN iffD2])
  have keys: "set (filter wal_name (omap_keys (dk_files d))) = seg_name ` set sgs"
    using names by (auto simp: omap_has_def omap_find_None_keys)
  have collect: "collect_segments (omap_keys (dk_files d)) [] = Inr ?found"
  proof (subst collect_segments_ok, intro ballI impI)
    fix name
    assume "name \<in> set (omap_keys (dk_files d))" "wal_name name"
    then obtain sg where "sg \<in> set sgs" "name = seg_name sg" using keys by auto
    then show "\<exists>n. n \<noteq> 0 \<and> name = decimal_name ''wal-'' n ''.kwal''"
      using nonzero by (auto simp: seg_name_def)
  qed simp
  have same: "set ?found = set ?segs" using keys pair by (simp add: image_image)
  have distinct_found: "distinct ?found"
    by (simp add: distinct_map omap_keys_distinct inj_on_def)
  have "distinct (map fst ?segs)" using sorted by (simp add: strict_sorted_iff comp_def)
  then have segs: "distinct ?segs" "inj_on fst (set ?segs)" by (simp_all only: distinct_map)
  have "mset ?found = mset ?segs"
    by (rule set_eq_iff_mset_eq_distinct[THEN iffD1, OF distinct_found segs(1) same])
  then have "sort_key fst ?found = ?segs"
  proof (rule sort_key_inj_key_eq)
    show "inj_on fst (set ?found)" unfolding same by (rule segs(2))
    show "sorted (map fst ?segs)" using sorted by (simp add: strict_sorted_iff comp_def)
  qed
  then show ?thesis
    using collect by (simp add: segment_paths_def io_then_def system_call_def Let_def comp_def result_simps)
qed

lemma segment_paths_ok:
  assumes log: "log_on_disk limits (dk_files d) sgs torn"
  shows "segment_paths F d = (if F (dk_calls d) then Inl io_error else Inr (map seg_name sgs), d\<lparr>dk_calls := dk_calls d + 1\<rparr>)"
proof -
  have "omap_has (dk_files d) name \<longleftrightarrow> name \<in> seg_name ` set sgs" if "wal_name name" for name
    using log that map_of_seg_files_None[of sgs torn name] by (simp add: log_on_disk_def omap_has_def)
  moreover have "sorted_wrt (<) (map sg_sequence sgs)" "\<forall>sg \<in> set sgs. sg_sequence sg \<noteq> 0"
    using log linked_sorted by (auto simp: log_on_disk_def seg_ok_def)
  ultimately show ?thesis
    using segment_paths_names[of sgs d F] no_sequence_gap[of sgs] log by (simp add: log_on_disk_def)
qed

section \<open>Recovery of one segment\<close>

lemma read_file_outcome:
  assumes "omap_find (dk_files d) name = Some bs" "length bs \<le> maximum"
  obtains d' where "dk_files d' = dk_files d"
    "read_file F name maximum d = (Inr bs, d') \<or> (\<exists>e k. F k \<and> read_file F name maximum d = (Inl e, d'))"
proof -
  have "dk_files (snd (read_file F name maximum d)) = dk_files d
    \<and> (fst (read_file F name maximum d) = Inr bs \<or> (\<exists>e k. F k \<and> fst (read_file F name maximum d) = Inl e))"
    using assms
    by (cases "F (dk_calls d)"; cases "F (Suc (dk_calls d))"; cases "F (Suc (Suc (dk_calls d)))")
      (auto simp: read_file_def open_existing_def io_then_def system_call_def omap_has_def contents_def)
  then show ?thesis using that by (metis prod.collapse)
qed

lemma truncate_torn_outcome:
  assumes "omap_find (dk_files d) name = Some (bs @ torn)"
  obtains (ok) d' where "truncate_torn_suffix F name (length bs) d = (Inr (), d')" "dk_files d' = omap_put name bs (dk_files d)"
  | (fault) d' e k where "F k" "truncate_torn_suffix F name (length bs) d = (Inl e, d')"
      "dk_files d' = dk_files d \<or> dk_files d' = omap_put name bs (dk_files d)"
proof -
  let ?run = "truncate_torn_suffix F name (length bs) d"
  have "fst ?run = Inr () \<and> dk_files (snd ?run) = omap_put name bs (dk_files d)
    \<or> (\<exists>e k. F k \<and> fst ?run = Inl e \<and> (dk_files (snd ?run) = dk_files d \<or> dk_files (snd ?run) = omap_put name bs (dk_files d)))"
    using assms
    by (cases "F (dk_calls d)"; cases "F (Suc (dk_calls d))"; cases "F (Suc (Suc (dk_calls d)))")
      (auto simp: truncate_torn_suffix_def truncate_file_def open_existing_def io_then_def system_call_def omap_has_def
        contents_def synchronize_def set_files_def)
  then show ?thesis using that by (metis prod.collapse)
qed

definition seg_info :: "seg \<Rightarrow> segment_info" where
  "seg_info sg = \<lparr>si_path = seg_name sg, si_sequence = sg_sequence sg, si_first_index = sg_first sg,
     si_maximum_index = last_index_of (sg_entries sg) None, si_size = length (seg_bytes sg)\<rparr>"

definition recovered :: "wal \<Rightarrow> seg \<Rightarrow> disk \<Rightarrow> wal" where
  "recovered s sg d = s\<lparr>wl_disk := d, wl_recovered_record_count := wl_recovered_record_count s + length (sg_entries sg),
     wl_last_index := last_index_of (sg_entries sg) (wl_last_index s), wl_segments := wl_segments s @ [seg_info sg]\<rparr>"

text \<open>What a failed recovery may have changed on disk: it may have removed the torn suffix.\<close>

definition maybe_repaired :: "(string, byte list) omap \<Rightarrow> seg \<Rightarrow> (string, byte list) omap \<Rightarrow> bool" where
  "maybe_repaired fs sg fs' \<longleftrightarrow> fs' = fs \<or> fs' = omap_put (seg_name sg) (seg_bytes sg) fs"

lemma wal_disk_run: "m (wl_disk s) = (r, d) \<Longrightarrow> wal_disk m s = (r, s\<lparr>wl_disk := d\<rparr>)"
  by (simp add: wal_disk_def)

lemma recover_segment_outcome:
  assumes limits: "limits_ok (wl_limits s)" and sg: "seg_ok (wl_limits s) sg"
    and found: "omap_find (dk_files (wl_disk s)) (seg_name sg) = Some (seg_bytes sg @ torn)"
    and torn: "torn_suffix (wl_limits s) (seg_next sg) torn" "torn \<noteq> [] \<longrightarrow> is_final"
      "length (seg_bytes sg) + length torn \<le> wal_segment_bytes (wl_limits s)"
    and interior: "is_final \<or> sg_entries sg \<noteq> [] \<and> seg_next sg \<noteq> None"
    and expected: "expected = None \<or> expected = Some (sg_first sg)"
    and room: "wl_recovered_record_count s + length (sg_entries sg) \<le> max_recovery_records (wl_limits s)"
  obtains (ok) d where "recover_segment F (seg_name sg) is_final expected s = (Inr (sg_entries sg, seg_next sg), recovered s sg d)"
      "dk_files d = omap_put (seg_name sg) (seg_bytes sg) (dk_files (wl_disk s))"
  | (fault) e s' k where "recover_segment F (seg_name sg) is_final expected s = (Inl e, s')" "F k"
      "maybe_repaired (dk_files (wl_disk s)) sg (dk_files (wl_disk s'))" "wl_limits s' = wl_limits s"
proof -
  let ?bytes = "seg_bytes sg @ torn" and ?limits = "wl_limits s"
  let ?scan = "\<lparr>sc_records = sg_entries sg, sc_offset = length (seg_bytes sg), sc_expected = seg_next sg,
      sc_torn = (torn \<noteq> []), sc_error = None\<rparr>"
  have "length ?bytes \<le> wal_segment_bytes ?limits" using torn(3) by simp
  from read_file_outcome[OF found this, of F] obtain d where d: "dk_files d = dk_files (wl_disk s)"
    "read_file F (seg_name sg) (wal_segment_bytes ?limits) (wl_disk s) = (Inr ?bytes, d)
      \<or> (\<exists>e k. F k \<and> read_file F (seg_name sg) (wal_segment_bytes ?limits) (wl_disk s) = (Inl e, d))" .
  have header: "parse_segment_header (seg_name sg) ?bytes expected = Inr (sg_sequence sg, sg_first sg)"
    using parse_segment_header_ok[of "sg_sequence sg" "sg_first sg" expected] sg expected
    by (simp add: seg_ok_def seg_name_def seg_bytes_def)
  have start: "(if expected = None then Some (sg_first sg) else expected) = Some (sg_first sg)"
    using expected by auto
  have scan: "scan_records ?limits ?bytes is_final (sg_first sg) (wl_recovered_record_count s) [] 40 (Some (sg_first sg)) = ?scan"
    using scan_records_complete[of ?limits "Some (sg_first sg)" "sg_entries sg" torn is_final "[]" "sg_first sg"
        "wl_recovered_record_count s" "make_segment_header (sg_sequence sg) (sg_first sg)"]
      limits sg torn interior room
    by (auto simp: seg_ok_def seg_bytes_def seg_next_def)
  have "\<not> (last_index_of (sg_entries sg) None = None \<and> \<not> is_final)" using interior by (auto simp: last_index_of_def)
  moreover define B where "B = ?bytes"
  then have "torn = [] \<Longrightarrow> length B = length (seg_bytes sg)" by simp
  ultimately have "recover_bytes F (seg_name sg) is_final expected B (s\<lparr>wl_disk := d\<rparr>) =
      io_then (if torn \<noteq> [] then wal_disk (truncate_torn_suffix F (seg_name sg) (length (seg_bytes sg))) else io_return ())
        (\<lambda>_ s'. (Inr (sg_entries sg, seg_next sg), s'\<lparr>wl_segments := wl_segments s' @ [seg_info sg]\<rparr>))
        (s\<lparr>wl_disk := d, wl_recovered_record_count := wl_recovered_record_count s + length (sg_entries sg),
          wl_last_index := last_index_of (sg_entries sg) (wl_last_index s)\<rparr>)"
    using header[folded B_def] scan[folded B_def]
    by (cases "torn = []") (auto simp: recover_bytes_def start wal_segment_header_size_def Let_def seg_info_def
        io_then_def split: prod.split sum.split)
  note bytes = this[unfolded B_def]
  have after_read: "recover_segment F (seg_name sg) is_final expected s =
      io_then (if torn \<noteq> [] then wal_disk (truncate_torn_suffix F (seg_name sg) (length (seg_bytes sg))) else io_return ())
        (\<lambda>_ s'. (Inr (sg_entries sg, seg_next sg), s'\<lparr>wl_segments := wl_segments s' @ [seg_info sg]\<rparr>))
        (s\<lparr>wl_disk := d, wl_recovered_record_count := wl_recovered_record_count s + length (sg_entries sg),
          wl_last_index := last_index_of (sg_entries sg) (wl_last_index s)\<rparr>)"
    if "read_file F (seg_name sg) (wal_segment_bytes ?limits) (wl_disk s) = (Inr ?bytes, d)"
    unfolding recover_segment_def bytes[symmetric] by (rule io_then_Inr) (rule wal_disk_run, rule that)
  from d(2) show ?thesis
  proof (elim disjE exE conjE)
    assume run: "read_file F (seg_name sg) (wal_segment_bytes ?limits) (wl_disk s) = (Inr ?bytes, d)"
    show ?thesis
    proof (cases "torn = []")
      case True
      then have "omap_put (seg_name sg) (seg_bytes sg) (dk_files (wl_disk s)) = dk_files (wl_disk s)"
        using found omap_put_same by simp
      then show ?thesis using that(1)[of d] after_read[OF run] True d(1) by (simp add: recovered_def)
    next
      case False
      have "omap_find (dk_files d) (seg_name sg) = Some (seg_bytes sg @ torn)" using found d(1) by simp
      then show ?thesis
      proof (cases rule: truncate_torn_outcome[of d "seg_name sg" "seg_bytes sg" torn F])
        case (ok d')
        then show ?thesis
          using that(1)[of d'] after_read[OF run] False d(1) by (simp add: recovered_def wal_disk_def io_then_def)
      next
        case (fault d' e k)
        then show ?thesis
          using that(2)[of e _ k] after_read[OF run] False d(1)
          by (simp add: maybe_repaired_def wal_disk_def io_then_def)
      qed
    qed
  next
    fix e k
    assume "F k" "read_file F (seg_name sg) (wal_segment_bytes ?limits) (wl_disk s) = (Inl e, d)"
    then show ?thesis
      using that(2)[of e "s\<lparr>wl_disk := d\<rparr>" k] d(1)
      by (simp add: recover_segment_def wal_disk_def io_then_def maybe_repaired_def)
  qed
qed

end
