(* ===== verification/Wal_Log.thy ===== *)
theory Wal_Log
  imports Wal_Recovery
begin

text \<open>
  The write-ahead log as a whole: recovery, appending and truncation keep the directory a log,
  whatever system calls fail, and refine the operations on a plain list of entries.
\<close>

section \<open>Recovery of all segments\<close>

definition repaired :: "seg list \<Rightarrow> (string, byte list) omap \<Rightarrow> (string, byte list) omap" where
  "repaired sgs fs = (if sgs = [] then fs else omap_put (seg_name (last sgs)) (seg_bytes (last sgs)) fs)"

definition all_recovered :: "wal \<Rightarrow> seg list \<Rightarrow> disk \<Rightarrow> wal" where
  "all_recovered s sgs d = s\<lparr>wl_disk := d,
     wl_recovered_record_count := wl_recovered_record_count s + length (log_entries sgs),
     wl_last_index := last_index_of (log_entries sgs) (wl_last_index s),
     wl_segments := wl_segments s @ map seg_info sgs\<rparr>"

lemma last_index_of_append: "last_index_of (es @ fs) i = last_index_of fs (last_index_of es i)"
  by (simp add: last_index_of_def)

lemma all_recovered_Cons: "all_recovered (recovered s sg d) sgs d' = all_recovered s (sg # sgs) d'"
  by (simp add: all_recovered_def recovered_def last_index_of_append add.assoc)

definition readable :: "storage_limits \<Rightarrow> (string, byte list) omap \<Rightarrow> seg list \<Rightarrow> byte list \<Rightarrow> bool" where
  "readable limits fs sgs torn \<longleftrightarrow> limits_ok limits \<and> (\<forall>sg \<in> set sgs. seg_ok limits sg) \<and> successively linked sgs
     \<and> torn_ok limits sgs torn \<and> (\<forall>(name, bs) \<in> set (seg_files sgs torn). omap_find fs name = Some bs)"

lemma recover_segments_outcome:
  assumes "readable (wl_limits s) (dk_files (wl_disk s)) sgs torn"
    "expected = None \<or> sgs = [] \<or> expected = Some (sg_first (hd sgs))"
    "wl_recovered_record_count s + length (log_entries sgs) \<le> max_recovery_records (wl_limits s)"
  obtains (ok) d where "recover_segments F (map seg_name sgs) entries expected s =
      (Inr (entries @ log_entries sgs, if sgs = [] then expected else seg_next (last sgs)), all_recovered s sgs d)"
      "dk_files d = repaired sgs (dk_files (wl_disk s))"
  | (fault) e s' k where "recover_segments F (map seg_name sgs) entries expected s = (Inl e, s')" "F k"
      "dk_files (wl_disk s') \<in> {dk_files (wl_disk s), repaired sgs (dk_files (wl_disk s))}" "wl_limits s' = wl_limits s"
  using assms
proof (induction sgs arbitrary: s expected entries thesis)
  case Nil
  then show ?case using Nil.prems(1)[of "wl_disk s"] by (simp add: all_recovered_def repaired_def last_index_of_def)
next
  case (Cons sg sgs)
  let ?fs = "dk_files (wl_disk s)" and ?torn = "if sgs = [] then torn else []"
  note r = Cons.prems(3)[unfolded readable_def]
  have torn: "torn_suffix (wl_limits s) (seg_next sg) ?torn" "?torn \<noteq> [] \<longrightarrow> sgs = []"
    "length (seg_bytes sg) + length ?torn \<le> wal_segment_bytes (wl_limits s)"
    using r by (auto simp: torn_ok_def torn_suffix_def seg_ok_def)
  have interior: "sgs = [] \<or> sg_entries sg \<noteq> [] \<and> seg_next sg \<noteq> None"
    using r by (cases sgs) (auto simp: linked_def)
  have found: "omap_find ?fs (seg_name sg) = Some (seg_bytes sg @ ?torn)" using r by auto
  have same: "sgs \<noteq> [] \<Longrightarrow> omap_put (seg_name sg) (seg_bytes sg) ?fs = ?fs" using found omap_put_same by simp
  show ?case
  proof (rule recover_segment_outcome[OF _ _ found torn interior, of expected F])
    show "limits_ok (wl_limits s)" "seg_ok (wl_limits s) sg" "expected = None \<or> expected = Some (sg_first sg)"
      "wl_recovered_record_count s + length (sg_entries sg) \<le> max_recovery_records (wl_limits s)"
      using r Cons.prems by auto
  next
    fix d
    assume run: "recover_segment F (seg_name sg) (sgs = []) expected s = (Inr (sg_entries sg, seg_next sg), recovered s sg d)"
      "dk_files d = omap_put (seg_name sg) (seg_bytes sg) ?fs"
    show ?thesis
    proof (cases "sgs = []")
      case True
      then show ?thesis
        using run Cons.prems(1)[of d] all_recovered_Cons[of s sg d "[]" d]
        by (simp add: io_then_def repaired_def all_recovered_def recovered_def last_index_of_def)
    next
      case False
      have fs: "dk_files d = ?fs" using run(2) same False by simp
      have next_seg: "seg_next sg = Some (sg_first (hd sgs))" using r False by (cases sgs) (auto simp: linked_def)
      have step: "recover_segments F (map seg_name (sg # sgs)) entries expected s =
          recover_segments F (map seg_name sgs) (entries @ sg_entries sg) (seg_next sg) (recovered s sg d)"
        using run(1) False by (simp add: io_then_def)
      have state: "wl_limits (recovered s sg d) = wl_limits s" "wl_disk (recovered s sg d) = d"
        "wl_recovered_record_count (recovered s sg d) = wl_recovered_record_count s + length (sg_entries sg)"
        by (simp_all add: recovered_def)
      have rest: "readable (wl_limits s) ?fs sgs torn"
        using r False by (cases sgs) (auto simp: readable_def torn_ok_def)
      show ?thesis
      proof (rule Cons.IH[where s = "recovered s sg d" and expected = "seg_next sg" and entries = "entries @ sg_entries sg"], unfold state fs)
        fix d'
        assume "recover_segments F (map seg_name sgs) (entries @ sg_entries sg) (seg_next sg) (recovered s sg d) =
          (Inr ((entries @ sg_entries sg) @ log_entries sgs, if sgs = [] then seg_next sg else seg_next (last sgs)),
            all_recovered (recovered s sg d) sgs d')" "dk_files d' = repaired sgs ?fs"
        then show ?thesis
          using Cons.prems(1)[of d'] step False by (simp add: all_recovered_Cons repaired_def)
      next
        fix e s' k
        assume "recover_segments F (map seg_name sgs) (entries @ sg_entries sg) (seg_next sg) (recovered s sg d) = (Inl e, s')"
          "F k" "dk_files (wl_disk s') \<in> {?fs, repaired sgs ?fs}" "wl_limits s' = wl_limits s"
        then show ?thesis using Cons.prems(2)[of e s' k] step False by (simp add: repaired_def)
      qed (use rest next_seg Cons.prems(5) in simp_all)
    qed
  next
    fix e s' k
    assume "recover_segment F (seg_name sg) (sgs = []) expected s = (Inl e, s')" "F k"
      "maybe_repaired ?fs sg (dk_files (wl_disk s'))" "wl_limits s' = wl_limits s"
    then show ?thesis
      using Cons.prems(2)[of e s' k] same by (auto simp: io_then_def maybe_repaired_def repaired_def)
  qed
qed

section \<open>The log object and its directory\<close>

definition wal_ok :: "wal \<Rightarrow> seg list \<Rightarrow> bool" where
  "wal_ok s sgs \<longleftrightarrow> wl_healthy s \<and> log_on_disk (wl_limits s) (dk_files (wl_disk s)) sgs []
     \<and> wl_segments s = map seg_info sgs
     \<and> wl_active_file s = (if sgs = [] then None else Some (seg_name (last sgs)))
     \<and> wl_expected_append s = (if sgs = [] then None else seg_next (last sgs))
     \<and> wl_active_size s = (if sgs = [] then 0 else length (seg_bytes (last sgs)))
     \<and> wl_recovered_record_count s = length (log_entries sgs)
     \<and> wl_last_index s = last_index_of (log_entries sgs) None"

lemma seg_files_distinct:
  assumes "successively linked sgs"
  shows "distinct (map fst (seg_files sgs torn))"
proof -
  have "distinct (map sg_sequence sgs)" using linked_sorted[OF assms] by (simp add: strict_sorted_iff)
  then show ?thesis by (simp add: distinct_map inj_on_def seg_name_eq)
qed

lemma log_readable: "log_on_disk limits fs sgs torn \<Longrightarrow> readable limits fs sgs torn"
proof -
  assume log: "log_on_disk limits fs sgs torn"
  have "omap_find fs name = Some bs" if "(name, bs) \<in> set (seg_files sgs torn)" for name bs
  proof -
    have "map_of (seg_files sgs torn) name = Some bs"
      using that log seg_files_distinct by (simp add: log_on_disk_def)
    moreover have "name \<in> set (map fst (seg_files sgs torn))" using that by (metis fst_conv image_eqI set_map)
    then have "wal_name name" by auto
    ultimately show ?thesis using log by (simp add: log_on_disk_def)
  qed
  then show ?thesis using log by (auto simp: log_on_disk_def readable_def)
qed

lemma seg_files_snoc: "seg_files (sgs @ [sg]) torn = seg_files sgs [] @ [(seg_name sg, seg_bytes sg @ torn)]"
  by (induction sgs) simp_all

text \<open>Changing the last segment changes only its file.\<close>

lemma log_on_disk_last:
  assumes log: "log_on_disk limits fs (sgs @ [sg]) torn" and name: "seg_name sg' = seg_name sg"
    and new: "seg_ok limits sg'" "successively linked (sgs @ [sg'])" "torn_ok limits (sgs @ [sg']) torn'"
      "length (log_entries (sgs @ [sg'])) \<le> max_recovery_records limits"
  shows "log_on_disk limits (omap_put (seg_name sg) (seg_bytes sg' @ torn') fs) (sgs @ [sg']) torn'"
proof -
  have "map_of (seg_files sgs []) (seg_name sg) = None"
    using log seg_files_distinct[of "sgs @ [sg]" torn]
    by (simp add: log_on_disk_def seg_files_snoc map_of_seg_files_None)
  then have "omap_find (omap_put (seg_name sg) (seg_bytes sg' @ torn') fs) n = map_of (seg_files (sgs @ [sg']) torn') n"
    if "wal_name n" for n
    using log that name by (auto simp: log_on_disk_def seg_files_snoc map_add_def split: option.split)
  then show ?thesis using log new by (simp add: log_on_disk_def)
qed

lemma log_repaired: "log_on_disk limits fs sgs torn \<Longrightarrow> log_on_disk limits (repaired sgs fs) sgs []"
proof (cases sgs rule: rev_cases)
  case Nil
  assume "log_on_disk limits fs sgs torn"
  then show ?thesis using Nil by (simp add: repaired_def log_on_disk_def torn_ok_def)
next
  case (snoc ss sg)
  assume "log_on_disk limits fs sgs torn"
  then show ?thesis
    using log_on_disk_last[of limits fs ss sg torn sg "[]"] snoc
    by (simp add: repaired_def log_on_disk_def torn_ok_def)
qed

lemma recover_locked_outcome:
  assumes log: "log_on_disk (wl_limits s) (dk_files (wl_disk s)) sgs torn"
  obtains (ok) s' where "recover_locked F s = (Inr (log_entries sgs), s')" "wal_ok s' sgs" "wl_limits s' = wl_limits s"
  | (fault) e s' torn' k where "recover_locked F s = (Inl e, s')" "F k"
      "log_on_disk (wl_limits s) (dk_files (wl_disk s')) sgs torn'" "torn' = torn \<or> torn' = []" "wl_limits s' = wl_limits s"
proof -
  let ?fs = "dk_files (wl_disk s)"
  let ?s0 = "s\<lparr>wl_active_file := None, wl_segments := [], wl_last_index := None,
       wl_expected_append := None, wl_active_size := 0, wl_recovered_record_count := 0\<rparr>"
  let ?s1 = "?s0\<lparr>wl_disk := (wl_disk s)\<lparr>dk_calls := dk_calls (wl_disk s) + 1\<rparr>\<rparr>"
  have paths: "wal_disk (segment_paths F) ?s0 =
      (if F (dk_calls (wl_disk s)) then Inl io_error else Inr (map seg_name sgs), ?s1)"
    using segment_paths_ok[OF log, of F] by (simp add: wal_disk_def)
  show ?thesis
  proof (cases "F (dk_calls (wl_disk s))")
    case True
    then show ?thesis
      using paths that(2)[of io_error ?s1] log by (simp add: recover_locked_def io_then_def)
  next
    case False
    let ?rest = "\<lambda>(entries, expected). io_then (open_last_segment F expected) (\<lambda>_.
       io_then (io_modify (\<lambda>s. s\<lparr>wl_healthy := True\<rparr>)) (\<lambda>_. io_return entries))"
    have start: "recover_locked F s = io_then (recover_segments F (map seg_name sgs) [] None) ?rest ?s1"
      using paths False by (simp add: recover_locked_def io_then_def)
    show ?thesis
    proof (rule recover_segments_outcome[of ?s1 sgs torn None F "[]"])
      fix d
      assume run: "recover_segments F (map seg_name sgs) [] None ?s1 =
          (Inr ([] @ log_entries sgs, if sgs = [] then None else seg_next (last sgs)), all_recovered ?s1 sgs d)"
        "dk_files d = repaired sgs (dk_files (wl_disk ?s1))"
      then have log': "log_on_disk (wl_limits s) (dk_files d) sgs []" using log_repaired[OF log] by simp
      show ?thesis
      proof (cases "sgs = []")
        case True
        then show ?thesis
          using run(1) start log' that(1)
          by (simp add: io_then_def open_last_segment_def all_recovered_def wal_ok_def last_index_of_def)
      next
        case False
        let ?name = "seg_name (last sgs)"
        have last: "last (map seg_info sgs) = seg_info (last sgs)" using False by (simp add: last_map)
        have "omap_has (dk_files d) ?name"
          using run(2) False by (simp add: repaired_def)
        then have opened: "open_existing F ?name d = (if F (dk_calls d) then Inl io_error else Inr (), d\<lparr>dk_calls := dk_calls d + 1\<rparr>)"
          by (simp add: open_existing_def io_then_def system_call_def)
        show ?thesis
        proof (cases "F (dk_calls d)")
          case True
          then show ?thesis
            using run(1) start log' that(2)[of io_error _ "dk_calls d" "[]"] opened False last
            by (simp add: io_then_def open_last_segment_def all_recovered_def wal_disk_def seg_info_def Let_def)
        next
          case no_fault: False
          then show ?thesis
            using run(1) start log' that(1) opened False last
            by (simp add: io_then_def open_last_segment_def all_recovered_def wal_disk_def Let_def wal_ok_def)
              (simp add: seg_info_def)
        qed
      qed
    next
      fix e s' k
      assume run: "recover_segments F (map seg_name sgs) [] None ?s1 = (Inl e, s')" "F k"
        "dk_files (wl_disk s') \<in> {dk_files (wl_disk ?s1), repaired sgs (dk_files (wl_disk ?s1))}" "wl_limits s' = wl_limits ?s1"
      then show ?thesis
        using that(2)[of e s' k] start log log_repaired[OF log] by (auto simp: io_then_def)
    qed (use log log_readable in \<open>auto simp: log_on_disk_def\<close>)
  qed
qed

section \<open>Creating a segment\<close>

lemma log_on_disk_cong:
  assumes "\<And>name. wal_name name \<Longrightarrow> omap_find fs' name = omap_find fs name"
  shows "log_on_disk limits fs' sgs torn \<longleftrightarrow> log_on_disk limits fs sgs torn"
  using assms by (auto simp: log_on_disk_def)

lemma temporary_path_not_wal: "\<not> wal_name (temporary_path now final d)"
  by (simp add: wal_name_def temporary_path_ends is_hex_digit_def is_digit_def)

lemma log_on_disk_snoc:
  assumes log: "log_on_disk limits fs sgs []" and new: "sg_entries sg = []" "sg_sequence sg \<noteq> 0" "sg_first sg \<noteq> 0"
    "successively linked (sgs @ [sg])"
  shows "log_on_disk limits (omap_put (seg_name sg) (seg_bytes sg) fs) (sgs @ [sg]) []"
proof -
  have "map_of (seg_files sgs []) (seg_name sg) = None"
    using seg_files_distinct[OF new(4), of "[]"] by (simp add: seg_files_snoc map_of_seg_files_None)
  then have "omap_find (omap_put (seg_name sg) (seg_bytes sg) fs) n = map_of (seg_files (sgs @ [sg]) []) n"
    if "wal_name n" for n
    using log that by (auto simp: log_on_disk_def seg_files_snoc map_add_def split: option.split)
  moreover have "seg_ok limits sg"
    using log new by (simp add: seg_ok_def seg_bytes_def log_on_disk_def limits_ok_def)
  ultimately show ?thesis using log new by (simp add: log_on_disk_def torn_ok_def)
qed

lemma create_segment_outcome:
  assumes log: "log_on_disk (wl_limits s) (dk_files (wl_disk s)) sgs []"
    and new: "sg_entries sg = []" "sg_sequence sg \<noteq> 0" "sg_first sg \<noteq> 0" "successively linked (sgs @ [sg])"
    and run: "create_segment F now (sg_sequence sg) (sg_first sg) s = (r, s')"
  shows "wl_limits s' = wl_limits s \<and>
    (isl r \<and> (\<exists>sgs' \<in> {sgs, sgs @ [sg]}. log_on_disk (wl_limits s) (dk_files (wl_disk s')) sgs' [])
    \<or> r = Inr () \<and> log_on_disk (wl_limits s) (dk_files (wl_disk s')) (sgs @ [sg]) []
      \<and> s' = s\<lparr>wl_disk := wl_disk s', wl_segments := wl_segments s @ [seg_info sg], wl_active_file := Some (seg_name sg),
          wl_active_size := 40, wl_expected_append := Some (sg_first sg)\<rparr>)"
proof -
  let ?d1 = "(wl_disk s)\<lparr>dk_calls := dk_calls (wl_disk s) + 1\<rparr>" and ?limits = "wl_limits s"
  let ?header = "make_segment_header (sg_sequence sg) (sg_first sg)"
  have bytes: "seg_bytes sg = ?header" using new(1) by (simp add: seg_bytes_def)
  have info: "seg_info sg = \<lparr>si_path = seg_name sg, si_sequence = sg_sequence sg, si_first_index = sg_first sg,
      si_maximum_index = None, si_size = 40\<rparr>"
    using new(1) by (simp add: seg_info_def bytes last_index_of_def)
  have absent: "\<not> omap_has (dk_files (wl_disk s)) (seg_name sg)"
    using log seg_files_distinct[OF new(4), of "[]"]
    by (simp add: log_on_disk_def omap_has_def seg_files_snoc map_of_seg_files_None)
  obtain r1 d2 where written: "publish_new F now (seg_name sg) ?header ?d1 = (r1, d2)" by fastforce
  have start: "create_segment F now (sg_sequence sg) (sg_first sg) s =
    (if F (dk_calls (wl_disk s)) then (Inl io_error, s\<lparr>wl_disk := ?d1\<rparr>)
     else case r1 of Inl e \<Rightarrow> (Inl e, s\<lparr>wl_disk := d2\<rparr>)
     | Inr _ \<Rightarrow> io_then (wal_disk (open_existing F (seg_name sg))) (\<lambda>_.
        io_modify (\<lambda>s. s\<lparr>wl_active_file := Some (seg_name sg), wl_active_size := 40, wl_expected_append := Some (sg_first sg)\<rparr>))
        (s\<lparr>wl_disk := d2, wl_segments := wl_segments s @ [seg_info sg]\<rparr>))"
    using new written absent
    by (simp add: create_segment_def Let_def seg_name_def[symmetric] io_then_def wal_disk_def system_call_def
        wal_segment_header_size_def info split: sum.split)
  have same: "log_on_disk ?limits (dk_files d) sgs []" if "\<And>n. wal_name n \<Longrightarrow> omap_find (dk_files d) n = omap_find (dk_files (wl_disk s)) n" for d
    using log log_on_disk_cong[OF that] by simp
  have more: "log_on_disk ?limits (dk_files d) (sgs @ [sg]) []"
    if "\<And>n. wal_name n \<Longrightarrow> omap_find (dk_files d) n = omap_find (omap_put (seg_name sg) ?header (dk_files (wl_disk s))) n" for d
    using log_on_disk_snoc[OF log new] log_on_disk_cong[OF that] bytes by simp
  have outcome: "isl r1 \<and> log_on_disk ?limits (dk_files d2) sgs [] \<or> log_on_disk ?limits (dk_files d2) (sgs @ [sg]) []"
    using publish_new_outcome[of wal_name, OF seg_name_wal temporary_path_not_wal written] same[of d2] more[of d2] by auto
  show ?thesis
  proof (cases "F (dk_calls (wl_disk s))")
    case True
    then show ?thesis using run start log by (auto simp: log_on_disk_def)
  next
    case False
    show ?thesis
    proof (cases r1)
      case (Inl e)
      then show ?thesis using run start False outcome by auto
    next
      case (Inr u)
      then have log2: "log_on_disk ?limits (dk_files d2) (sgs @ [sg]) []" using outcome by simp
      then have "omap_has (dk_files d2) (seg_name sg)"
        using log_readable[OF log2] by (auto simp: readable_def seg_files_snoc omap_has_def)
      then have "open_existing F (seg_name sg) d2 = (if F (dk_calls d2) then Inl io_error else Inr (), d2\<lparr>dk_calls := dk_calls d2 + 1\<rparr>)"
        by (simp add: open_existing_def io_then_def system_call_def)
      then show ?thesis
        using run start False Inr log2 by (cases "F (dk_calls d2)") (auto simp: io_then_def wal_disk_def)
    qed
  qed
qed

section \<open>Appending one entry\<close>

definition start_of :: "wal \<Rightarrow> wal_entry \<Rightarrow> u64 option" where
  "start_of s entry = (if wl_expected_append s = None then Some (we_index entry) else wl_expected_append s)"

definition log_kept :: "storage_limits \<Rightarrow> wal \<Rightarrow> wal_entry list \<Rightarrow> bool" where
  "log_kept limits s es \<longleftrightarrow> wl_limits s = limits \<and> (\<exists>sgs torn. log_on_disk limits (dk_files (wl_disk s)) sgs torn \<and> log_entries sgs = es)"

definition ready_for :: "wal \<Rightarrow> wal_entry list \<Rightarrow> wal_entry \<Rightarrow> bool" where
  "ready_for s es entry \<longleftrightarrow> (\<exists>sgs sg. wal_ok s (sgs @ [sg]) \<and> log_entries (sgs @ [sg]) = es
     \<and> seg_next sg = Some (we_index entry) \<and> length (seg_bytes sg) + length (encode_record entry) \<le> wal_segment_bytes (wl_limits s))"

lemma minus64_le: "b \<le> a \<Longrightarrow> a < 2 ^ 64 \<Longrightarrow> minus64 a b = a - b"
proof -
  assume le: "b \<le> a" "a < 2 ^ 64"
  then have "a + 2 ^ 64 - b = (a - b) + 2 ^ 64" by simp
  then show ?thesis using le unfolding minus64_def by (simp only: mod_add_self2) simp
qed

lemma expected_None:
  assumes "wal_ok s sgs" "wl_expected_append s = None" "wl_last_index s = None"
  shows "sgs = []"
proof (rule ccontr)
  assume ne: "sgs \<noteq> []"
  then have "seg_next (last sgs) = None" "log_entries sgs = []"
    using assms by (auto simp: wal_ok_def last_index_of_def split: if_splits)
  then show False
    using ne by (metis append_butlast_last_id append_is_Nil_conv expected_after.simps(1) log_entries_simps(2,3)
        option.distinct(1) seg_next_def)
qed

text \<open>After a new segment: ready for the entry, or failed with the same entries on disk.\<close>

lemma new_segment_outcome:
  assumes ok: "wal_ok s0 sgs" and s: "s = s0\<lparr>wl_disk := wl_disk s, wl_active_file := None\<rparr>" "dk_files (wl_disk s) = dk_files (wl_disk s0)"
    and sg: "sg = \<lparr>sg_sequence = n, sg_first = we_index entry, sg_entries = []\<rparr>" "n \<noteq> 0" "successively linked (sgs @ [sg])"
    and entry: "entry_valid (wl_limits s) (Some (we_index entry)) entry"
    and run: "create_segment F now n (we_index entry) s = (r, s')"
  shows "wl_limits s' = wl_limits s \<and> (isl r \<and> log_kept (wl_limits s) s' (log_entries sgs) \<or> r = Inr () \<and> ready_for s' (log_entries sgs) entry)"
proof -
  have lim: "wl_limits s = wl_limits s0" by (subst s(1)) simp
  have log: "log_on_disk (wl_limits s) (dk_files (wl_disk s)) sgs []" using ok s(2) lim by (simp add: wal_ok_def)
  have first: "sg_first sg \<noteq> 0" using entry sg(1) by (simp add: entry_valid_iff)
  from create_segment_outcome[OF log, of sg F now r s'] sg first run
  have out: "wl_limits s' = wl_limits s" "isl r \<and> (\<exists>sgs' \<in> {sgs, sgs @ [sg]}. log_on_disk (wl_limits s) (dk_files (wl_disk s')) sgs' [])
    \<or> r = Inr () \<and> log_on_disk (wl_limits s) (dk_files (wl_disk s')) (sgs @ [sg]) []
      \<and> s' = s\<lparr>wl_disk := wl_disk s', wl_segments := wl_segments s @ [seg_info sg], wl_active_file := Some (seg_name sg),
          wl_active_size := 40, wl_expected_append := Some (sg_first sg)\<rparr>"
    by auto
  have same: "log_entries (sgs @ [sg]) = log_entries sgs" using sg(1) by simp
  from out(2) show ?thesis
  proof (elim disjE conjE bexE)
    fix sgs'
    assume "isl r" "sgs' \<in> {sgs, sgs @ [sg]}" "log_on_disk (wl_limits s) (dk_files (wl_disk s')) sgs' []"
    then show ?thesis using out(1) same by (auto simp: log_kept_def)
  next
    assume r: "r = Inr ()" and log': "log_on_disk (wl_limits s) (dk_files (wl_disk s')) (sgs @ [sg]) []"
      and s': "s' = s\<lparr>wl_disk := wl_disk s', wl_segments := wl_segments s @ [seg_info sg], wl_active_file := Some (seg_name sg),
          wl_active_size := 40, wl_expected_append := Some (sg_first sg)\<rparr>"
    have "wl_healthy s'" "wl_segments s' = map seg_info sgs @ [seg_info sg]" "wl_active_file s' = Some (seg_name sg)"
      "wl_active_size s' = 40" "wl_expected_append s' = Some (we_index entry)"
      "wl_recovered_record_count s' = length (log_entries sgs)" "wl_last_index s' = last_index_of (log_entries sgs) None"
      using ok sg(1) by (subst s', subst s(1), simp add: wal_ok_def)+
    moreover have "seg_next sg = Some (we_index entry)" "length (seg_bytes sg) = 40"
      using sg(1) by (simp_all add: seg_next_def seg_bytes_def)
    ultimately have "wal_ok s' (sgs @ [sg])" using log' out(1) same by (simp add: wal_ok_def)
    moreover have "40 + length (encode_record entry) \<le> wal_segment_bytes (wl_limits s')"
      using entry out(1) by (auto simp: entry_valid_iff)
    ultimately show ?thesis
      using r out(1) same \<open>seg_next sg = _\<close> \<open>length (seg_bytes sg) = 40\<close> unfolding ready_for_def by metis
  qed
qed

lemma successively_snoc: "successively P (xs @ [x]) \<longleftrightarrow> successively P xs \<and> (xs = [] \<or> P (last xs) x)"
  by (cases xs rule: rev_cases) (auto simp: successively_append_iff)

lemma last_seg_info: "sgs \<noteq> [] \<Longrightarrow> last (map seg_info sgs) = seg_info (last sgs)"
  by (simp add: last_map)

lemma ensure_segment_outcome:
  assumes ok: "wal_ok s sgs" and entry: "entry_valid (wl_limits s) (start_of s entry) entry"
    and overflow: "wl_expected_append s = None \<longrightarrow> wl_last_index s = None"
    and run: "ensure_segment F now (we_index entry) (length (encode_record entry)) s = (r, s')"
  shows "wl_limits s' = wl_limits s
    \<and> (isl r \<and> log_kept (wl_limits s) s' (log_entries sgs) \<or> r = Inr () \<and> ready_for s' (log_entries sgs) entry)"
proof (cases "sgs = []")
  case True
  then have s: "wl_active_file s = None" "wl_segments s = []" using ok by (simp_all add: wal_ok_def)
  have "create_segment F now 1 (we_index entry) s = (r, s')"
    using run s by (simp add: ensure_segment_def Let_def)
  then show ?thesis
    using new_segment_outcome[OF ok, of s _ 1 entry F now r s'] s True entry by (simp add: entry_valid_iff start_of_def)
next
  case False
  let ?sg = "last sgs" and ?limits = "wl_limits s"
  have "wl_expected_append s \<noteq> None"
  proof
    assume "wl_expected_append s = None"
    then show False using expected_None[OF ok] overflow False by simp
  qed
  then have "start_of s entry = seg_next ?sg" using ok False by (simp add: start_of_def wal_ok_def)
  then have expected: "seg_next ?sg = Some (we_index entry)" "entry_valid ?limits (Some (we_index entry)) entry"
    using entry by (simp_all add: entry_valid_iff)
  have sg: "seg_ok ?limits ?sg" "limits_ok ?limits" "successively linked sgs" "log_on_disk ?limits (dk_files (wl_disk s)) sgs []"
    using ok False by (auto simp: wal_ok_def log_on_disk_def)
  have active: "wl_active_file s = Some (seg_name ?sg)" "wl_segments s \<noteq> []" "last (wl_segments s) = seg_info ?sg" "wl_active_size s = length (seg_bytes ?sg)"
    using ok False by (auto simp: wal_ok_def last_seg_info)
  have left: "minus64 (wal_segment_bytes ?limits) (wl_active_size s) = wal_segment_bytes ?limits - length (seg_bytes ?sg)"
    using sg active(4) by (simp add: minus64_le seg_ok_def limits_ok_def)
  show ?thesis
  proof (cases "length (encode_record entry) \<le> wal_segment_bytes ?limits - length (seg_bytes ?sg)")
    case True
    then have "r = Inr ()" "s' = s" using run active left by (simp_all add: ensure_segment_def Let_def del: length_encoded)
    moreover have "sgs = butlast sgs @ [?sg]" using False by simp
    then have "ready_for s (log_entries sgs) entry"
      unfolding ready_for_def using True ok sg(1) expected(1) by (metis add_leD2 le_diff_conv2 add.commute seg_ok_def)
    ultimately show ?thesis by simp
  next
    case full: False
    let ?new = "\<lparr>sg_sequence = sg_sequence ?sg + 1, sg_first = we_index entry, sg_entries = []\<rparr>"
    let ?d = "(wl_disk s)\<lparr>dk_calls := dk_calls (wl_disk s) + 1\<rparr>"
    let ?s = "s\<lparr>wl_disk := ?d, wl_active_file := None\<rparr>"
    have nonempty: "sg_entries ?sg \<noteq> []"
      using full expected(2) by (auto simp: seg_bytes_def entry_valid_iff)
    have kept: "log_kept ?limits (s\<lparr>wl_disk := ?d\<rparr>) (log_entries sgs)" "log_kept ?limits ?s (log_entries sgs)"
      using sg(4) by (auto simp: log_kept_def)
    have step: "(r, s') = (if F (dk_calls (wl_disk s)) then (Inl io_error, s\<lparr>wl_disk := ?d\<rparr>)
      else if sg_sequence ?sg = uint64_max then (wal_fail ''WAL segment sequence would overflow'', ?s)
      else create_segment F now (sg_sequence ?sg + 1) (we_index entry) ?s)"
      unfolding run[symmetric] using full active left
      by (simp add: ensure_segment_def Let_def io_then_def wal_disk_def synchronize_def system_call_def seg_info_def
          del: length_encoded)
    show ?thesis
    proof (cases "F (dk_calls (wl_disk s)) \<or> sg_sequence ?sg = uint64_max")
      case True
      then have "isl r \<and> (s' = s\<lparr>wl_disk := ?d\<rparr> \<or> s' = ?s)" using step by (cases "F (dk_calls (wl_disk s))") simp_all
      then show ?thesis using kept by (elim conjE disjE) simp_all
    next
      case go: False
      then have "sg_sequence ?sg + 1 \<noteq> 0" by (metis add.inverse_unique add.commute)
      moreover have "successively linked (sgs @ [?new])"
        using go sg(3) nonempty expected(1) False by (simp add: successively_snoc linked_def)
      moreover have "create_segment F now (sg_sequence ?sg + 1) (we_index entry) ?s = (r, s')" using step go by simp
      ultimately show ?thesis
        using new_segment_outcome[OF ok, of ?s ?new "sg_sequence ?sg + 1" entry F now r s'] expected(2) by simp
    qed
  qed
qed

text \<open>Writing the record into the segment that is ready for it.\<close>

definition record_written :: "wal_entry \<Rightarrow> wal \<Rightarrow> wal" where
  "record_written entry s = s\<lparr>wl_active_size := wl_active_size s + length (encode_record entry),
     wl_segments := update_last (\<lambda>segment. segment\<lparr>si_size := wl_active_size s + length (encode_record entry),
       si_maximum_index := Some (we_index entry)\<rparr>) (wl_segments s),
     wl_last_index := Some (we_index entry), wl_recovered_record_count := wl_recovered_record_count s + 1,
     wl_expected_append := next_index (we_index entry)\<rparr>"

definition add_entry :: "seg \<Rightarrow> wal_entry \<Rightarrow> seg" where
  "add_entry sg entry = sg\<lparr>sg_entries := sg_entries sg @ [entry]\<rparr>"

lemma add_entry_simps [simp]:
  "seg_name (add_entry sg entry) = seg_name sg" "seg_bytes (add_entry sg entry) = seg_bytes sg @ encode_record entry"
  "sg_entries (add_entry sg entry) = sg_entries sg @ [entry]" "seg_next (add_entry sg entry) = next_index (we_index entry)"
  "linked a (add_entry sg entry) = linked a sg"
  "sg_sequence (add_entry sg entry) = sg_sequence sg" "sg_first (add_entry sg entry) = sg_first sg"
  by (simp_all add: add_entry_def seg_name_def seg_bytes_def seg_next_def linked_def)

lemma add_entry_log:
  assumes log: "log_on_disk limits fs (sgs @ [sg]) []" and entry: "entry_valid limits (seg_next sg) entry"
    and room: "length (seg_bytes sg) + length (encode_record entry) \<le> wal_segment_bytes limits"
      "length (log_entries (sgs @ [sg])) < max_recovery_records limits"
  shows "log_on_disk limits (omap_put (seg_name sg) (seg_bytes sg @ encode_record entry) fs) (sgs @ [add_entry sg entry]) []"
    and "k < length (encode_record entry) \<Longrightarrow>
      log_on_disk limits (omap_put (seg_name sg) (seg_bytes sg @ take k (encode_record entry)) fs) (sgs @ [sg]) (take k (encode_record entry))"
proof -
  have ok: "seg_ok limits (add_entry sg entry)"
    using log entry room(1)
    by (simp add: log_on_disk_def seg_ok_def validate_entries_append entry_valid_def seg_next_def)
  show "log_on_disk limits (omap_put (seg_name sg) (seg_bytes sg @ encode_record entry) fs) (sgs @ [add_entry sg entry]) []"
    using log_on_disk_last[OF log, of "add_entry sg entry" "[]"] ok log room
    by (simp add: log_on_disk_def successively_snoc torn_ok_def del: length_encoded)
  assume "k < length (encode_record entry)"
  then have "torn_suffix limits (seg_next sg) (take k (encode_record entry))"
    using entry unfolding torn_suffix_def by blast
  moreover have "length (seg_bytes sg) + length (take k (encode_record entry)) \<le> wal_segment_bytes limits"
    using room(1) by simp
  ultimately have "torn_ok limits (sgs @ [sg]) (take k (encode_record entry))" unfolding torn_ok_def by simp
  then show "log_on_disk limits (omap_put (seg_name sg) (seg_bytes sg @ take k (encode_record entry)) fs) (sgs @ [sg]) (take k (encode_record entry))"
    using log by (intro log_on_disk_last[OF log refl]) (simp_all add: log_on_disk_def)
qed

lemma append_one_outcome:
  assumes ok: "wal_ok s sgs" and entry: "entry_valid (wl_limits s) (start_of s entry) entry"
    and overflow: "wl_expected_append s = None \<longrightarrow> wl_last_index s = None"
    and room: "length (log_entries sgs) < max_recovery_records (wl_limits s)"
    and run: "append_one F now entry s = (r, s')"
  shows "wl_limits s' = wl_limits s \<and>
    (isl r \<and> (log_kept (wl_limits s) s' (log_entries sgs) \<or> log_kept (wl_limits s) s' (log_entries sgs @ [entry]))
    \<or> r = Inr () \<and> (\<exists>sgs'. wal_ok s' sgs' \<and> log_entries sgs' = log_entries sgs @ [entry]) \<and> wl_expected_append s' = next_index (we_index entry)
      \<and> wl_last_index s' \<noteq> None)"
proof -
  let ?limits = "wl_limits s"
  obtain r1 s1 where ensure: "ensure_segment F now (we_index entry) (length (encode_record entry)) s = (r1, s1)" by fastforce
  note first = ensure_segment_outcome[OF ok entry overflow ensure]
  show ?thesis
  proof (cases r1)
    case (Inl e)
    then have "r = Inl e" "s' = s1" using run ensure by (simp_all add: append_one_def Let_def io_then_def del: length_encoded)
    then show ?thesis using first Inl by auto
  next
    case (Inr u)
    then obtain ss sg where sg: "wal_ok s1 (ss @ [sg])" "log_entries (ss @ [sg]) = log_entries sgs" "seg_next sg = Some (we_index entry)"
      "length (seg_bytes sg) + length (encode_record entry) \<le> wal_segment_bytes ?limits" and lim: "wl_limits s1 = ?limits"
      using first unfolding ready_for_def by auto
    let ?fs = "dk_files (wl_disk s1)" and ?bytes = "encode_record entry"
    have log: "log_on_disk ?limits ?fs (ss @ [sg]) []" and active: "wl_active_file s1 = Some (seg_name sg)"
      using sg(1) lim by (simp_all add: wal_ok_def)
    have valid: "entry_valid ?limits (seg_next sg) entry" using entry sg(3) by (simp add: entry_valid_iff)
    have few: "length (log_entries (ss @ [sg])) < max_recovery_records ?limits" using room sg(2) by simp
    obtain r2 d where written: "write_all F (seg_name sg) ?bytes (wl_disk s1) = (r2, d)" by fastforce
    have rest: "(r, s') = (case r2 of Inl e \<Rightarrow> (Inl e, s1\<lparr>wl_disk := d\<rparr>) | Inr _ \<Rightarrow> (Inr (), record_written entry (s1\<lparr>wl_disk := d\<rparr>)))"
      unfolding run[symmetric] using ensure Inr active written
      by (cases r2) (simp_all add: append_one_def Let_def io_then_def wal_disk_def record_written_def del: length_encoded)
    have "omap_find ?fs (seg_name sg) = Some (seg_bytes sg)"
      using log_readable[OF log] by (auto simp: readable_def seg_files_snoc)
    from write_all_prefix[OF this written] obtain k where k: "k \<le> length ?bytes"
      "dk_files d = omap_put (seg_name sg) (seg_bytes sg @ take k ?bytes) ?fs" "r2 = Inr () \<and> k = length ?bytes \<or> r2 = Inl io_error" .
    note logs = add_entry_log[OF log valid sg(4) few]
    have complete: "log_on_disk ?limits (dk_files d) (ss @ [add_entry sg entry]) []" if "k = length ?bytes"
      using logs(1) k(2) that by simp
    have es: "log_entries (ss @ [add_entry sg entry]) = log_entries sgs @ [entry]" using sg(2) by simp
    show ?thesis
    proof (cases r2)
      case (Inl e)
      then have "r = Inl e" "s' = s1\<lparr>wl_disk := d\<rparr>" using rest by simp_all
      moreover have "log_kept ?limits (s1\<lparr>wl_disk := d\<rparr>) (log_entries sgs) \<or> log_kept ?limits (s1\<lparr>wl_disk := d\<rparr>) (log_entries sgs @ [entry])"
        using complete es logs(2)[of k] k sg(2) lim by (cases "k = length ?bytes") (auto simp: log_kept_def)
      ultimately show ?thesis using lim by simp
    next
      case (Inr u2)
      then have r: "r = Inr ()" and s': "s' = record_written entry (s1\<lparr>wl_disk := d\<rparr>)" using rest by simp_all
      have "wal_ok s' (ss @ [add_entry sg entry])"
        using complete k(3) Inr sg(1,2) lim es unfolding s'
        by (auto simp: wal_ok_def record_written_def update_last_def seg_info_def last_index_of_def)
      then show ?thesis using r s' es lim by (auto simp: record_written_def)
    qed
  qed
qed

section \<open>Appending\<close>

definition accepts :: "wal \<Rightarrow> wal_entry list \<Rightarrow> bool" where
  "accepts s es \<longleftrightarrow> es = [] \<or> (wl_expected_append s = None \<longrightarrow> wl_last_index s = None)
     \<and> validate_entries (wl_limits s) (start_of s (hd es)) es = Inr ()"

lemma append_loop_outcome:
  assumes "wal_ok s sgs" "accepts s es" "length (log_entries sgs) + length es \<le> max_recovery_records (wl_limits s)"
    "io_for es (append_one F now) s = (r, s')"
  shows "wl_limits s' = wl_limits s \<and>
    (isl r \<and> (\<exists>k \<le> length es. log_kept (wl_limits s) s' (log_entries sgs @ take k es))
    \<or> r = Inr () \<and> (\<exists>sgs'. wal_ok s' sgs' \<and> log_entries sgs' = log_entries sgs @ es))"
  using assms
proof (induction es arbitrary: s sgs)
  case Nil
  then show ?case by auto
next
  case (Cons entry es)
  let ?limits = "wl_limits s"
  obtain r1 s1 where one: "append_one F now entry s = (r1, s1)" by fastforce
  have v: "entry_valid ?limits (start_of s entry) entry" "validate_entries ?limits (next_index (we_index entry)) es = Inr ()"
    "wl_expected_append s = None \<longrightarrow> wl_last_index s = None" "length (log_entries sgs) < max_recovery_records ?limits"
    using Cons.prems(2,3) by (auto simp: accepts_def validate_entries_Cons)
  note out = append_one_outcome[OF Cons.prems(1) v(1,3,4) one]
  show ?case
  proof (cases r1)
    case (Inl e)
    then have "r = Inl e" "s' = s1" using Cons.prems(4) one by (simp_all add: io_then_def)
    moreover have "\<exists>k \<le> length (entry # es). log_kept ?limits s1 (log_entries sgs @ take k (entry # es))"
      using out Inl by (auto intro: exI[of _ 0] exI[of _ 1])
    ultimately show ?thesis using out Inl by auto
  next
    case (Inr u)
    then obtain sgs1 where sgs1: "wal_ok s1 sgs1" "log_entries sgs1 = log_entries sgs @ [entry]"
      "wl_expected_append s1 = next_index (we_index entry)" "wl_last_index s1 \<noteq> None" "wl_limits s1 = ?limits"
      using out by auto
    have "accepts s1 es"
      using v(2) sgs1(3,4,5) by (cases "we_index entry = uint64_max") (auto simp: accepts_def validate_entries_None start_of_def)
    moreover have "io_for es (append_one F now) s1 = (r, s')" using Cons.prems(4) one Inr by (simp add: io_then_def)
    ultimately have IH: "isl r \<and> (\<exists>k \<le> length es. log_kept ?limits s' (log_entries sgs1 @ take k es))
        \<or> r = Inr () \<and> (\<exists>sgs'. wal_ok s' sgs' \<and> log_entries sgs' = log_entries sgs1 @ es)" "wl_limits s' = ?limits"
      using Cons.IH[OF sgs1(1)] Cons.prems(3) sgs1(2,5) by auto
    then show ?thesis
      unfolding sgs1(2) by (elim disjE conjE exE) (auto intro!: exI[of _ "Suc _"])
  qed
qed

lemma validate_append_accepts:
  assumes "wal_ok s sgs" "validate_append s es = Inr ()"
  shows "accepts s es" "length (log_entries sgs) + length es \<le> max_recovery_records (wl_limits s)"
  using assms
  by (auto simp: validate_append_def Let_def accepts_def start_of_def wal_ok_def log_on_disk_def split: if_splits list.splits)

definition wal_inv :: "wal \<Rightarrow> wal_entry list \<Rightarrow> bool" where
  "wal_inv s es \<longleftrightarrow> log_kept (wl_limits s) s es \<and> (wl_healthy s \<longrightarrow> (\<exists>sgs. wal_ok s sgs \<and> log_entries sgs = es))"

lemma wal_ok_inv: "wal_ok s sgs \<Longrightarrow> wal_inv s (log_entries sgs)"
  by (auto simp: wal_inv_def log_kept_def wal_ok_def)

lemma log_kept_update: "wl_disk s' = wl_disk s \<Longrightarrow> wl_limits s' = wl_limits s \<Longrightarrow> log_kept limits s' es = log_kept limits s es"
  by (simp add: log_kept_def)

lemma append_wal_outcome:
  assumes inv: "wal_inv s es" and run: "append_wal F now new durability s = (r, s')"
  shows "wl_limits s' = wl_limits s \<and> (\<exists>k \<le> length new. wal_inv s' (es @ take k new) \<and> (\<not> isl r \<longrightarrow> k = length new))"
proof (cases "wl_healthy s \<and> new \<noteq> [] \<and> validate_append s new = Inr ()")
  case False
  then have "s' = s \<and> (isl r \<or> new = [])"
    using run[symmetric] by (cases "validate_append s new"; cases "wl_healthy s"; cases "new = []") (simp_all add: append_wal_def)
  then show ?thesis using inv by (auto intro!: exI[of _ 0])
next
  case True
  then obtain sgs where sgs: "wal_ok s sgs" "log_entries sgs = es" using inv by (auto simp: wal_inv_def)
  obtain r1 s1 where loop: "io_for new (append_one F now) s = (r1, s1)" by fastforce
  note out = append_loop_outcome[OF sgs(1) validate_append_accepts[OF sgs(1)] loop, unfolded sgs(2)]
  let ?stop = "\<lambda>s. s\<lparr>wl_healthy := False, wl_active_file := None\<rparr>"
  have stop: "wal_inv (?stop s2) es'" if "log_kept (wl_limits s2) s2 es'" for s2 es'
    using that by (simp add: wal_inv_def log_kept_def)
  show ?thesis
  proof (cases r1)
    case (Inl e)
    then have "r = Inl e" "s' = ?stop s1"
      using run True loop by (simp_all add: append_wal_def io_on_exception_def io_then_def)
    then show ?thesis using out True Inl stop[of s1] by auto
  next
    case (Inr u)
    then obtain sgs1 where sgs1: "wal_ok s1 sgs1" "log_entries sgs1 = es @ new" and lim: "wl_limits s1 = wl_limits s"
      using out True by auto
    let ?s2 = "s1\<lparr>wl_disk := (wl_disk s1)\<lparr>dk_calls := dk_calls (wl_disk s1) + 1\<rparr>\<rparr>"
    have "wal_ok ?s2 sgs1" using sgs1(1) by (simp add: wal_ok_def)
    then have inv2: "wal_inv ?s2 (es @ new)" "wal_inv s1 (es @ new)" using wal_ok_inv sgs1 by metis+
    have "s' = s1 \<and> r = Inr () \<or> s' = ?s2 \<and> r = Inr () \<or> s' = ?stop ?s2 \<and> isl r"
      using run True loop Inr
      by (cases "F (dk_calls (wl_disk s1))")
        (auto simp: append_wal_def io_on_exception_def io_then_def wal_disk_def synchronize_def system_call_def split: if_splits)
    then show ?thesis
    proof (elim disjE conjE)
      assume "s' = ?stop ?s2" "isl r"
      then show ?thesis using stop[of ?s2] inv2(1) lim by (auto simp: wal_inv_def)
    qed (use inv2 lim in auto)
  qed
qed

section \<open>Recovery and opening\<close>

lemma recover_outcome:
  assumes "log_kept (wl_limits s) s es" "recover_locked F s = (r, s')"
  shows "wl_limits s' = wl_limits s \<and> log_kept (wl_limits s) s' es
    \<and> (\<forall>es'. r = Inr es' \<longrightarrow> es' = es \<and> wl_healthy s' \<and> wal_inv s' es) \<and> (isl r \<longrightarrow> (\<exists>k. F k))"
proof -
  obtain sgs torn where log: "log_on_disk (wl_limits s) (dk_files (wl_disk s)) sgs torn" "log_entries sgs = es"
    using assms(1) by (auto simp: log_kept_def)
  show ?thesis
  proof (rule recover_locked_outcome[OF log(1), of F])
    fix s1
    assume "recover_locked F s = (Inr (log_entries sgs), s1)" "wal_ok s1 sgs" "wl_limits s1 = wl_limits s"
    then show ?thesis using assms(2) log(2) wal_ok_inv[of s1 sgs] by (auto simp: wal_inv_def wal_ok_def)
  next
    fix e s1 torn' k
    assume "recover_locked F s = (Inl e, s1)" "F k" "log_on_disk (wl_limits s) (dk_files (wl_disk s1)) sgs torn'"
      "wl_limits s1 = wl_limits s"
    then show ?thesis using assms(2) log(2) by (auto simp: log_kept_def)
  qed
qed

definition disk_log :: "storage_limits \<Rightarrow> disk \<Rightarrow> wal_entry list \<Rightarrow> bool" where
  "disk_log limits d es \<longleftrightarrow> (\<exists>sgs torn. log_on_disk limits (dk_files d) sgs torn \<and> log_entries sgs = es)"

lemma log_kept_disk: "log_kept limits s es \<longleftrightarrow> wl_limits s = limits \<and> disk_log limits (wl_disk s) es"
  by (simp add: log_kept_def disk_log_def)

lemma disk_log_files: "dk_files d' = dk_files d \<Longrightarrow> disk_log limits d' es = disk_log limits d es"
  by (simp add: disk_log_def)

lemma open_wal_outcome:
  assumes log: "disk_log limits d es" and run: "open_wal F limits d = (r, d')"
  shows "disk_log limits d' es \<and> (\<forall>s. r = Inr s \<longrightarrow> wl_limits s = limits \<and> wl_disk s = d' \<and> wl_healthy s \<and> wal_inv s es)
    \<and> (isl r \<longrightarrow> (\<exists>k. F k))"
proof -
  let ?s = "\<lparr>wl_disk = d, wl_limits = limits, wl_segments = [], wl_active_file = None, wl_last_index = None,
            wl_expected_append = None, wl_active_size = 0, wl_recovered_record_count = 0, wl_healthy = True\<rparr>"
  let ?s1 = "?s\<lparr>wl_disk := d\<lparr>dk_calls := dk_calls d + 1\<rparr>\<rparr>"
  have limits: "\<not> (wal_segment_bytes limits < wal_segment_header_size + wal_record_header_size
        \<or> max_wal_payload_bytes limits > wal_segment_bytes limits - wal_segment_header_size - wal_record_header_size
        \<or> max_recovery_records limits = 0)"
    using log by (auto simp: disk_log_def log_on_disk_def limits_ok_def wal_segment_header_size_def wal_record_header_size_def)
  have kept: "log_kept limits ?s1 es" using log by (simp add: log_kept_disk disk_log_def)
  obtain r1 s1 where rec: "recover_locked F ?s1 = (r1, s1)" by fastforce
  have out: "wl_limits s1 = limits" "disk_log limits (wl_disk s1) es" "r1 = Inr es' \<Longrightarrow> wl_healthy s1 \<and> wal_inv s1 es"
    "isl r1 \<Longrightarrow> \<exists>k. F k" for es'
    using recover_outcome[of ?s1 es F r1 s1] kept rec by (simp_all add: log_kept_disk)
  show ?thesis
  proof (cases "F (dk_calls d)")
    case True
    then have "d' = d\<lparr>dk_calls := dk_calls d + 1\<rparr>" "isl r"
      using run limits by (auto simp: open_wal_def io_then_def wal_disk_def system_call_def)
    then show ?thesis using True log by (auto simp: disk_log_def)
  next
    case False
    then have "(r, d') = (case r1 of Inl e \<Rightarrow> (Inl e, wl_disk s1) | Inr _ \<Rightarrow> (Inr s1, wl_disk s1))"
      unfolding run[symmetric] using limits rec
      by (cases r1) (simp_all add: open_wal_def io_then_def wal_disk_def system_call_def)
    then show ?thesis using out by (cases r1) auto
  qed
qed

section \<open>Truncation\<close>

text \<open>The indices of a run of entries increase.\<close>

lemma run_indices:
  assumes "validate_entries limits (Some i) es = Inr ()" "e \<in> set es"
  shows "i \<le> we_index e \<and> we_index e \<le> we_index (last es)"
  using assms
proof (induction es arbitrary: i e)
  case (Cons x es)
  then have x: "we_index x = i" "validate_entries limits (next_index i) es = Inr ()"
    by (auto simp: validate_entries_Cons entry_valid_iff)
  show ?case
  proof (cases "es = []")
    case True
    then show ?thesis using Cons.prems x(1) by simp
  next
    case False
    then have max: "i \<noteq> uint64_max" using x(2) by (auto simp: validate_entries_None)
    then have IH: "i + 1 \<le> we_index e \<and> we_index e \<le> we_index (last es)" if "e \<in> set es" for e
      using Cons.IH[of "i + 1"] x(2) that by simp
    have "i < i + 1" using max by (rule less_plus1)
    then show ?thesis
      using Cons.prems(2) x(1) False IH[of e] IH[of "last es"] by (auto simp: less_imp_le intro: order.trans)
  qed
qed simp

lemma expected_after_last: "es \<noteq> [] \<Longrightarrow> expected_after i es = next_index (we_index (last es))"
  by (induction i es rule: expected_after.induct) auto

definition covered :: "log_index \<Rightarrow> seg \<Rightarrow> bool" where
  "covered index sg \<longleftrightarrow> sg_entries sg \<noteq> [] \<and> we_index (last (sg_entries sg)) \<le> index"

lemma covered_before:
  assumes "linked a b" "seg_ok limits b" "covered index b"
  shows "covered index a"
proof -
  have ne: "sg_entries a \<noteq> []" "sg_entries b \<noteq> []" using assms by (auto simp: linked_def covered_def)
  have "sg_first b \<le> we_index (last (sg_entries b))"
    using run_indices[of limits "sg_first b" "sg_entries b" "last (sg_entries b)"] assms(2) ne by (simp add: seg_ok_def)
  moreover have "we_index (last (sg_entries a)) < sg_first b"
    using assms(1) ne less_plus1[of "we_index (last (sg_entries a))"]
    by (auto simp: linked_def seg_next_def expected_after_last split: if_splits)
  ultimately show ?thesis using assms(3) ne unfolding covered_def by (metis order.strict_implies_order order.trans)
qed

lemma removable_prefix:
  assumes "successively linked sgs" "\<forall>sg \<in> set sgs. seg_ok limits sg"
  obtains j where "removable index (map seg_info sgs) = map seg_name (take j sgs)" "\<forall>sg \<in> set (take j sgs). covered index sg"
    "sgs = [] \<or> j < length sgs"
proof -
  have names: "removable index (map seg_info sgs) = map seg_name (filter (covered index) (butlast sgs))"
    by (simp add: removable_def map_butlast[symmetric] filter_map comp_def seg_info_def last_index_of_def
        covered_def[abs_def] cong: conj_cong)
  have none: "\<not> covered index a \<Longrightarrow> successively linked (a # ss) \<Longrightarrow> \<forall>sg \<in> set ss. seg_ok limits sg \<Longrightarrow> filter (covered index) ss = []" for a ss
  proof (induction ss arbitrary: a)
    case (Cons b ss)
    then have "\<not> covered index b" using covered_before[of a b limits] by auto
    then show ?case using Cons by auto
  qed simp
  have "\<exists>j. filter (covered index) (butlast sgs) = take j sgs \<and> (sgs = [] \<or> j < length sgs)"
    using assms
  proof (induction sgs)
    case (Cons a sgs)
    show ?case
    proof (cases "sgs \<noteq> [] \<and> covered index a")
      case True
      moreover obtain j where "filter (covered index) (butlast sgs) = take j sgs" "sgs = [] \<or> j < length sgs"
        using Cons by (metis list.set_intros(2) successively_Cons successively.simps(1))
      ultimately show ?thesis by (intro exI[of _ "Suc j"]) simp
    next
      case False
      have "filter (covered index) sgs = []" if "\<not> covered index a" using none[OF that, of sgs] Cons.prems by simp
      then have "filter (covered index) (butlast (a # sgs)) = []"
        using False by (auto simp: filter_empty_conv dest: in_set_butlastD)
      then show ?thesis by (intro exI[of _ 0]) simp
    qed
  qed simp
  then obtain j where j: "filter (covered index) (butlast sgs) = take j sgs" "sgs = [] \<or> j < length sgs" by blast
  have "\<forall>sg \<in> set (take j sgs). covered index sg" unfolding j(1)[symmetric] by simp
  then show ?thesis using that j names by metis
qed

lemma log_drop_first:
  assumes log: "log_on_disk limits fs (sg # sgs) torn" and ne: "sgs \<noteq> []"
  shows "log_on_disk limits (omap_drop (seg_name sg) fs) sgs torn"
proof -
  have "seg_name sg \<notin> seg_name ` set sgs" using log seg_files_distinct[of "sg # sgs" torn] by (simp add: log_on_disk_def)
  then have "map_of (seg_files sgs torn) (seg_name sg) = None" by (simp add: map_of_seg_files_None)
  then have "omap_find (omap_drop (seg_name sg) fs) n = map_of (seg_files sgs torn) n" if "wal_name n" for n
    using log that by (auto simp: log_on_disk_def)
  then show ?thesis using log ne by (cases sgs) (auto simp: log_on_disk_def torn_ok_def)
qed

lemma remove_segments_outcome:
  assumes "log_on_disk limits (dk_files d) sgs torn" "j < length sgs" "remove_segments F (map seg_name (take j sgs)) d = (r, d')"
  obtains i where "i \<le> j" "log_on_disk limits (dk_files d') (drop i sgs) torn" "r = Inr () \<longrightarrow> i = j"
  using assms
proof (induction j arbitrary: d sgs thesis)
  case 0
  then show ?case by (simp add: remove_segments_def)
next
  case (Suc j)
  obtain sg ss where sgs: "sgs = sg # ss" "ss \<noteq> []" "j < length ss" using Suc.prems(3) by (cases sgs; cases "tl sgs") auto
  let ?fs = "omap_drop (seg_name sg) (dk_files d)"
  have log: "log_on_disk limits ?fs ss torn" using log_drop_first Suc.prems(2) sgs by blast
  have "omap_has (dk_files d) (seg_name sg)"
    using log_readable[OF Suc.prems(2)] sgs(1) by (auto simp: readable_def omap_has_def)
  then have remove: "remove_file F (seg_name sg) d =
      (if F (dk_calls d) then (Inl io_error, d\<lparr>dk_calls := dk_calls d + 1\<rparr>) else (Inr (), set_files ?fs (d\<lparr>dk_calls := dk_calls d + 1\<rparr>)))"
    by (simp add: remove_file_def io_then_def system_call_def)
  let ?d = "(set_files ?fs (d\<lparr>dk_calls := dk_calls d + 1\<rparr>))\<lparr>dk_calls := dk_calls d + 2\<rparr>"
  have step: "(r, d') = (if F (dk_calls d) then (Inl io_error, d\<lparr>dk_calls := dk_calls d + 1\<rparr>)
      else if F (dk_calls d + 1) then (Inl io_error, ?d) else remove_segments F (map seg_name (take j ss)) ?d)"
    unfolding Suc.prems(4)[symmetric] using sgs(1)
    by (simp add: remove_segments_def io_then_def remove synchronize_directory_best_effort_def system_call_def)
  show ?case
  proof (cases "F (dk_calls d) \<or> F (dk_calls d + 1)")
    case True
    then consider "d' = d\<lparr>dk_calls := dk_calls d + 1\<rparr>" "r \<noteq> Inr ()" | "d' = ?d" "r \<noteq> Inr ()"
      using step by (cases "F (dk_calls d)") simp_all
    then show ?thesis
    proof cases
      case 1
      then show ?thesis using Suc.prems(1)[of 0] Suc.prems(2) by simp
    next
      case 2
      then show ?thesis using Suc.prems(1)[of 1] log sgs(1) by simp
    qed
  next
    case False
    then have run: "remove_segments F (map seg_name (take j ss)) ?d = (r, d')" using step by simp
    have "log_on_disk limits (dk_files ?d) ss torn" using log by simp
    from Suc.IH[OF _ this sgs(3) run] obtain i where "i \<le> j" "log_on_disk limits (dk_files d') (drop i ss) torn" "r = Inr () \<longrightarrow> i = j"
      by blast
    then show ?thesis using Suc.prems(1)[of "Suc i"] sgs(1) by simp
  qed
qed

lemma covered_entries:
  assumes "seg_ok limits sg" "covered index sg" "e \<in> set (sg_entries sg)"
  shows "we_index e \<le> index"
  using run_indices[of limits "sg_first sg" "sg_entries sg" e] assms by (auto simp: seg_ok_def covered_def)

definition snapshot_covers :: "stored_snapshot option result \<Rightarrow> log_index \<Rightarrow> bool" where
  "snapshot_covers latest index \<longleftrightarrow> (\<exists>sn. latest = Inr (Some sn) \<and> index \<le> sm_last_included_index (ss_metadata sn))"

lemma log_entries_split: "log_entries sgs = log_entries (take i sgs) @ log_entries (drop i sgs)"
  by (metis append_take_drop_id log_entries_simps(3))

text \<open>The removal of the covered segments and the recovery after it.\<close>

lemma remove_and_recover:
  assumes ok: "wal_ok s sgs" "2 \<le> length sgs"
    and run: "io_on_exception
        (io_then (wal_disk (remove_segments F (removable index (wl_segments s)))) (\<lambda>_. io_then (recover_locked F) (\<lambda>_. io_return ())))
        (\<lambda>s. s\<lparr>wl_active_file := None, wl_healthy := False\<rparr>) (s\<lparr>wl_active_file := None\<rparr>) = (r, s')"
  shows "wl_limits s' = wl_limits s \<and> (\<exists>n. log_kept (wl_limits s) s' (drop n (log_entries sgs))
    \<and> (\<forall>e \<in> set (take n (log_entries sgs)). we_index e \<le> index)
    \<and> (\<not> isl r \<longrightarrow> wl_healthy s' \<and> wal_inv s' (drop n (log_entries sgs))))"
proof -
  let ?limits = "wl_limits s"
  have log: "log_on_disk ?limits (dk_files (wl_disk s)) sgs []" "wl_segments s = map seg_info sgs"
    using ok(1) by (simp_all add: wal_ok_def)
  then have segs: "successively linked sgs" "\<forall>sg \<in> set sgs. seg_ok ?limits sg" by (simp_all add: log_on_disk_def)
  from removable_prefix[OF this, of index] obtain j where prefix: "removable index (map seg_info sgs) = map seg_name (take j sgs)"
    "\<forall>sg \<in> set (take j sgs). covered index sg" "sgs = [] \<or> j < length sgs" .
  then have j: "removable index (wl_segments s) = map seg_name (take j sgs)"
    "\<forall>sg \<in> set (take j sgs). covered index sg" "j < length sgs"
    using ok(2) log(2) by auto
  obtain r2 d2 where rem: "remove_segments F (map seg_name (take j sgs)) (wl_disk s) = (r2, d2)" by fastforce
  from remove_segments_outcome[OF log(1) j(3) rem] obtain i where i: "i \<le> j"
    "log_on_disk ?limits (dk_files d2) (drop i sgs) []" .
  let ?s2 = "s\<lparr>wl_active_file := None, wl_disk := d2\<rparr>" and ?n = "length (log_entries (take i sgs))"
  let ?stop = "\<lambda>s. s\<lparr>wl_active_file := None, wl_healthy := False\<rparr>"
  have drop: "drop ?n (log_entries sgs) = log_entries (drop i sgs)" "take ?n (log_entries sgs) = log_entries (take i sgs)"
    by (subst log_entries_split[of sgs i], simp)+
  have kept: "log_kept ?limits ?s2 (log_entries (drop i sgs))" using i(2) by (auto simp: log_kept_def)
  have below: "we_index e \<le> index" if member: "e \<in> set (log_entries (take i sgs))" for e
  proof -
    obtain sg where sg: "sg \<in> set (take i sgs)" "e \<in> set (sg_entries sg)" using member by (auto simp: log_entries_def)
    moreover have "set (take i sgs) \<subseteq> set (take j sgs)" using i(1) by (rule set_take_subset_set_take)
    ultimately show ?thesis using covered_entries[of ?limits sg index e] segs(2) j(2) by (auto dest: in_set_takeD)
  qed
  obtain r3 s3 where rec: "recover_locked F ?s2 = (r3, s3)" by fastforce
  note out = recover_outcome[of ?s2, simplified, OF kept rec]
  have step: "(r, s') = (if isl r2 then (map_sum id (\<lambda>_. ()) r2, ?stop ?s2) else if isl r3 then (map_sum id (\<lambda>_. ()) r3, ?stop s3) else (Inr (), s3))"
    unfolding run[symmetric] using rem rec j(1)
    by (cases r2; cases r3) (simp_all add: io_on_exception_def io_then_def wal_disk_def)
  have "wl_limits s' = ?limits \<and> log_kept ?limits s' (log_entries (drop i sgs)) \<and> (\<not> isl r \<longrightarrow> wl_healthy s' \<and> wal_inv s' (log_entries (drop i sgs)))"
    using step kept out by (cases r2; cases r3) (auto simp: log_kept_def)
  then show ?thesis using below drop by (intro conjI exI[of _ ?n]) auto
qed

lemma truncate_outcome:
  assumes kept: "log_kept (wl_limits s) s es" and run: "truncate_through F index latest s = (r, s')"
  shows "wl_limits s' = wl_limits s \<and> (\<exists>n. log_kept (wl_limits s) s' (drop n es) \<and> (\<forall>e \<in> set (take n es). we_index e \<le> index)
    \<and> (n \<noteq> 0 \<longrightarrow> snapshot_covers latest index) \<and> (\<not> isl r \<longrightarrow> wl_healthy s' \<and> wal_inv s' (drop n es)))"
proof (cases "index \<noteq> 0 \<and> snapshot_covers latest index")
  case False
  then have "s' = s \<and> isl r"
    using run[symmetric] by (auto simp: truncate_through_def snapshot_covers_def split: if_splits sum.splits option.splits)
  then show ?thesis using kept by (auto intro!: exI[of _ 0])
next
  case True
  then obtain sn where sn: "latest = Inr (Some sn)" "\<not> sm_last_included_index (ss_metadata sn) < index"
    by (auto simp: snapshot_covers_def not_less)
  obtain r1 s1 where rec: "recover_locked F s = (r1, s1)" by fastforce
  note out = recover_outcome[OF kept rec]
  show ?thesis
  proof (cases r1)
    case (Inl e)
    then have "r = Inl e" "s' = s1" using run True sn rec by (simp_all add: truncate_through_def io_then_def)
    then show ?thesis using out by (auto intro!: exI[of _ 0])
  next
    case (Inr es1)
    then obtain sgs where sgs: "wal_ok s1 sgs" "log_entries sgs = es" and lim: "wl_limits s1 = wl_limits s"
      using out by (auto simp: wal_inv_def)
    have len: "length (wl_segments s1) = length sgs" using sgs(1) by (simp add: wal_ok_def)
    show ?thesis
    proof (cases "length sgs < 2")
      case True': True
      then have "r = Inr ()" "s' = s1"
        using run True sn rec Inr len by (simp_all add: truncate_through_def io_then_def)
      then show ?thesis using out Inr by (auto intro!: exI[of _ 0])
    next
      case False
      then have "io_on_exception
        (io_then (wal_disk (remove_segments F (removable index (wl_segments s1)))) (\<lambda>_. io_then (recover_locked F) (\<lambda>_. io_return ())))
        (\<lambda>s. s\<lparr>wl_active_file := None, wl_healthy := False\<rparr>) (s1\<lparr>wl_active_file := None\<rparr>) = (r, s')"
        using run True sn rec Inr len by (simp add: truncate_through_def io_then_Inr[where m = "recover_locked F"] Let_def)
      from remove_and_recover[OF sgs(1) _ this] False show ?thesis
        using sgs(2) lim True by auto
    qed
  qed
qed

end
