(* ===== verification/Wal_History.thy ===== *)
theory Wal_History
  imports Wal_Log
begin

text \<open>
  Whole histories of the write-ahead log: any sequence of appends, recoveries, truncations,
  stops and restarts, each under an arbitrary pattern of failing system calls.  An object stays in
  use after a call that throws.  The one thing the durability theorem excludes is an append to an
  object that is still healthy although its latest recovery threw, since such an append starts
  from emptied bookkeeping and may damage the log.
\<close>

section \<open>The contract of a durable log\<close>

inductive trace_of :: "('n \<Rightarrow> 'ev \<Rightarrow> 'n \<Rightarrow> bool) \<Rightarrow> 'n \<Rightarrow> 'ev list \<Rightarrow> 'n \<Rightarrow> bool" for step where
  trace_Nil: "trace_of step n [] n"
| trace_snoc: "trace_of step n evs n' \<Longrightarrow> step n' ev n'' \<Longrightarrow> trace_of step n (evs @ [ev]) n''"

text \<open>
  A node holds a list of entries.  A step drops a prefix of it, all of whose entries the event
  allows to drop, and adds a prefix of the entries the event submits, all of them when they
  are acknowledged.
\<close>

locale durable_log =
  fixes step :: "'n \<Rightarrow> 'ev \<Rightarrow> 'n \<Rightarrow> bool" and holds :: "'n \<Rightarrow> 'e list \<Rightarrow> bool"
    and submitted :: "'ev \<Rightarrow> 'e list" and acknowledged :: "'ev \<Rightarrow> bool" and may_drop :: "'ev \<Rightarrow> 'e \<Rightarrow> bool"
  assumes step_law: "holds n es \<Longrightarrow> step n ev n' \<Longrightarrow> \<exists>j k. holds n' (drop j es @ take k (submitted ev))
      \<and> (\<forall>e \<in> set (take j es). may_drop ev e) \<and> (acknowledged ev \<longrightarrow> k = length (submitted ev))"
begin

lemma history:
  assumes "trace_of step n evs n'" "holds n es"
  shows "\<exists>es'. holds n' es' \<and> set es' \<subseteq> set es \<union> (\<Union>ev \<in> set evs. set (submitted ev))
    \<and> (\<forall>e. e \<in> set es \<or> (\<exists>ev \<in> set evs. acknowledged ev \<and> e \<in> set (submitted ev)) \<longrightarrow>
        e \<in> set es' \<or> (\<exists>ev \<in> set evs. may_drop ev e))"
  using assms
proof (induction rule: trace_of.induct)
  case (trace_Nil n)
  then show ?case by auto
next
  case (trace_snoc n evs n' ev n'')
  from trace_snoc.IH[OF trace_snoc.prems] obtain es' where es': "holds n' es'"
    "set es' \<subseteq> set es \<union> (\<Union>ev \<in> set evs. set (submitted ev))"
    "\<And>e. e \<in> set es \<or> (\<exists>ev \<in> set evs. acknowledged ev \<and> e \<in> set (submitted ev)) \<Longrightarrow>
        e \<in> set es' \<or> (\<exists>ev \<in> set evs. may_drop ev e)" by blast
  from step_law[OF es'(1) trace_snoc.hyps(2)] obtain j k where jk: "holds n'' (drop j es' @ take k (submitted ev))"
    "\<forall>e \<in> set (take j es'). may_drop ev e" "acknowledged ev \<longrightarrow> k = length (submitted ev)" by blast
  let ?es = "drop j es' @ take k (submitted ev)"
  have kept: "e \<in> set ?es \<or> (\<exists>ev \<in> set (evs @ [ev]). may_drop ev e)" if "e \<in> set es'" for e
    using that jk(2) by (metis Un_iff append_take_drop_id list.set_intros(1) set_append)
  show ?case
  proof (intro exI[of _ ?es] conjI allI impI)
    show "holds n'' ?es" by (rule jk(1))
    show "set ?es \<subseteq> set es \<union> (\<Union>ev \<in> set (evs @ [ev]). set (submitted ev))"
      using es'(2) set_drop_subset[of j es'] set_take_subset[of k "submitted ev"] by auto
    fix e
    assume "e \<in> set es \<or> (\<exists>ev \<in> set (evs @ [ev]). acknowledged ev \<and> e \<in> set (submitted ev))"
    then consider "e \<in> set es \<or> (\<exists>ev \<in> set evs. acknowledged ev \<and> e \<in> set (submitted ev))"
      | "acknowledged ev" "e \<in> set (submitted ev)" by auto
    then show "e \<in> set ?es \<or> (\<exists>ev \<in> set (evs @ [ev]). may_drop ev e)"
    proof cases
      case 1
      from es'(3)[OF this] show ?thesis using kept[of e] by (elim disjE) auto
    next
      case 2
      then show ?thesis using jk(3) by simp
    qed
  qed
qed

end

section \<open>The steps of the write-ahead log\<close>

datatype wal_node = Running wal | Halted storage_limits disk

text \<open>
  The calls of a log object with what the caller sees of them.  An append is acknowledged when it
  returns; an append to an unhealthy object is refused.  Every call leaves the object in use,
  whether it returns or throws; only a constructor that throws leaves no object.
\<close>

datatype wal_event = Append_event "wal_entry list" bool | Refused_append_event "wal_entry list" | Recover_event bool
  | Truncate_event log_index "stored_snapshot option result" bool | Open_event | Halt_event

inductive wal_step :: "wal_node \<Rightarrow> wal_event \<Rightarrow> wal_node \<Rightarrow> bool" where
  step_append: "wl_healthy s \<Longrightarrow> append_wal F now es durability s = (r, s') \<Longrightarrow>
    wal_step (Running s) (Append_event es (\<not> isl r)) (Running s')"
| step_refused_append: "\<not> wl_healthy s \<Longrightarrow> append_wal F now es durability s = (r, s') \<Longrightarrow>
    wal_step (Running s) (Refused_append_event es) (Running s')"
| step_recover: "recover_locked F s = (r, s') \<Longrightarrow> wal_step (Running s) (Recover_event (\<not> isl r)) (Running s')"
| step_truncate: "truncate_through F index latest s = (r, s') \<Longrightarrow>
    wal_step (Running s) (Truncate_event index latest (\<not> isl r)) (Running s')"
| step_halt: "wal_step (Running s) Halt_event (Halted (wl_limits s) (wl_disk s))"
| step_open: "open_wal F limits d = (r, d') \<Longrightarrow>
    wal_step (Halted limits d) Open_event (case r of Inl e \<Rightarrow> Halted limits d' | Inr s \<Rightarrow> Running s)"

fun node_disk :: "wal_node \<Rightarrow> disk" where
  "node_disk (Running s) = wl_disk s"
| "node_disk (Halted limits d) = d"

fun event_submits :: "wal_event \<Rightarrow> wal_entry list" where
  "event_submits (Append_event es acked) = es"
| "event_submits _ = []"

fun event_acknowledged :: "wal_event \<Rightarrow> bool" where
  "event_acknowledged (Append_event es acked) \<longleftrightarrow> acked"
| "event_acknowledged _ \<longleftrightarrow> False"

fun event_may_drop :: "wal_event \<Rightarrow> wal_entry \<Rightarrow> bool" where
  "event_may_drop (Truncate_event index latest returned) e \<longleftrightarrow> we_index e \<le> index \<and> snapshot_covers latest index"
| "event_may_drop _ e \<longleftrightarrow> False"

text \<open>
  Whether the latest recovery of the object returned.  A truncation that is not refused runs a
  recovery, and so does the constructor.
\<close>

fun recovered_after :: "bool \<Rightarrow> wal_event \<Rightarrow> bool" where
  "recovered_after ok (Recover_event returned) \<longleftrightarrow> returned"
| "recovered_after ok (Truncate_event index latest returned) \<longleftrightarrow>
     (if index = 0 \<or> \<not> snapshot_covers latest index then ok else returned)"
| "recovered_after ok Open_event \<longleftrightarrow> True"
| "recovered_after ok _ \<longleftrightarrow> ok"

fun needs_recovered :: "wal_event \<Rightarrow> bool" where
  "needs_recovered (Append_event es acked) \<longleftrightarrow> True"
| "needs_recovered _ \<longleftrightarrow> False"

text \<open>No append reaches a healthy object whose latest recovery threw.\<close>

fun appends_recovered :: "bool \<Rightarrow> wal_event list \<Rightarrow> bool" where
  "appends_recovered ok [] \<longleftrightarrow> True"
| "appends_recovered ok (ev # evs) \<longleftrightarrow> (needs_recovered ev \<longrightarrow> ok) \<and> appends_recovered (recovered_after ok ev) evs"

definition recovered_step :: "wal_node \<times> bool \<Rightarrow> wal_event \<Rightarrow> wal_node \<times> bool \<Rightarrow> bool" where
  "recovered_step n ev n' \<longleftrightarrow> wal_step (fst n) ev (fst n') \<and> (needs_recovered ev \<longrightarrow> snd n)
     \<and> snd n' = recovered_after (snd n) ev"

lemma appends_recovered_snoc:
  "appends_recovered ok (evs @ [ev]) \<longleftrightarrow> appends_recovered ok evs \<and> (needs_recovered ev \<longrightarrow> foldl recovered_after ok evs)"
  by (induction evs arbitrary: ok) auto

lemma recovered_trace:
  "trace_of wal_step n evs n' \<Longrightarrow> appends_recovered ok evs \<Longrightarrow>
     trace_of recovered_step (n, ok) evs (n', foldl recovered_after ok evs)"
proof (induction rule: trace_of.induct)
  case (trace_Nil n)
  then show ?case by (simp add: trace_of.trace_Nil)
next
  case (trace_snoc n evs n' ev n'')
  then show ?case
    by (intro trace_of.trace_snoc[of _ _ _ "(n', foldl recovered_after ok evs)"])
      (simp_all add: appends_recovered_snoc recovered_step_def)
qed

fun node_holds :: "storage_limits \<Rightarrow> wal_node \<times> bool \<Rightarrow> wal_entry list \<Rightarrow> bool" where
  "node_holds limits (Running s, ok) es \<longleftrightarrow> wl_limits s = limits \<and> log_kept limits s es \<and> (ok \<longrightarrow> wal_inv s es)"
| "node_holds limits (Halted limits' d, ok) es \<longleftrightarrow> limits' = limits \<and> disk_log limits d es"

lemma append_wal_refused: "\<not> wl_healthy s \<Longrightarrow> append_wal F now es durability s = (r, s') \<Longrightarrow> s' = s"
  by (simp add: append_wal_def)

lemma truncate_refused:
  assumes "index = 0 \<or> \<not> snapshot_covers latest index" "truncate_through F index latest s = (r, s')"
  shows "s' = s"
  using assms(1) assms(2)[symmetric]
  by (auto simp: truncate_through_def snapshot_covers_def split: if_splits sum.splits option.splits)

interpretation wdl: durable_log recovered_step "node_holds limits" event_submits event_acknowledged event_may_drop for limits
proof unfold_locales
  fix limits n es ev n'
  assume holds: "node_holds limits n es" and step: "recovered_step n ev n'"
  obtain node ok node' ok' where n: "n = (node, ok)" "n' = (node', ok')" by (cases n, cases n')
  have "wal_step node ev node'" and needs: "needs_recovered ev \<longrightarrow> ok" and ok': "ok' = recovered_after ok ev"
    using step by (simp_all add: n recovered_step_def)
  then show "\<exists>j k. node_holds limits n' (drop j es @ take k (event_submits ev))
      \<and> (\<forall>e \<in> set (take j es). event_may_drop ev e) \<and> (event_acknowledged ev \<longrightarrow> k = length (event_submits ev))"
  proof cases
    case (step_append s F now new durability r s')
    then have "wl_limits s = limits" "wal_inv s es" using holds needs n by auto
    then obtain k where "wl_limits s' = limits" "wal_inv s' (es @ take k new)" "\<not> isl r \<longrightarrow> k = length new"
      using append_wal_outcome[of s es F now new durability r s'] step_append by auto
    then show ?thesis using step_append n by - (rule exI[of _ 0], rule exI[of _ k], simp add: wal_inv_def)
  next
    case (step_refused_append s F now new durability r s')
    then have "s' = s" using append_wal_refused by metis
    then show ?thesis
      using step_refused_append holds n ok' by - (rule exI[of _ 0], rule exI[of _ 0], simp)
  next
    case (step_recover F s r s')
    then have "node_holds limits n' es"
      using recover_outcome[of s es F r s'] holds n ok' by (cases r) auto
    then show ?thesis using step_recover by - (rule exI[of _ 0], rule exI[of _ 0], simp)
  next
    case (step_truncate F index latest s r s')
    show ?thesis
    proof (cases "index = 0 \<or> \<not> snapshot_covers latest index")
      case True
      then have "s' = s" using truncate_refused step_truncate by metis
      then show ?thesis using True step_truncate holds n ok' by - (rule exI[of _ 0], rule exI[of _ 0], auto)
    next
      case False
      obtain j where "wl_limits s' = limits" "log_kept limits s' (drop j es)" "\<forall>e \<in> set (take j es). we_index e \<le> index"
        "\<not> isl r \<longrightarrow> wal_inv s' (drop j es)"
        using truncate_outcome[of s es F index latest r s'] step_truncate holds n by auto
      then show ?thesis using step_truncate False n ok' by - (rule exI[of _ j], rule exI[of _ 0], auto)
    qed
  next
    case (step_halt s)
    then show ?thesis using holds n by - (rule exI[of _ 0], rule exI[of _ 0], auto simp: log_kept_disk)
  next
    case (step_open F limits1 d r d')
    then have "node_holds limits n' es"
      using open_wal_outcome[of limits d es F r d'] holds n by (cases r) (auto simp: wal_inv_def)
    then show ?thesis using step_open by - (rule exI[of _ 0], rule exI[of _ 0], simp)
  qed
qed

section \<open>What a directory holds is a run of consecutive entries\<close>

lemma log_run:
  assumes "successively linked sgs" "\<forall>sg \<in> set sgs. seg_ok limits sg" "sgs \<noteq> []"
  shows "validate_entries limits (Some (sg_first (hd sgs))) (log_entries sgs) = Inr ()
    \<and> expected_after (Some (sg_first (hd sgs))) (log_entries sgs) = seg_next (last sgs)"
  using assms
proof (induction sgs)
  case (Cons sg sgs)
  then have sg: "validate_entries limits (Some (sg_first sg)) (sg_entries sg) = Inr ()" by (simp add: seg_ok_def)
  show ?case
  proof (cases "sgs = []")
    case True
    then show ?thesis using sg by (simp add: seg_next_def)
  next
    case False
    then have "linked sg (hd sgs)" using Cons.prems(1) by (cases sgs) auto
    then have "expected_after (Some (sg_first sg)) (sg_entries sg) = Some (sg_first (hd sgs))"
      by (simp add: linked_def seg_next_def)
    then show ?thesis using Cons False sg by (cases sgs) (simp_all add: validate_entries_append)
  qed
qed simp

lemma disk_log_run:
  assumes "disk_log limits d es"
  shows "es = [] \<or> validate_entries limits (Some (we_index (hd es))) es = Inr ()"
proof -
  obtain sgs torn where log: "log_on_disk limits (dk_files d) sgs torn" "log_entries sgs = es"
    using assms by (auto simp: disk_log_def)
  show ?thesis
  proof (cases es)
    case (Cons e es')
    then have "sgs \<noteq> []" using log(2) by auto
    then have v: "validate_entries limits (Some (sg_first (hd sgs))) es = Inr ()"
      using log_run[of sgs limits] log by (simp add: log_on_disk_def)
    then have "sg_first (hd sgs) = we_index e" using Cons by (simp add: validate_entries_Cons entry_valid_iff)
    then show ?thesis using v Cons by simp
  qed simp
qed

lemma open_and_recover:
  assumes "disk_log limits d es"
  shows "\<exists>t d'. open_wal no_faults limits d = (Inr t, d') \<and> fst (recover_locked no_faults t) = Inr es"
proof -
  obtain r d' where run: "open_wal no_faults limits d = (r, d')" by (cases "open_wal no_faults limits d")
  note out = open_wal_outcome[OF assms run]
  have "\<not> isl r" using out by simp
  then obtain t where r: "r = Inr t" by (cases r) simp_all
  then have t: "wl_limits t = limits" "wal_inv t es" using out by simp_all
  obtain r2 s2 where rec: "recover_locked no_faults t = (r2, s2)" by (cases "recover_locked no_faults t")
  have "log_kept (wl_limits t) t es" using t by (simp add: wal_inv_def)
  from recover_outcome[OF this rec] have "r2 = Inr es" by (cases r2) simp_all
  then show ?thesis using run r rec by simp
qed

lemma scan_record_limit:
  assumes "scan_record limits view is_final first_index tally offset first_record expected = Good entry n"
  shows "tally < max_recovery_records limits"
  using assms
  by (auto simp: scan_record_def Let_def torn_or_bad_def split: if_splits sum.splits option.splits prod.splits)

section \<open>Properties\<close>

text \<open>
  C3.  Durability of the write-ahead log.  Take any history of appends, recoveries, truncations,
  stops and restarts from a directory without segments, with any system calls failing and the
  object staying in use after every call that throws, in which no append is made to a healthy
  object after its latest recovery threw (by itself or inside a truncation).  A restart without
  failures then succeeds, and recovery returns a run of valid entries with consecutive indices.
  Every entry that was ever acknowledged is among them, unless a truncation that a snapshot
  covers allowed it to be dropped; and no entry is there that was never submitted.
  The condition on appends is needed: by \<open>append_after_failed_recovery_loses_log\<close> such an append
  can be acknowledged and leave a directory that no restart can open.
\<close>

theorem wal_history_durable:
  assumes "limits_ok limits" "\<forall>name. wal_name name \<longrightarrow> \<not> omap_has (dk_files d) name"
    and "trace_of wal_step (Halted limits d) events n" "appends_recovered True events"
  shows "\<exists>t d' es. open_wal no_faults limits (node_disk n) = (Inr t, d') \<and> fst (recover_locked no_faults t) = Inr es
    \<and> (es = [] \<or> validate_entries limits (Some (we_index (hd es))) es = Inr ())
    \<and> (\<forall>e. (\<exists>ev \<in> set events. event_acknowledged ev \<and> e \<in> set (event_submits ev)) \<longrightarrow>
        e \<in> set es \<or> (\<exists>ev \<in> set events. event_may_drop ev e))
    \<and> set es \<subseteq> (\<Union>ev \<in> set events. set (event_submits ev))"
proof -
  have "log_on_disk limits (dk_files d) [] []"
    using assms(1,2) by (simp add: log_on_disk_def torn_ok_def omap_has_def)
  then have "node_holds limits (Halted limits d, True) []" by (auto simp: disk_log_def)
  from wdl.history[OF recovered_trace[OF assms(3,4)] this] obtain es ok where es: "node_holds limits (n, ok) es"
    "set es \<subseteq> (\<Union>ev \<in> set events. set (event_submits ev))"
    "\<forall>e. (\<exists>ev \<in> set events. event_acknowledged ev \<and> e \<in> set (event_submits ev)) \<longrightarrow>
        e \<in> set es \<or> (\<exists>ev \<in> set events. event_may_drop ev e)"
    by auto
  have "disk_log limits (node_disk n) es" using es(1) by (cases n) (auto simp: log_kept_disk)
  then show ?thesis using es(2,3) open_and_recover disk_log_run by metis
qed

text \<open>
  C36.  The record loop of recovery stays within its input on every byte string, however
  corrupted: it stops at an offset within the file, every record it returns took at least the
  forty bytes of a record header, and the records counted so far never exceed the configured limit.
\<close>

theorem scan_records_bounds:
  assumes "offset \<le> length view" "40 * length records \<le> offset" "tally + length records \<le> max_recovery_records limits"
    "scan = scan_records limits view is_final first_index tally records offset expected"
  shows "sc_offset scan \<le> length view \<and> 40 * length (sc_records scan) \<le> sc_offset scan
    \<and> tally + length (sc_records scan) \<le> max_recovery_records limits"
proof -
  have "sc_offset (scan_records limits view is_final first_index tally records offset expected) \<le> length view
    \<and> 40 * length (sc_records (scan_records limits view is_final first_index tally records offset expected))
      \<le> sc_offset (scan_records limits view is_final first_index tally records offset expected)
    \<and> tally + length (sc_records (scan_records limits view is_final first_index tally records offset expected))
      \<le> max_recovery_records limits"
    using assms(1-3)
  proof (induction limits view is_final first_index tally records offset expected rule: scan_records.induct)
    case (1 limits view is_final first_index tally records offset expected)
    let ?turn = "scan_record limits view is_final first_index (tally + length records) offset (records = []) expected"
    show ?case
    proof (cases "offset < length view")
      case False
      then show ?thesis using "1.prems" by (subst (1 2 3 4) scan_records.simps) (simp add: Let_def)
    next
      case inside: True
      show ?thesis
      proof (cases ?turn)
        case (Good entry n)
        have size: "40 \<le> n" "offset + n \<le> length view" "tally + length records < max_recovery_records limits"
          using scan_record_Good[OF Good] scan_record_limit[OF Good] by simp_all
        show ?thesis
        proof (cases "we_index entry = uint64_max \<and> (offset + n \<noteq> length view \<or> \<not> is_final)")
          case True
          then show ?thesis
            using inside Good size "1.prems" by (subst (1 2 3 4) scan_records.simps) (simp add: Let_def)
        next
          case False
          then have step: "scan_records limits view is_final first_index tally records offset expected =
              scan_records limits view is_final first_index tally (records @ [entry]) (offset + n)
                (if we_index entry = uint64_max then None else Some (we_index entry + 1))"
            using inside Good by (subst scan_records.simps) (auto simp: Let_def)
          show ?thesis
            unfolding step by (rule "1.IH"[OF refl _ Good False]) (use inside size "1.prems" in simp_all)
        qed
      qed (use inside "1.prems" in \<open>subst (1 2 3 4) scan_records.simps, simp add: Let_def\<close>)+
    qed
  qed
  then show ?thesis using assms(4) by simp
qed

end
