(* ===== verification/Wal_Progress.thy ===== *)
theory Wal_Progress
  imports Wal_History
begin

text \<open>
  Without failing system calls the write-ahead log makes progress: a validated append returns.
  It also holds the one place where the object does not protect itself: after a recovery that
  threw it accepts an append with any index, which can make the log unreadable.
\<close>

section \<open>Operations without faults\<close>

definition only_segments :: "disk \<Rightarrow> bool" where
  "only_segments d \<longleftrightarrow> (\<forall>name. omap_has (dk_files d) name \<longrightarrow> wal_name name)"

lemma create_segment_files:
  assumes "only_segments (wl_disk s)" "\<not> omap_has (dk_files (wl_disk s)) (decimal_name ''wal-'' n ''.kwal'')" "n \<noteq> 0" "i \<noteq> 0"
    "create_segment no_faults now n i s = (r, s')"
  shows "r = Inr () \<and> wl_active_file s' = Some (decimal_name ''wal-'' n ''.kwal'')
    \<and> dk_files (wl_disk s') = omap_put (decimal_name ''wal-'' n ''.kwal'') (make_segment_header n i) (dk_files (wl_disk s))"
proof -
  let ?final = "decimal_name ''wal-'' n ''.kwal''" and ?d = "(wl_disk s)\<lparr>dk_calls := dk_calls (wl_disk s) + 1\<rparr>"
  have name: "wal_name ?final" by (simp add: wal_name_def decimal_name_starts)
  have "only_segments ?d" "\<not> omap_has (dk_files ?d) ?final" using assms by (simp_all add: only_segments_def)
  moreover from this have "\<not> omap_has (dk_files ?d) (temporary_path now ?final ?d)" "temporary_path now ?final ?d \<noteq> ?final"
    using temporary_path_not_wal[of now ?final ?d] name by (auto simp: only_segments_def)
  ultimately have w: "fst (publish_new no_faults now ?final (make_segment_header n i) ?d) = Inr ()"
    "dk_files (snd (publish_new no_faults now ?final (make_segment_header n i) ?d)) = omap_put ?final (make_segment_header n i) (dk_files ?d)"
    using publish_new_no_faults by blast+
  obtain r1 d1 where run: "publish_new no_faults now ?final (make_segment_header n i) ?d = (r1, d1)"
    by (cases "publish_new no_faults now ?final (make_segment_header n i) ?d")
  have d1: "r1 = Inr ()" "dk_files d1 = omap_put ?final (make_segment_header n i) (dk_files (wl_disk s))" using w run by simp_all
  show ?thesis
    using assms(2-5) run d1
    by (auto simp: create_segment_def Let_def io_then_def wal_disk_def open_existing_def omap_has_def)
qed

lemma create_segment_returns:
  assumes "only_segments (wl_disk s)" "\<not> omap_has (dk_files (wl_disk s)) (decimal_name ''wal-'' n ''.kwal'')" "n \<noteq> 0" "i \<noteq> 0"
    "create_segment no_faults now n i s = (r, s')"
  shows "r = Inr () \<and> only_segments (wl_disk s')"
  using create_segment_files[OF assms] assms(1)
  by (auto simp: only_segments_def omap_has_def wal_name_def decimal_name_starts)

definition last_sequence :: "wal \<Rightarrow> nat" where
  "last_sequence s = (if wl_segments s = [] then 0 else unat (si_sequence (last (wl_segments s))))"

lemma create_segment_sequence:
  assumes "create_segment no_faults now n i s = (Inr (), s')"
  shows "last_sequence s' = unat n"
  using assms
  by (auto simp: create_segment_def Let_def io_then_def io_throw_if_def wal_disk_def last_sequence_def
      split: if_splits sum.splits prod.splits)

lemma next_segment_absent:
  assumes log: "log_on_disk limits fs sgs torn" and "sgs \<noteq> []" "sg_sequence (last sgs) \<noteq> uint64_max"
  shows "\<not> omap_has fs (decimal_name ''wal-'' (sg_sequence (last sgs) + 1) ''.kwal'')"
proof -
  let ?sg = "\<lparr>sg_sequence = sg_sequence (last sgs) + 1, sg_first = 1, sg_entries = []\<rparr>"
  have "sorted_wrt (<) (map sg_sequence sgs)" using log linked_sorted by (simp add: log_on_disk_def)
  then have le: "sg_sequence sg \<le> sg_sequence (last sgs)" if "sg \<in> set sgs" for sg
    using that \<open>sgs \<noteq> []\<close>
    by (cases sgs rule: rev_cases) (auto simp: sorted_wrt_append less_imp_le)
  have "sg_sequence (last sgs) < sg_sequence (last sgs) + 1" using assms(3) by (rule less_plus1)
  then have "seg_name ?sg \<notin> seg_name ` set sgs" using le by (auto simp: seg_name_eq dest!: le)
  then have "omap_find fs (seg_name ?sg) = None"
    using log map_of_seg_files_None[of sgs torn "seg_name ?sg"] by (simp add: log_on_disk_def)
  then show ?thesis by (simp add: seg_name_def omap_has_def)
qed

lemma ensure_segment_returns:
  assumes ok: "wal_ok s sgs" and entry: "we_index entry \<noteq> 0" and segs: "only_segments (wl_disk s)"
    and room: "last_sequence s + 1 < 2 ^ 64" and run: "ensure_segment no_faults now (we_index entry) n s = (r, s')"
  shows "r = Inr () \<and> only_segments (wl_disk s') \<and> last_sequence s' \<le> last_sequence s + 1"
proof (cases "sgs = []")
  case True
  then have s: "wl_active_file s = None" "wl_segments s = []" using ok by (simp_all add: wal_ok_def)
  then have create: "create_segment no_faults now 1 (we_index entry) s = (r, s')"
    using run by (simp add: ensure_segment_def Let_def)
  have "\<not> omap_has (dk_files (wl_disk s)) (decimal_name ''wal-'' 1 ''.kwal'')"
    using ok True by (auto simp: wal_ok_def log_on_disk_def omap_has_def wal_name_def decimal_name_starts)
  from create_segment_returns[OF segs this _ entry create] create_segment_sequence[of now 1 "we_index entry" s s'] create
  show ?thesis by auto
next
  case False
  let ?sg = "last sgs"
  have s: "wl_active_file s = Some (seg_name ?sg)" "wl_segments s \<noteq> []" "last (wl_segments s) = seg_info ?sg"
    using ok False by (auto simp: wal_ok_def last_seg_info)
  have seq: "last_sequence s = unat (sg_sequence ?sg)" using s by (simp add: last_sequence_def seg_info_def)
  then have max: "sg_sequence ?sg \<noteq> uint64_max"
    using room by (auto simp: unsigned_minus_1_eq_mask mask_eq_exp_minus_1)
  show ?thesis
  proof (cases "n \<le> minus64 (wal_segment_bytes (wl_limits s)) (wl_active_size s)")
    case True
    then have "r = Inr ()" "s' = s" using run s by (simp_all add: ensure_segment_def Let_def)
    then show ?thesis using segs by simp
  next
    case full: False
    let ?s = "s\<lparr>wl_disk := (wl_disk s)\<lparr>dk_calls := dk_calls (wl_disk s) + 1\<rparr>, wl_active_file := None\<rparr>"
    have create: "create_segment no_faults now (sg_sequence ?sg + 1) (we_index entry) ?s = (r, s')"
      unfolding run[symmetric] using s max full
      by (simp add: ensure_segment_def Let_def io_then_def wal_disk_def synchronize_def seg_info_def)
    have absent: "\<not> omap_has (dk_files (wl_disk ?s)) (decimal_name ''wal-'' (sg_sequence ?sg + 1) ''.kwal'')"
      using next_segment_absent[of "wl_limits s" "dk_files (wl_disk s)" sgs "[]"] ok False max by (simp add: wal_ok_def)
    have "only_segments (wl_disk ?s)" using segs by (simp add: only_segments_def)
    moreover have "sg_sequence ?sg + 1 \<noteq> 0" using max by (metis add.inverse_unique add.commute)
    ultimately have "r = Inr () \<and> only_segments (wl_disk s')" using create_segment_returns absent entry create by blast
    then show ?thesis using create_segment_sequence[of now "sg_sequence ?sg + 1" "we_index entry" ?s s'] create seq unat_plus1[OF max] by simp
  qed
qed

lemma append_one_returns:
  assumes ok: "wal_ok s sgs" and entry: "entry_valid (wl_limits s) (start_of s entry) entry"
    and overflow: "wl_expected_append s = None \<longrightarrow> wl_last_index s = None" and segs: "only_segments (wl_disk s)"
    and room: "last_sequence s + 1 < 2 ^ 64" and run: "append_one no_faults now entry s = (r, s')"
  shows "r = Inr () \<and> only_segments (wl_disk s') \<and> last_sequence s' \<le> last_sequence s + 1"
proof -
  let ?bytes = "encode_record entry"
  have nz: "we_index entry \<noteq> 0" using entry by (simp add: entry_valid_iff)
  obtain r1 s1 where ensure: "ensure_segment no_faults now (we_index entry) (length ?bytes) s = (r1, s1)"
    by (cases "ensure_segment no_faults now (we_index entry) (length ?bytes) s")
  have s1: "r1 = Inr ()" "only_segments (wl_disk s1)" "last_sequence s1 \<le> last_sequence s + 1"
    using ensure_segment_returns[OF ok nz segs room ensure] by simp_all
  then obtain ss sg where sg: "wal_ok s1 (ss @ [sg])"
    using ensure_segment_outcome[OF ok entry overflow ensure] by (auto simp: ready_for_def)
  then have log: "log_on_disk (wl_limits s1) (dk_files (wl_disk s1)) (ss @ [sg]) []" "wl_active_file s1 = Some (seg_name sg)"
    by (simp_all add: wal_ok_def)
  then have found: "omap_find (dk_files (wl_disk s1)) (seg_name sg) = Some (seg_bytes sg)"
    using log_readable[OF log(1)] by (auto simp: readable_def seg_files_snoc)
  obtain d where d: "write_all no_faults (seg_name sg) ?bytes (wl_disk s1) = (Inr (), d)"
    "dk_files d = omap_put (seg_name sg) (seg_bytes sg @ ?bytes) (dk_files (wl_disk s1))"
    by (rule write_all_no_faults[OF found])
  have "(r, s') = (Inr (), record_written entry (s1\<lparr>wl_disk := d\<rparr>))"
    unfolding run[symmetric] using ensure s1(1) log(2) d(1)
    by (simp add: append_one_def Let_def io_then_def wal_disk_def record_written_def del: length_encoded)
  moreover have "only_segments d" using s1(2) d(2) by (auto simp: only_segments_def omap_has_def)
  moreover have "last_sequence (record_written entry (s1\<lparr>wl_disk := d\<rparr>)) = last_sequence s1"
    by (simp add: last_sequence_def record_written_def update_last_def)
  ultimately show ?thesis using s1(3) by (simp add: record_written_def)
qed

lemma append_loop_returns:
  assumes "wal_ok s sgs" "accepts s es" "length (log_entries sgs) + length es \<le> max_recovery_records (wl_limits s)"
    "only_segments (wl_disk s)" "last_sequence s + length es < 2 ^ 64"
  shows "fst (io_for es (append_one no_faults now) s) = Inr ()"
  using assms
proof (induction es arbitrary: s sgs)
  case (Cons entry es)
  let ?limits = "wl_limits s"
  obtain r1 s1 where one: "append_one no_faults now entry s = (r1, s1)" by (cases "append_one no_faults now entry s")
  have v: "entry_valid ?limits (start_of s entry) entry" "validate_entries ?limits (next_index (we_index entry)) es = Inr ()"
    "wl_expected_append s = None \<longrightarrow> wl_last_index s = None" "length (log_entries sgs) < max_recovery_records ?limits"
    using Cons.prems(2,3) by (auto simp: accepts_def validate_entries_Cons)
  have "last_sequence s + 1 < 2 ^ 64" using Cons.prems(5) by simp
  from append_one_returns[OF Cons.prems(1) v(1,3) Cons.prems(4) this one]
  have s1: "r1 = Inr ()" "only_segments (wl_disk s1)" "last_sequence s1 \<le> last_sequence s + 1" by simp_all
  then obtain sgs1 where sgs1: "wal_ok s1 sgs1" "log_entries sgs1 = log_entries sgs @ [entry]"
    "wl_expected_append s1 = next_index (we_index entry)" "wl_last_index s1 \<noteq> None" "wl_limits s1 = ?limits"
    using append_one_outcome[OF Cons.prems(1) v(1,3,4) one] by auto
  have "accepts s1 es"
    using v(2) sgs1(3,4,5) by (cases "we_index entry = uint64_max") (auto simp: accepts_def validate_entries_None start_of_def)
  then show ?case
    using Cons.IH[OF sgs1(1)] Cons.prems(3,5) sgs1(2,5) s1 one by (simp add: io_then_def)
qed simp

lemma append_progress:
  assumes "wal_inv s es" "wl_healthy s" "validate_append s new = Inr ()" "only_segments (wl_disk s)"
    "last_sequence s + length new < 2 ^ 64"
  shows "\<exists>s'. append_wal no_faults now new durability s = (Inr (), s') \<and> wal_inv s' (es @ new)"
proof -
  obtain sgs where sgs: "wal_ok s sgs" "log_entries sgs = es" using assms(1,2) by (auto simp: wal_inv_def)
  from append_loop_returns[OF sgs(1) validate_append_accepts[OF sgs(1) assms(3)] assms(4,5)]
  have "fst (io_for new (append_one no_faults now) s) = Inr ()" .
  then obtain s1 where loop: "io_for new (append_one no_faults now) s = (Inr (), s1)" by (metis prod.collapse)
  obtain r s' where run: "append_wal no_faults now new durability s = (r, s')"
    by (cases "append_wal no_faults now new durability s")
  have r: "r = Inr ()"
    using run assms(2,3) loop
    by (auto simp: append_wal_def io_on_exception_def io_then_def wal_disk_def synchronize_def split: if_splits)
  from append_wal_outcome[OF assms(1) run] r have inv: "wal_inv s' (es @ new)" by auto
  then show ?thesis using run r by simp
qed

text \<open>
  C35.  An append makes progress.  If no system call fails, the directory holds nothing but the
  segments, and the segment numbers do not run out, then an append on a healthy log that passes
  validation returns, and recovery then gives the old entries followed by all new ones.
\<close>

theorem append_returns:
  assumes "wal_inv s es" "wl_healthy s" "validate_append s new = Inr ()" "only_segments (wl_disk s)"
    "last_sequence s + length new < 2 ^ 64"
  shows "\<exists>s'. append_wal no_faults now new durability s = (Inr (), s') \<and> fst (recover_locked no_faults s') = Inr (es @ new)"
proof -
  from append_progress[OF assms, of now durability] obtain s' where
    run: "append_wal no_faults now new durability s = (Inr (), s')" and inv: "wal_inv s' (es @ new)" by blast
  obtain r2 s2 where rec: "recover_locked no_faults s' = (r2, s2)" by (cases "recover_locked no_faults s'")
  have "log_kept (wl_limits s') s' (es @ new)" using inv by (simp add: wal_inv_def)
  from recover_outcome[OF this rec] have "r2 = Inr (es @ new)" by (cases r2) simp_all
  then show ?thesis using run rec by simp
qed

section \<open>A failed recovery\<close>

text \<open>
  C37.  A recovery that fails does not make the log refuse further appends: if the directory cannot
  be listed, the object forgets its segments and its last index, but stays healthy, and then
  accepts an entry with any nonzero index.
\<close>

theorem failed_recovery_accepts_any_index:
  assumes "wl_healthy s" "F (dk_calls (wl_disk s))" "max_recovery_records (wl_limits s) \<noteq> 0"
    and "we_type entry = command_record_type" "we_index entry \<noteq> 0"
    and "length (we_payload entry) \<le> max_wal_payload_bytes (wl_limits s)"
      "40 + length (we_payload entry) \<le> wal_segment_bytes (wl_limits s) - 40"
  shows "\<exists>s'. recover_locked F s = (Inl io_error, s') \<and> wl_healthy s' \<and> wl_segments s' = [] \<and> validate_append s' [entry] = Inr ()"
  using assms
  by (auto simp: recover_locked_def io_then_def wal_disk_def segment_paths_def system_call_def validate_append_def Let_def
      validate_entries.simps wal_record_header_size_def wal_segment_header_size_def)

text \<open>
  What such an append does to a log of which at least the first two segments were truncated away:
  it is acknowledged and starts segment one again, and from then on the directory is refused for its gap in the
  segment sequence, under every pattern of failing calls.
\<close>

lemma append_to_emptied:
  assumes "wl_active_file s = None" "wl_segments s = []" "wl_healthy s" "validate_append s [entry] = Inr ()"
    and "we_index entry \<noteq> 0" "only_segments (wl_disk s)" "\<not> omap_has (dk_files (wl_disk s)) (decimal_name ''wal-'' 1 ''.kwal'')"
    and run: "append_wal no_faults now [entry] durability s = (r, s')"
  shows "r = Inr () \<and> (\<exists>bs. dk_files (wl_disk s') = omap_put (decimal_name ''wal-'' 1 ''.kwal'') bs (dk_files (wl_disk s)))"
proof -
  let ?name = "decimal_name ''wal-'' 1 ''.kwal''" and ?bytes = "encode_record entry"
  obtain r1 s1 where create: "create_segment no_faults now 1 (we_index entry) s = (r1, s1)"
    by (cases "create_segment no_faults now 1 (we_index entry) s")
  have s1: "r1 = Inr ()" "wl_active_file s1 = Some ?name"
    "dk_files (wl_disk s1) = omap_put ?name (make_segment_header 1 (we_index entry)) (dk_files (wl_disk s))"
    using create_segment_files[OF assms(6,7) _ assms(5) create] by simp_all
  have "omap_find (dk_files (wl_disk s1)) ?name = Some (make_segment_header 1 (we_index entry))" using s1(3) by simp
  then obtain d where d: "write_all no_faults ?name ?bytes (wl_disk s1) = (Inr (), d)"
    "dk_files d = omap_put ?name (make_segment_header 1 (we_index entry) @ ?bytes) (dk_files (wl_disk s1))"
    by (rule write_all_no_faults)
  have one: "append_one no_faults now entry s = (Inr (), record_written entry (s1\<lparr>wl_disk := d\<rparr>))"
    using create s1(1,2) d(1) assms(1,2)
    by (simp add: append_one_def ensure_segment_def Let_def io_then_def wal_disk_def record_written_def del: length_encoded)
  have files: "dk_files d = omap_put ?name (make_segment_header 1 (we_index entry) @ ?bytes) (dk_files (wl_disk s))"
    unfolding d(2) s1(3) by (rule om.ext_finds) simp
  have "r = Inr () \<and> dk_files (wl_disk s') = dk_files d"
    using run assms(3,4) one
    by (auto simp: append_wal_def io_on_exception_def io_then_def wal_disk_def synchronize_def system_call_def
        record_written_def split: if_splits)
  then show ?thesis using files by auto
qed

theorem append_after_failed_recovery_loses_log:
  assumes ok: "wal_ok s sgs" "sgs \<noteq> []" "2 < sg_sequence (hd sgs)" and segs: "only_segments (wl_disk s)"
    and fault: "F (dk_calls (wl_disk s))"
    and entry: "we_type entry = command_record_type" "we_index entry \<noteq> 0"
      "length (we_payload entry) \<le> max_wal_payload_bytes (wl_limits s)"
      "40 + length (we_payload entry) \<le> wal_segment_bytes (wl_limits s) - 40"
    and recover: "recover_locked F s = (r1, s1)" and append: "append_wal no_faults now [entry] durability s1 = (r2, s2)"
  shows "isl r1 \<and> r2 = Inr () \<and> isl (fst (open_wal F' (wl_limits s) (wl_disk s2)))"
proof -
  let ?sg = "\<lparr>sg_sequence = 1, sg_first = 1, sg_entries = []\<rparr>"
  have log: "log_on_disk (wl_limits s) (dk_files (wl_disk s)) sgs []" "wl_healthy s" using ok(1) by (simp_all add: wal_ok_def)
  then have sorted: "sorted_wrt (<) (map sg_sequence sgs)" using linked_sorted by (simp add: log_on_disk_def)
  have above: "2 < sg_sequence sg" if "sg \<in> set sgs" for sg
    using that sorted ok(2,3) by (cases sgs) auto
  have s1: "isl r1" "wl_active_file s1 = None" "wl_segments s1 = []" "wl_healthy s1" "validate_append s1 [entry] = Inr ()"
    "dk_files (wl_disk s1) = dk_files (wl_disk s)"
    using recover[symmetric] fault log entry
    by (auto simp: recover_locked_def io_then_def wal_disk_def segment_paths_def system_call_def validate_append_def Let_def
        validate_entries.simps wal_record_header_size_def wal_segment_header_size_def log_on_disk_def limits_ok_def)
  have names: "omap_has (dk_files (wl_disk s)) name \<longleftrightarrow> name \<in> seg_name ` set sgs" if "wal_name name" for name
    using log(1) that map_of_seg_files_None[of sgs "[]" name] by (simp add: log_on_disk_def omap_has_def)
  have "seg_name ?sg \<notin> seg_name ` set sgs" using above by (force simp: seg_name_eq)
  then have "\<not> omap_has (dk_files (wl_disk s1)) (decimal_name ''wal-'' 1 ''.kwal'')"
    using names[OF seg_name_wal[of ?sg]] s1(6) by (simp add: seg_name_def)
  from append_to_emptied[OF s1(2-5) entry(2) _ this append] obtain bs where
    s2: "r2 = Inr ()" "dk_files (wl_disk s2) = omap_put (seg_name ?sg) bs (dk_files (wl_disk s))"
    using segs s1(6) by (auto simp: only_segments_def seg_name_def)
  let ?d = "(wl_disk s2)\<lparr>dk_calls := dk_calls (wl_disk s2) + 1\<rparr>"
  have "sorted_wrt (<) (map sg_sequence (?sg # sgs))" "\<forall>sg \<in> set (?sg # sgs). sg_sequence sg \<noteq> 0"
    using sorted less_trans[OF _ above, of 1] log(1) by (auto simp: log_on_disk_def seg_ok_def)
  moreover have "omap_has (dk_files ?d) name \<longleftrightarrow> name \<in> seg_name ` set (?sg # sgs)" if "wal_name name" for name
    using names[OF that] s2(2) by (simp add: omap_has_def)
  moreover have "sequence_gap (map sg_sequence (?sg # sgs))" using ok(2,3) by (cases sgs) auto
  ultimately have "isl (fst (segment_paths F' ?d))" using segment_paths_names[of "?sg # sgs" ?d F'] by simp
  then show ?thesis
    using s1(1) s2(1) 
    by (auto simp: open_wal_def io_then_def wal_disk_def recover_locked_def system_call_def split: sum.splits prod.splits if_splits)
qed

end
