(* ===== verification/Snapshot_Store.thy ===== *)
theory Snapshot_Store
  imports Raft_Codec Wal
begin

text \<open>
  The class \<open>FileSnapshotStore\<close> of \<^verbatim>\<open>src/src/durable_storage.cpp\<close>: the snapshot file format,
  publication under the name of the last included index, and the search for the latest valid
  snapshot, which skips every file that does not decode.
\<close>

section \<open>Format\<close>

definition snapshot_header_size :: nat where
  "snapshot_header_size = 68"

definition snapshot_magic :: "byte list" where
  "snapshot_magic = map of_char ''KURASNP1''"

text \<open>The loops that insert node identifiers into the set \<open>members\<close>.\<close>

fun insert_members :: "node_id list \<Rightarrow> node_id list \<Rightarrow> node_id list result" where
  "insert_members members [] = Inr members"
| "insert_members members (node # nodes) =
     (if node = 0 \<or> node \<in> set members then wal_fail ''snapshot membership contains zero or duplicate node ID''
      else insert_members (members @ [node]) nodes)"

definition check_total :: "storage_limits \<Rightarrow> nat \<Rightarrow> nat \<Rightarrow> unit result" where
  "check_total limits members state_size =
     (case checked_multiply (of_nat members) 8 of
        None \<Rightarrow> wal_fail ''snapshot exceeds configured size limit''
      | Some member_bytes \<Rightarrow> (case checked_add (of_nat snapshot_header_size) member_bytes of
          None \<Rightarrow> wal_fail ''snapshot exceeds configured size limit''
        | Some bytes \<Rightarrow> (case checked_add bytes (of_nat state_size) of
            None \<Rightarrow> wal_fail ''snapshot exceeds configured size limit''
          | Some bytes \<Rightarrow>
              throw_if (unat bytes > max_snapshot_bytes limits) (Storage_Error ''snapshot exceeds configured size limit''))))"

definition validate_snapshot_value :: "stored_snapshot \<Rightarrow> storage_limits \<Rightarrow> unit result" where
  "validate_snapshot_value snapshot limits =
     (let metadata = ss_metadata snapshot;
          voters = cm_voters (sm_membership metadata); learners = cm_learners (sm_membership metadata);
          maximum = unat (max_snapshot_members limits) in
      and_then (throw_if (sm_format_version metadata \<noteq> ucast storage_format_version)
         (Storage_Error ''snapshot format_version must be 1'')) (\<lambda>_.
      and_then (throw_if (sm_last_included_index metadata = 0)
         (Storage_Error ''snapshot last-included index must be nonzero'')) (\<lambda>_.
      and_then (throw_if (sm_store_revision metadata < 0 \<or> sm_compaction_revision metadata < 0
           \<or> sm_compaction_revision metadata > sm_store_revision metadata)
         (Storage_Error ''snapshot revisions are invalid'')) (\<lambda>_.
      and_then (throw_if (length voters > maximum \<or> length learners > maximum \<or> length voters > maximum - length learners)
         (Storage_Error ''snapshot membership exceeds configured limit'')) (\<lambda>_.
      and_then (insert_members [] voters) (\<lambda>members.
      and_then (insert_members members learners) (\<lambda>members.
      check_total limits (length members) (length (ss_state snapshot)))))))))"

definition append_nodes :: "byte list \<Rightarrow> node_id list \<Rightarrow> byte list" where
  "append_nodes body nodes = fold (\<lambda>node body. append_le 8 body node) nodes body"

definition encode_snapshot :: "stored_snapshot \<Rightarrow> storage_limits \<Rightarrow> byte list result" where
  "encode_snapshot snapshot limits =
     and_then (validate_snapshot_value snapshot limits) (\<lambda>_.
     let metadata = ss_metadata snapshot;
         voters = cm_voters (sm_membership metadata); learners = cm_learners (sm_membership metadata);
         body = append_nodes (append_nodes [] voters) learners @ ss_state snapshot;
         bytes = snapshot_magic;
         bytes = append_le 2 bytes storage_format_version;
         bytes = append_le 2 bytes (of_nat snapshot_header_size :: 16 word);
         bytes = append_le 4 bytes (0 :: u32);
         bytes = append_le 8 bytes (sm_last_included_index metadata);
         bytes = append_le 8 bytes (sm_last_included_term metadata);
         bytes = append_le 8 bytes (cast_u64 (sm_store_revision metadata));
         bytes = append_le 8 bytes (cast_u64 (sm_compaction_revision metadata));
         bytes = append_le 4 bytes (of_nat (length voters) :: u32);
         bytes = append_le 4 bytes (of_nat (length learners) :: u32);
         bytes = append_le 8 bytes (of_nat (length (ss_state snapshot)) :: u64);
         checksum = crc_update body (crc_update bytes 0xffffffff)
     in Inr (append_le 4 bytes (crc_finish checksum) @ body))"

text \<open>Reading the node identifiers of one list, with the set of all members so far.\<close>

fun read_nodes :: "byte list \<Rightarrow> nat \<Rightarrow> nat \<Rightarrow> node_id list \<Rightarrow> (node_id list \<times> nat \<times> node_id list) result" where
  "read_nodes view 0 offset members = Inr ([], offset, members)"
| "read_nodes view (Suc n) offset members =
     and_then (wal_read 8 view offset) (\<lambda>node.
     and_then (throw_if (node = 0 \<or> node \<in> set members)
        (Storage_Error ''snapshot membership contains zero or duplicate node ID'')) (\<lambda>_.
     and_then (read_nodes view n (offset + 8) (members @ [node])) (\<lambda>(nodes, offset, members).
     Inr (node # nodes, offset, members))))"

definition snapshot_length :: "u32 \<Rightarrow> u32 \<Rightarrow> u64 \<Rightarrow> u64 option" where
  "snapshot_length voter_count learner_count state_length =
     (case checked_add (ucast voter_count) (ucast learner_count) of None \<Rightarrow> None
      | Some member_count \<Rightarrow> (case checked_multiply member_count 8 of None \<Rightarrow> None
        | Some member_bytes \<Rightarrow> (case checked_add (of_nat snapshot_header_size) member_bytes of None \<Rightarrow> None
          | Some expected \<Rightarrow> checked_add expected state_length)))"

definition decode_snapshot_bytes :: "storage_limits \<Rightarrow> string \<Rightarrow> byte list \<Rightarrow> stored_snapshot result" where
  "decode_snapshot_bytes limits path view =
     and_then (throw_if (length view < snapshot_header_size) (Storage_Error (''snapshot header is truncated: '' @ path))) (\<lambda>_.
     and_then (throw_if (take 8 view \<noteq> snapshot_magic) (Storage_Error (''snapshot magic is invalid: '' @ path))) (\<lambda>_.
     and_then (wal_read 2 view 8) (\<lambda>version.
     and_then (wal_read 2 view 10) (\<lambda>header_size.
     and_then (wal_read 4 view 12) (\<lambda>flags.
     and_then (throw_if (version \<noteq> storage_format_version \<or> header_size \<noteq> (of_nat snapshot_header_size :: 16 word) \<or> flags \<noteq> (0 :: u32))
        (Storage_Error ''snapshot version, header size, or flags are unsupported'')) (\<lambda>_.
     and_then (wal_read 8 view 16) (\<lambda>index.
     and_then (wal_read 8 view 24) (\<lambda>term.
     and_then (wal_read 8 view 32) (\<lambda>store_revision_bits.
     and_then (wal_read 8 view 40) (\<lambda>compaction_revision_bits.
     and_then (wal_read 4 view 48) (\<lambda>voter_count.
     and_then (wal_read 4 view 52) (\<lambda>learner_count.
     and_then (wal_read 8 view 56) (\<lambda>state_length.
     and_then (wal_read 4 view 64) (\<lambda>stored_checksum.
     and_then (throw_if (drop_bit 63 store_revision_bits \<noteq> (0 :: u64) \<or> drop_bit 63 compaction_revision_bits \<noteq> (0 :: u64))
        (Storage_Error ''snapshot revision is negative'')) (\<lambda>_.
     and_then (throw_if (voter_count > max_snapshot_members limits \<or> learner_count > max_snapshot_members limits
          \<or> voter_count > max_snapshot_members limits - learner_count)
        (Storage_Error ''snapshot membership exceeds configured limit'')) (\<lambda>_.
     and_then (throw_if (case snapshot_length voter_count learner_count state_length of None \<Rightarrow> True | Some expected \<Rightarrow> unat expected \<noteq> length view)
        (Storage_Error ''snapshot body length is invalid'')) (\<lambda>_.
     and_then (throw_if (crc_finish (crc_update (drop snapshot_header_size view) (crc_update (take 64 view) 0xffffffff)) \<noteq> stored_checksum)
        (Storage_Error (''snapshot checksum mismatch: '' @ path))) (\<lambda>_.
     and_then (read_nodes view (unat voter_count) snapshot_header_size []) (\<lambda>(voters, offset, members).
     and_then (read_nodes view (unat learner_count) offset members) (\<lambda>(learners, offset, members).
     let snapshot = \<lparr>ss_metadata = \<lparr>sm_last_included_index = index, sm_last_included_term = term,
           sm_store_revision = cast_i64 store_revision_bits, sm_compaction_revision = cast_i64 compaction_revision_bits,
           sm_membership = \<lparr>cm_voters = voters, cm_learners = learners\<rparr>, sm_format_version = ucast storage_format_version\<rparr>,
           ss_state = drop offset view, ss_checksum = stored_checksum\<rparr>
     in and_then (validate_snapshot_value snapshot limits) (\<lambda>_. Inr snapshot)))))))))))))))))))))"

section \<open>The store\<close>

definition decode_snapshot :: "faults \<Rightarrow> storage_limits \<Rightarrow> string \<Rightarrow> (disk, stored_snapshot) io" where
  "decode_snapshot F limits path = io_then (read_file F path (max_snapshot_bytes limits)) (\<lambda>bytes d.
     (decode_snapshot_bytes limits path bytes, d))"

definition snapshot_name :: "u64 \<Rightarrow> string" where
  "snapshot_name index = decimal_name ''snapshot-'' index ''.ksnap''"

definition snapshot_candidates :: "string list \<Rightarrow> (u64 \<times> string) list" where
  "snapshot_candidates names = concat (map (\<lambda>name. case parse_decimal_name name ''snapshot-'' ''.ksnap'' of
     Some index \<Rightarrow> if index \<noteq> 0 then [(index, name)] else [] | None \<Rightarrow> []) names)"

fun first_valid :: "faults \<Rightarrow> storage_limits \<Rightarrow> (u64 \<times> string) list \<Rightarrow> (disk, stored_snapshot option) io" where
  "first_valid F limits [] d = (Inr None, d)"
| "first_valid F limits ((index, path) # candidates) d =
     (case decode_snapshot F limits path d of
        (Inl _, d') \<Rightarrow> first_valid F limits candidates d'
      | (Inr snapshot, d') \<Rightarrow>
          if sm_last_included_index (ss_metadata snapshot) \<noteq> index then first_valid F limits candidates d'
          else (Inr (Some snapshot), d'))"

definition latest_locked :: "faults \<Rightarrow> storage_limits \<Rightarrow> (disk, stored_snapshot option) io" where
  "latest_locked F limits = io_then (system_call F) (\<lambda>_ d.
     first_valid F limits (rev (sort_key fst (snapshot_candidates (omap_keys (dk_files d))))) d)"

definition publish_snapshot :: "faults \<Rightarrow> clock \<Rightarrow> storage_limits \<Rightarrow> stored_snapshot \<Rightarrow> (disk, unit) io" where
  "publish_snapshot F now limits snapshot =
     io_then (latest_locked F limits) (\<lambda>current.
     io_then (io_throw_if (case current of None \<Rightarrow> False
          | Some c \<Rightarrow> sm_last_included_index (ss_metadata snapshot) \<le> sm_last_included_index (ss_metadata c))
        (Storage_Error ''snapshot publication must advance the snapshot index'')) (\<lambda>_.
     case encode_snapshot snapshot limits of Inl e \<Rightarrow> io_throw e
     | Inr bytes \<Rightarrow>
       let final = snapshot_name (sm_last_included_index (ss_metadata snapshot)) in
       io_then (system_call F) (\<lambda>_ d.
       if omap_has (dk_files d) final then (wal_fail ''refusing to replace an existing snapshot'', d)
       else publish_new F now final bytes d)))"

definition validate_file :: "faults \<Rightarrow> storage_limits \<Rightarrow> string \<Rightarrow> (disk, stored_snapshot) io" where
  "validate_file F limits name =
     (case parse_decimal_name name ''snapshot-'' ''.ksnap'' of
        None \<Rightarrow> io_throw (Storage_Error ''snapshot validation path is outside the owned directory'')
      | Some name_index \<Rightarrow> io_then (decode_snapshot F limits name) (\<lambda>snapshot.
          io_then (io_throw_if (sm_last_included_index (ss_metadata snapshot) \<noteq> name_index)
            (Storage_Error ''snapshot filename and content index differ'')) (\<lambda>_. io_return snapshot)))"

definition open_snapshot_store :: "faults \<Rightarrow> storage_limits \<Rightarrow> (disk, unit) io" where
  "open_snapshot_store F limits =
     io_then (io_throw_if (max_snapshot_bytes limits < snapshot_header_size \<or> max_snapshot_members limits = 0)
       (Storage_Error ''snapshot storage limits are invalid'')) (\<lambda>_. system_call F)"

section \<open>The format is read back exactly\<close>

definition snapshot_limits_ok :: "storage_limits \<Rightarrow> bool" where
  "snapshot_limits_ok limits \<longleftrightarrow> 68 \<le> max_snapshot_bytes limits \<and> max_snapshot_bytes limits < 2 ^ 64"

abbreviation voters_of :: "stored_snapshot \<Rightarrow> node_id list" where
  "voters_of sn \<equiv> cm_voters (sm_membership (ss_metadata sn))"

abbreviation learners_of :: "stored_snapshot \<Rightarrow> node_id list" where
  "learners_of sn \<equiv> cm_learners (sm_membership (ss_metadata sn))"

abbreviation index_of :: "stored_snapshot \<Rightarrow> log_index" where
  "index_of sn \<equiv> sm_last_included_index (ss_metadata sn)"

definition snapshot_ok :: "storage_limits \<Rightarrow> stored_snapshot \<Rightarrow> bool" where
  "snapshot_ok limits sn \<longleftrightarrow> validate_snapshot_value sn limits = Inr () \<and> int64_ok (sm_store_revision (ss_metadata sn))
     \<and> size_ok (ss_state sn)"

definition snapshot_header :: "stored_snapshot \<Rightarrow> byte list" where
  "snapshot_header sn = snapshot_magic @ le_bytes 2 storage_format_version @ le_bytes 2 (68 :: 16 word) @ le_bytes 4 (0 :: u32)
     @ le_bytes 8 (index_of sn) @ le_bytes 8 (sm_last_included_term (ss_metadata sn))
     @ le_bytes 8 (cast_u64 (sm_store_revision (ss_metadata sn))) @ le_bytes 8 (cast_u64 (sm_compaction_revision (ss_metadata sn)))
     @ le_bytes 4 (of_nat (length (voters_of sn)) :: u32) @ le_bytes 4 (of_nat (length (learners_of sn)) :: u32)
     @ le_bytes 8 (of_nat (length (ss_state sn)) :: u64)"

definition snapshot_body :: "stored_snapshot \<Rightarrow> byte list" where
  "snapshot_body sn = concat (map (le_bytes 8) (voters_of sn)) @ concat (map (le_bytes 8) (learners_of sn)) @ ss_state sn"

definition snapshot_crc :: "stored_snapshot \<Rightarrow> u32" where
  "snapshot_crc sn = crc_finish (crc_update (snapshot_body sn) (crc_update (snapshot_header sn) 0xffffffff))"

definition snapshot_bytes :: "stored_snapshot \<Rightarrow> byte list" where
  "snapshot_bytes sn = snapshot_header sn @ le_bytes 4 (snapshot_crc sn) @ snapshot_body sn"

lemma length_snapshot [simp]:
  "length snapshot_magic = 8" "length (snapshot_header sn) = 64"
  "length (snapshot_body sn) = 8 * (length (voters_of sn) + length (learners_of sn)) + length (ss_state sn)"
  by (simp_all add: snapshot_magic_def snapshot_header_def snapshot_body_def)

lemma append_nodes_alt: "append_nodes body nodes = body @ concat (map (le_bytes 8) nodes)"
  by (induction nodes arbitrary: body) (simp_all add: append_nodes_def append_le_alt)

lemma encode_snapshot_ok:
  "validate_snapshot_value sn limits = Inr () \<Longrightarrow> encode_snapshot sn limits = Inr (snapshot_bytes sn)"
  by (simp add: encode_snapshot_def Let_def append_le_alt append_nodes_alt snapshot_bytes_def snapshot_header_def
      snapshot_body_def snapshot_crc_def snapshot_header_size_def result_simps)

lemma encode_snapshot_Inr:
  "encode_snapshot sn limits = Inr bytes \<Longrightarrow> validate_snapshot_value sn limits = Inr () \<and> bytes = snapshot_bytes sn"
  using encode_snapshot_ok[of sn limits]
  by (cases "validate_snapshot_value sn limits") (simp_all add: encode_snapshot_def result_simps)

lemma insert_members_iff:
  "insert_members members nodes = Inr r \<longleftrightarrow>
     r = members @ nodes \<and> distinct nodes \<and> set nodes \<inter> set members = {} \<and> 0 \<notin> set nodes"
  by (induction members nodes rule: insert_members.induct) auto

lemma read_nodes_iff:
  assumes "offset \<le> length view"
  shows "read_nodes view n offset members = Inr (nodes, offset', r) \<longleftrightarrow>
    length nodes = n \<and> bytes_at view offset (concat (map (le_bytes 8) nodes)) \<and> offset' = offset + 8 * n
      \<and> insert_members members nodes = Inr r"
  using assms
proof (induction n arbitrary: offset members nodes)
  case 0
  then show ?case by (auto simp: bytes_at_def)
next
  case (Suc n)
  show ?case
  proof (cases nodes)
    case Nil
    then show ?thesis by (auto simp: read_le64 throw_then_parse and_then_eq_Inr split: prod.splits)
  next
    case (Cons node rest)
    have "bytes_at view offset (le_bytes 8 node) \<Longrightarrow> offset + 8 \<le> length view"
      using bytes_at_length[of view offset "le_bytes 8 node"] by simp
    then show ?thesis
      using Cons Suc.IH[of "offset + 8" "members @ [node]" rest]
      by (auto simp: read_le64 throw_then_parse and_then_eq_Inr bytes_at_append split: prod.splits)
  qed
qed

lemma checked_cases:
  "checked_add a b = (if unat a + unat b < 2 ^ 64 then Some (a + b) else None)"
  "checked_multiply a b = (if unat a * unat b < 2 ^ 64 then Some (a * b) else None)"
proof -
  have bound: "unat c < 2 ^ 64" for c :: u64 using unsigned_less[of c, where ?'a = nat] by simp
  show "checked_add a b = (if unat a + unat b < 2 ^ 64 then Some (a + b) else None)"
  proof (cases "unat a + unat b < 2 ^ 64")
    case True
    then show ?thesis by (simp add: checked_add_iff unat_word_ariths)
  next
    case False
    then have "checked_add a b \<noteq> Some c" for c using bound[of c] by (simp add: checked_add_iff)
    then show ?thesis using False by (cases "checked_add a b") auto
  qed
  show "checked_multiply a b = (if unat a * unat b < 2 ^ 64 then Some (a * b) else None)"
  proof (cases "unat a * unat b < 2 ^ 64")
    case True
    then show ?thesis by (simp add: checked_multiply_iff unat_word_ariths)
  next
    case False
    then have "checked_multiply a b \<noteq> Some c" for c using bound[of c] by (simp add: checked_multiply_iff)
    then show ?thesis using False by (cases "checked_multiply a b") auto
  qed
qed

lemma check_total_iff:
  assumes "snapshot_limits_ok limits" "members < 2 ^ 32" "state_size < 2 ^ 64"
  shows "check_total limits members state_size = Inr () \<longleftrightarrow> 68 + 8 * members + state_size \<le> max_snapshot_bytes limits"
proof -
  have m: "unat (of_nat members :: u64) = members" using assms(2) by (simp add: unat_of_nat)
  have "unat (of_nat members * 8 :: u64) = members * 8" "unat (68 + of_nat members * 8 :: u64) = 68 + members * 8"
    using assms(2) m by (simp_all add: unat_word_ariths)
  moreover have "unat (of_nat state_size :: u64) = state_size" using assms(3) by (simp add: unat_of_nat)
  ultimately show ?thesis
    using assms m
    by (auto simp: check_total_def checked_cases snapshot_header_size_def snapshot_limits_ok_def throw_if_def unat_word_ariths)
qed

lemma validate_snapshot_iff:
  assumes "snapshot_limits_ok limits" "size_ok (ss_state sn)"
  shows "validate_snapshot_value sn limits = Inr () \<longleftrightarrow>
    sm_format_version (ss_metadata sn) = 1 \<and> index_of sn \<noteq> 0 \<and> 0 \<le> sm_compaction_revision (ss_metadata sn)
    \<and> sm_compaction_revision (ss_metadata sn) \<le> sm_store_revision (ss_metadata sn)
    \<and> length (voters_of sn) + length (learners_of sn) \<le> unat (max_snapshot_members limits)
    \<and> distinct (voters_of sn @ learners_of sn) \<and> 0 \<notin> set (voters_of sn @ learners_of sn)
    \<and> length (snapshot_bytes sn) \<le> max_snapshot_bytes limits"
proof -
  let ?nv = "length (voters_of sn)" and ?nl = "length (learners_of sn)" and ?m = "unat (max_snapshot_members limits)"
  have members: "?nv > ?m \<or> ?nl > ?m \<or> ?nv > ?m - ?nl \<longleftrightarrow> \<not> ?nv + ?nl \<le> ?m" by auto
  have "?m < 2 ^ 32" using unsigned_less[of "max_snapshot_members limits", where ?'a = nat] by simp
  then have total: "check_total limits (?nv + ?nl) (length (ss_state sn)) = Inr () \<longleftrightarrow> length (snapshot_bytes sn) \<le> max_snapshot_bytes limits"
    if "?nv + ?nl \<le> ?m"
    using that assms by (subst check_total_iff) (simp_all add: size_ok_def snapshot_bytes_def algebra_simps)
  show ?thesis
    unfolding validate_snapshot_value_def Let_def members and_then_eq_Inr
    by (auto simp: throw_if_eq_Inr insert_members_iff total storage_format_version_def)
qed

lemma cast_nonnegative: "drop_bit 63 bits = 0 \<longleftrightarrow> 0 \<le> cast_i64 bits"
proof -
  have "drop_bit 63 bits = 0 \<longleftrightarrow> \<not> bit bits 63"
  proof
    assume "drop_bit 63 bits = 0"
    then have "\<not> bit (drop_bit 63 bits) 0" by simp
    then show "\<not> bit bits 63" by (simp add: bit_drop_bit_eq)
  next
    assume "\<not> bit bits 63"
    then have "\<not> bit bits (63 + n)" for n
      using bit_imp_le_length[of bits "63 + n"] by (cases n) auto
    then show "drop_bit 63 bits = 0" by (intro bit_eqI) (simp add: bit_drop_bit_eq)
  qed
  then show ?thesis using bit_last_iff[of bits] by (simp add: cast_i64_def not_less)
qed

lemma checked_add_nat: "map_option unat (checked_add a b) = Some n \<longleftrightarrow> n = unat a + unat b \<and> n < 2 ^ 64"
  by (auto simp: checked_cases unat_word_ariths)

lemma snapshot_length_iff:
  "map_option unat (snapshot_length voter_count learner_count state_length) = Some n \<longleftrightarrow>
     n = 68 + 8 * (unat voter_count + unat learner_count) + unat state_length \<and> n < 2 ^ 64"
proof -
  let ?v = "ucast voter_count :: u64" and ?l = "ucast learner_count :: u64"
  have small: "unat voter_count < 2 ^ 32" "unat learner_count < 2 ^ 32"
    using unsigned_less[of voter_count, where ?'a = nat] unsigned_less[of learner_count, where ?'a = nat] by simp_all
  have wide: "unat ?v = unat voter_count" "unat ?l = unat learner_count" using small by (simp_all add: unsigned_ucast_eq take_bit_nat_eq_self_iff)
  define total where "total = ?v + ?l"
  have sums: "unat total = unat voter_count + unat learner_count"
    using small wide by (simp add: total_def unat_word_ariths)
  then have bytes: "unat (total * 8) = (unat voter_count + unat learner_count) * 8"
    "unat (68 + total * 8) = 68 + (unat voter_count + unat learner_count) * 8"
    using small by (simp_all add: unat_word_ariths)
  have "snapshot_length voter_count learner_count state_length = checked_add (68 + total * 8) state_length"
    using small wide sums bytes
    by (simp add: snapshot_length_def snapshot_header_size_def checked_cases[of ?v ?l] checked_cases[of total 8]
        checked_cases[of 68 "total * 8"] total_def[symmetric])
  then show ?thesis unfolding bytes(2)[symmetric] using checked_add_nat[of "68 + total * 8" state_length n] bytes(2)
    by (simp add: mult.commute)
qed

lemma nodes_then_parse:
  "and_then (read_nodes view n offset members) (\<lambda>(nodes, offset, members). k nodes offset members) = Inr y \<longleftrightarrow>
     (\<exists>nodes offset' r. read_nodes view n offset members = Inr (nodes, offset', r) \<and> k nodes offset' r = Inr y)"
  by (auto simp: and_then_eq_Inr)

lemma validate_then_parse: "and_then (validate_snapshot_value sn limits) (\<lambda>_. Inr sn) = Inr y \<longleftrightarrow> validate_snapshot_value sn limits = Inr () \<and> y = sn"
  by (auto simp: and_then_eq_Inr)

text \<open>The fixed part of a snapshot file.\<close>

lemma header_fields:
  "bytes_at view 0 (snapshot_header sn @ le_bytes 4 crc) \<longleftrightarrow>
     bytes_at view 0 snapshot_magic \<and> bytes_at view 8 (le_bytes 2 storage_format_version) \<and> bytes_at view 10 (le_bytes 2 (68 :: 16 word))
     \<and> bytes_at view 12 (le_bytes 4 (0 :: u32)) \<and> bytes_at view 16 (le_bytes 8 (index_of sn))
     \<and> bytes_at view 24 (le_bytes 8 (sm_last_included_term (ss_metadata sn)))
     \<and> bytes_at view 32 (le_bytes 8 (cast_u64 (sm_store_revision (ss_metadata sn))))
     \<and> bytes_at view 40 (le_bytes 8 (cast_u64 (sm_compaction_revision (ss_metadata sn))))
     \<and> bytes_at view 48 (le_bytes 4 (of_nat (length (voters_of sn)) :: u32)) \<and> bytes_at view 52 (le_bytes 4 (of_nat (length (learners_of sn)) :: u32))
     \<and> bytes_at view 56 (le_bytes 8 (of_nat (length (ss_state sn)) :: u64)) \<and> bytes_at view 64 (le_bytes 4 crc)"
  by (simp add: snapshot_header_def bytes_at_append)

lemma decode_snapshot_complete:
  assumes "snapshot_limits_ok limits" "snapshot_ok limits sn" "ss_checksum sn = snapshot_crc sn"
  shows "decode_snapshot_bytes limits path (snapshot_bytes sn) = Inr sn"
proof -
  let ?view = "snapshot_bytes sn" and ?nv = "length (voters_of sn)" and ?nl = "length (learners_of sn)"
  have ok: "validate_snapshot_value sn limits = Inr ()" "int64_ok (sm_store_revision (ss_metadata sn))" "size_ok (ss_state sn)"
    using assms(2) by (simp_all add: snapshot_ok_def)
  note v = validate_snapshot_iff[OF assms(1) ok(3), THEN iffD1, OF ok(1)]
  have "bytes_at ?view 0 ?view" by (simp add: bytes_at_def)
  then have whole: "bytes_at ?view 0 (snapshot_header sn @ le_bytes 4 (snapshot_crc sn))" "bytes_at ?view 68 (snapshot_body sn)"
    by (simp_all add: snapshot_bytes_def bytes_at_append)
  note fields = whole(1)[unfolded header_fields]
  have magic: "take 8 ?view = snapshot_magic" by (rule bytes_at_take[THEN iffD2]) (use fields in simp_all)
  have "?nv < 2 ^ 32" "?nl < 2 ^ 32" using v unsigned_less[of "max_snapshot_members limits", where ?'a = nat] by auto
  then have counts: "unat (of_nat ?nv :: u32) = ?nv" "unat (of_nat ?nl :: u32) = ?nl" by (simp_all add: unat_of_nat)
  have revisions: "cast_i64 (cast_u64 (sm_store_revision (ss_metadata sn))) = sm_store_revision (ss_metadata sn)"
    "cast_i64 (cast_u64 (sm_compaction_revision (ss_metadata sn))) = sm_compaction_revision (ss_metadata sn)"
    using ok(2) v by (auto intro!: cast_i64_u64 simp: int64_ok_def int64_min_def)
  have len: "length ?view = 68 + 8 * (?nv + ?nl) + length (ss_state sn)" by (simp add: snapshot_bytes_def)
  then have "map_option unat (snapshot_length (of_nat ?nv) (of_nat ?nl) (of_nat (length (ss_state sn)))) = Some (length ?view)"
    using v assms(1) ok(3) unfolding snapshot_length_iff by (simp add: counts unat_size snapshot_limits_ok_def)
  then obtain z where size: "snapshot_length (of_nat ?nv) (of_nat ?nl) (of_nat (length (ss_state sn))) = Some z" "unat z = length ?view"
    by auto
  have crc: "crc_finish (crc_update (drop 68 ?view) (crc_update (take 64 ?view) 0xffffffff)) = snapshot_crc sn"
    by (simp add: snapshot_bytes_def snapshot_crc_def)
  have body: "bytes_at ?view 68 (concat (map (le_bytes 8) (voters_of sn)))" "bytes_at ?view (68 + 8 * ?nv) (concat (map (le_bytes 8) (learners_of sn)))"
    using whole(2) by (simp_all add: snapshot_body_def bytes_at_append)
  have nodes: "read_nodes ?view ?nv 68 [] = Inr (voters_of sn, 68 + 8 * ?nv, voters_of sn)"
    "read_nodes ?view ?nl (68 + 8 * ?nv) (voters_of sn) = Inr (learners_of sn, 68 + 8 * ?nv + 8 * ?nl, voters_of sn @ learners_of sn)"
    using body v len by (auto simp: read_nodes_iff insert_members_iff)
  have state: "drop (68 + 8 * ?nv + 8 * ?nl) ?view = ss_state sn" by (simp add: snapshot_bytes_def snapshot_body_def)
  have reads: "wal_read 2 ?view 8 = Inr storage_format_version" "wal_read 2 ?view 10 = Inr (68 :: 16 word)"
    "wal_read 4 ?view 12 = Inr (0 :: u32)" "wal_read 8 ?view 16 = Inr (index_of sn)"
    "wal_read 8 ?view 24 = Inr (sm_last_included_term (ss_metadata sn))"
    "wal_read 8 ?view 32 = Inr (cast_u64 (sm_store_revision (ss_metadata sn)))"
    "wal_read 8 ?view 40 = Inr (cast_u64 (sm_compaction_revision (ss_metadata sn)))"
    "wal_read 4 ?view 48 = Inr (of_nat ?nv :: u32)" "wal_read 4 ?view 52 = Inr (of_nat ?nl :: u32)"
    "wal_read 8 ?view 56 = Inr (of_nat (length (ss_state sn)) :: u64)" "wal_read 4 ?view 64 = Inr (snapshot_crc sn)"
    using fields by (simp_all add: read_le16 read_le32 read_le64)
  have guard: "\<not> ((of_nat ?nv :: u32) > max_snapshot_members limits \<or> (of_nat ?nl :: u32) > max_snapshot_members limits
      \<or> (of_nat ?nv :: u32) > max_snapshot_members limits - of_nat ?nl)"
    using v counts by (auto simp: word_less_nat_alt unat_sub word_le_nat_alt)
  have same: "\<lparr>ss_metadata = \<lparr>sm_last_included_index = index_of sn, sm_last_included_term = sm_last_included_term (ss_metadata sn),
      sm_store_revision = sm_store_revision (ss_metadata sn), sm_compaction_revision = sm_compaction_revision (ss_metadata sn),
      sm_membership = \<lparr>cm_voters = voters_of sn, cm_learners = learners_of sn\<rparr>, sm_format_version = ucast storage_format_version\<rparr>,
      ss_state = ss_state sn, ss_checksum = snapshot_crc sn\<rparr> = sn"
    using v assms(3) by (simp add: storage_format_version_def)
  have signs: "drop_bit 63 (cast_u64 (sm_store_revision (ss_metadata sn))) = 0" "drop_bit 63 (cast_u64 (sm_compaction_revision (ss_metadata sn))) = 0"
    using v revisions by (auto simp: cast_nonnegative)
  have "\<not> length ?view < 68" using len by simp
  then show ?thesis
    unfolding decode_snapshot_bytes_def snapshot_header_size_def
    using reads magic guard size crc nodes state signs same ok(1)
    by (simp add: counts revisions Let_def)
qed

lemma drop_split3: "drop a xs = take n (drop a xs) @ take m (drop (a + n) xs) @ drop (a + n + m) xs"
proof -
  have "drop k xs = take n (drop k xs) @ drop (k + n) xs" for k n
    using append_take_drop_id[of n "drop k xs"] by (simp add: add.commute)
  then show ?thesis by metis
qed

lemma decode_snapshot_sound:
  assumes "snapshot_limits_ok limits" "decode_snapshot_bytes limits path view = Inr sn"
  shows "snapshot_ok limits sn \<and> ss_checksum sn = snapshot_crc sn \<and> view = snapshot_bytes sn"
proof -
  obtain index raft_term sr cr voters o1 m1 learners o2 m2 and vc lc crc :: u32 and sl :: u64 where
    len: "\<not> length view < 68" and magic: "take 8 view = snapshot_magic"
    and fixed: "bytes_at view 8 (le_bytes 2 storage_format_version)" "bytes_at view 10 (le_bytes 2 (68 :: 16 word))"
      "bytes_at view 12 (le_bytes 4 (0 :: u32))" "bytes_at view 16 (le_bytes 8 index)" "bytes_at view 24 (le_bytes 8 raft_term)"
      "bytes_at view 32 (le_bytes 8 sr)" "bytes_at view 40 (le_bytes 8 cr)" "bytes_at view 48 (le_bytes 4 vc)"
      "bytes_at view 52 (le_bytes 4 lc)" "bytes_at view 56 (le_bytes 8 sl)" "bytes_at view 64 (le_bytes 4 crc)"
    and size: "\<not> (case snapshot_length vc lc sl of None \<Rightarrow> True | Some expected \<Rightarrow> unat expected \<noteq> length view)"
    and crc: "crc_finish (crc_update (drop 68 view) (crc_update (take 64 view) 0xffffffff)) = crc"
    and nodes: "read_nodes view (unat vc) 68 [] = Inr (voters, o1, m1)" "read_nodes view (unat lc) o1 m1 = Inr (learners, o2, m2)"
    and valid: "validate_snapshot_value sn limits = Inr ()"
    and sn: "sn = \<lparr>ss_metadata = \<lparr>sm_last_included_index = index, sm_last_included_term = raft_term,
           sm_store_revision = cast_i64 sr, sm_compaction_revision = cast_i64 cr,
           sm_membership = \<lparr>cm_voters = voters, cm_learners = learners\<rparr>, sm_format_version = ucast storage_format_version\<rparr>,
           ss_state = drop o2 view, ss_checksum = crc\<rparr>"
    using assms(2)
    unfolding decode_snapshot_bytes_def throw_then_parse read_then_parse nodes_then_parse Let_def validate_then_parse
      snapshot_header_size_def
    by (elim exE conjE) (auto simp: snapshot_header_size_def)
  have voters: "length voters = unat vc" "bytes_at view 68 (concat (map (le_bytes 8) voters))" "o1 = 68 + 8 * unat vc"
    using nodes(1) len by (simp_all add: read_nodes_iff)
  then have "o1 \<le> length view" using bytes_at_length[OF voters(2)] by simp
  then have learners: "length learners = unat lc" "bytes_at view o1 (concat (map (le_bytes 8) learners))" "o2 = o1 + 8 * unat lc"
    using nodes(2) by (simp_all add: read_nodes_iff)
  obtain z where "snapshot_length vc lc sl = Some z" "unat z = length view" using size by (auto split: option.splits)
  then have view: "length view = 68 + 8 * (unat vc + unat lc) + unat sl" "length view < 2 ^ 64"
    using snapshot_length_iff[of vc lc sl "length view"] by auto
  have counts: "vc = of_nat (length voters)" "lc = of_nat (length learners)" "sl = of_nat (length (drop o2 view))"
    using voters learners view(1) by simp_all
  have "bytes_at view 0 (snapshot_header sn @ le_bytes 4 crc)"
    unfolding header_fields using fixed magic counts by (simp add: sn bytes_at_take)
  then have "bytes_at view 0 (snapshot_header sn)" by (simp add: bytes_at_append)
  then have header: "take 64 view = snapshot_header sn" by (simp add: bytes_at_def)
  moreover have bytes4: "take 4 (drop 64 view) = le_bytes 4 crc" using fixed(11) by (simp add: bytes_at_def)
  moreover have body: "drop 68 view = snapshot_body sn"
  proof -
    have "drop 68 view = take (8 * unat vc) (drop 68 view) @ take (8 * unat lc) (drop o1 view) @ drop o2 view"
      unfolding voters(3) learners(3) by (rule drop_split3)
    moreover have "take (8 * unat vc) (drop 68 view) = concat (map (le_bytes 8) voters)"
      "take (8 * unat lc) (drop o1 view) = concat (map (le_bytes 8) learners)"
      using voters(1,2) learners(1,2) by (simp_all add: bytes_at_def)
    ultimately show ?thesis by (simp add: snapshot_body_def sn)
  qed
  ultimately have "crc = snapshot_crc sn" using crc by (simp add: snapshot_crc_def)
  moreover have "view = take 64 view @ take 4 (drop 64 view) @ drop 68 view"
    using drop_split3[of 0 view 64 4] by simp
  ultimately have "view = snapshot_bytes sn"
    using header body bytes4 by (simp add: snapshot_bytes_def)
  moreover have "int64_ok (sm_store_revision (ss_metadata sn))" "size_ok (ss_state sn)" "ss_checksum sn = crc"
    using view(2) by (simp_all add: sn size_ok_def)
  ultimately show ?thesis using valid \<open>crc = snapshot_crc sn\<close> unfolding snapshot_ok_def by metis
qed

section \<open>The latest snapshot\<close>

definition holds_snapshot :: "storage_limits \<Rightarrow> (string, byte list) omap \<Rightarrow> stored_snapshot \<Rightarrow> bool" where
  "holds_snapshot limits fs sn \<longleftrightarrow> index_of sn \<noteq> 0 \<and> (\<exists>bs. omap_find fs (snapshot_name (index_of sn)) = Some bs
     \<and> length bs \<le> max_snapshot_bytes limits \<and> decode_snapshot_bytes limits (snapshot_name (index_of sn)) bs = Inr sn)"

definition is_latest :: "storage_limits \<Rightarrow> (string, byte list) omap \<Rightarrow> stored_snapshot option \<Rightarrow> bool" where
  "is_latest limits fs r = (case r of None \<Rightarrow> \<forall>sn. \<not> holds_snapshot limits fs sn
     | Some sn \<Rightarrow> holds_snapshot limits fs sn \<and> (\<forall>t. holds_snapshot limits fs t \<longrightarrow> index_of t \<le> index_of sn))"

lemma snapshot_name_inject [simp]: "snapshot_name i = snapshot_name j \<longleftrightarrow> i = j"
  by (simp add: snapshot_name_def)

lemma holds_snapshot_inject: "holds_snapshot limits fs a \<Longrightarrow> holds_snapshot limits fs b \<Longrightarrow> index_of a = index_of b \<Longrightarrow> a = b"
  by (auto simp: holds_snapshot_def)

lemma decode_snapshot_no_faults:
  assumes "omap_has (dk_files d) (snapshot_name i)" "i \<noteq> 0"
  obtains r d' where "decode_snapshot no_faults limits (snapshot_name i) d = (r, d')" "dk_files d' = dk_files d"
    "\<And>sn. index_of sn = i \<Longrightarrow> r = Inr sn \<longleftrightarrow> holds_snapshot limits (dk_files d) sn"
proof -
  obtain bs where bs: "omap_find (dk_files d) (snapshot_name i) = Some bs" using assms(1) by (auto simp: omap_has_def)
  let ?run = "decode_snapshot no_faults limits (snapshot_name i) d"
  have "dk_files (snd ?run) = dk_files d \<and> (\<forall>sn. index_of sn = i \<longrightarrow> (fst ?run = Inr sn \<longleftrightarrow> holds_snapshot limits (dk_files d) sn))"
    using bs assms(2)
    by (auto simp: decode_snapshot_def read_file_def open_existing_def io_then_def omap_has_def contents_def holds_snapshot_def)
  then show ?thesis using that[of "fst ?run" "snd ?run"] by simp
qed

lemma first_valid_no_faults:
  assumes "\<forall>(i, name) \<in> set cs. name = snapshot_name i \<and> i \<noteq> 0 \<and> omap_has (dk_files d) name"
    "sorted_wrt (\<lambda>a b. fst b \<le> fst a) cs"
  shows "\<exists>r d'. first_valid no_faults limits cs d = (Inr r, d') \<and> dk_files d' = dk_files d
    \<and> (r = None \<longrightarrow> (\<forall>sn. holds_snapshot limits (dk_files d) sn \<longrightarrow> index_of sn \<notin> fst ` set cs))
    \<and> (\<forall>sn. r = Some sn \<longrightarrow> holds_snapshot limits (dk_files d) sn \<and>
      (\<forall>t. holds_snapshot limits (dk_files d) t \<longrightarrow> index_of t \<in> fst ` set cs \<longrightarrow> index_of t \<le> index_of sn))"
  using assms
proof (induction cs arbitrary: d)
  case Nil
  then show ?case by simp
next
  case (Cons c cs)
  obtain i where c: "c = (i, snapshot_name i)" "i \<noteq> 0" "omap_has (dk_files d) (snapshot_name i)"
    using Cons.prems(1) by (cases c) auto
  obtain r d1 where run: "decode_snapshot no_faults limits (snapshot_name i) d = (r, d1)" "dk_files d1 = dk_files d"
    "\<And>sn. index_of sn = i \<Longrightarrow> r = Inr sn \<longleftrightarrow> holds_snapshot limits (dk_files d) sn"
    using decode_snapshot_no_faults[OF c(3,2)] by metis
  show ?case
  proof (cases "\<exists>sn. r = Inr sn \<and> index_of sn = i")
    case True
    then obtain sn where sn: "r = Inr sn" "index_of sn = i" by auto
    have top: "n \<le> i" if "n \<in> fst ` set (c # cs)" for n using Cons.prems(2) c(1) that by auto
    have "first_valid no_faults limits (c # cs) d = (Inr (Some sn), d1)" using run(1) c(1) sn by simp
    moreover have "holds_snapshot limits (dk_files d) sn" using run(3)[OF sn(2)] sn(1) by simp
    ultimately show ?thesis using run(2) top sn(2) by simp
  next
    case False
    then have skip: "first_valid no_faults limits (c # cs) d = first_valid no_faults limits cs d1"
      using run(1) c(1) by (cases r) auto
    have none: "index_of sn \<noteq> i" if "holds_snapshot limits (dk_files d) sn" for sn using False run(3)[of sn] that by auto
    have "\<forall>(i, name) \<in> set cs. name = snapshot_name i \<and> i \<noteq> 0 \<and> omap_has (dk_files d1) name" "sorted_wrt (\<lambda>a b. fst b \<le> fst a) cs"
      using Cons.prems run(2) by simp_all
    from Cons.IH[OF this] show ?thesis unfolding skip run(2) using none c(1) by fastforce
  qed
qed

lemma snapshot_candidates_set:
  "set (snapshot_candidates names) = {(i, name). name \<in> set names \<and> name = snapshot_name i \<and> i \<noteq> 0}"
  by (auto simp: snapshot_candidates_def snapshot_name_def parse_decimal_name_iff[symmetric] split: option.splits if_splits)

lemma latest_no_faults:
  obtains r d' where "latest_locked no_faults limits d = (Inr r, d')" "dk_files d' = dk_files d" "is_latest limits (dk_files d) r"
proof -
  let ?d = "d\<lparr>dk_calls := dk_calls d + 1\<rparr>"
  let ?cs = "rev (sort_key fst (snapshot_candidates (omap_keys (dk_files d))))"
  have set: "set ?cs = {(i, name). omap_has (dk_files d) name \<and> name = snapshot_name i \<and> i \<noteq> 0}"
    by (auto simp: snapshot_candidates_set omap_has_def omap_find_None_keys)
  have "sorted (map fst (sort_key fst (snapshot_candidates (omap_keys (dk_files d)))))" by simp
  then have sorted: "sorted_wrt (\<lambda>a b. fst b \<le> fst a) ?cs" by (simp add: sorted_wrt_rev sorted_map)
  have has: "index_of sn \<in> fst ` set ?cs" if "holds_snapshot limits (dk_files d) sn" for sn
    using that unfolding set by (force simp: holds_snapshot_def omap_has_def)
  have "\<forall>(i, name) \<in> set ?cs. name = snapshot_name i \<and> i \<noteq> 0 \<and> omap_has (dk_files ?d) name" unfolding set by auto
  from first_valid_no_faults[OF this sorted, of limits] obtain r d' where
    "first_valid no_faults limits ?cs ?d = (Inr r, d')" "dk_files d' = dk_files d"
    "r = None \<longrightarrow> (\<forall>sn. holds_snapshot limits (dk_files d) sn \<longrightarrow> index_of sn \<notin> fst ` set ?cs)"
    "\<forall>sn. r = Some sn \<longrightarrow> holds_snapshot limits (dk_files d) sn \<and>
      (\<forall>t. holds_snapshot limits (dk_files d) t \<longrightarrow> index_of t \<in> fst ` set ?cs \<longrightarrow> index_of t \<le> index_of sn)"
    by auto
  then show ?thesis
    using that[of r d'] has by (auto simp: latest_locked_def io_then_def is_latest_def split: option.splits)
qed

section \<open>Publication\<close>

lemma decode_snapshot_files: "dk_files (snd (decode_snapshot F limits name d)) = dk_files d"
  by (simp add: decode_snapshot_def read_file_def open_existing_def io_then_def system_call_def)

lemma first_valid_files: "dk_files (snd (first_valid F limits cs d)) = dk_files d"
proof (induction cs arbitrary: d)
  case (Cons c cs)
  obtain r d1 where run: "decode_snapshot F limits (snd c) d = (r, d1)" by (cases "decode_snapshot F limits (snd c) d")
  then have "dk_files d1 = dk_files d" using decode_snapshot_files[of F limits "snd c" d] by simp
  then show ?case using Cons.IH[of d1] run by (cases c; cases r) auto
qed simp

lemma latest_files: "dk_files (snd (latest_locked F limits d)) = dk_files d"
  using first_valid_files by (simp add: latest_locked_def io_then_def system_call_def)

definition ksnap_name :: "string \<Rightarrow> bool" where
  "ksnap_name name \<longleftrightarrow> ends_with name ''.ksnap''"

lemma snapshot_name_ksnap [simp]: "ksnap_name (snapshot_name i)"
  by (simp add: ksnap_name_def snapshot_name_def decimal_name_starts)

lemma temporary_path_not_ksnap: "\<not> ksnap_name (temporary_path now final d)"
  by (simp add: ksnap_name_def temporary_path_ends is_hex_digit_def is_digit_def)

abbreviation sealed :: "stored_snapshot \<Rightarrow> stored_snapshot" where
  "sealed sn \<equiv> sn\<lparr>ss_checksum := snapshot_crc sn\<rparr>"

lemma sealed_simps: "snapshot_bytes (sealed sn) = snapshot_bytes sn" "snapshot_crc (sealed sn) = snapshot_crc sn"
  "snapshot_ok limits (sealed sn) = snapshot_ok limits sn"
  by (simp_all add: snapshot_bytes_def snapshot_header_def snapshot_body_def snapshot_crc_def snapshot_ok_def validate_snapshot_value_def)

lemma holds_snapshot_new:
  assumes limits: "snapshot_limits_ok limits" and sn: "snapshot_ok limits sn"
    and fs': "\<And>name. ksnap_name name \<Longrightarrow> omap_find fs' name = omap_find (omap_put (snapshot_name (index_of sn)) (snapshot_bytes sn) fs) name"
    and new: "\<not> omap_has fs (snapshot_name (index_of sn))"
  shows "holds_snapshot limits fs' t \<longleftrightarrow> holds_snapshot limits fs t \<or> t = sealed sn"
proof -
  have "validate_snapshot_value sn limits = Inr ()" "size_ok (ss_state sn)" using sn by (simp_all add: snapshot_ok_def)
  then have v: "length (snapshot_bytes sn) \<le> max_snapshot_bytes limits" "index_of sn \<noteq> 0"
    using validate_snapshot_iff[OF limits, of sn] by blast+
  have decode: "decode_snapshot_bytes limits path (snapshot_bytes sn) = Inr (sealed sn)" for path
    using decode_snapshot_complete[OF limits, of "sealed sn" path] sn by (simp add: sealed_simps)
  show ?thesis
  proof (cases "index_of t = index_of sn")
    case True
    then have "\<not> holds_snapshot limits fs t" using new by (auto simp: holds_snapshot_def omap_has_def)
    moreover have "holds_snapshot limits fs' t \<longleftrightarrow> t = sealed sn"
      using fs'[of "snapshot_name (index_of sn)"] v decode True by (auto simp: holds_snapshot_def)
    ultimately show ?thesis by simp
  next
    case False
    then have "t \<noteq> sealed sn" by auto
    then show ?thesis using fs'[of "snapshot_name (index_of t)"] False by (simp add: holds_snapshot_def)
  qed
qed

lemma publish_snapshot_cases:
  assumes "publish_snapshot F now limits sn d = (r, d')"
  obtains "isl r" "dk_files d' = dk_files d"
  | d1 where "dk_files d1 = dk_files d" "validate_snapshot_value sn limits = Inr ()"
      "\<not> omap_has (dk_files d) (snapshot_name (index_of sn))" "publish_new F now (snapshot_name (index_of sn)) (snapshot_bytes sn) d1 = (r, d')"
proof -
  obtain l d0 where l: "latest_locked F limits d = (l, d0)" by (cases "latest_locked F limits d")
  have d0: "dk_files d0 = dk_files d" using latest_files[of F limits d] l by simp
  show ?thesis
  proof (cases "encode_snapshot sn limits")
    case (Inl e)
    then show ?thesis using assms l d0 that(1)
      by (auto simp: publish_snapshot_def io_then_def io_throw_if_def io_throw_def io_return_def split: sum.splits if_splits)
  next
    case (Inr bytes)
    then have "validate_snapshot_value sn limits = Inr ()" "bytes = snapshot_bytes sn" using encode_snapshot_Inr by blast+
    then have valid: "\<And>e. validate_snapshot_value sn limits \<noteq> Inl e" "bytes = snapshot_bytes sn"
      "\<And>d1. dk_files d1 = dk_files d \<Longrightarrow> \<not> omap_has (dk_files d) (snapshot_name (index_of sn)) \<Longrightarrow>
        publish_new F now (snapshot_name (index_of sn)) (snapshot_bytes sn) d1 = (r, d') \<Longrightarrow> thesis"
      using that(2) by simp_all
    show ?thesis using assms l d0 that(1) valid(3)[of "d0\<lparr>dk_calls := dk_calls d0 + 1\<rparr>"] Inr valid(2)
      by (auto simp: publish_snapshot_def io_then_def io_throw_if_def io_throw_def io_return_def system_call_def Let_def
          split: sum.splits if_splits)
  qed
qed

lemma holds_snapshot_unchanged:
  assumes "\<And>name. ksnap_name name \<Longrightarrow> omap_find fs' name = omap_find fs name"
  shows "holds_snapshot limits fs' sn = holds_snapshot limits fs sn"
  by (simp add: holds_snapshot_def assms)

lemma is_latest_inject: "is_latest limits fs r \<Longrightarrow> is_latest limits fs s \<Longrightarrow> r = s"
  by (auto simp: is_latest_def split: option.splits intro!: holds_snapshot_inject intro: antisym)

text \<open>What the directory holds after a publication.\<close>

lemma publish_snapshot_outcome:
  assumes limits: "snapshot_limits_ok limits" and sn: "int64_ok (sm_store_revision (ss_metadata sn))" "size_ok (ss_state sn)"
    and run: "publish_snapshot F now limits sn d = (r, d')"
  shows "isl r \<and> (\<forall>t. holds_snapshot limits (dk_files d') t = holds_snapshot limits (dk_files d) t)
    \<or> (\<forall>t. holds_snapshot limits (dk_files d') t \<longleftrightarrow> holds_snapshot limits (dk_files d) t \<or> t = sealed sn)"
  using run
proof (cases rule: publish_snapshot_cases)
  case (2 d1)
  let ?name = "snapshot_name (index_of sn)"
  have ok: "snapshot_ok limits sn" using 2(2) sn by (simp add: snapshot_ok_def)
  consider "isl r" "\<forall>name. ksnap_name name \<longrightarrow> omap_find (dk_files d') name = omap_find (dk_files d) name"
    | "\<forall>name. ksnap_name name \<longrightarrow> omap_find (dk_files d') name = omap_find (omap_put ?name (snapshot_bytes sn) (dk_files d)) name"
    using publish_new_outcome[of ksnap_name, OF snapshot_name_ksnap temporary_path_not_ksnap 2(4)] 2(1) by auto
  then show ?thesis
  proof cases
    case 1
    then show ?thesis using holds_snapshot_unchanged by metis
  next
    case new: 2
    show ?thesis using holds_snapshot_new[OF limits ok _ 2(3)] new by blast
  qed
qed simp

lemma validate_file_holds:
  assumes "holds_snapshot limits (dk_files d) sn"
  shows "fst (validate_file no_faults limits (snapshot_name (index_of sn)) d) = Inr sn"
proof -
  have "parse_decimal_name (snapshot_name (index_of sn)) ''snapshot-'' ''.ksnap'' = Some (index_of sn)"
    by (simp add: snapshot_name_def parse_decimal_name_iff)
  moreover have "omap_has (dk_files d) (snapshot_name (index_of sn))" "index_of sn \<noteq> 0"
    using assms by (auto simp: holds_snapshot_def omap_has_def)
  then obtain d' where "decode_snapshot no_faults limits (snapshot_name (index_of sn)) d = (Inr sn, d')"
    using decode_snapshot_no_faults assms by metis
  ultimately show ?thesis using assms by (simp add: validate_file_def io_then_def)
qed

text \<open>
  C38.  Publishing a snapshot is atomic under every pattern of failing system calls, in a directory
  with any other files, damaged ones included.  Afterwards the latest snapshot is the one from
  before or the published one, never anything else, and its index has not gone back.  If the
  call returned, the published snapshot is stored under its name, with its checksum filled in, and
  the latest snapshot is at least as new.
\<close>

theorem publish_snapshot_atomic:
  assumes "snapshot_limits_ok limits" "int64_ok (sm_store_revision (ss_metadata sn))" "size_ok (ss_state sn)"
    and run: "publish_snapshot F now limits sn d = (r, d')"
  shows "\<exists>old new. fst (latest_locked no_faults limits d) = Inr old \<and> fst (latest_locked no_faults limits d') = Inr new
    \<and> (new = old \<or> new = Some (sealed sn)) \<and> (\<forall>x. old = Some x \<longrightarrow> (\<exists>y. new = Some y \<and> index_of x \<le> index_of y))
    \<and> (\<not> isl r \<longrightarrow> fst (validate_file no_faults limits (snapshot_name (index_of sn)) d') = Inr (sealed sn)
        \<and> (\<exists>y. new = Some y \<and> index_of sn \<le> index_of y))"
proof -
  obtain old where old: "fst (latest_locked no_faults limits d) = Inr old" "is_latest limits (dk_files d) old"
    using latest_no_faults[of limits d] by (metis fst_conv)
  obtain new where new: "fst (latest_locked no_faults limits d') = Inr new" "is_latest limits (dk_files d') new"
    using latest_no_faults[of limits d'] by (metis fst_conv)
  consider (kept) "isl r" "\<And>t. holds_snapshot limits (dk_files d') t = holds_snapshot limits (dk_files d) t"
    | (added) "\<And>t. holds_snapshot limits (dk_files d') t \<longleftrightarrow> holds_snapshot limits (dk_files d) t \<or> t = sealed sn"
    using publish_snapshot_outcome[OF assms] by blast
  then show ?thesis
  proof cases
    case kept
    then have "is_latest limits (dk_files d) new" using new(2) by (cases new) (simp_all add: is_latest_def)
    then have "new = old" using old(2) by (rule is_latest_inject)
    then show ?thesis using old new kept(1) by auto
  next
    case added
    then have published: "holds_snapshot limits (dk_files d') (sealed sn)" by simp
    then obtain y where y: "new = Some y" "holds_snapshot limits (dk_files d') y" "index_of sn \<le> index_of y"
      using new(2) by (cases new) (auto simp: is_latest_def)
    have above: "index_of t \<le> index_of y" if "holds_snapshot limits (dk_files d) t" for t
      using that added y(1) new(2) by (simp add: is_latest_def)
    have "new = old" if "y \<noteq> sealed sn"
      using that added y above old(2) by (intro is_latest_inject[of limits "dk_files d"]) (auto simp: is_latest_def)
    moreover have "\<forall>x. old = Some x \<longrightarrow> index_of x \<le> index_of y" using above old(2) by (auto simp: is_latest_def)
    ultimately show ?thesis using old new y validate_file_holds[OF published] by auto
  qed
qed

end
