(* ===== verification/Storage_Examples.thy ===== *)
theory Storage_Examples
  imports Hard_State_Store Wal_Progress Snapshot_Store
begin

text \<open>
  Concrete runs of the storage components: inputs at which the hypotheses of their properties hold.
\<close>

definition limits0 :: storage_limits where
  "limits0 = \<lparr>wal_segment_bytes = 256, max_wal_payload_bytes = 64, max_recovery_records = 16,
     max_snapshot_bytes = 1024, max_raft_hard_state_bytes = 64, max_snapshot_members = 4,
     snapshot_interval_entries = 8, backend_quota_bytes = 4096\<rparr>"

definition empty_disk :: disk where
  "empty_disk = \<lparr>dk_files = omap_empty, dk_calls = 0\<rparr>"

definition fresh_store :: hard_state_store where
  "fresh_store = \<lparr>hst_disk = empty_disk, hst_limits = limits0, hst_state = \<lparr>hs_current_term = 0, hs_voted_for = None\<rparr>,
     hst_generation = 0, hst_healthy = True\<rparr>"

definition vote_in_term_one :: persist_raft_hard_state where
  "vote_in_term_one = \<lparr>ph_request_id = 1, ph_state = \<lparr>hs_current_term = 1, hs_voted_for = Some 2\<rparr>\<rparr>"

theorem crc32c_detects_burst_witness:
  "crc32c ([1] @ [2, 3] @ [4]) \<noteq> crc32c ([1] @ [2, 5] @ [4])"
  using crc32c_detects_burst[of "[2, 3]" "[2, 5]" "[1]" "[4]"] by simp

lemma fresh_store_ok: "store_ok fresh_store"
  by (simp add: store_ok_def fresh_store_def limits0_def stored_def empty_disk_def store_record_def empty_record_def)

lemma persist_fresh_store: "fst (persist no_faults (\<lambda>_. False) ''1'' vote_in_term_one fresh_store) = Inr vote_in_term_one"
  by (intro persist_returns)
    (simp_all add: fresh_store_def vote_in_term_one_def validate_transition_def empty_disk_def omap_has_def)

theorem persist_atomic_witness:
  "store_ok fresh_store \<and> (\<exists>s'. persist no_faults (\<lambda>_. False) ''1'' vote_in_term_one fresh_store = (Inr vote_in_term_one, s')
    \<and> store_ok s' \<and> hst_state s' = \<lparr>hs_current_term = 1, hs_voted_for = Some 2\<rparr>
    \<and> (\<exists>t. open_store no_faults limits0 (hst_disk s') = Inr t
        \<and> hst_state t = \<lparr>hs_current_term = 1, hs_voted_for = Some 2\<rparr>))"
proof -
  obtain s' where run: "persist no_faults (\<lambda>_. False) ''1'' vote_in_term_one fresh_store = (Inr vote_in_term_one, s')"
    using persist_fresh_store by (metis prod.collapse)
  then show ?thesis
    using persist_atomic[OF fresh_store_ok run] fresh_store_ok
    by (auto simp: vote_in_term_one_def fresh_store_def)
qed

section \<open>The write-ahead log\<close>

definition wal0 :: wal where
  "wal0 = \<lparr>wl_disk = \<lparr>dk_files = omap_empty, dk_calls = 2\<rparr>, wl_limits = limits0, wl_segments = [], wl_active_file = None,
     wl_last_index = None, wl_expected_append = None, wl_active_size = 0, wl_recovered_record_count = 0, wl_healthy = True\<rparr>"

definition entry0 :: wal_entry where
  "entry0 = \<lparr>we_type = 1, we_term = 1, we_index = 7, we_payload = [1, 2, 3]\<rparr>"

lemma open_wal0: "open_wal no_faults limits0 empty_disk = (Inr wal0, wl_disk wal0)"
  by (simp add: open_wal_def limits0_def empty_disk_def wal_segment_header_size_def wal_record_header_size_def io_then_def
      wal_disk_def recover_locked_def segment_paths_def open_last_segment_def wal0_def omap_keys_def result_simps)

lemma wal0_ok: "wal_inv wal0 []" "only_segments (wl_disk wal0)" "last_sequence wal0 = 0" "limits_ok limits0"
  "validate_append wal0 [entry0] = Inr ()" "wl_healthy wal0" "max_recovery_records (wl_limits wal0) = 16"
proof -
  show ok: "limits_ok limits0" by (simp add: limits_ok_def limits0_def)
  have "wal_ok wal0 []"
    using ok by (simp add: wal_ok_def wal0_def log_on_disk_def torn_ok_def limits0_def last_index_of_def)
  then show "wal_inv wal0 []" using wal_ok_inv[of wal0 "[]"] by simp
  show "only_segments (wl_disk wal0)" "last_sequence wal0 = 0" "validate_append wal0 [entry0] = Inr ()"
    "wl_healthy wal0" "max_recovery_records (wl_limits wal0) = 16"
    by (simp_all add: only_segments_def omap_has_def last_sequence_def wal0_def validate_append_def Let_def entry0_def
        limits0_def validate_entries.simps command_record_type_def wal_record_header_size_def wal_segment_header_size_def)
qed

theorem append_returns_witness:
  "wl_healthy wal0 \<and> (\<exists>s'. append_wal no_faults (\<lambda>_. (1, 1)) [entry0] Synchronize wal0 = (Inr (), s')
    \<and> fst (recover_locked no_faults s') = Inr [entry0])"
  using append_returns[OF wal0_ok(1,6,5,2), of "\<lambda>_. (1, 1)" Synchronize] wal0_ok(3,6) by simp

theorem wal_history_durable_witness:
  "\<exists>s s2 :: wal. trace_of wal_step (Halted limits0 empty_disk)
      [Open_event, Append_event [entry0] True, Recover_event False, Halt_event] (Halted limits0 (wl_disk s2))
    \<and> recover_locked (\<lambda>_. True) s = (Inl io_error, s2)
    \<and> (\<exists>t d' es. open_wal no_faults limits0 (wl_disk s2) = (Inr t, d') \<and> fst (recover_locked no_faults t) = Inr es \<and> set es = {entry0})"
proof -
  obtain s where s: "append_wal no_faults (\<lambda>_. (1, 1)) [entry0] Synchronize wal0 = (Inr (), s)"
    using append_progress[OF wal0_ok(1,6,5,2), of "\<lambda>_. (1, 1)" Synchronize] wal0_ok(3) by auto
  obtain s2 where s2: "recover_locked (\<lambda>_. True) s = (Inl io_error, s2)" "wl_limits s2 = wl_limits s"
    by (simp add: recover_locked_def io_then_def wal_disk_def segment_paths_def system_call_def)
  have lim: "wl_limits s2 = limits0" using append_wal_outcome[OF wal0_ok(1) s] s2(2) by (simp add: wal0_def)
  have "wal_step (Halted limits0 empty_disk) Open_event (Running wal0)"
    using step_open[OF open_wal0] by simp
  moreover have "wal_step (Running wal0) (Append_event [entry0] True) (Running s)" using step_append[OF wal0_ok(6) s] by simp
  moreover have "wal_step (Running s) (Recover_event False) (Running s2)" using step_recover[OF s2(1)] by simp
  moreover have "wal_step (Running s2) Halt_event (Halted limits0 (wl_disk s2))" using step_halt[of s2] lim by simp
  ultimately have trace: "trace_of wal_step (Halted limits0 empty_disk)
      (((([] @ [Open_event]) @ [Append_event [entry0] True]) @ [Recover_event False]) @ [Halt_event]) (Halted limits0 (wl_disk s2))"
    using trace_Nil by (intro trace_snoc)
  have empty: "\<forall>name. wal_name name \<longrightarrow> \<not> omap_has (dk_files empty_disk) name" by (simp add: empty_disk_def omap_has_def)
  from wal_history_durable[OF wal0_ok(4) empty trace] obtain t d' es where
    "open_wal no_faults limits0 (wl_disk s2) = (Inr t, d')" "fst (recover_locked no_faults t) = Inr es" "entry0 \<in> set es" "set es \<subseteq> {entry0}"
    by auto
  moreover from this have "set es = {entry0}" by blast
  ultimately show ?thesis using trace s2(1) by auto
qed

theorem scan_records_bounds_witness:
  "40 \<le> length (replicate 100 (7 :: byte)) \<and>
    sc_offset (scan_records limits0 (replicate 100 7) True 1 0 [] 40 (Some 1)) \<le> 100"
  using scan_records_bounds[of 40 "replicate 100 7" "[]" 0 limits0 _ True 1 "Some 1"] by simp

theorem failed_recovery_accepts_any_index_witness:
  "\<exists>s'. recover_locked (\<lambda>_. True) wal0 = (Inl io_error, s') \<and> wl_healthy s' \<and> validate_append s' [entry0] = Inr ()"
  using failed_recovery_accepts_any_index[of wal0 "\<lambda>_. True" entry0] wal0_ok(6,7)
  by (auto simp: entry0_def command_record_type_def wal0_def limits0_def)

text \<open>A log of which only the third segment is left, for the append after a failed recovery.\<close>

definition third_segment :: seg where
  "third_segment = \<lparr>sg_sequence = 3, sg_first = 7, sg_entries = [entry0]\<rparr>"

definition cut_wal :: wal where
  "cut_wal = wal0\<lparr>wl_disk := \<lparr>dk_files = omap_put (seg_name third_segment) (seg_bytes third_segment) omap_empty, dk_calls = 0\<rparr>,
     wl_segments := [seg_info third_segment], wl_active_file := Some (seg_name third_segment),
     wl_expected_append := Some 8, wl_active_size := length (seg_bytes third_segment),
     wl_recovered_record_count := 1, wl_last_index := Some 7\<rparr>"

lemma cut_wal_ok: "wal_ok cut_wal [third_segment]" "only_segments (wl_disk cut_wal)"
proof -
  have "seg_ok limits0 third_segment"
    by (simp add: seg_ok_def third_segment_def seg_bytes_def records_bytes_def validate_entries.simps entry0_def limits0_def
        command_record_type_def wal_record_header_size_def wal_segment_header_size_def)
  then show "wal_ok cut_wal [third_segment]"
    using wal0_ok(4)
    by (simp add: wal_ok_def cut_wal_def wal0_def log_on_disk_def torn_ok_def seg_next_def last_index_of_def)
      (simp add: third_segment_def entry0_def limits0_def)
  show "only_segments (wl_disk cut_wal)" by (simp add: only_segments_def cut_wal_def omap_has_def)
qed

lemma failed_recovery_loses_log_example:
  "\<exists>s1 s2. recover_locked (\<lambda>_. True) cut_wal = (Inl io_error, s1)
    \<and> append_wal no_faults (\<lambda>_. (1, 1)) [entry0] Synchronize s1 = (Inr (), s2)
    \<and> isl (fst (open_wal no_faults limits0 (wl_disk s2)))"
proof -
  obtain s1 where s1: "recover_locked (\<lambda>_. True) cut_wal = (Inl io_error, s1)"
    by (simp add: recover_locked_def io_then_def wal_disk_def segment_paths_def system_call_def)
  obtain r s2 where s2: "append_wal no_faults (\<lambda>_. (1, 1)) [entry0] Synchronize s1 = (r, s2)"
    by (cases "append_wal no_faults (\<lambda>_. (1, 1)) [entry0] Synchronize s1")
  show ?thesis
    using append_after_failed_recovery_loses_log[OF cut_wal_ok(1) _ _ cut_wal_ok(2) _ _ _ _ _ s1 s2, of no_faults] s1 s2
    by (auto simp: third_segment_def entry0_def command_record_type_def cut_wal_def wal0_def limits0_def)
qed

section \<open>The snapshot store\<close>

definition snapshot0 :: stored_snapshot where
  "snapshot0 = \<lparr>ss_metadata = \<lparr>sm_last_included_index = 5, sm_last_included_term = 2, sm_store_revision = 9,
       sm_compaction_revision = 3, sm_membership = \<lparr>cm_voters = [1, 2], cm_learners = [3]\<rparr>, sm_format_version = 1\<rparr>,
     ss_state = [4, 2], ss_checksum = 0\<rparr>"

lemma snapshot0_ok: "snapshot_limits_ok limits0" "int64_ok (sm_store_revision (ss_metadata snapshot0))" "size_ok (ss_state snapshot0)"
  by (simp_all add: snapshot_limits_ok_def limits0_def snapshot0_def int64_ok_def int64_min_def int64_max_def size_ok_def)

lemma publish_snapshot0: "\<exists>d'. publish_snapshot no_faults (\<lambda>_. (1, 1)) limits0 snapshot0 empty_disk = (Inr (), d')"
proof -
  have latest: "latest_locked no_faults limits0 empty_disk = (Inr None, \<lparr>dk_files = omap_empty, dk_calls = 1\<rparr>)"
    by (simp add: latest_locked_def empty_disk_def io_then_def snapshot_candidates_def omap_keys_def)
  have valid: "validate_snapshot_value snapshot0 limits0 = Inr ()"
    using snapshot0_ok by (simp add: validate_snapshot_iff) (simp add: snapshot0_def limits0_def snapshot_bytes_def)
  let ?d = "\<lparr>dk_files = omap_empty, dk_calls = 2\<rparr> :: disk"
  have "temporary_path (\<lambda>_. (1, 1)) (snapshot_name 5) ?d \<noteq> snapshot_name 5" by (simp add: temporary_path_def)
  then have "fst (publish_new no_faults (\<lambda>_. (1, 1)) (snapshot_name 5) (snapshot_bytes snapshot0) ?d) = Inr ()"
    using publish_new_no_faults[of ?d] by (simp add: omap_has_def)
  then have "\<exists>d'. publish_new no_faults (\<lambda>_. (1, 1)) (snapshot_name 5) (snapshot_bytes snapshot0) ?d = (Inr (), d')"
    by (metis prod.collapse)
  moreover have "index_of snapshot0 = 5" by (simp add: snapshot0_def)
  ultimately show ?thesis
    by (simp add: publish_snapshot_def io_then_def latest encode_snapshot_ok[OF valid] Let_def omap_has_def numeral_2_eq_2)
qed

theorem publish_snapshot_atomic_witness:
  "\<exists>d' y. publish_snapshot no_faults (\<lambda>_. (1, 1)) limits0 snapshot0 empty_disk = (Inr (), d')
    \<and> fst (latest_locked no_faults limits0 d') = Inr (Some y) \<and> 5 \<le> sm_last_included_index (ss_metadata y)"
proof -
  obtain d' where run: "publish_snapshot no_faults (\<lambda>_. (1, 1)) limits0 snapshot0 empty_disk = (Inr (), d')"
    using publish_snapshot0 by blast
  have "index_of snapshot0 = 5" by (simp add: snapshot0_def)
  then show ?thesis using publish_snapshot_atomic[OF snapshot0_ok run] run by auto
qed

end
