(* ===== verification/Raft_Core.thy ===== *)
theory Raft_Core
  imports Figure2 Checksum Effects
begin

text \<open>
  The election core (\<^verbatim>\<open>src/src/raft_election.cpp\<close>, \<^verbatim>\<open>src/include/kura/metadata/raft/election.hpp\<close>):
  it drives the Figure 2 specification, gives it timers, waits for the log and for snapshots to
  become durable, applies committed entries one at a time, serves reads by read index and moves
  snapshots between servers.  The fields of the class \<open>Core\<close> are one record; a member function is
  a computation on it, and keeps the changes it made before an exception.
\<close>

unbundle bit_operations_syntax

section \<open>Inputs, effects and state\<close>

record timeout_range =
  tr_minimum :: u64
  tr_maximum :: u64

record create_raft_snapshot =
  cs_applied_index :: log_index
  cs_store_revision :: int
  cs_compaction_revision :: int
  cs_membership :: cluster_membership
  cs_state :: "byte list"

datatype read_index_failure =
    Not_leader | Current_term_not_committed | Capacity_exceeded | Duplicate_request
  | Cancelled | Timed_out | Leadership_lost | Context_exhausted

datatype snapshot_rejection =
    No_applied_entry | Stale_snapshot | Invalid_membership | Invalid_revision
  | Invalid_transfer | Corrupt_snapshot | Too_large | Persistence_busy

datatype core_input =
    Election_deadline u64
  | Heartbeat_deadline u64
  | Request_vote_received node_id request_vote_request
  | Request_vote_response_received node_id request_vote_response
  | Append_entries_received node_id append_entries_request
  | Append_entries_response_received node_id append_entries_response
  | Client_command_received command_envelope
  | Hard_state_persisted u64 raft_hard_state
  | Log_persisted u64 "log_entry list"
  | Log_entry_applied u64 log_index
  | Log_entry_apply_failed u64 log_index
  | Retry_application
  | Create_snapshot create_raft_snapshot
  | Install_snapshot_received node_id install_snapshot_request
  | Install_snapshot_response_received node_id install_snapshot_response
  | Snapshot_persisted u64 raft_snapshot
  | Snapshot_restored u64 log_index
  | Read_index_request request_id
  | Cancel_read_index request_id
  | Timeout_read_index request_id

datatype core_effect =
    Role_transition raft_role raft_role raft_term
  | Persist_hard_state_effect persist_raft_hard_state
  | Persist_raft_log u64 "log_entry list"
  | Persist_raft_snapshot u64 raft_snapshot
  | Send_vote_request node_id request_vote_request
  | Send_vote_response node_id request_vote_response
  | Send_entries node_id append_entries_request
  | Send_entries_response node_id append_entries_response
  | Send_install_snapshot node_id install_snapshot_request
  | Send_install_snapshot_response node_id install_snapshot_response
  | Restore_state_machine_snapshot u64 raft_snapshot
  | Truncate_raft_log_prefix log_index
  | Raft_snapshot_created log_index
  | Raft_snapshot_rejected snapshot_rejection
  | Apply_log_entry u64 log_entry
  | Application_backpressured log_index
  | Complete_command log_index
  | Read_index_response request_id log_index
  | Read_index_rejected request_id read_index_failure
  | Reset_election_deadline u64 u64
  | Cancel_election_deadline u64
  | Reset_heartbeat_deadline u64 u64
  | Cancel_heartbeat_deadline u64

record core_result =
  cr_rules :: "rule_id list"
  cr_effects :: "core_effect list"

record pending_log_persistence =
  pl_request_id :: u64
  pl_log :: "log_entry list"
  pl_deferred_effects :: "core_effect list"

record pending_application =
  pa_request_id :: u64
  pa_entry :: log_entry
  pa_blocked :: bool

record pending_read =
  pr_request :: request_id
  pr_read_index :: log_index
  pr_acknowledgements :: "node_id oset"
  pr_quorum_confirmed :: bool

record pending_snapshot_persistence =
  sp_request_id :: u64
  sp_snapshot :: raft_snapshot
  sp_reply_to :: "node_id option"
  sp_response :: "install_snapshot_response option"
  sp_local_creation :: bool

record pending_snapshot_transfer =
  st_transfer_id :: u64
  st_term :: raft_term
  st_index :: log_index

record pending_snapshot_restore =
  re_request_id :: u64
  re_snapshot :: raft_snapshot
  re_reply_to :: node_id
  re_response :: install_snapshot_response

record core =
  co_state :: f2_state
  co_timeouts :: timeout_range
  co_heartbeat_interval :: u64
  co_random_state :: u64
  co_next_timer_id :: u64
  co_next_log_request_id :: u64
  co_next_application_request_id :: u64
  co_election_timer :: "u64 option"
  co_election_timeout :: "u64 option"
  co_heartbeat_timer :: "u64 option"
  co_pending_log :: "pending_log_persistence option"
  co_pending_application :: "pending_application option"
  co_pending_snapshot :: "pending_snapshot_persistence option"
  co_pending_restore :: "pending_snapshot_restore option"
  co_install_after_hard_state :: "(node_id \<times> install_snapshot_request) option"
  co_durable_snapshot :: "raft_snapshot option"
  co_snapshot_transfers :: "(node_id, pending_snapshot_transfer) omap"
  co_pending_reads :: "(read_index_context, pending_read) omap"
  co_pending_read_requests :: "(request_id, read_index_context) omap"
  co_used_read_requests :: "request_id oset"
  co_max_pending_reads :: nat
  co_max_read_history :: nat
  co_next_read_context :: u64
  co_next_snapshot_request_id :: u64
  co_next_snapshot_transfer_id :: u64
  co_max_snapshot_bytes :: nat
  co_max_snapshot_members :: nat
  co_completed_read_count :: u64
  co_rejected_read_count :: u64
  co_started :: bool

definition emit :: "core_effect \<Rightarrow> core_result \<Rightarrow> core_result" where
  "emit e r = r\<lparr>cr_effects := cr_effects r @ [e]\<rparr>"

definition effects_only :: "core_effect list \<Rightarrow> core_result" where
  "effects_only es = \<lparr>cr_rules = [], cr_effects = es\<rparr>"

definition join_results :: "core_result \<Rightarrow> core_result \<Rightarrow> core_result" where
  "join_results r continuation =
     \<lparr>cr_rules = cr_rules r @ cr_rules continuation, cr_effects = cr_effects r @ cr_effects continuation\<rparr>"

section \<open>Timers\<close>

definition splitmix64 :: "u64 \<Rightarrow> u64 \<times> u64" where
  "splitmix64 state =
     (let state = state + 0x9e3779b97f4a7c15;
          value = (state XOR drop_bit 30 state) * 0xbf58476d1ce4e5b9;
          value = (value XOR drop_bit 27 value) * 0x94d049bb133111eb
      in (value XOR drop_bit 31 value, state))"

definition next_deadline :: "(core, core_effect) io" where
  "next_deadline c =
     (if co_next_timer_id c = 0 \<or> co_next_timer_id c = uint64_max
      then (Inl (Overflow_Error ''Raft election timer ID exhausted''), c)
      else let width = tr_maximum (co_timeouts c) - tr_minimum (co_timeouts c); timer = co_next_timer_id c in
        if width = 0
        then (Inr (Reset_election_deadline timer (tr_minimum (co_timeouts c))),
          c\<lparr>co_next_timer_id := timer + 1, co_election_timer := Some timer,
            co_election_timeout := Some (tr_minimum (co_timeouts c))\<rparr>)
        else if width + 1 = 0 then (Inl Undefined_Behaviour, c)
        else let (value, random_state) = splitmix64 (co_random_state c);
                 delay = tr_minimum (co_timeouts c) + value mod (width + 1) in
          (Inr (Reset_election_deadline timer delay),
           c\<lparr>co_random_state := random_state, co_next_timer_id := timer + 1, co_election_timer := Some timer,
             co_election_timeout := Some delay\<rparr>))"

definition next_heartbeat :: "(core, core_effect) io" where
  "next_heartbeat c =
     (if co_next_timer_id c = 0 \<or> co_next_timer_id c = uint64_max
      then (Inl (Overflow_Error ''Raft timer ID exhausted''), c)
      else let timer = co_next_timer_id c in
        (Inr (Reset_heartbeat_deadline timer (co_heartbeat_interval c)),
         c\<lparr>co_next_timer_id := timer + 1, co_heartbeat_timer := Some timer\<rparr>))"

section \<open>Reads and application\<close>

definition reject_pending_reads :: "read_index_failure \<Rightarrow> core_result \<Rightarrow> (core, core_result) io" where
  "reject_pending_reads reason r c =
     (let reads = omap_values (co_pending_reads c) in
      (Inr (r\<lparr>cr_effects := cr_effects r @ map (\<lambda>pending. Read_index_rejected (pr_request pending) reason) reads\<rparr>),
       c\<lparr>co_rejected_read_count := co_rejected_read_count c + of_nat (length reads),
         co_pending_reads := omap_empty, co_pending_read_requests := omap_empty\<rparr>))"

definition read_ready :: "core \<Rightarrow> pending_read \<Rightarrow> bool" where
  "read_ready c pending \<longleftrightarrow> pr_quorum_confirmed pending \<and> pr_read_index pending \<le> f2_applied (co_state c)"

definition complete_read :: "read_index_context \<times> pending_read \<Rightarrow> core_result \<times> core \<Rightarrow> core_result \<times> core" where
  "complete_read entry rc = (case (entry, rc) of ((context, pending), (r, c)) \<Rightarrow>
     if read_ready c pending
     then (emit (Read_index_response (pr_request pending) (pr_read_index pending)) r,
       c\<lparr>co_pending_read_requests := omap_drop (pr_request pending) (co_pending_read_requests c),
         co_completed_read_count := co_completed_read_count c + 1,
         co_pending_reads := omap_drop context (co_pending_reads c)\<rparr>)
     else (r, c))"

definition complete_ready_reads :: "core_result \<Rightarrow> (core, core_result) io" where
  "complete_ready_reads r c =
     (let (r', c') = fold complete_read (omap_items (co_pending_reads c)) (r, c) in (Inr r', c'))"

definition application_limit :: u64 where
  "application_limit = push_bit 63 1"

definition schedule_application :: "core_result \<Rightarrow> (core, core_result) io" where
  "schedule_application r c =
     (if co_pending_application c \<noteq> None \<or> f2_applied (co_state c) \<ge> f2_commit (co_state c) then (Inr r, c)
      else if co_next_application_request_id c \<ge> application_limit
      then (Inl (Overflow_Error ''Raft application request ID exhausted''), c)
      else let index = f2_applied (co_state c) + 1; base = log_base (f2_persistent (co_state c));
               request_id = co_next_application_request_id c;
               c' = c\<lparr>co_next_application_request_id := request_id + 1\<rparr> in
        case vector_at (f2_log (co_state c)) (index - base - 1) of
          Inl e \<Rightarrow> (Inl e, c')
        | Inr entry \<Rightarrow> (Inr (emit (Apply_log_entry request_id entry) r),
            c'\<lparr>co_pending_application := Some \<lparr>pa_request_id = request_id, pa_entry = entry, pa_blocked = False\<rparr>\<rparr>))"

definition acknowledge_read ::
    "node_id \<Rightarrow> append_entries_response \<Rightarrow> core_result \<Rightarrow> (core, core_result) io" where
  "acknowledge_read sender response r c =
     (if f2_role (co_state c) \<noteq> Leader \<or> aer_term response \<noteq> f2_term (co_state c) \<or> \<not> aer_succeeded response
      then (Inr r, c)
      else case aer_read_context response of
        None \<Rightarrow> (Inr r, c)
      | Some context \<Rightarrow>
          (case omap_find (co_pending_reads c) context of
             None \<Rightarrow> (Inr r, c)
           | Some pending \<Rightarrow>
               let acknowledgements = oset_insert sender (pr_acknowledgements pending);
                   majority = (length (f2_peers (co_state c)) + 1) div 2 + 1;
                   pending' = pending\<lparr>pr_acknowledgements := acknowledgements,
                     pr_quorum_confirmed := pr_quorum_confirmed pending
                       \<or> length (oset_elems acknowledgements) \<ge> majority\<rparr> in
               complete_ready_reads r (c\<lparr>co_pending_reads := omap_put context pending' (co_pending_reads c)\<rparr>)))"

section \<open>The log gate and compacted appends\<close>

fun is_log_request :: "core_effect \<Rightarrow> bool" where
  "is_log_request (Persist_raft_log request_id log) = True"
| "is_log_request _ = False"

definition gate_log_persistence :: "core_result \<Rightarrow> (core, core_result) io" where
  "gate_log_persistence r c =
     (case dropWhile (\<lambda>e. \<not> is_log_request e) (cr_effects r) of
        Persist_raft_log request_id log # deferred \<Rightarrow>
          if co_pending_log c \<noteq> None then (Inl (Logic_Error ''Raft log persistence is already pending''), c)
          else (Inr (r\<lparr>cr_effects := takeWhile (\<lambda>e. \<not> is_log_request e) (cr_effects r) @ [Persist_raft_log request_id log]\<rparr>),
                c\<lparr>co_pending_log := Some \<lparr>pl_request_id = request_id, pl_log = log, pl_deferred_effects = deferred\<rparr>\<rparr>)
      | _ \<Rightarrow> (Inr r, c))"

fun replace_append :: "raft_snapshot \<Rightarrow> leader_state \<Rightarrow> core_effect \<Rightarrow> core_effect list \<Rightarrow> (core, core_effect list) io" where
  "replace_append snapshot leader (Send_entries peer request) effects c =
     (case omap_find (ls_progress leader) peer of
        None \<Rightarrow> (Inr (effects @ [Send_entries peer request]), c)
      | Some progress \<Rightarrow>
          if pp_next_index progress > sm_last_included_index (rs_metadata snapshot)
          then (Inr (effects @ [Send_entries peer request]), c)
          else if co_next_snapshot_transfer_id c = 0 \<or> co_next_snapshot_transfer_id c = uint64_max
          then (Inl (Overflow_Error ''Raft snapshot transfer ID exhausted''), c)
          else let transfer = co_next_snapshot_transfer_id c in
            (Inr (effects @ [Send_install_snapshot peer
               \<lparr>is_term = f2_term (co_state c), is_leader = f2_node (co_state c), is_transfer_id = transfer,
                is_metadata = rs_metadata snapshot, is_offset = 0, is_total_size = of_nat (length (rs_state snapshot)),
                is_chunk = rs_state snapshot, is_state_checksum = crc32c (rs_state snapshot), is_done = True,
                is_read_context = ae_read_context request\<rparr>]),
             c\<lparr>co_next_snapshot_transfer_id := transfer + 1,
               co_snapshot_transfers := omap_put peer \<lparr>st_transfer_id = transfer, st_term = f2_term (co_state c),
                 st_index = sm_last_included_index (rs_metadata snapshot)\<rparr> (co_snapshot_transfers c)\<rparr>))"
| "replace_append snapshot leader effect effects c = (Inr (effects @ [effect]), c)"

definition replace_compacted_appends :: "core_result \<Rightarrow> (core, core_result) io" where
  "replace_compacted_appends r c =
     (case (co_durable_snapshot c, f2_leader (co_state c)) of
        (Some snapshot, Some leader) \<Rightarrow>
          if f2_role (co_state c) \<noteq> Leader then (Inr r, c)
          else io_then (io_fold (replace_append snapshot leader) (cr_effects r) []) (\<lambda>effects.
            io_return (r\<lparr>cr_effects := effects\<rparr>)) c
      | _ \<Rightarrow> (Inr r, c))"

section \<open>Running the specification\<close>

definition stop_heartbeat :: "core_result \<Rightarrow> (core, core_result) io" where
  "stop_heartbeat r c = (case co_heartbeat_timer c of
     None \<Rightarrow> (Inr r, c)
   | Some timer \<Rightarrow> (Inr (emit (Cancel_heartbeat_deadline timer) r), c\<lparr>co_heartbeat_timer := None\<rparr>))"

definition step_down :: "bool \<Rightarrow> core_result \<Rightarrow> (core, core_result) io" where
  "step_down resets_election r =
     io_then (stop_heartbeat r) (\<lambda>r.
     io_then (if resets_election then io_return r else io_then next_deadline (\<lambda>deadline. io_return (emit deadline r))) (\<lambda>r.
     io_then (reject_pending_reads Leadership_lost r) (\<lambda>r.
     io_then (io_modify (\<lambda>c. c\<lparr>co_snapshot_transfers := omap_empty\<rparr>)) (\<lambda>_. io_return r))))"

definition lead_with_heartbeat :: "u64 \<Rightarrow> core_result \<Rightarrow> (core, core_result) io" where
  "lead_with_heartbeat timer r =
     io_then (io_modify (\<lambda>c. c\<lparr>co_election_timer := None, co_election_timeout := None\<rparr>)) (\<lambda>_.
     io_then next_heartbeat (\<lambda>heartbeat. io_return (emit heartbeat (emit (Cancel_election_deadline timer) r))))"

definition role_change :: "raft_role \<Rightarrow> bool \<Rightarrow> core_result \<Rightarrow> (core, core_result) io" where
  "role_change previous resets_election r c =
     (let role = f2_role (co_state c); announced = emit (Role_transition previous role (f2_term (co_state c))) r in
      if role = previous then (Inr r, c)
      else if role = Leader \<and> co_election_timer c \<noteq> None then lead_with_heartbeat (the (co_election_timer c)) announced c
      else if previous = Leader \<and> role \<noteq> Leader then step_down resets_election announced c
      else (Inr announced, c))"

fun translate_effect :: "f2_effect \<Rightarrow> core_result \<Rightarrow> (core, core_result) io" where
  "translate_effect (Persist_raft_hard_state request) r = io_return (emit (Persist_hard_state_effect request) r)"
| "translate_effect (Send_request_vote to request) r = io_return (emit (Send_vote_request to request) r)"
| "translate_effect (Send_request_vote_response to response) r = io_return (emit (Send_vote_response to response) r)"
| "translate_effect (Send_append_entries to request) r = io_return (emit (Send_entries to request) r)"
| "translate_effect (Send_append_entries_response to response) r = io_return (emit (Send_entries_response to response) r)"
| "translate_effect Persist_log r = (\<lambda>c.
     if co_next_log_request_id c = uint64_max
     then (Inl (Overflow_Error ''Raft log persistence request ID exhausted''), c)
     else (Inr (emit (Persist_raft_log (co_next_log_request_id c) (f2_log (co_state c))) r),
           c\<lparr>co_next_log_request_id := co_next_log_request_id c + 1\<rparr>))"
| "translate_effect Reset_election_timer r = io_then next_deadline (\<lambda>deadline. io_return (emit deadline r))"
| "translate_effect (Apply_command index command) r = io_return r"
| "translate_effect (Complete_client_command index) r = io_return r"

definition translate :: "step_result \<Rightarrow> raft_role \<Rightarrow> (core, core_result) io" where
  "translate result previous =
     io_then (io_modify (\<lambda>c. c\<lparr>co_state := sr_state result\<rparr>)) (\<lambda>_.
     io_then (role_change previous (Reset_election_timer \<in> set (sr_effects result))
       \<lparr>cr_rules = sr_rules result, cr_effects = []\<rparr>) (\<lambda>r.
     io_then (io_fold translate_effect (sr_effects result) r) (\<lambda>r.
     io_then (gate_log_persistence r) (\<lambda>r.
     io_then (replace_compacted_appends r) (\<lambda>r c.
     if f2_pending (co_state c) = None \<and> co_pending_log c = None then schedule_application r c else (Inr r, c))))))"

definition run_figure2 :: "f2_event \<Rightarrow> (core, core_result) io" where
  "run_figure2 event c = io_then (io_lift (\<lambda>c. f2_step (co_state c) event)) (\<lambda>result. translate result (f2_role (co_state c))) c"

section \<open>Read index\<close>

definition commit_term :: "f2_state \<Rightarrow> raft_term result" where
  "commit_term s =
     (let base = log_base (f2_persistent s) in
      case ps_snapshot (f2_persistent s) of
        Some m \<Rightarrow>
          if f2_commit s = base then Inr (sm_last_included_term m)
          else if f2_commit s > base then and_then (vector_at (f2_log s) (f2_commit s - base - 1)) (\<lambda>e. Inr (le_term e))
          else Inr 0
      | None \<Rightarrow> if f2_commit s > base then and_then (vector_at (f2_log s) (f2_commit s - base - 1)) (\<lambda>e. Inr (le_term e))
          else Inr 0)"

definition reject_read :: "request_id \<Rightarrow> read_index_failure \<Rightarrow> (core, core_result) io" where
  "reject_read request reason c =
     (Inr (effects_only [Read_index_rejected request reason]), c\<lparr>co_rejected_read_count := co_rejected_read_count c + 1\<rparr>)"

fun with_read_context :: "read_index_context \<Rightarrow> core_effect \<Rightarrow> core_effect" where
  "with_read_context context (Send_entries to request) = Send_entries to (request\<lparr>ae_read_context := Some context\<rparr>)"
| "with_read_context context (Send_install_snapshot to request) =
     Send_install_snapshot to (request\<lparr>is_read_context := Some context\<rparr>)"
| "with_read_context context e = e"

definition no_request :: request_id where
  "no_request = \<lparr>rid_client = 0, rid_sequence = 0\<rparr>"

definition admit_read :: "request_id \<Rightarrow> core \<Rightarrow> core" where
  "admit_read request c =
     (let context = co_next_read_context c in
      c\<lparr>co_next_read_context := context + 1,
        co_used_read_requests := oset_insert request (co_used_read_requests c),
        co_pending_read_requests := omap_put request context (co_pending_read_requests c),
        co_pending_reads := omap_put context \<lparr>pr_request = request, pr_read_index = f2_commit (co_state c),
          pr_acknowledgements = oset_insert (f2_node (co_state c)) oset_empty, pr_quorum_confirmed = False\<rparr>
          (co_pending_reads c)\<rparr>)"

definition begin_read :: "request_id \<Rightarrow> (core, core_result) io" where
  "begin_read request c =
     (if request = no_request then (Inl (Invalid_Argument ''ReadIndex request ID must be nonzero''), c)
      else if f2_role (co_state c) \<noteq> Leader then reject_read request Not_leader c
      else if oset_member request (co_used_read_requests c) then reject_read request Duplicate_request c
      else io_then (io_lift (\<lambda>c. commit_term (co_state c))) (\<lambda>commit_term c.
        if f2_commit (co_state c) = 0 \<or> commit_term \<noteq> f2_term (co_state c)
        then reject_read request Current_term_not_committed c
        else if omap_size (co_pending_reads c) \<ge> co_max_pending_reads c
             \<or> length (oset_elems (co_used_read_requests c)) \<ge> co_max_read_history c
        then reject_read request Capacity_exceeded c
        else if co_next_read_context c = 0 \<or> co_next_read_context c = uint64_max
        then reject_read request Context_exhausted c
        else io_then (run_figure2 Heartbeat_timeout) (\<lambda>r.
          io_return (r\<lparr>cr_effects := map (with_read_context (co_next_read_context c)) (cr_effects r)\<rparr>))
          (admit_read request c)) c)"

definition end_read :: "request_id \<Rightarrow> read_index_failure \<Rightarrow> (core, core_result) io" where
  "end_read request reason c =
     (case omap_find (co_pending_read_requests c) request of
        None \<Rightarrow> (Inr (effects_only []), c)
      | Some context \<Rightarrow>
          (Inr (effects_only [Read_index_rejected request reason]),
           c\<lparr>co_pending_reads := omap_drop context (co_pending_reads c),
             co_pending_read_requests := omap_drop request (co_pending_read_requests c),
             co_rejected_read_count := co_rejected_read_count c + 1\<rparr>))"

definition cancel_read :: "request_id \<Rightarrow> (core, core_result) io" where
  "cancel_read request = end_read request Cancelled"

definition timeout_read :: "request_id \<Rightarrow> (core, core_result) io" where
  "timeout_read request = end_read request Timed_out"

section \<open>Snapshots\<close>

definition expected_voters :: "f2_state \<Rightarrow> node_id list" where
  "expected_voters s = sort (f2_peers s @ [f2_node s])"

fun adjacent_equal :: "node_id list \<Rightarrow> bool" where
  "adjacent_equal (x # y # xs) = (x = y \<or> adjacent_equal (y # xs))"
| "adjacent_equal xs = False"

definition reject_snapshot :: "snapshot_rejection \<Rightarrow> (core, core_result) io" where
  "reject_snapshot reason = io_return (effects_only [Raft_snapshot_rejected reason])"

definition snapshot_request_limit :: u64 where
  "snapshot_request_limit = push_bit 62 1"

definition take_snapshot_request_id :: "(core, u64) io" where
  "take_snapshot_request_id c =
     (let request_id = co_next_snapshot_request_id c in
      if request_id = 0 \<or> request_id \<ge> snapshot_request_limit
      then (Inl (Overflow_Error ''Raft snapshot persistence request ID exhausted''), c)
      else (Inr request_id, c\<lparr>co_next_snapshot_request_id := request_id + 1\<rparr>))"

definition snapshot_term :: "f2_state \<Rightarrow> log_index \<Rightarrow> raft_term result" where
  "snapshot_term s index =
     (let base = log_base (f2_persistent s);
          from_log = and_then (vector_at (f2_log s) (index - base - 1)) (\<lambda>e. Inr (le_term e)) in
      case ps_snapshot (f2_persistent s) of
        None \<Rightarrow> from_log
      | Some m \<Rightarrow> if index = base then Inr (sm_last_included_term m) else from_log)"

definition invalid_snapshot_membership :: "core \<Rightarrow> cluster_membership \<Rightarrow> bool" where
  "invalid_snapshot_membership c membership \<longleftrightarrow>
     (let voters = cm_voters membership; learners = cm_learners membership in
      voters \<noteq> expected_voters (co_state c) \<or> adjacent_equal voters \<or> adjacent_equal learners \<or> 0 \<in> set learners
      \<or> list_ex (\<lambda>node. node \<in> set voters) learners
      \<or> length voters + length learners > co_max_snapshot_members c)"

definition begin_snapshot :: "create_raft_snapshot \<Rightarrow> (core, core_result) io" where
  "begin_snapshot request c =
     (let index = cs_applied_index request;
          membership = \<lparr>cm_voters = sort (cm_voters (cs_membership request)),
            cm_learners = sort (cm_learners (cs_membership request))\<rparr>;
          overhead = 68 + 8 * (length (cm_voters membership) + length (cm_learners membership)) in
      if co_pending_snapshot c \<noteq> None then reject_snapshot Persistence_busy c
      else if index = 0 \<or> index \<noteq> f2_applied (co_state c) then reject_snapshot No_applied_entry c
      else if (case co_durable_snapshot c of None \<Rightarrow> False | Some d \<Rightarrow> index \<le> sm_last_included_index (rs_metadata d))
      then reject_snapshot Stale_snapshot c
      else if cs_store_revision request < 0 \<or> cs_compaction_revision request < 0
           \<or> cs_compaction_revision request > cs_store_revision request
      then reject_snapshot Invalid_revision c
      else if invalid_snapshot_membership c membership then reject_snapshot Invalid_membership c
      else if overhead > co_max_snapshot_bytes c \<or> length (cs_state request) > co_max_snapshot_bytes c - overhead
      then reject_snapshot Too_large c
      else io_then (io_lift (\<lambda>c. snapshot_term (co_state c) index)) (\<lambda>included_term.
        io_then take_snapshot_request_id (\<lambda>request_id.
        let snapshot = \<lparr>rs_metadata = \<lparr>sm_last_included_index = index, sm_last_included_term = included_term,
                sm_store_revision = cs_store_revision request, sm_compaction_revision = cs_compaction_revision request,
                sm_membership = membership, sm_format_version = 1\<rparr>,
              rs_state = cs_state request, rs_checksum = crc32c (cs_state request)\<rparr> in
        io_then (io_modify (\<lambda>c. c\<lparr>co_pending_snapshot := Some \<lparr>sp_request_id = request_id, sp_snapshot = snapshot,
          sp_reply_to = None, sp_response = None, sp_local_creation = True\<rparr>\<rparr>)) (\<lambda>_.
        io_return (effects_only [Persist_raft_snapshot request_id snapshot])))) c)"

text \<open>The checks of \<open>receive_snapshot\<close> on sizes, fields and membership.\<close>

definition member_size_valid :: "core \<Rightarrow> snapshot_metadata \<Rightarrow> bool" where
  "member_size_valid c metadata \<longleftrightarrow>
     (let voter_count = length (cm_voters (sm_membership metadata)); learner_count = length (cm_learners (sm_membership metadata));
          room = (co_max_snapshot_bytes c - 68) div 8 in
      voter_count \<le> co_max_snapshot_members c \<and> learner_count \<le> co_max_snapshot_members c
      \<and> voter_count \<le> co_max_snapshot_members c - learner_count
      \<and> voter_count \<le> room \<and> learner_count \<le> room \<and> voter_count \<le> room - learner_count)"

definition valid_shape :: "core \<Rightarrow> install_snapshot_request \<Rightarrow> bool" where
  "valid_shape c request \<longleftrightarrow>
     (let metadata = is_metadata request;
          member_count = length (cm_voters (sm_membership metadata)) + length (cm_learners (sm_membership metadata));
          state_size_valid = (unat (is_total_size request) \<le> co_max_snapshot_bytes c);
          encoded_size = (68 + 8 * of_nat member_count + is_total_size request :: u64) in
      member_size_valid c metadata \<and> state_size_valid \<and> is_transfer_id request \<noteq> 0 \<and> is_offset request = 0
      \<and> is_done request \<and> unat (is_total_size request) = length (is_chunk request)
      \<and> encoded_size \<ge> is_total_size request \<and> unat encoded_size \<le> co_max_snapshot_bytes c
      \<and> sm_last_included_index metadata \<noteq> 0 \<and> sm_last_included_term metadata \<noteq> 0
      \<and> sm_last_included_term metadata \<le> is_term request \<and> sm_format_version metadata = 1
      \<and> 0 \<le> sm_store_revision metadata \<and> 0 \<le> sm_compaction_revision metadata
      \<and> sm_compaction_revision metadata \<le> sm_store_revision metadata)"

definition valid_members :: "f2_state \<Rightarrow> cluster_membership \<Rightarrow> bool" where
  "valid_members s membership \<longleftrightarrow>
     (let voters = cm_voters membership; learners = cm_learners membership in
      sort voters = expected_voters s \<and> 0 \<notin> set voters \<and> 0 \<notin> set learners \<and> sorted voters \<and> sorted learners
      \<and> length (remdups (voters @ learners)) = length voters + length learners)"

definition install_rejection :: "core \<Rightarrow> node_id \<Rightarrow> install_snapshot_request \<Rightarrow> core_effect" where
  "install_rejection c sender request = Send_install_snapshot_response sender
     \<lparr>isr_term = f2_term (co_state c), isr_transfer_id = is_transfer_id request, isr_succeeded = False,
      isr_last_included_index = 0, isr_read_context = is_read_context request\<rparr>"

definition reset_timer_as_follower :: "node_id \<Rightarrow> f2_state \<Rightarrow> step_result" where
  "reset_timer_as_follower leader s =
     \<lparr>sr_state = s\<lparr>f2_role := Follower, f2_leader := None, f2_votes_received := oset_empty, f2_known_leader := Some leader\<rparr>,
      sr_rules = [], sr_effects = [Reset_election_timer]\<rparr>"

text \<open>What \<open>receive_snapshot\<close> does after it has become a follower of the sender.\<close>

definition accept_snapshot :: "node_id \<Rightarrow> install_snapshot_request \<Rightarrow> core_result \<Rightarrow> (core, core_result) io" where
  "accept_snapshot sender request r c =
     (let metadata = is_metadata request; index = sm_last_included_index metadata;
          rejected = (Inr (emit (install_rejection c sender request) r), c) in
      if \<not> valid_shape c request \<or> crc32c (is_chunk request) \<noteq> is_state_checksum request then rejected
      else if \<not> valid_members (co_state c) (sm_membership metadata) then rejected
      else let install =
        (if index \<le> f2_applied (co_state c) then rejected
         else io_then take_snapshot_request_id (\<lambda>request_id.
           let snapshot = \<lparr>rs_metadata = metadata, rs_state = is_chunk request, rs_checksum = is_state_checksum request\<rparr> in
           io_then (io_modify (\<lambda>c. c\<lparr>co_pending_snapshot := Some \<lparr>sp_request_id = request_id, sp_snapshot = snapshot,
             sp_reply_to = Some sender,
             sp_response = Some \<lparr>isr_term = f2_term (co_state c), isr_transfer_id = is_transfer_id request,
               isr_succeeded = True, isr_last_included_index = index, isr_read_context = is_read_context request\<rparr>,
             sp_local_creation = False\<rparr>\<rparr>)) (\<lambda>_.
           io_return (emit (Persist_raft_snapshot request_id snapshot) r))) c) in
      case co_durable_snapshot c of
        None \<Rightarrow> install
      | Some durable \<Rightarrow>
          if index \<le> sm_last_included_index (rs_metadata durable)
          then (Inr (emit (Send_install_snapshot_response sender
                 \<lparr>isr_term = f2_term (co_state c), isr_transfer_id = is_transfer_id request,
                  isr_succeeded = (metadata = rs_metadata durable \<and> is_chunk request = rs_state durable),
                  isr_last_included_index = sm_last_included_index (rs_metadata durable),
                  isr_read_context = is_read_context request\<rparr>) r), c)
          else install)"

definition receive_snapshot :: "node_id \<Rightarrow> install_snapshot_request \<Rightarrow> (core, core_result) io" where
  "receive_snapshot sender request c =
     (if sender \<notin> set (f2_peers (co_state c)) \<or> is_leader request \<noteq> sender
      then (Inl (Invalid_Argument ''InstallSnapshot sender is not its voting leader''), c)
      else if is_term request < f2_term (co_state c)
      then (Inr (effects_only [install_rejection c sender request]), c)
      else if is_term request > f2_term (co_state c)
      then run_figure2 (Observe_term (is_term request)) (c\<lparr>co_install_after_hard_state := Some (sender, request)\<rparr>)
      else if co_pending_snapshot c \<noteq> None
      then (Inr (effects_only [install_rejection c sender request]), c)
      else io_then (translate (reset_timer_as_follower sender (co_state c)) (f2_role (co_state c)))
        (accept_snapshot sender request) c)"

definition compact_log :: "snapshot_metadata \<Rightarrow> persistent_raft_state \<Rightarrow> log_entry list" where
  "compact_log metadata p =
     (let index = sm_last_included_index metadata; base = log_base p; offset = index - base - 1 in
      if index = base \<and> ps_snapshot p \<noteq> None
      then if map_option sm_last_included_term (ps_snapshot p) = Some (sm_last_included_term metadata) then ps_log p else []
      else if index > base \<and> unat offset < length (ps_log p) \<and> le_term (ps_log p ! unat offset) = sm_last_included_term metadata
      then drop (unat offset + 1) (ps_log p) else [])"

definition compact_to :: "raft_snapshot \<Rightarrow> core \<Rightarrow> core" where
  "compact_to snapshot c =
     (let metadata = rs_metadata snapshot; index = sm_last_included_index metadata; s = co_state c; p = f2_persistent s in
      c\<lparr>co_state := s\<lparr>f2_persistent := p\<lparr>ps_log := compact_log metadata p, ps_snapshot := Some metadata\<rparr>,
          f2_volatile := \<lparr>vs_commit_index = max (f2_commit s) index, vs_last_applied = max (f2_applied s) index\<rparr>\<rparr>,
        co_pending_application := (case co_pending_application c of
            None \<Rightarrow> None | Some pending \<Rightarrow> if le_index (pa_entry pending) \<le> index then None else Some pending),
        co_durable_snapshot := Some snapshot\<rparr>)"

definition install_persisted_snapshot :: "u64 \<Rightarrow> raft_snapshot \<Rightarrow> core_result \<Rightarrow> (core, core_result) io" where
  "install_persisted_snapshot request_id completed r c =
     (let mismatch = (Inl (Invalid_Argument ''Raft snapshot completion does not match pending request''), c) in
      case co_pending_snapshot c of
        None \<Rightarrow> mismatch
      | Some pending \<Rightarrow>
          if request_id \<noteq> sp_request_id pending \<or> rs_metadata completed \<noteq> rs_metadata (sp_snapshot pending)
             \<or> rs_state completed \<noteq> rs_state (sp_snapshot pending)
          then mismatch
          else let snapshot = (sp_snapshot pending)\<lparr>rs_checksum := crc32c (rs_state (sp_snapshot pending))\<rparr>;
                   index = sm_last_included_index (rs_metadata snapshot);
                   c = c\<lparr>co_pending_snapshot := None\<rparr> in
            if sp_local_creation pending
            then (Inr (emit (Raft_snapshot_created index) (emit (Truncate_raft_log_prefix index) r)), compact_to snapshot c)
            else case (sp_reply_to pending, sp_response pending) of
              (Some reply_to, Some response) \<Rightarrow>
                (Inr (emit (Restore_state_machine_snapshot request_id snapshot) r),
                 c\<lparr>co_pending_restore := Some \<lparr>re_request_id = request_id, re_snapshot = snapshot,
                   re_reply_to = reply_to, re_response = response\<rparr>\<rparr>)
            | _ \<Rightarrow> (Inl Undefined_Behaviour, c))"

definition complete_snapshot_restore :: "u64 \<Rightarrow> log_index \<Rightarrow> core_result \<Rightarrow> (core, core_result) io" where
  "complete_snapshot_restore request_id index r c =
     (let mismatch = (Inl (Invalid_Argument ''Raft snapshot restore completion does not match pending restore''), c) in
      case co_pending_restore c of
        None \<Rightarrow> mismatch
      | Some pending \<Rightarrow>
          if request_id \<noteq> re_request_id pending \<or> index \<noteq> sm_last_included_index (rs_metadata (re_snapshot pending))
          then mismatch
          else (Inr (emit (Send_install_snapshot_response (re_reply_to pending) (re_response pending))
                  (emit (Truncate_raft_log_prefix (sm_last_included_index (rs_metadata (re_snapshot pending)))) r)),
                compact_to (re_snapshot pending) (c\<lparr>co_pending_restore := None\<rparr>)))"

definition receive_snapshot_response :: "node_id \<Rightarrow> install_snapshot_response \<Rightarrow> (core, core_result) io" where
  "receive_snapshot_response sender response c =
     (if sender \<notin> set (f2_peers (co_state c))
      then (Inl (Invalid_Argument ''InstallSnapshot response is from a non-peer''), c)
      else if isr_term response > f2_term (co_state c) then run_figure2 (Observe_term (isr_term response)) c
      else case co_durable_snapshot c of
        None \<Rightarrow> (Inr (effects_only []), c)
      | Some durable \<Rightarrow>
          if f2_role (co_state c) \<noteq> Leader \<or> isr_term response \<noteq> f2_term (co_state c) \<or> \<not> isr_succeeded response
             \<or> isr_last_included_index response \<noteq> sm_last_included_index (rs_metadata durable)
          then (Inr (effects_only []), c)
          else (case omap_find (co_snapshot_transfers c) sender of
              None \<Rightarrow> (Inr (effects_only []), c)
            | Some transfer \<Rightarrow>
                if st_transfer_id transfer \<noteq> isr_transfer_id response \<or> st_term transfer \<noteq> isr_term response
                   \<or> st_index transfer \<noteq> isr_last_included_index response
                then (Inr (effects_only []), c)
                else let synthetic = \<lparr>aer_term = isr_term response, aer_succeeded = True,
                         aer_matched_index = isr_last_included_index response, aer_read_context = isr_read_context response\<rparr> in
                  io_then (run_figure2 (Receive_append_entries_response sender synthetic)) (\<lambda>r.
                  io_then (acknowledge_read sender synthetic r) (\<lambda>r.
                  io_then (run_figure2 Heartbeat_timeout) (\<lambda>resume.
                  io_return (join_results r resume))))
                  (c\<lparr>co_snapshot_transfers := omap_drop sender (co_snapshot_transfers c)\<rparr>)))"

section \<open>Construction and steps\<close>

fun collect_member :: "node_id \<Rightarrow> bool \<times> node_id list \<Rightarrow> bool \<times> node_id list" where
  "collect_member member (invalid, seen) =
     (if invalid \<or> member = 0 then (True, seen)
      else if member \<in> set seen then (True, seen) else (False, seen @ [member]))"

definition recovered_snapshot_error :: "f2_state \<Rightarrow> nat \<Rightarrow> nat \<Rightarrow> raft_snapshot \<Rightarrow> unit result" where
  "recovered_snapshot_error s max_snapshot_bytes max_snapshot_members snapshot =
     (let metadata = rs_metadata snapshot;
          (invalid_member, recovered_members) = fold collect_member
            (cm_voters (sm_membership metadata) @ cm_learners (sm_membership metadata)) (False, []);
          member_count = length recovered_members in
      and_then (throw_if (sm_last_included_index metadata = 0 \<or> sm_last_included_term metadata = 0
          \<or> sm_last_included_term metadata > f2_term s \<or> sm_format_version metadata \<noteq> 1)
        (Invalid_Argument ''invalid recovered Raft snapshot'')) (\<lambda>_.
      and_then (throw_if (sm_store_revision metadata < 0 \<or> sm_compaction_revision metadata < 0
          \<or> sm_compaction_revision metadata > sm_store_revision metadata)
        (Invalid_Argument ''invalid recovered snapshot revisions'')) (\<lambda>_.
      throw_if (invalid_member \<or> set (cm_voters (sm_membership metadata)) \<noteq> insert (f2_node s) (set (f2_peers s))
          \<or> member_count > max_snapshot_members \<or> member_count > (max_snapshot_bytes - 68) div 8
          \<or> length (rs_state snapshot) > max_snapshot_bytes - 68 - member_count * 8)
        (Invalid_Argument ''invalid recovered snapshot membership or size''))))"

text \<open>The part of the log that the recovered snapshot does not cover.\<close>

definition recovered_suffix :: "snapshot_metadata \<Rightarrow> log_entry list \<Rightarrow> log_entry list result" where
  "recovered_suffix metadata log =
     (let index = sm_last_included_index metadata in
      case dropWhile (\<lambda>entry. le_index entry \<noteq> index) log of
        matching # rest \<Rightarrow>
          if le_term matching \<noteq> sm_last_included_term metadata
          then Inl (Invalid_Argument ''recovered snapshot conflicts with Raft log'') else Inr rest
      | [] \<Rightarrow>
          if log \<noteq> [] \<and> le_index (hd log) \<noteq> index + 1
          then Inl (Invalid_Argument ''recovered log does not follow the Raft snapshot'') else Inr log)"

definition recover_snapshot :: "nat \<Rightarrow> nat \<Rightarrow> log_index \<Rightarrow> raft_snapshot option \<Rightarrow> f2_state \<Rightarrow> f2_state result" where
  "recover_snapshot max_snapshot_bytes max_snapshot_members recovered_applied recovered_snapshot s =
     (case recovered_snapshot of
        None \<Rightarrow> Inr s
      | Some snapshot \<Rightarrow>
          and_then (recovered_snapshot_error s max_snapshot_bytes max_snapshot_members snapshot) (\<lambda>_.
          and_then (recovered_suffix (rs_metadata snapshot) (f2_log s)) (\<lambda>log.
          let applied = max recovered_applied (sm_last_included_index (rs_metadata snapshot)) in
          Inr (s\<lparr>f2_persistent := (f2_persistent s)\<lparr>ps_log := log, ps_snapshot := Some (rs_metadata snapshot)\<rparr>,
                 f2_volatile := \<lparr>vs_commit_index = applied, vs_last_applied = applied\<rparr>\<rparr>))))"

definition new_core ::
    "node_id \<Rightarrow> node_id list \<Rightarrow> raft_hard_state \<Rightarrow> u64 \<Rightarrow> timeout_range \<Rightarrow> log_entry list \<Rightarrow> u64 \<Rightarrow> log_index \<Rightarrow> nat
      \<Rightarrow> nat \<Rightarrow> raft_snapshot option \<Rightarrow> nat \<Rightarrow> nat \<Rightarrow> core result" where
  "new_core self peers recovered seed timeouts recovered_log heartbeat_interval recovered_applied max_pending_reads
     max_read_history recovered_snapshot max_snapshot_bytes max_snapshot_members =
     (let s = \<lparr>f2_node = self, f2_peers = peers, f2_role = Follower,
            f2_persistent = \<lparr>ps_current_term = hs_current_term recovered, ps_voted_for = hs_voted_for recovered,
              ps_snapshot = None, ps_log = recovered_log\<rparr>,
            f2_volatile = \<lparr>vs_commit_index = recovered_applied, vs_last_applied = recovered_applied\<rparr>,
            f2_known_leader = None, f2_votes_received = oset_empty, f2_leader = None, f2_next_request_id = 1,
            f2_pending = None\<rparr>;
          cluster_size = length peers + 1 in
      and_then (throw_if (self = 0) (Invalid_Argument ''Raft node ID must be nonzero'')) (\<lambda>_.
      and_then (throw_if (0 \<in> set peers) (Invalid_Argument ''Raft peer IDs must be nonzero'')) (\<lambda>_.
      and_then (throw_if (cluster_size < 3 \<or> cluster_size mod 2 = 0)
        (Invalid_Argument ''Raft election cluster must have an odd size of at least three'')) (\<lambda>_.
      and_then (throw_if (tr_minimum timeouts = 0 \<or> tr_maximum timeouts < tr_minimum timeouts)
        (Invalid_Argument ''invalid Raft election timeout range'')) (\<lambda>_.
      and_then (throw_if (heartbeat_interval = 0) (Invalid_Argument ''Raft heartbeat interval must be nonzero'')) (\<lambda>_.
      and_then (throw_if (max_pending_reads = 0 \<or> max_read_history < max_pending_reads)
        (Invalid_Argument ''invalid ReadIndex limits'')) (\<lambda>_.
      and_then (throw_if (max_snapshot_bytes < 68) (Invalid_Argument ''invalid Raft snapshot size limit'')) (\<lambda>_.
      and_then (throw_if (max_snapshot_members < cluster_size) (Invalid_Argument ''invalid Raft snapshot member limit'')) (\<lambda>_.
      and_then (throw_if (hs_current_term recovered = 0 \<and> hs_voted_for recovered \<noteq> None)
        (Invalid_Argument ''bootstrap term cannot contain a vote'')) (\<lambda>_.
      and_then (throw_if (case hs_voted_for recovered of None \<Rightarrow> False | Some vote \<Rightarrow> vote \<noteq> self \<and> vote \<notin> set peers)
        (Invalid_Argument ''recovered vote is outside the cluster'')) (\<lambda>_.
      and_then (throw_if (list_ex (\<lambda>entry. le_term entry = 0) recovered_log)
        (Invalid_Argument ''recovered Raft log entries must have nonzero terms'')) (\<lambda>_.
      and_then (recover_snapshot max_snapshot_bytes max_snapshot_members recovered_applied recovered_snapshot s) (\<lambda>s.
      and_then (throw_if (f2_applied s > last_index s) (Invalid_Argument ''recovered applied index exceeds the Raft log'')) (\<lambda>_.
      and_then (case validate s of [] \<Rightarrow> Inr () | v # _ \<Rightarrow> Inl (Invalid_Argument v)) (\<lambda>_.
      Inr \<lparr>co_state = s, co_timeouts = timeouts, co_heartbeat_interval = heartbeat_interval, co_random_state = seed,
           co_next_timer_id = 1, co_next_log_request_id = push_bit 63 1, co_next_application_request_id = push_bit 62 1,
           co_election_timer = None, co_election_timeout = None, co_heartbeat_timer = None, co_pending_log = None,
           co_pending_application = None, co_pending_snapshot = None, co_pending_restore = None,
           co_install_after_hard_state = None, co_durable_snapshot = recovered_snapshot,
           co_snapshot_transfers = omap_empty, co_pending_reads = omap_empty, co_pending_read_requests = omap_empty,
           co_used_read_requests = oset_empty, co_max_pending_reads = max_pending_reads,
           co_max_read_history = max_read_history, co_next_read_context = 1,
           co_next_snapshot_request_id = push_bit 61 1, co_next_snapshot_transfer_id = 1,
           co_max_snapshot_bytes = max_snapshot_bytes, co_max_snapshot_members = max_snapshot_members,
           co_completed_read_count = 0, co_rejected_read_count = 0, co_started = False\<rparr>)))))))))))))))"

definition start_core :: "(core, core_result) io" where
  "start_core c =
     (if co_started c then (Inl (Logic_Error ''Raft election core already started''), c)
      else io_then next_deadline (\<lambda>deadline. io_return (effects_only [deadline])) (c\<lparr>co_started := True\<rparr>))"

fun ordered_entries :: "raft_term \<Rightarrow> u64 \<Rightarrow> log_entry list \<Rightarrow> unit result" where
  "ordered_entries leader_term expected [] = Inr ()"
| "ordered_entries leader_term expected (entry # entries) =
     (if expected = uint64_max then Inl (Overflow_Error ''AppendEntries index exhausted'')
      else if le_index entry \<noteq> expected + 1 \<or> le_term entry = 0 \<or> le_term entry > leader_term
      then Inl (Invalid_Argument ''AppendEntries entries have invalid term/index ordering'')
      else ordered_entries leader_term (expected + 1) entries)"

definition validate_append_request :: "append_entries_request \<Rightarrow> unit result" where
  "validate_append_request request =
     and_then (throw_if (ae_term request = 0 \<or> ae_leader request = 0)
       (Invalid_Argument ''AppendEntries term and leader must be nonzero'')) (\<lambda>_.
     and_then (if ae_previous_log_index request = 0
        then throw_if (ae_previous_log_term request \<noteq> 0) (Invalid_Argument ''AppendEntries index zero must have term zero'')
        else throw_if (ae_previous_log_term request = 0)
          (Invalid_Argument ''AppendEntries nonzero index must have a nonzero term'')) (\<lambda>_.
     ordered_entries (ae_term request) (ae_previous_log_index request) (ae_entries request)))"

definition finish_completion :: "core_result \<Rightarrow> (core, core_result) io" where
  "finish_completion r = io_then (complete_ready_reads r) schedule_application"

definition entry_applied :: "u64 \<Rightarrow> log_index \<Rightarrow> (core, core_result) io" where
  "entry_applied request_id index c =
     (let mismatch = (Inl (Invalid_Argument ''application completion does not match pending entry''), c) in
      case co_pending_application c of
        None \<Rightarrow> mismatch
      | Some pending \<Rightarrow>
          if pa_blocked pending \<or> request_id \<noteq> pa_request_id pending \<or> index \<noteq> le_index (pa_entry pending) then mismatch
          else let s = (co_state c)\<lparr>f2_volatile := (f2_volatile (co_state c))\<lparr>vs_last_applied := index\<rparr>\<rparr>;
                   (s, es) = (case f2_leader s of
                       None \<Rightarrow> (s, [])
                     | Some l \<Rightarrow>
                         if oset_member index (ls_pending_clients l)
                         then (s\<lparr>f2_leader := Some (l\<lparr>ls_pending_clients := oset_erase index (ls_pending_clients l)\<rparr>)\<rparr>,
                               [Complete_command index])
                         else (s, [])) in
            finish_completion (effects_only es) (c\<lparr>co_state := s, co_pending_application := None\<rparr>))"

definition entry_apply_failed :: "u64 \<Rightarrow> log_index \<Rightarrow> (core, core_result) io" where
  "entry_apply_failed request_id index c =
     (let mismatch = (Inl (Invalid_Argument ''application failure does not match pending entry''), c) in
      case co_pending_application c of
        None \<Rightarrow> mismatch
      | Some pending \<Rightarrow>
          if pa_blocked pending \<or> request_id \<noteq> pa_request_id pending \<or> index \<noteq> le_index (pa_entry pending) then mismatch
          else (Inr (effects_only [Application_backpressured index]),
                c\<lparr>co_pending_application := Some (pending\<lparr>pa_blocked := True\<rparr>)\<rparr>))"

definition retry_application :: "(core, core_result) io" where
  "retry_application c =
     (let unblocked = (Inl (Logic_Error ''application retry requires a blocked entry''), c) in
      case co_pending_application c of
        None \<Rightarrow> unblocked
      | Some pending \<Rightarrow>
          if \<not> pa_blocked pending then unblocked
          else if co_next_application_request_id c \<ge> application_limit
          then (Inl (Overflow_Error ''Raft application request ID exhausted''), c)
          else let request_id = co_next_application_request_id c in
            (Inr (effects_only [Apply_log_entry request_id (pa_entry pending)]),
             c\<lparr>co_next_application_request_id := request_id + 1,
               co_pending_application := Some (pending\<lparr>pa_request_id := request_id, pa_blocked := False\<rparr>)\<rparr>))"

definition log_persisted :: "u64 \<Rightarrow> log_entry list \<Rightarrow> (core, core_result) io" where
  "log_persisted request_id log c =
     (case co_pending_log c of
        None \<Rightarrow> (Inl (Invalid_Argument ''unexpected Raft log persistence completion''), c)
      | Some pending \<Rightarrow>
          if request_id \<noteq> pl_request_id pending \<or> log \<noteq> pl_log pending
          then (Inl (Invalid_Argument ''Raft log completion does not match pending request''), c)
          else io_then (replace_compacted_appends (effects_only (pl_deferred_effects pending))) schedule_application
            (c\<lparr>co_pending_log := None\<rparr>))"

definition hard_state_persisted :: "u64 \<Rightarrow> raft_hard_state \<Rightarrow> (core, core_result) io" where
  "hard_state_persisted request_id state =
     io_then (run_figure2 (Raft_hard_state_persisted request_id state)) (\<lambda>completed c.
     case co_install_after_hard_state c of
       None \<Rightarrow> (Inr completed, c)
     | Some (sender, request) \<Rightarrow>
         if f2_pending (co_state c) \<noteq> None then (Inr completed, c)
         else io_then (receive_snapshot sender request) (\<lambda>continuation. io_return (join_results completed continuation))
           (c\<lparr>co_install_after_hard_state := None\<rparr>))"

definition election_deadline :: "u64 \<Rightarrow> (core, core_result) io" where
  "election_deadline timer c =
     (if co_election_timer c \<noteq> Some timer then (Inr (effects_only []), c)
      else run_figure2 Election_timeout (c\<lparr>co_election_timer := None, co_election_timeout := None\<rparr>))"

definition heartbeat_deadline :: "u64 \<Rightarrow> (core, core_result) io" where
  "heartbeat_deadline timer c =
     (if co_heartbeat_timer c \<noteq> Some timer \<or> f2_role (co_state c) \<noteq> Leader then (Inr (effects_only []), c)
      else io_then (run_figure2 Heartbeat_timeout) (\<lambda>r.
        io_then next_heartbeat (\<lambda>heartbeat. io_return (emit heartbeat r))) (c\<lparr>co_heartbeat_timer := None\<rparr>))"

text \<open>The inputs that \<open>step\<close> handles after the gates on snapshots and on the log.\<close>

fun step_unblocked :: "core_input \<Rightarrow> (core, core_result) io" where
  "step_unblocked (Hard_state_persisted request_id state) = hard_state_persisted request_id state"
| "step_unblocked (Create_snapshot request) = begin_snapshot request"
| "step_unblocked (Install_snapshot_received sender request) = receive_snapshot sender request"
| "step_unblocked (Install_snapshot_response_received sender response) = receive_snapshot_response sender response"
| "step_unblocked (Read_index_request request) = begin_read request"
| "step_unblocked (Cancel_read_index request) = cancel_read request"
| "step_unblocked (Timeout_read_index request) = timeout_read request"
| "step_unblocked (Append_entries_received sender request) =
     io_then (io_lift (\<lambda>_. validate_append_request request)) (\<lambda>_. run_figure2 (Receive_append_entries sender request))"
| "step_unblocked (Append_entries_response_received sender response) =
     io_then (run_figure2 (Receive_append_entries_response sender response)) (acknowledge_read sender response)"
| "step_unblocked (Election_deadline timer) = election_deadline timer"
| "step_unblocked (Heartbeat_deadline timer) = heartbeat_deadline timer"
| "step_unblocked (Request_vote_received sender request) = run_figure2 (Receive_request_vote sender request)"
| "step_unblocked (Request_vote_response_received sender response) =
     run_figure2 (Receive_request_vote_response sender response)"
| "step_unblocked (Client_command_received command) = run_figure2 (Receive_client_command command)"
| "step_unblocked _ = io_return (effects_only [])"

definition step_log_gate :: "core_input \<Rightarrow> (core, core_result) io" where
  "step_log_gate input c =
     (case input of
        Log_entry_applied request_id index \<Rightarrow> entry_applied request_id index c
      | Log_entry_apply_failed request_id index \<Rightarrow> entry_apply_failed request_id index c
      | Retry_application \<Rightarrow> retry_application c
      | Log_persisted request_id log \<Rightarrow> log_persisted request_id log c
      | _ \<Rightarrow> if co_pending_log c \<noteq> None
          then (Inl (Logic_Error ''Raft core input is blocked on log persistence''), c)
          else step_unblocked input c)"

definition core_step :: "core_input \<Rightarrow> (core, core_result) io" where
  "core_step input c =
     (if \<not> co_started c then (Inl (Logic_Error ''Raft election core has not started''), c)
      else case input of
        Snapshot_persisted request_id snapshot \<Rightarrow>
          io_then (install_persisted_snapshot request_id snapshot (effects_only [])) finish_completion c
      | Snapshot_restored request_id index \<Rightarrow>
          io_then (complete_snapshot_restore request_id index (effects_only [])) finish_completion c
      | _ \<Rightarrow> if co_pending_snapshot c \<noteq> None \<or> co_pending_restore c \<noteq> None
          then (Inl (Logic_Error ''Raft core input is blocked on snapshot persistence/restore''), c)
          else step_log_gate input c)"

section \<open>What the driver reads\<close>

record core_view =
  cv_role :: raft_role
  cv_hard_state :: raft_hard_state
  cv_votes_received :: "node_id list"
  cv_election_timer :: "u64 option"
  cv_election_timeout :: "u64 option"
  cv_heartbeat_timer :: "u64 option"
  cv_log :: "log_entry list"
  cv_snapshot_metadata :: "snapshot_metadata option"
  cv_peer_progress :: "(node_id, peer_progress) omap"
  cv_commit_index :: log_index
  cv_last_applied :: log_index
  cv_application_pending :: bool
  cv_application_blocked :: bool
  cv_pending_read_count :: nat
  cv_completed_read_count :: u64
  cv_rejected_read_count :: u64
  cv_waiting_for_persistence :: bool

definition core_snapshot :: "core \<Rightarrow> core_view" where
  "core_snapshot c =
     (let s = co_state c in
      \<lparr>cv_role = f2_role s, cv_hard_state = hard_state s, cv_votes_received = oset_elems (f2_votes_received s),
       cv_election_timer = co_election_timer c, cv_election_timeout = co_election_timeout c,
       cv_heartbeat_timer = co_heartbeat_timer c, cv_log = f2_log s, cv_snapshot_metadata = ps_snapshot (f2_persistent s),
       cv_peer_progress = (case f2_leader s of None \<Rightarrow> omap_empty | Some l \<Rightarrow> ls_progress l),
       cv_commit_index = f2_commit s, cv_last_applied = f2_applied s,
       cv_application_pending = (co_pending_application c \<noteq> None),
       cv_application_blocked = (case co_pending_application c of None \<Rightarrow> False | Some p \<Rightarrow> pa_blocked p),
       cv_pending_read_count = omap_size (co_pending_reads c), cv_completed_read_count = co_completed_read_count c,
       cv_rejected_read_count = co_rejected_read_count c,
       cv_waiting_for_persistence = (f2_pending s \<noteq> None \<or> co_pending_log c \<noteq> None \<or> co_pending_snapshot c \<noteq> None
         \<or> co_pending_restore c \<noteq> None)\<rparr>)"

definition pending_log_persistence_of :: "core \<Rightarrow> (u64 \<times> log_entry list) option" where
  "pending_log_persistence_of c = map_option (\<lambda>p. (pl_request_id p, pl_log p)) (co_pending_log c)"

definition pending_application_of :: "core \<Rightarrow> (u64 \<times> log_entry) option" where
  "pending_application_of c = map_option (\<lambda>p. (pa_request_id p, pa_entry p)) (co_pending_application c)"

definition pending_snapshot_persistence_of :: "core \<Rightarrow> (u64 \<times> raft_snapshot) option" where
  "pending_snapshot_persistence_of c = map_option (\<lambda>p. (sp_request_id p, sp_snapshot p)) (co_pending_snapshot c)"

end
