(* ===== verification/Core_Frames.thy ===== *)
theory Core_Frames
  imports Raft_Core
begin

text \<open>
  What the helper functions of the election core leave unchanged.  The fields of the core fall
  into groups; a helper touches one or two of them, and the invariants of the later theories
  each concern one group.  The timers are settled here.
\<close>

section \<open>Groups of fields\<close>

definition protocol_part ::
    "core \<Rightarrow> f2_state \<times> pending_log_persistence option \<times> pending_snapshot_persistence option \<times> pending_snapshot_restore option
      \<times> (node_id \<times> install_snapshot_request) option \<times> raft_snapshot option" where
  "protocol_part c = (co_state c, co_pending_log c, co_pending_snapshot c, co_pending_restore c,
     co_install_after_hard_state c, co_durable_snapshot c)"

definition settings ::
    "core \<Rightarrow> bool \<times> timeout_range \<times> u64 \<times> nat \<times> nat \<times> nat \<times> nat" where
  "settings c = (co_started c, co_timeouts c, co_heartbeat_interval c, co_max_pending_reads c, co_max_read_history c,
     co_max_snapshot_bytes c, co_max_snapshot_members c)"

definition reads_part ::
    "core \<Rightarrow> (read_index_context, pending_read) omap \<times> (request_id, read_index_context) omap \<times> request_id oset \<times> u64" where
  "reads_part c = (co_pending_reads c, co_pending_read_requests c, co_used_read_requests c, co_next_read_context c)"

definition application_part :: "core \<Rightarrow> pending_application option \<times> u64" where
  "application_part c = (co_pending_application c, co_next_application_request_id c)"

definition timers_part :: "core \<Rightarrow> u64 \<times> u64 \<times> u64 option \<times> u64 option \<times> u64 option" where
  "timers_part c = (co_random_state c, co_next_timer_id c, co_election_timer c, co_election_timeout c, co_heartbeat_timer c)"

lemmas parts = protocol_part_def settings_def reads_part_def application_part_def timers_part_def

lemma protocol_partD:
  "protocol_part c' = protocol_part c \<Longrightarrow> co_state c' = co_state c \<and> co_pending_log c' = co_pending_log c
     \<and> co_pending_snapshot c' = co_pending_snapshot c \<and> co_pending_restore c' = co_pending_restore c
     \<and> co_install_after_hard_state c' = co_install_after_hard_state c \<and> co_durable_snapshot c' = co_durable_snapshot c"
  by (simp add: protocol_part_def)

abbreviation effects_of :: "core_result result \<Rightarrow> core_effect list" where
  "effects_of x \<equiv> (case x of Inl _ \<Rightarrow> [] | Inr r \<Rightarrow> cr_effects r)"

lemma emit_effects [simp]: "cr_effects (emit e r) = cr_effects r @ [e]"
  by (simp add: emit_def)

lemma effects_only_effects [simp]: "cr_effects (effects_only es) = es"
  by (simp add: effects_only_def)

lemma join_effects [simp]: "cr_effects (join_results r r') = cr_effects r @ cr_effects r'"
  by (simp add: join_results_def)

section \<open>Timers\<close>

lemma next_deadline_frame:
  assumes "next_deadline c = (x, c')"
  shows "protocol_part c' = protocol_part c" "settings c' = settings c" "reads_part c' = reads_part c"
    "application_part c' = application_part c"
    "\<And>e. x = Inr e \<Longrightarrow> \<exists>timer delay. e = Reset_election_deadline timer delay"
  using assms by (auto simp: next_deadline_def Let_def parts split: if_splits prod.splits)

lemma next_heartbeat_frame:
  assumes "next_heartbeat c = (x, c')"
  shows "protocol_part c' = protocol_part c" "settings c' = settings c" "reads_part c' = reads_part c"
    "application_part c' = application_part c"
    "\<And>e. x = Inr e \<Longrightarrow> \<exists>timer delay. e = Reset_heartbeat_deadline timer delay"
  using assms by (auto simp: next_heartbeat_def Let_def parts split: if_splits)

text \<open>The range check of the constructor is what the arithmetic of \<open>next_deadline\<close> needs.\<close>

lemma word_mod_less: "n \<noteq> 0 \<Longrightarrow> (v :: u64) mod n < n"
  by (simp add: word_less_nat_alt unat_mod_distrib word_gt_0 unat_gt_0)

lemma deadline_range:
  fixes lo hi v :: u64
  assumes "lo \<noteq> 0" "lo \<le> hi"
  shows "hi - lo + 1 \<noteq> 0" "lo \<le> lo + v mod (hi - lo + 1)" "lo + v mod (hi - lo + 1) \<le> hi"
proof -
  have width: "unat (hi - lo) = unat hi - unat lo" using assms(2) by (simp add: unat_sub word_le_nat_alt)
  have lo: "0 < unat lo" "unat lo \<le> unat hi" using assms by (simp_all add: unat_gt_0 word_le_nat_alt)
  have hi: "unat hi < 2 ^ 64" using unsigned_less[of hi, where ?'a = nat] by simp
  have w1: "unat (hi - lo + 1) = unat hi - unat lo + 1"
    using width lo hi by (simp add: unat_word_ariths)
  then show nz: "hi - lo + 1 \<noteq> 0" by (metis add_is_0 unat_0 zero_neq_one)
  have "unat (v mod (hi - lo + 1)) \<le> unat hi - unat lo"
    using word_mod_less[OF nz, of v] w1 by (simp add: word_less_nat_alt)
  then have "unat lo + unat (v mod (hi - lo + 1)) \<le> unat hi" using lo by simp
  then have "unat (lo + v mod (hi - lo + 1)) = unat lo + unat (v mod (hi - lo + 1))"
    using hi by (simp add: unat_word_ariths)
  then show "lo \<le> lo + v mod (hi - lo + 1)" "lo + v mod (hi - lo + 1) \<le> hi"
    using \<open>unat lo + unat (v mod (hi - lo + 1)) \<le> unat hi\<close> by (simp_all add: word_le_nat_alt)
qed

definition timeouts_ok :: "core \<Rightarrow> bool" where
  "timeouts_ok c \<longleftrightarrow> tr_minimum (co_timeouts c) \<noteq> 0 \<and> tr_minimum (co_timeouts c) \<le> tr_maximum (co_timeouts c)"

text \<open>
  C34.  Every election deadline lies in the configured range: whatever state the random
  generator is in, the 64-bit arithmetic that maps its value into the range neither divides by
  zero nor wraps around.  The timer gets a number that no earlier timer of this core had, and the
  only way to fail is to have used up the 64-bit timer numbers.
\<close>

theorem next_deadline_in_range:
  assumes "timeouts_ok c" "co_next_timer_id c \<noteq> 0" "co_next_timer_id c \<noteq> uint64_max"
  shows "\<exists>delay c'. next_deadline c = (Inr (Reset_election_deadline (co_next_timer_id c) delay), c')
    \<and> tr_minimum (co_timeouts c) \<le> delay \<and> delay \<le> tr_maximum (co_timeouts c)
    \<and> co_election_timer c' = Some (co_next_timer_id c) \<and> co_election_timeout c' = Some delay
    \<and> co_next_timer_id c < co_next_timer_id c'"
  using assms deadline_range[of "tr_minimum (co_timeouts c)" "tr_maximum (co_timeouts c)"] less_plus1[of "co_next_timer_id c"]
  by (auto simp: next_deadline_def timeouts_ok_def Let_def split: prod.splits)

section \<open>Reads, application and the log gate\<close>

lemma reject_pending_reads_frame:
  assumes "reject_pending_reads reason r c = (x, c')"
  shows "protocol_part c' = protocol_part c" "settings c' = settings c" "application_part c' = application_part c"
    "timers_part c' = timers_part c"
  using assms by (auto simp: reject_pending_reads_def Let_def parts)

lemma complete_read_frame:
  "protocol_part (snd (complete_read p (r, c))) = protocol_part c" "settings (snd (complete_read p (r, c))) = settings c"
  "application_part (snd (complete_read p (r, c))) = application_part c" "timers_part (snd (complete_read p (r, c))) = timers_part c"
  "\<exists>es. cr_effects (fst (complete_read p (r, c))) = cr_effects r @ es \<and> (\<forall>e \<in> set es. \<exists>q i. e = Read_index_response q i)"
  by (auto simp: complete_read_def parts split: prod.splits)

lemma complete_reads_frame:
  "protocol_part (snd (fold complete_read ps (r, c))) = protocol_part c \<and> settings (snd (fold complete_read ps (r, c))) = settings c
   \<and> application_part (snd (fold complete_read ps (r, c))) = application_part c
   \<and> timers_part (snd (fold complete_read ps (r, c))) = timers_part c
   \<and> (\<exists>es. cr_effects (fst (fold complete_read ps (r, c))) = cr_effects r @ es \<and> (\<forall>e \<in> set es. \<exists>q i. e = Read_index_response q i))"
proof (induction ps arbitrary: r c)
  case (Cons p ps)
  obtain r1 c1 where one: "complete_read p (r, c) = (r1, c1)" by (cases "complete_read p (r, c)")
  obtain es where es: "cr_effects r1 = cr_effects r @ es" "\<forall>e \<in> set es. \<exists>q i. e = Read_index_response q i"
    using complete_read_frame(5)[of p r c] one by auto
  obtain fs where "cr_effects (fst (fold complete_read ps (r1, c1))) = cr_effects r1 @ fs" "\<forall>e \<in> set fs. \<exists>q i. e = Read_index_response q i"
    using Cons.IH[of r1 c1] by blast
  then have "cr_effects (fst (fold complete_read ps (r1, c1))) = cr_effects r @ (es @ fs)"
    "\<forall>e \<in> set (es @ fs). \<exists>q i. e = Read_index_response q i" using es by auto
  then show ?case using Cons.IH[of r1 c1] complete_read_frame(1-4)[of p r c] one by (auto intro: exI[of _ "es @ fs"])
qed simp

lemma complete_ready_reads_frame:
  assumes "complete_ready_reads r c = (x, c')"
  shows "protocol_part c' = protocol_part c" "settings c' = settings c" "application_part c' = application_part c"
    "timers_part c' = timers_part c"
    "\<exists>r' es. x = Inr r' \<and> cr_effects r' = cr_effects r @ es \<and> (\<forall>e \<in> set es. \<exists>q i. e = Read_index_response q i)"
  using assms complete_reads_frame[of "omap_items (co_pending_reads c)" r c]
  by (auto simp: complete_ready_reads_def split: prod.splits)

lemma schedule_application_frame:
  assumes "schedule_application r c = (x, c')"
  shows "protocol_part c' = protocol_part c" "settings c' = settings c" "reads_part c' = reads_part c"
    "timers_part c' = timers_part c"
    "\<And>r'. x = Inr r' \<Longrightarrow> \<exists>es. cr_effects r' = cr_effects r @ es \<and> (\<forall>e \<in> set es. \<exists>q i. e = Apply_log_entry q i)"
  using assms by (auto simp: schedule_application_def Let_def parts split: if_splits sum.splits)

lemma acknowledge_read_frame:
  assumes "acknowledge_read sender response r c = (x, c')"
  shows "protocol_part c' = protocol_part c" "settings c' = settings c" "application_part c' = application_part c"
    "timers_part c' = timers_part c"
    "\<exists>r' es. x = Inr r' \<and> cr_effects r' = cr_effects r @ es \<and> (\<forall>e \<in> set es. \<exists>q i. e = Read_index_response q i)"
proof -
  have "x = Inr r \<and> c' = c \<or> (\<exists>reads. complete_ready_reads r (c\<lparr>co_pending_reads := reads\<rparr>) = (x, c'))"
    using assms unfolding acknowledge_read_def Let_def
    by (cases "aer_read_context response"; cases "omap_find (co_pending_reads c) (the (aer_read_context response))")
      (simp_all split: if_splits, blast+)
  then consider "x = Inr r" "c' = c" | reads where "complete_ready_reads r (c\<lparr>co_pending_reads := reads\<rparr>) = (x, c')"
    by blast
  then have "protocol_part c' = protocol_part c \<and> settings c' = settings c \<and> application_part c' = application_part c
    \<and> timers_part c' = timers_part c
    \<and> (\<exists>r' es. x = Inr r' \<and> cr_effects r' = cr_effects r @ es \<and> (\<forall>e \<in> set es. \<exists>q i. e = Read_index_response q i))"
  proof cases
    case (2 reads)
    from complete_ready_reads_frame[OF this] show ?thesis by (simp add: parts)
  qed simp
  then show "protocol_part c' = protocol_part c" "settings c' = settings c" "application_part c' = application_part c"
    "timers_part c' = timers_part c"
    "\<exists>r' es. x = Inr r' \<and> cr_effects r' = cr_effects r @ es \<and> (\<forall>e \<in> set es. \<exists>q i. e = Read_index_response q i)"
    by blast+
qed

lemma gate_log_frame:
  assumes "gate_log_persistence r c = (x, c')"
  shows "co_state c' = co_state c" "settings c' = settings c" "reads_part c' = reads_part c"
    "application_part c' = application_part c" "timers_part c' = timers_part c"
    "co_pending_snapshot c' = co_pending_snapshot c" "co_pending_restore c' = co_pending_restore c"
    "co_install_after_hard_state c' = co_install_after_hard_state c" "co_durable_snapshot c' = co_durable_snapshot c"
  using assms by (auto simp: gate_log_persistence_def parts split: list.splits core_effect.splits if_splits)

lemma gate_log_cases:
  assumes "gate_log_persistence r c = (x, c')"
  obtains "x = Inr r" "c' = c" "\<forall>e \<in> set (cr_effects r). \<not> is_log_request e"
  | e where "x = Inl e" "c' = c" "co_pending_log c \<noteq> None"
  | pre rid log deferred r' where "co_pending_log c = None" "cr_effects r = pre @ Persist_raft_log rid log # deferred"
      "\<forall>e \<in> set pre. \<not> is_log_request e" "x = Inr r'" "cr_effects r' = pre @ [Persist_raft_log rid log]"
      "co_pending_log c' = Some \<lparr>pl_request_id = rid, pl_log = log, pl_deferred_effects = deferred\<rparr>"
proof (cases "dropWhile (\<lambda>e. \<not> is_log_request e) (cr_effects r)")
  case Nil
  then have "\<forall>e \<in> set (cr_effects r). \<not> is_log_request e" by simp
  then show ?thesis using assms[unfolded gate_log_persistence_def Nil] that(1) by simp
next
  case (Cons e deferred)
  let ?pre = "takeWhile (\<lambda>e. \<not> is_log_request e) (cr_effects r)"
  have "is_log_request e" using Cons by (metis (mono_tags, lifting) hd_dropWhile list.sel(1) list.simps(3))
  then obtain rid log where e: "e = Persist_raft_log rid log" by (cases e) auto
  have split: "cr_effects r = ?pre @ Persist_raft_log rid log # deferred" using Cons e by (metis takeWhile_dropWhile_id)
  show ?thesis
  proof (cases "co_pending_log c")
    case None
    moreover have "\<forall>e \<in> set ?pre. \<not> is_log_request e" by (auto dest: set_takeWhileD)
    ultimately show ?thesis using assms[unfolded gate_log_persistence_def Cons e] split that(3)[of ?pre rid log deferred] by auto
  next
    case (Some p)
    then show ?thesis using assms[unfolded gate_log_persistence_def Cons e] that(2) by auto
  qed
qed

text \<open>A replaced append is an InstallSnapshot message to the same peer.\<close>

definition replaced :: "core_effect \<Rightarrow> core_effect \<Rightarrow> bool" where
  "replaced e e' \<longleftrightarrow> e' = e \<or> (\<exists>peer q q'. e = Send_entries peer q \<and> e' = Send_install_snapshot peer q')"

lemma replace_append_frame:
  assumes "replace_append snapshot leader e es c = (x, c')"
  shows "protocol_part c' = protocol_part c" "settings c' = settings c" "reads_part c' = reads_part c"
    "application_part c' = application_part c" "timers_part c' = timers_part c"
    "\<And>fs. x = Inr fs \<Longrightarrow> \<exists>e'. fs = es @ [e'] \<and> replaced e e'"
  using assms by (cases e; auto simp: parts Let_def replaced_def split: option.splits if_splits)+

lemma replace_appends_frame:
  assumes "io_fold (replace_append snapshot leader) es acc c = (x, c')"
  shows "protocol_part c' = protocol_part c" "settings c' = settings c" "reads_part c' = reads_part c"
    "application_part c' = application_part c" "timers_part c' = timers_part c"
    "\<And>fs. x = Inr fs \<Longrightarrow> \<exists>es'. fs = acc @ es' \<and> list_all2 replaced es es'"
proof -
  let ?same = "\<lambda>d. protocol_part d = protocol_part c \<and> settings d = settings c \<and> reads_part d = reads_part c
    \<and> application_part d = application_part c \<and> timers_part d = timers_part c"
  have "case x of Inl e \<Rightarrow> ?same c' | Inr b \<Rightarrow> ?same c'"
    by (rule io_fold_invariant[OF assms, where P = "\<lambda>_. ?same" and Q = ?same])
      (use replace_append_frame in \<open>auto split: sum.splits\<close>)
  then show "protocol_part c' = protocol_part c" "settings c' = settings c" "reads_part c' = reads_part c"
    "application_part c' = application_part c" "timers_part c' = timers_part c"
    by (auto split: sum.splits)
  show "\<exists>es'. fs = acc @ es' \<and> list_all2 replaced es es'" if "x = Inr fs" for fs
    using assms that
  proof (induction es arbitrary: acc c)
    case (Cons e es)
    obtain fs1 c1 where one: "replace_append snapshot leader e acc c = (Inr fs1, c1)"
      and rest: "io_fold (replace_append snapshot leader) es fs1 c1 = (x, c')"
      using Cons.prems by (auto simp: io_then_def split: prod.splits sum.splits)
    obtain e' where e': "fs1 = acc @ [e']" "replaced e e'" using replace_append_frame(6)[OF one] by blast
    obtain es' where "fs = fs1 @ es'" "list_all2 replaced es es'" using Cons.IH[OF rest Cons.prems(2)] by blast
    then show ?case using e' by auto
  qed simp
qed

lemma replace_compacted_frame:
  assumes "replace_compacted_appends r c = (x, c')"
  shows "protocol_part c' = protocol_part c" "settings c' = settings c" "reads_part c' = reads_part c"
    "application_part c' = application_part c" "timers_part c' = timers_part c"
    "\<And>r'. x = Inr r' \<Longrightarrow> list_all2 replaced (cr_effects r) (cr_effects r')"
proof -
  have refl: "list_all2 replaced es es" for es by (simp add: list_all2_refl replaced_def)
  consider "x = Inr r" "c' = c"
    | snapshot leader y where "io_fold (replace_append snapshot leader) (cr_effects r) [] c = (y, c')"
        "x = (case y of Inl e \<Rightarrow> Inl e | Inr es \<Rightarrow> Inr (r\<lparr>cr_effects := es\<rparr>))"
    using assms by (auto simp: replace_compacted_appends_def io_then_def split: option.splits if_splits prod.splits sum.splits)
  note cases = this
  show "protocol_part c' = protocol_part c" "settings c' = settings c" "reads_part c' = reads_part c"
    "application_part c' = application_part c" "timers_part c' = timers_part c"
    using cases by (cases; simp add: replace_appends_frame)+
  show "list_all2 replaced (cr_effects r) (cr_effects r')" if result: "x = Inr r'" for r'
    using cases
  proof cases
    case 2
    then obtain es where "y = Inr es" "r' = r\<lparr>cr_effects := es\<rparr>" using result by (cases y) auto
    then show ?thesis using replace_appends_frame(6)[OF 2(1)] by auto
  qed (use result refl in simp)
qed

section \<open>Running the specification\<close>

text \<open>The effects that \<open>role_change\<close> adds: notices, timers and rejected reads.\<close>

fun is_notice :: "core_effect \<Rightarrow> bool" where
  "is_notice (Role_transition a b t) = True"
| "is_notice (Cancel_election_deadline t) = True"
| "is_notice (Cancel_heartbeat_deadline t) = True"
| "is_notice (Reset_election_deadline t d) = True"
| "is_notice (Reset_heartbeat_deadline t d) = True"
| "is_notice (Read_index_rejected q reason) = True"
| "is_notice _ = False"

lemma stop_heartbeat_frame:
  assumes "stop_heartbeat r c = (x, c')"
  shows "protocol_part c' = protocol_part c" "settings c' = settings c" "application_part c' = application_part c"
    "reads_part c' = reads_part c" "\<exists>r' es. x = Inr r' \<and> cr_effects r' = cr_effects r @ es \<and> (\<forall>e \<in> set es. is_notice e)"
  using assms by (auto simp: stop_heartbeat_def parts split: option.splits)

lemma rearm_frame:
  assumes "(if resets then io_return r else io_then next_deadline (\<lambda>deadline. io_return (emit deadline r))) c = (x, c')"
  shows "protocol_part c' = protocol_part c" "settings c' = settings c" "application_part c' = application_part c"
    "reads_part c' = reads_part c" "\<And>r'. x = Inr r' \<Longrightarrow> \<exists>es. cr_effects r' = cr_effects r @ es \<and> (\<forall>e \<in> set es. is_notice e)"
  using assms next_deadline_frame[of c] by (fastforce simp: io_then_def split: if_splits prod.splits sum.splits)+

lemma step_down_frame:
  assumes "step_down resets r c = (x, c')"
  shows "protocol_part c' = protocol_part c" "settings c' = settings c" "application_part c' = application_part c"
    "\<And>r'. x = Inr r' \<Longrightarrow> \<exists>es. cr_effects r' = cr_effects r @ es \<and> (\<forall>e \<in> set es. is_notice e)"
    "\<not> isl x \<Longrightarrow> co_pending_reads c' = omap_empty \<and> co_pending_read_requests c' = omap_empty
       \<and> co_used_read_requests c' = co_used_read_requests c \<and> co_next_read_context c' = co_next_read_context c"
proof -
  obtain x1 c1 where stop: "stop_heartbeat r c = (x1, c1)" by (cases "stop_heartbeat r c")
  obtain r1 es where r1: "x1 = Inr r1" "cr_effects r1 = cr_effects r @ es" "\<forall>e \<in> set es. is_notice e"
    using stop_heartbeat_frame(5)[OF stop] by blast
  let ?rearm = "if resets then io_return r1 else io_then next_deadline (\<lambda>deadline. io_return (emit deadline r1))"
  obtain x2 c2 where rearm: "?rearm c1 = (x2, c2)" by (cases "?rearm c1")
  have kept: "protocol_part c2 = protocol_part c" "settings c2 = settings c" "application_part c2 = application_part c"
    "reads_part c2 = reads_part c"
    using stop_heartbeat_frame(1-4)[OF stop] rearm_frame(1-4)[OF rearm] by simp_all
  have "protocol_part c' = protocol_part c \<and> settings c' = settings c \<and> application_part c' = application_part c
    \<and> (\<forall>r'. x = Inr r' \<longrightarrow> (\<exists>es. cr_effects r' = cr_effects r @ es \<and> (\<forall>e \<in> set es. is_notice e)))
    \<and> (\<not> isl x \<longrightarrow> co_pending_reads c' = omap_empty \<and> co_pending_read_requests c' = omap_empty
       \<and> co_used_read_requests c' = co_used_read_requests c \<and> co_next_read_context c' = co_next_read_context c)"
  proof (cases x2)
    case (Inl e)
    then have "x = Inl e" "c' = c2" using assms stop r1(1) rearm by (simp_all add: step_down_def io_then_def)
    then show ?thesis using kept by simp
  next
    case (Inr r2)
    then have x: "x = Inr (r2\<lparr>cr_effects := cr_effects r2 @ map (\<lambda>p. Read_index_rejected (pr_request p) Leadership_lost)
          (omap_values (co_pending_reads c2))\<rparr>)"
      and c': "c' = c2\<lparr>co_rejected_read_count := co_rejected_read_count c2 + of_nat (length (omap_values (co_pending_reads c2))),
          co_pending_reads := omap_empty, co_pending_read_requests := omap_empty, co_snapshot_transfers := omap_empty\<rparr>"
      using assms stop r1(1) rearm by (simp_all add: step_down_def io_then_def reject_pending_reads_def Let_def)
    obtain fs where fs: "cr_effects r2 = cr_effects r1 @ fs" "\<forall>e \<in> set fs. is_notice e" using rearm_frame(5)[OF rearm Inr] by blast
    have "\<exists>es. cr_effects r' = cr_effects r @ es \<and> (\<forall>e \<in> set es. is_notice e)" if "x = Inr r'" for r'
      using that x r1(2,3) fs by auto
    then show ?thesis using kept c' by (simp add: parts)
  qed
  then show "protocol_part c' = protocol_part c" "settings c' = settings c" "application_part c' = application_part c"
    "\<And>r'. x = Inr r' \<Longrightarrow> \<exists>es. cr_effects r' = cr_effects r @ es \<and> (\<forall>e \<in> set es. is_notice e)"
    "\<not> isl x \<Longrightarrow> co_pending_reads c' = omap_empty \<and> co_pending_read_requests c' = omap_empty
       \<and> co_used_read_requests c' = co_used_read_requests c \<and> co_next_read_context c' = co_next_read_context c"
    by blast+
qed

lemma lead_with_heartbeat_frame:
  assumes "lead_with_heartbeat timer r c = (x, c')"
  shows "protocol_part c' = protocol_part c" "settings c' = settings c" "application_part c' = application_part c"
    "reads_part c' = reads_part c" "\<And>r'. x = Inr r' \<Longrightarrow> \<exists>es. cr_effects r' = cr_effects r @ es \<and> (\<forall>e \<in> set es. is_notice e)"
proof -
  obtain y c2 where h: "next_heartbeat (c\<lparr>co_election_timer := None, co_election_timeout := None\<rparr>) = (y, c2)"
    by (cases "next_heartbeat (c\<lparr>co_election_timer := None, co_election_timeout := None\<rparr>)")
  have c2: "c' = c2" "\<And>r'. x = Inr r' \<Longrightarrow> \<exists>heartbeat. y = Inr heartbeat \<and> r' = emit heartbeat (emit (Cancel_election_deadline timer) r)"
    using assms h by (auto simp: lead_with_heartbeat_def io_then_def split: sum.splits)
  show "protocol_part c' = protocol_part c" "settings c' = settings c" "application_part c' = application_part c"
    "reads_part c' = reads_part c"
    using next_heartbeat_frame(1-4)[OF h] c2(1) by (simp_all add: parts)
  show "\<exists>es. cr_effects r' = cr_effects r @ es \<and> (\<forall>e \<in> set es. is_notice e)" if "x = Inr r'" for r'
    using c2(2)[OF that] next_heartbeat_frame(5)[OF h] by force
qed

lemma role_change_frame:
  assumes "role_change previous resets r c = (x, c')"
  shows "protocol_part c' = protocol_part c" "settings c' = settings c" "application_part c' = application_part c"
    "\<And>r'. x = Inr r' \<Longrightarrow> \<exists>es. cr_effects r' = cr_effects r @ es \<and> (\<forall>e \<in> set es. is_notice e)"
    "f2_role (co_state c) = previous \<or> f2_role (co_state c) = Leader \<or> previous \<noteq> Leader \<Longrightarrow> reads_part c' = reads_part c"
    "previous = Leader \<Longrightarrow> f2_role (co_state c) \<noteq> Leader \<Longrightarrow> \<not> isl x \<Longrightarrow>
       co_pending_reads c' = omap_empty \<and> co_pending_read_requests c' = omap_empty
       \<and> co_used_read_requests c' = co_used_read_requests c \<and> co_next_read_context c' = co_next_read_context c"
proof -
  let ?r = "emit (Role_transition previous (f2_role (co_state c)) (f2_term (co_state c))) r"
  have tail: "\<exists>es. cr_effects r' = cr_effects r @ es \<and> (\<forall>e \<in> set es. is_notice e)"
    if "\<exists>es. cr_effects r' = cr_effects ?r @ es \<and> (\<forall>e \<in> set es. is_notice e)" for r'
    using that by fastforce
  consider (same) "f2_role (co_state c) = previous" "x = Inr r" "c' = c"
    | (lead) "f2_role (co_state c) = Leader" "lead_with_heartbeat (the (co_election_timer c)) ?r c = (x, c')"
    | (down) "previous = Leader" "f2_role (co_state c) \<noteq> Leader" "step_down resets ?r c = (x, c')"
    | (other) "f2_role (co_state c) = Leader \<or> previous \<noteq> Leader" "x = Inr ?r" "c' = c"
  proof (cases "f2_role (co_state c) = previous")
    case True
    then have "x = Inr r" "c' = c" using assms by (simp_all add: role_change_def)
    with True show ?thesis by (rule same)
  next
    case changed: False
    note run = assms[unfolded role_change_def Let_def if_not_P[OF changed]]
    consider "f2_role (co_state c) = Leader \<and> co_election_timer c \<noteq> None"
      | "\<not> (f2_role (co_state c) = Leader \<and> co_election_timer c \<noteq> None)" "previous = Leader \<and> f2_role (co_state c) \<noteq> Leader"
      | "\<not> (f2_role (co_state c) = Leader \<and> co_election_timer c \<noteq> None)" "\<not> (previous = Leader \<and> f2_role (co_state c) \<noteq> Leader)"
      by blast
    then show ?thesis
    proof cases
      case 1
      show ?thesis by (rule lead) (use run[unfolded if_P[OF 1]] 1 in simp_all)
    next
      case 2
      show ?thesis by (rule down) (use run[unfolded if_not_P[OF 2(1)] if_P[OF 2(2)]] 2 in simp_all)
    next
      case 3
      show ?thesis by (rule other) (use run[unfolded if_not_P[OF 3(1)] if_not_P[OF 3(2)]] 3(2) in auto)
    qed
  qed
  note cases = this
  show "protocol_part c' = protocol_part c" "settings c' = settings c" "application_part c' = application_part c"
    using cases by (cases; simp add: lead_with_heartbeat_frame step_down_frame)+
  show "\<exists>es. cr_effects r' = cr_effects r @ es \<and> (\<forall>e \<in> set es. is_notice e)" if result: "x = Inr r'" for r'
    using cases
  proof cases
    case lead
    show ?thesis using tail lead_with_heartbeat_frame(5)[OF lead(2) result] by blast
  next
    case down
    show ?thesis using tail step_down_frame(4)[OF down(3) result] by blast
  qed (use result in auto)
  show "reads_part c' = reads_part c" if "f2_role (co_state c) = previous \<or> f2_role (co_state c) = Leader \<or> previous \<noteq> Leader"
    using cases that by cases (auto simp: lead_with_heartbeat_frame)
  show "co_pending_reads c' = omap_empty \<and> co_pending_read_requests c' = omap_empty
       \<and> co_used_read_requests c' = co_used_read_requests c \<and> co_next_read_context c' = co_next_read_context c"
    if lost: "previous = Leader" "f2_role (co_state c) \<noteq> Leader" "\<not> isl x"
    using cases
  proof cases
    case down
    show ?thesis using step_down_frame(5)[OF down(3) lost(3)] .
  qed (use lost in auto)
qed

lemma translate_effect_frame:
  assumes "translate_effect e r c = (x, c')"
  shows "protocol_part c' = protocol_part c" "settings c' = settings c" "reads_part c' = reads_part c"
    "application_part c' = application_part c"
  using assms next_deadline_frame
  by (cases e; auto simp: parts io_then_def split: if_splits prod.splits sum.splits; blast)+

text \<open>What an effect of the specification becomes.\<close>

fun translation :: "log_entry list \<Rightarrow> f2_effect \<Rightarrow> core_effect list \<Rightarrow> bool" where
  "translation log (Persist_raft_hard_state q) fs \<longleftrightarrow> fs = [Persist_hard_state_effect q]"
| "translation log (Send_request_vote to q) fs \<longleftrightarrow> fs = [Send_vote_request to q]"
| "translation log (Send_request_vote_response to q) fs \<longleftrightarrow> fs = [Send_vote_response to q]"
| "translation log (Send_append_entries to q) fs \<longleftrightarrow> fs = [Send_entries to q]"
| "translation log (Send_append_entries_response to q) fs \<longleftrightarrow> fs = [Send_entries_response to q]"
| "translation log Persist_log fs \<longleftrightarrow> (\<exists>rid. fs = [Persist_raft_log rid log])"
| "translation log Reset_election_timer fs \<longleftrightarrow> (\<exists>timer delay. fs = [Reset_election_deadline timer delay])"
| "translation log (Apply_command i q) fs \<longleftrightarrow> fs = []"
| "translation log (Complete_client_command i) fs \<longleftrightarrow> fs = []"

lemma translate_effect_translation:
  assumes "translate_effect e r c = (Inr r', c')"
  shows "\<exists>fs. translation (f2_log (co_state c)) e fs \<and> cr_effects r' = cr_effects r @ fs"
proof (cases e)
  case Reset_election_timer
  then obtain deadline where "next_deadline c = (Inr deadline, c')" "r' = emit deadline r"
    using assms by (auto simp: io_then_def split: prod.splits sum.splits)
  then show ?thesis using next_deadline_frame(5) Reset_election_timer by fastforce
qed (use assms in \<open>auto split: if_splits\<close>)

lemma translate_effects_frame:
  assumes "io_fold translate_effect es r c = (x, c')"
  shows "protocol_part c' = protocol_part c" "settings c' = settings c" "reads_part c' = reads_part c"
    "application_part c' = application_part c"
proof -
  let ?same = "\<lambda>d. protocol_part d = protocol_part c \<and> settings d = settings c \<and> reads_part d = reads_part c
    \<and> application_part d = application_part c"
  have "case x of Inl e \<Rightarrow> ?same c' | Inr b \<Rightarrow> ?same c'"
    by (rule io_fold_invariant[OF assms, where P = "\<lambda>_. ?same" and Q = ?same])
      (use translate_effect_frame in \<open>auto split: sum.splits\<close>)
  then show "protocol_part c' = protocol_part c" "settings c' = settings c" "reads_part c' = reads_part c"
    "application_part c' = application_part c"
    by (auto split: sum.splits)
qed

lemma translate_effects_translation:
  assumes "io_fold translate_effect es r c = (Inr r', c')"
  shows "\<exists>fss. list_all2 (translation (f2_log (co_state c))) es fss \<and> cr_effects r' = cr_effects r @ concat fss"
  using assms
proof (induction es arbitrary: r c)
  case (Cons e es)
  obtain r1 c1 where one: "translate_effect e r c = (Inr r1, c1)" and rest: "io_fold translate_effect es r1 c1 = (Inr r', c')"
    using Cons.prems by (auto simp: io_then_def split: prod.splits sum.splits)
  have "co_state c1 = co_state c" using translate_effect_frame(1)[OF one] by (simp add: protocol_part_def)
  then obtain fss where "list_all2 (translation (f2_log (co_state c))) es fss" "cr_effects r' = cr_effects r1 @ concat fss"
    using Cons.IH[OF rest] by auto
  moreover obtain fs where "translation (f2_log (co_state c)) e fs" "cr_effects r1 = cr_effects r @ fs"
    using translate_effect_translation[OF one] by blast
  ultimately show ?case by (intro exI[of _ "fs # fss"]) simp
qed simp

text \<open>The part of \<open>translate\<close> after the gate.\<close>

definition finish_translation :: "core_result \<Rightarrow> (core, core_result) io" where
  "finish_translation r = io_then (replace_compacted_appends r) (\<lambda>r c.
     if f2_pending (co_state c) = None \<and> co_pending_log c = None then schedule_application r c else (Inr r, c))"

lemma replaced_then_scheduled_frame:
  assumes "replace_compacted_appends r c = (x1, c1)"
    and "\<And>r1. x1 = Inr r1 \<Longrightarrow> schedule_application r1 c1 = (x, c') \<or> x = Inr r1 \<and> c' = c1"
    and "\<And>e. x1 = Inl e \<Longrightarrow> x = Inl e \<and> c' = c1"
  shows "protocol_part c' = protocol_part c" "settings c' = settings c" "reads_part c' = reads_part c"
    "timers_part c' = timers_part c"
    "\<And>r'. x = Inr r' \<Longrightarrow> \<exists>es fs. cr_effects r' = es @ fs \<and> list_all2 replaced (cr_effects r) es
       \<and> (\<forall>e \<in> set fs. \<exists>q i. e = Apply_log_entry q i)"
proof -
  note rf = replace_compacted_frame[OF assms(1)]
  have "protocol_part c' = protocol_part c \<and> settings c' = settings c \<and> reads_part c' = reads_part c \<and> timers_part c' = timers_part c
    \<and> (\<forall>r'. x = Inr r' \<longrightarrow> (\<exists>es fs. cr_effects r' = es @ fs \<and> list_all2 replaced (cr_effects r) es
       \<and> (\<forall>e \<in> set fs. \<exists>q i. e = Apply_log_entry q i)))"
  proof (cases x1)
    case (Inl e)
    then show ?thesis using assms(3)[OF Inl] rf by simp
  next
    case (Inr r1)
    show ?thesis
    proof (cases "x = Inr r1 \<and> c' = c1")
      case True
      then show ?thesis using rf Inr by (auto intro: exI[of _ "cr_effects r1"] exI[of _ "[]"])
    next
      case False
      then have sched: "schedule_application r1 c1 = (x, c')" using assms(2)[OF Inr] by blast
      note sf = schedule_application_frame[OF sched]
      have "\<exists>es fs. cr_effects r' = es @ fs \<and> list_all2 replaced (cr_effects r) es \<and> (\<forall>e \<in> set fs. \<exists>q i. e = Apply_log_entry q i)"
        if "x = Inr r'" for r'
        using sf(5)[OF that] rf(6)[OF Inr] by blast
      then show ?thesis using sf(1-4) rf(1-5) by simp
    qed
  qed
  then show "protocol_part c' = protocol_part c" "settings c' = settings c" "reads_part c' = reads_part c"
    "timers_part c' = timers_part c"
    "\<And>r'. x = Inr r' \<Longrightarrow> \<exists>es fs. cr_effects r' = es @ fs \<and> list_all2 replaced (cr_effects r) es
       \<and> (\<forall>e \<in> set fs. \<exists>q i. e = Apply_log_entry q i)"
    by blast+
qed

lemma finish_translation_frame:
  assumes "finish_translation r c = (x, c')"
  shows "protocol_part c' = protocol_part c" "settings c' = settings c" "reads_part c' = reads_part c"
    "timers_part c' = timers_part c"
    "\<And>r'. x = Inr r' \<Longrightarrow> \<exists>es fs. cr_effects r' = es @ fs \<and> list_all2 replaced (cr_effects r) es
       \<and> (\<forall>e \<in> set fs. \<exists>q i. e = Apply_log_entry q i)"
proof -
  obtain x1 c1 where run: "replace_compacted_appends r c = (x1, c1)" by (cases "replace_compacted_appends r c")
  have "\<And>r1. x1 = Inr r1 \<Longrightarrow> schedule_application r1 c1 = (x, c') \<or> x = Inr r1 \<and> c' = c1"
    "\<And>e. x1 = Inl e \<Longrightarrow> x = Inl e \<and> c' = c1"
    using assms run by (auto simp: finish_translation_def io_then_def split: if_splits)
  note frame = replaced_then_scheduled_frame[OF run this]
  show "protocol_part c' = protocol_part c" "settings c' = settings c" "reads_part c' = reads_part c"
    "timers_part c' = timers_part c"
    using frame(1-4) by simp_all
  show "\<And>r'. x = Inr r' \<Longrightarrow> \<exists>es fs. cr_effects r' = es @ fs \<and> list_all2 replaced (cr_effects r) es
       \<and> (\<forall>e \<in> set fs. \<exists>q i. e = Apply_log_entry q i)"
    using frame(5) by blast
qed

text \<open>A whole run of \<open>translate\<close>, taken apart at the log gate.\<close>

lemma translate_alt: "translate result previous =
     io_then (io_modify (\<lambda>c. c\<lparr>co_state := sr_state result\<rparr>)) (\<lambda>_.
     io_then (role_change previous (Reset_election_timer \<in> set (sr_effects result))
       \<lparr>cr_rules = sr_rules result, cr_effects = []\<rparr>) (\<lambda>r.
     io_then (io_fold translate_effect (sr_effects result) r) (\<lambda>r.
     io_then (gate_log_persistence r) finish_translation)))"
  by (simp add: translate_def finish_translation_def[abs_def])

lemma translate_parts:
  assumes "translate result previous c = (x, c')"
  obtains (early) e where "x = Inl e" "protocol_part c' = protocol_part (c\<lparr>co_state := sr_state result\<rparr>)" "settings c' = settings c"
      "application_part c' = application_part c"
      "f2_role (sr_state result) = previous \<or> f2_role (sr_state result) = Leader \<or> previous \<noteq> Leader \<Longrightarrow> reads_part c' = reads_part c"
  | (gated) notices fss r1 c1 r2 c2 where
      "f2_role (sr_state result) = previous \<or> f2_role (sr_state result) = Leader \<or> previous \<noteq> Leader \<Longrightarrow> reads_part c1 = reads_part c"
      "previous = Leader \<Longrightarrow> f2_role (sr_state result) \<noteq> Leader \<Longrightarrow>
         co_pending_reads c1 = omap_empty \<and> co_pending_read_requests c1 = omap_empty \<and> co_used_read_requests c1 = co_used_read_requests c
         \<and> co_next_read_context c1 = co_next_read_context c"
      "protocol_part c1 = protocol_part (c\<lparr>co_state := sr_state result\<rparr>)" "settings c1 = settings c"
      "application_part c1 = application_part c" "\<forall>e \<in> set notices. is_notice e"
      "list_all2 (translation (f2_log (sr_state result))) (sr_effects result) fss" "cr_effects r1 = notices @ concat fss"
      "gate_log_persistence r1 c1 = (Inr r2, c2)" "finish_translation r2 c2 = (x, c')"
proof -
  let ?c = "c\<lparr>co_state := sr_state result\<rparr>" and ?r = "\<lparr>cr_rules = sr_rules result, cr_effects = []\<rparr>"
  let ?resets = "Reset_election_timer \<in> set (sr_effects result)"
  let ?keeps = "f2_role (sr_state result) = previous \<or> f2_role (sr_state result) = Leader \<or> previous \<noteq> Leader"
  obtain x0 c0 where role: "role_change previous ?resets ?r ?c = (x0, c0)" by (cases "role_change previous ?resets ?r ?c")
  note rf = role_change_frame[OF role]
  have same0: "protocol_part c0 = protocol_part ?c" "settings c0 = settings c" "application_part c0 = application_part c"
    "?keeps \<Longrightarrow> reads_part c0 = reads_part c"
    using rf(1,2,3,5) by (simp_all add: parts)
  show ?thesis
  proof (cases x0)
    case (Inl e)
    then have "x = Inl e" "c' = c0" using assms role by (simp_all add: translate_alt io_then_def)
    then show ?thesis using early same0 by simp
  next
    case r0: (Inr r0)
    obtain notices where notices: "cr_effects r0 = notices" "\<forall>e \<in> set notices. is_notice e" using rf(4)[OF r0] by auto
    obtain x1 c1 where fold: "io_fold translate_effect (sr_effects result) r0 c0 = (x1, c1)"
      by (cases "io_fold translate_effect (sr_effects result) r0 c0")
    note tf = translate_effects_frame[OF fold]
    have same1: "protocol_part c1 = protocol_part ?c" "settings c1 = settings c" "application_part c1 = application_part c"
      "?keeps \<Longrightarrow> reads_part c1 = reads_part c"
      using same0 tf by simp_all
    have lost1: "co_pending_reads c1 = omap_empty \<and> co_pending_read_requests c1 = omap_empty
        \<and> co_used_read_requests c1 = co_used_read_requests c \<and> co_next_read_context c1 = co_next_read_context c"
      if "previous = Leader" "f2_role (sr_state result) \<noteq> Leader"
      using rf(6) tf(3) that r0 by (simp add: reads_part_def)
    show ?thesis
    proof (cases x1)
      case (Inl e)
      then have "x = Inl e" "c' = c1" using assms role r0 fold by (simp_all add: translate_alt io_then_def)
      then show ?thesis using early same1 by simp
    next
      case r1: (Inr r1)
      have "co_state c0 = sr_state result" using same0(1) by (simp add: protocol_part_def)
      then obtain fss where fss: "list_all2 (translation (f2_log (sr_state result))) (sr_effects result) fss"
        "cr_effects r1 = notices @ concat fss"
        using translate_effects_translation[OF fold[unfolded r1]] notices(1) by auto
      obtain y c2 where gate: "gate_log_persistence r1 c1 = (y, c2)" by (cases "gate_log_persistence r1 c1")
      have run: "(case y of Inl e \<Rightarrow> (Inl e, c2) | Inr r \<Rightarrow> finish_translation r c2) = (x, c')"
        using assms role r0 fold r1 gate by (simp add: translate_alt io_then_def)
      show ?thesis
      proof (cases y)
        case (Inl e)
        have "c2 = c1" using gate by (cases rule: gate_log_cases) (use Inl in auto)
        then have "x = Inl e" "c' = c1" using run Inl by simp_all
        then show ?thesis using early same1 by simp
      next
        case (Inr r2)
        from gated[OF same1(4) lost1 same1(1-3) notices(2) fss gate[unfolded Inr]] show ?thesis using run Inr by simp
      qed
    qed
  qed
qed

lemma translate_frame:
  assumes "translate result previous c = (x, c')"
  shows "co_state c' = sr_state result" "settings c' = settings c" "co_pending_snapshot c' = co_pending_snapshot c"
    "co_pending_restore c' = co_pending_restore c" "co_install_after_hard_state c' = co_install_after_hard_state c"
    "co_durable_snapshot c' = co_durable_snapshot c"
proof -
  have "co_state c' = sr_state result \<and> settings c' = settings c \<and> co_pending_snapshot c' = co_pending_snapshot c
    \<and> co_pending_restore c' = co_pending_restore c \<and> co_install_after_hard_state c' = co_install_after_hard_state c
    \<and> co_durable_snapshot c' = co_durable_snapshot c"
    using assms
  proof (cases rule: translate_parts)
    case (early e)
    then show ?thesis by (simp add: protocol_part_def)
  next
    case (gated notices fss r1 c1 r2 c2)
    then show ?thesis using gate_log_frame[OF gated(9)] finish_translation_frame(1,2)[OF gated(10)]
      by (simp add: protocol_part_def)
  qed
  then show "co_state c' = sr_state result" "settings c' = settings c" "co_pending_snapshot c' = co_pending_snapshot c"
    "co_pending_restore c' = co_pending_restore c" "co_install_after_hard_state c' = co_install_after_hard_state c"
    "co_durable_snapshot c' = co_durable_snapshot c"
    by blast+
qed

end
