(* ===== verification/Core_Election.thy ===== *)
theory Core_Election
  imports Core_Frames Raft_Cluster
begin

text \<open>
  The election core refines the Figure 2 specification as far as elections are concerned: a
  step of the core is a sequence of steps of the specification and of changes around it, and
  every vote message it releases, now or after the log has become durable, is one that the
  specification has released.  A cluster of cores with disks, crashes and restarts through the
  constructor is therefore simulated by the cluster of the specification and inherits election
  safety.
\<close>

section \<open>Vote messages\<close>

fun vote_effect :: "core_effect \<Rightarrow> f2_effect option" where
  "vote_effect (Send_vote_request to q) = Some (Send_request_vote to q)"
| "vote_effect (Send_vote_response to q) = Some (Send_request_vote_response to q)"
| "vote_effect _ = None"

definition vote_effects :: "core_effect list \<Rightarrow> f2_effect set" where
  "vote_effects es = {f. \<exists>e \<in> set es. vote_effect e = Some f}"

definition deferred_votes :: "core \<Rightarrow> f2_effect set" where
  "deferred_votes c = (case co_pending_log c of None \<Rightarrow> {} | Some p \<Rightarrow> vote_effects (pl_deferred_effects p))"

lemma vote_effects_simps [simp]:
  "vote_effects [] = {}" "vote_effects (es @ fs) = vote_effects es \<union> vote_effects fs"
  "vote_effects (e # es) = (case vote_effect e of None \<Rightarrow> {} | Some f \<Rightarrow> {f}) \<union> vote_effects es"
  by (auto simp: vote_effects_def split: option.splits)

lemma vote_effects_none: "\<forall>e \<in> set es. vote_effect e = None \<Longrightarrow> vote_effects es = {}"
  by (auto simp: vote_effects_def)

lemma notice_no_vote: "is_notice e \<Longrightarrow> vote_effect e = None"
  by (cases e) simp_all

lemma vote_effects_notices: "\<forall>e \<in> set es. is_notice e \<Longrightarrow> vote_effects es = {}"
  by (rule vote_effects_none) (simp add: notice_no_vote)

lemma vote_effects_reads: "\<forall>e \<in> set es. \<exists>q i. e = Read_index_response q i \<Longrightarrow> vote_effects es = {}"
  by (rule vote_effects_none) fastforce

lemma vote_effects_applies: "\<forall>e \<in> set es. \<exists>q i. e = Apply_log_entry q i \<Longrightarrow> vote_effects es = {}"
  by (rule vote_effects_none) fastforce

lemma vote_effects_replaced: "list_all2 replaced es fs \<Longrightarrow> vote_effects fs = vote_effects es"
  by (induction es fs rule: list_all2_induct) (auto simp: replaced_def)

lemma vote_effects_translated:
  "list_all2 (translation log) es fss \<Longrightarrow> vote_effects (concat fss) \<subseteq> set es"
proof (induction es fss rule: list_all2_induct)
  case (Cons e es fs fss)
  then show ?case by (cases e) auto
qed simp

lemma translate_votes:
  assumes "translate result previous c = (x, c')"
  shows "vote_effects (effects_of x) \<union> deferred_votes c' \<subseteq> set (sr_effects result) \<union> deferred_votes c"
  using assms
proof (cases rule: translate_parts)
  case (early e)
  then show ?thesis by (simp add: protocol_part_def deferred_votes_def)
next
  case (gated notices fss r1 c1 r2 c2)
  have r1: "vote_effects (cr_effects r1) \<subseteq> set (sr_effects result)"
    using gated(6,8) vote_effects_notices vote_effects_translated[OF gated(7)] by simp
  have c1: "co_pending_log c1 = co_pending_log c" using gated(3) by (simp add: protocol_part_def)
  have r2: "vote_effects (cr_effects r2) \<union> deferred_votes c2 \<subseteq> set (sr_effects result) \<union> deferred_votes c"
    using gated(9)
  proof (cases rule: gate_log_cases)
    case 1
    then show ?thesis using r1 c1 by (auto simp: deferred_votes_def)
  next
    case (3 pre rid log deferred r')
    then show ?thesis using r1 by (auto simp: deferred_votes_def)
  qed simp
  have "deferred_votes c' = deferred_votes c2"
    using finish_translation_frame(1)[OF gated(10)] by (simp add: protocol_part_def deferred_votes_def)
  moreover have "vote_effects (effects_of x) \<subseteq> vote_effects (cr_effects r2)"
  proof (cases x)
    case (Inr r')
    then show ?thesis using finish_translation_frame(5)[OF gated(10) Inr] vote_effects_replaced vote_effects_applies by fastforce
  qed simp
  ultimately show ?thesis using r2 by blast
qed

section \<open>Paths of the specification\<close>

inductive f2_path :: "(f2_event \<Rightarrow> bool) \<Rightarrow> f2_state \<Rightarrow> f2_effect set \<Rightarrow> f2_state \<Rightarrow> bool" for E s where
  path_start: "f2_path E s {} s"
| path_step: "f2_path E s es t \<Longrightarrow> E e \<Longrightarrow> f2_step t e = Inr r \<Longrightarrow> f2_path E s (es \<union> set (sr_effects r)) (sr_state r)"
| path_local: "f2_path E s es t \<Longrightarrow> local_move t u \<Longrightarrow> f2_path E s es u"

text \<open>
  \<open>tracks E s D V c\<close>: the core has moved from \<open>s\<close> along such a path, and the vote messages in \<open>V\<close>
  or held back in \<open>c\<close> come from it or were held back before (\<open>D\<close>).
\<close>

definition tracks :: "(f2_event \<Rightarrow> bool) \<Rightarrow> f2_state \<Rightarrow> f2_effect set \<Rightarrow> f2_effect set \<Rightarrow> core \<Rightarrow> bool" where
  "tracks E s D V c \<longleftrightarrow> (\<exists>es. f2_path E s es (co_state c) \<and> V \<union> deferred_votes c \<subseteq> es \<union> D)"

text \<open>
  \<open>refines E R m\<close>: the computation continues such a path, and the vote messages of its result are
  new ones of the path or among \<open>R\<close>.
\<close>

definition refines :: "(f2_event \<Rightarrow> bool) \<Rightarrow> f2_effect set \<Rightarrow> (core, core_result) io \<Rightarrow> bool" where
  "refines E R m \<longleftrightarrow> (\<forall>s D V c x c'. R \<subseteq> V \<longrightarrow> tracks E s D V c \<longrightarrow> m c = (x, c')
     \<longrightarrow> tracks E s D (V \<union> vote_effects (effects_of x)) c')"

lemma refinesI:
  "(\<And>s D V c x c'. R \<subseteq> V \<Longrightarrow> tracks E s D V c \<Longrightarrow> m c = (x, c') \<Longrightarrow> tracks E s D (V \<union> vote_effects (effects_of x)) c')
   \<Longrightarrow> refines E R m"
  by (simp add: refines_def)

lemma refinesD:
  "refines E R m \<Longrightarrow> R \<subseteq> V \<Longrightarrow> tracks E s D V c \<Longrightarrow> m c = (x, c') \<Longrightarrow> tracks E s D (V \<union> vote_effects (effects_of x)) c'"
  by (simp add: refines_def)

lemma tracks_same: "tracks E s D V c \<Longrightarrow> co_state c' = co_state c \<Longrightarrow> co_pending_log c' = co_pending_log c \<Longrightarrow> tracks E s D V c'"
  by (simp add: tracks_def deferred_votes_def)

lemma tracks_local: "tracks E s D V c \<Longrightarrow> local_move (co_state c) (co_state c') \<Longrightarrow> co_pending_log c' = co_pending_log c \<Longrightarrow> tracks E s D V c'"
  unfolding tracks_def deferred_votes_def using path_local by metis

lemma refines_then:
  assumes "refines E R m" "\<And>r. refines E (R \<union> vote_effects (cr_effects r)) (k r)"
  shows "refines E R (io_then m k)"
proof (rule refinesI)
  fix s D V c x c'
  assume R: "R \<subseteq> V" and t: "tracks E s D V c" and run: "io_then m k c = (x, c')"
  from run show "tracks E s D (V \<union> vote_effects (effects_of x)) c'"
  proof (cases rule: io_thenE)
    case (1 e)
    then show ?thesis using refinesD[OF assms(1) R t 1(1)] by simp
  next
    case (2 r c1)
    have "tracks E s D (V \<union> vote_effects (cr_effects r)) c1" using refinesD[OF assms(1) R t 2(1)] by simp
    then have "tracks E s D (V \<union> vote_effects (cr_effects r) \<union> vote_effects (effects_of x)) c'"
      by (rule refinesD[OF assms(2)[of r] _ _ 2(2), rotated]) (use R in auto)
    then show ?thesis by (auto simp: tracks_def)
  qed
qed

lemma refines_quiet:
  assumes "\<And>c x c'. m c = (x, c') \<Longrightarrow> co_state c' = co_state c \<and> co_pending_log c' = co_pending_log c \<and> vote_effects (effects_of x) \<subseteq> R"
  shows "refines E R m"
proof (rule refinesI)
  fix s D V c x c'
  assume R: "R \<subseteq> V" and t: "tracks E s D V c" and run: "m c = (x, c')"
  have "tracks E s D V c'" using tracks_same[OF t] assms[OF run] by blast
  moreover have "V \<union> vote_effects (effects_of x) = V" using assms[OF run] R by auto
  ultimately show "tracks E s D (V \<union> vote_effects (effects_of x)) c'" by simp
qed

lemma refines_if: "refines E R m \<Longrightarrow> refines E R n \<Longrightarrow> refines E R (\<lambda>c. if P c then m c else n c)"
  by (auto simp: refines_def)

lemma refines_update:
  assumes "\<And>c. co_state (f c) = co_state c \<and> co_pending_log (f c) = co_pending_log c" "refines E R m"
  shows "refines E R (\<lambda>c. m (f c))"
proof (rule refinesI)
  fix s D V c x c'
  assume "R \<subseteq> V" "tracks E s D V c" "m (f c) = (x, c')"
  then show "tracks E s D (V \<union> vote_effects (effects_of x)) c'"
    using refinesD[OF assms(2)] tracks_same assms(1) by metis
qed

lemma refines_emit: "vote_effects (cr_effects r) \<subseteq> R \<Longrightarrow> refines E R (io_return r)"
  by (rule refines_quiet) auto

lemma refines_throw: "refines E R (io_throw e)"
  by (rule refines_quiet) auto

lemma refines_result: "vote_effects (effects_of x) \<subseteq> R \<Longrightarrow> refines E R (\<lambda>c. (x, c))"
  by (rule refines_quiet) auto

lemma refines_figure2:
  assumes "E e"
  shows "refines E R (run_figure2 e)"
proof (rule refinesI)
  fix s D V c x c'
  assume t: "tracks E s D V c" and run: "run_figure2 e c = (x, c')"
  show "tracks E s D (V \<union> vote_effects (effects_of x)) c'"
  proof (cases "f2_step (co_state c) e")
    case (Inl err)
    then have "x = Inl err" "c' = c" using run by (simp_all add: run_figure2_def io_lift_simps)
    then show ?thesis using t by simp
  next
    case (Inr r)
    then have tr: "translate r (f2_role (co_state c)) c = (x, c')" using run by (simp add: run_figure2_def io_lift_simps)
    obtain es where "f2_path E s es (co_state c)" and es: "V \<union> deferred_votes c \<subseteq> es \<union> D" using t by (auto simp: tracks_def)
    then have "f2_path E s (es \<union> set (sr_effects r)) (co_state c')"
      using path_step[where e = e and r = r] assms Inr translate_frame(1)[OF tr] by simp
    then show ?thesis using es translate_votes[OF tr] unfolding tracks_def by blast
  qed
qed

lemma refines_quiet_frame:
  assumes "\<And>c x c'. m c = (x, c') \<Longrightarrow> protocol_part c' = protocol_part c \<and> vote_effects (effects_of x) \<subseteq> R"
  shows "refines E R m"
  by (rule refines_quiet) (use assms in \<open>fastforce simp: protocol_part_def\<close>)

lemma refines_read_responses:
  assumes "\<And>c x c'. m c = (x, c') \<Longrightarrow> protocol_part c' = protocol_part c"
    and "\<And>c x c'. m c = (x, c') \<Longrightarrow>
      \<exists>r' es. x = Inr r' \<and> cr_effects r' = cr_effects r @ es \<and> (\<forall>e \<in> set es. \<exists>q i. e = Read_index_response q i)"
    and "vote_effects (cr_effects r) \<subseteq> R"
  shows "refines E R m"
proof (rule refines_quiet_frame)
  fix c x c'
  assume run: "m c = (x, c')"
  obtain r' es where "x = Inr r'" "cr_effects r' = cr_effects r @ es" "\<forall>e \<in> set es. \<exists>q i. e = Read_index_response q i"
    using assms(2)[OF run] by blast
  then show "protocol_part c' = protocol_part c \<and> vote_effects (effects_of x) \<subseteq> R"
    using assms(1)[OF run] assms(3) vote_effects_reads by simp
qed

lemma refines_complete_reads: "vote_effects (cr_effects r) \<subseteq> R \<Longrightarrow> refines E R (complete_ready_reads r)"
  by (rule refines_read_responses[OF complete_ready_reads_frame(1,5)])

lemma refines_acknowledge: "vote_effects (cr_effects r) \<subseteq> R \<Longrightarrow> refines E R (acknowledge_read sender response r)"
  by (rule refines_read_responses[OF acknowledge_read_frame(1,5)])

lemma refines_schedule:
  assumes "vote_effects (cr_effects r) \<subseteq> R"
  shows "refines E R (schedule_application r)"
proof (rule refines_quiet_frame)
  fix c x c'
  assume run: "schedule_application r c = (x, c')"
  have "vote_effects (effects_of x) \<subseteq> R"
  proof (cases x)
    case (Inr r')
    then show ?thesis using schedule_application_frame(5)[OF run Inr] vote_effects_applies assms by fastforce
  qed simp
  then show "protocol_part c' = protocol_part c \<and> vote_effects (effects_of x) \<subseteq> R" using schedule_application_frame(1)[OF run] by simp
qed

lemma refines_replace:
  assumes "vote_effects (cr_effects r) \<subseteq> R"
  shows "refines E R (replace_compacted_appends r)"
proof (rule refines_quiet_frame)
  fix c x c'
  assume run: "replace_compacted_appends r c = (x, c')"
  have "vote_effects (effects_of x) \<subseteq> R"
  proof (cases x)
    case (Inr r')
    then show ?thesis using replace_compacted_frame(6)[OF run Inr] vote_effects_replaced assms by fastforce
  qed simp
  then show "protocol_part c' = protocol_part c \<and> vote_effects (effects_of x) \<subseteq> R" using replace_compacted_frame(1)[OF run] by simp
qed

lemma refines_finish: "vote_effects (cr_effects r) \<subseteq> R \<Longrightarrow> refines E R (finish_completion r)"
  unfolding finish_completion_def by (rule refines_then[OF refines_complete_reads]) (auto intro: refines_schedule)

section \<open>Every operation of the core is such a path\<close>

text \<open>The events that carry no vote and complete no hard-state request.\<close>

definition calm :: "(f2_event \<Rightarrow> bool) \<Rightarrow> bool" where
  "calm E \<longleftrightarrow> E Election_timeout \<and> E Heartbeat_timeout \<and> (\<forall>t. E (Observe_term t)) \<and> (\<forall>n q. E (Receive_append_entries n q))
     \<and> (\<forall>n q. E (Receive_append_entries_response n q)) \<and> (\<forall>q. E (Receive_client_command q))"

lemma refines_lift:
  assumes "\<And>y. refines E R (k y)"
  shows "refines E R (io_then (io_lift f) k)"
proof (rule refinesI)
  fix s D V c x c'
  assume "R \<subseteq> V" "tracks E s D V c" "io_then (io_lift f) k c = (x, c')"
  then show "tracks E s D (V \<union> vote_effects (effects_of x)) c'"
    using refinesD[OF assms] by (cases "f c") (auto simp: io_lift_simps)
qed

lemma refines_local_translate:
  "refines E R (\<lambda>c. translate (reset_timer_as_follower sender (co_state c)) (f2_role (co_state c)) c)"
proof (rule refinesI)
  fix s D V x and c c' :: core
  let ?res = "reset_timer_as_follower sender (co_state c)"
  assume t: "tracks E s D V c" and run: "translate ?res (f2_role (co_state c)) c = (x, c')"
  have move: "local_move (co_state c) (sr_state ?res)"
    by (simp add: reset_timer_as_follower_def local_move_def hard_state_def)
  obtain es where es: "f2_path E s es (co_state c)" "V \<union> deferred_votes c \<subseteq> es \<union> D" using t by (auto simp: tracks_def)
  have "f2_path E s es (co_state c')" using path_local[OF es(1) move] translate_frame(1)[OF run] by simp
  moreover have "vote_effects (effects_of x) \<union> deferred_votes c' \<subseteq> {Reset_election_timer} \<union> deferred_votes c"
    using translate_votes[OF run] by (simp add: reset_timer_as_follower_def)
  moreover have "Reset_election_timer \<notin> vote_effects fs" for fs
    by (auto simp: vote_effects_def elim: vote_effect.elims)
  then have "Reset_election_timer \<notin> deferred_votes c'" "Reset_election_timer \<notin> vote_effects (effects_of x)"
    by (auto simp: deferred_votes_def split: option.splits)
  ultimately show "tracks E s D (V \<union> vote_effects (effects_of x)) c'" using es(2) unfolding tracks_def by blast
qed

lemma local_move_volatile: "local_move s (s\<lparr>f2_persistent := (f2_persistent s)\<lparr>ps_log := log, ps_snapshot := m\<rparr>, f2_volatile := v\<rparr>)"
  "local_move s (s\<lparr>f2_volatile := v\<rparr>)" "local_move s (s\<lparr>f2_volatile := v, f2_leader := l\<rparr>)"
  by (simp_all add: local_move_def hard_state_def)

lemma refines_local:
  assumes "\<And>c. local_move (co_state c) (co_state (f c)) \<and> co_pending_log (f c) = co_pending_log c" "refines E R m"
  shows "refines E R (\<lambda>c. m (f c))"
proof (rule refinesI)
  fix s D V c x c'
  assume "R \<subseteq> V" "tracks E s D V c" "m (f c) = (x, c')"
  then show "tracks E s D (V \<union> vote_effects (effects_of x)) c'"
    using refinesD[OF assms(2)] tracks_local assms(1) by metis
qed

lemma local_move_refl [simp]: "local_move s s"
  by (simp add: local_move_def)

lemma compact_to_local [simp]:
  "local_move (co_state c) (co_state (compact_to snapshot (c\<lparr>co_pending_snapshot := p\<rparr>)))"
  "local_move (co_state c) (co_state (compact_to snapshot (c\<lparr>co_pending_restore := q\<rparr>)))"
  "co_pending_log (compact_to snapshot c) = co_pending_log c"
  by (simp_all add: compact_to_def Let_def local_move_def hard_state_def)

lemma vote_effects_map_context: "vote_effects (map (with_read_context context) es) = vote_effects es"
proof (induction es)
  case (Cons e es)
  then show ?case by (cases e) simp_all
qed simp

lemma refines_begin_read:
  assumes "calm E"
  shows "refines E R (begin_read request)"
proof -
  have reject: "refines E R (reject_read request reason)" for reason
    by (rule refines_quiet) (auto simp: reject_read_def)
  have heartbeat: "refines E R (\<lambda>c. io_then (run_figure2 Heartbeat_timeout) (\<lambda>r.
      io_return (r\<lparr>cr_effects := map (with_read_context ctx) (cr_effects r)\<rparr>)) (admit_read request c))" for ctx
  proof (rule refines_update[where f = "admit_read request"])
    show "refines E R (io_then (run_figure2 Heartbeat_timeout) (\<lambda>r.
      io_return (r\<lparr>cr_effects := map (with_read_context ctx) (cr_effects r)\<rparr>)))"
      by (rule refines_then[OF refines_figure2 refines_emit]) (use assms in \<open>simp_all add: calm_def vote_effects_map_context\<close>)
  qed (simp add: admit_read_def Let_def)
  have "refines E R (\<lambda>c. io_then (run_figure2 Heartbeat_timeout) (\<lambda>r.
      io_return (r\<lparr>cr_effects := map (with_read_context (co_next_read_context c)) (cr_effects r)\<rparr>)) (admit_read request c))"
    using heartbeat unfolding refines_def by blast
  then show ?thesis
    unfolding begin_read_def
    by (intro refines_if refines_result refines_lift reject) simp
qed

lemma refines_end_read: "refines E R (end_read request reason)"
  by (rule refines_quiet) (auto simp: end_read_def split: option.splits)

lemma take_snapshot_request_id_frame:
  "take_snapshot_request_id c = (x, c') \<Longrightarrow> co_state c' = co_state c \<and> co_pending_log c' = co_pending_log c"
  by (auto simp: take_snapshot_request_id_def Let_def split: if_splits)

lemma refines_begin_snapshot: "refines E R (begin_snapshot request)"
  unfolding begin_snapshot_def Let_def
  by (intro refines_if refines_lift refines_quiet)
    (use take_snapshot_request_id_frame in \<open>auto simp: reject_snapshot_def io_then_def split: prod.splits sum.splits\<close>)

lemma refines_accept_snapshot:
  assumes "vote_effects (cr_effects r) \<subseteq> R"
  shows "refines E R (accept_snapshot sender request r)"
  by (rule refines_quiet)
    (use take_snapshot_request_id_frame assms in \<open>auto simp: accept_snapshot_def Let_def install_rejection_def io_then_def
      split: if_splits prod.splits sum.splits option.splits\<close>)

lemma refines_receive_snapshot:
  assumes "calm E"
  shows "refines E R (receive_snapshot sender request)"
proof -
  have "refines E R (\<lambda>c. io_then (translate (reset_timer_as_follower sender (co_state c)) (f2_role (co_state c)))
        (accept_snapshot sender request) c)"
  proof (rule refinesI)
    fix s D V c x c'
    assume "R \<subseteq> V" "tracks E s D V c"
      "io_then (translate (reset_timer_as_follower sender (co_state c)) (f2_role (co_state c))) (accept_snapshot sender request) c = (x, c')"
    moreover from this have "io_then (\<lambda>c. translate (reset_timer_as_follower sender (co_state c)) (f2_role (co_state c)) c)
        (accept_snapshot sender request) c = (x, c')" by (simp add: io_then_def)
    ultimately show "tracks E s D (V \<union> vote_effects (effects_of x)) c'"
      by (intro refinesD[OF refines_then[OF refines_local_translate refines_accept_snapshot]]) auto
  qed
  moreover have "refines E R (\<lambda>c. run_figure2 (Observe_term (is_term request)) (c\<lparr>co_install_after_hard_state := Some (sender, request)\<rparr>))"
    by (rule refines_update[where f = "\<lambda>c. c\<lparr>co_install_after_hard_state := Some (sender, request)\<rparr>", OF _ refines_figure2])
      (use assms in \<open>simp_all add: calm_def\<close>)
  moreover have "refines E R (\<lambda>c. (Inr (effects_only [install_rejection c sender request]), c))"
    by (rule refines_quiet) (auto simp: install_rejection_def)
  ultimately show ?thesis unfolding receive_snapshot_def by (intro refines_if refines_result) simp_all
qed

lemma refines_option:
  assumes "refines E R m" "\<And>y. refines E R (k y)"
  shows "refines E R (\<lambda>c. case f c of None \<Rightarrow> m c | Some y \<Rightarrow> k y c)"
  using assms unfolding refines_def by (simp split: option.splits)

lemma refines_snapshot_response:
  assumes "calm E"
  shows "refines E R (receive_snapshot_response sender response)"
proof -
  let ?synthetic = "\<lparr>aer_term = isr_term response, aer_succeeded = True,
     aer_matched_index = isr_last_included_index response, aer_read_context = isr_read_context response\<rparr>"
  let ?resume = "io_then (run_figure2 (Receive_append_entries_response sender ?synthetic)) (\<lambda>r.
      io_then (acknowledge_read sender ?synthetic r) (\<lambda>r. io_then (run_figure2 Heartbeat_timeout) (\<lambda>resume. io_return (join_results r resume))))"
  have "refines E R ?resume"
    by (rule refines_then[OF refines_figure2 refines_then[OF refines_acknowledge refines_then[OF refines_figure2 refines_emit]]])
      (use assms in \<open>auto simp: calm_def\<close>)
  then have "refines E R (\<lambda>c. ?resume (c\<lparr>co_snapshot_transfers := omap_drop sender (co_snapshot_transfers c)\<rparr>))"
    by (rule refines_update[where f = "\<lambda>c. c\<lparr>co_snapshot_transfers := omap_drop sender (co_snapshot_transfers c)\<rparr>", rotated]) simp
  moreover have "refines E R (run_figure2 (Observe_term (isr_term response)))"
    using assms by (intro refines_figure2) (simp add: calm_def)
  ultimately show ?thesis
    unfolding receive_snapshot_response_def Let_def by (intro refines_if refines_option refines_result) simp_all
qed

lemma refines_install_persisted: "refines E R (install_persisted_snapshot request_id snapshot (effects_only []))"
proof (rule refinesI)
  fix s D V c x c'
  assume t: "tracks E s D V c" and run: "install_persisted_snapshot request_id snapshot (effects_only []) c = (x, c')"
  have "vote_effects (effects_of x) = {}" "local_move (co_state c) (co_state c')" "co_pending_log c' = co_pending_log c"
    using run by (auto simp: install_persisted_snapshot_def Let_def split: option.splits if_splits)
  then show "tracks E s D (V \<union> vote_effects (effects_of x)) c'" using tracks_local[OF t] by simp
qed

lemma refines_complete_restore: "refines E R (complete_snapshot_restore request_id index (effects_only []))"
proof (rule refinesI)
  fix s D V c x c'
  assume t: "tracks E s D V c" and run: "complete_snapshot_restore request_id index (effects_only []) c = (x, c')"
  have "vote_effects (effects_of x) = {}" "local_move (co_state c) (co_state c')" "co_pending_log c' = co_pending_log c"
    using run by (auto simp: complete_snapshot_restore_def Let_def split: option.splits if_splits)
  then show "tracks E s D (V \<union> vote_effects (effects_of x)) c'" using tracks_local[OF t] by simp
qed

lemma entry_applied_cases:
  assumes "entry_applied request_id index c = (x, c')"
  obtains (mismatch) "x = Inl (Invalid_Argument ''application completion does not match pending entry'')" "c' = c"
  | (applied) p l es where "co_pending_application c = Some p" "\<not> pa_blocked p" "request_id = pa_request_id p"
      "index = le_index (pa_entry p)" "es = [] \<or> es = [Complete_command index]"
      "l = f2_leader (co_state c) \<or> (\<exists>l0. f2_leader (co_state c) = Some l0
         \<and> l = Some (l0\<lparr>ls_pending_clients := oset_erase index (ls_pending_clients l0)\<rparr>))"
      "finish_completion (effects_only es) (c\<lparr>co_state := (co_state c)\<lparr>f2_volatile := (f2_volatile (co_state c))\<lparr>vs_last_applied := index\<rparr>,
         f2_leader := l\<rparr>, co_pending_application := None\<rparr>) = (x, c')"
proof (cases "\<exists>p. co_pending_application c = Some p \<and> \<not> pa_blocked p \<and> request_id = pa_request_id p \<and> index = le_index (pa_entry p)")
  case False
  then have "entry_applied request_id index c = (Inl (Invalid_Argument ''application completion does not match pending entry''), c)"
    by (auto simp: entry_applied_def Let_def split: option.splits)
  then show ?thesis using assms by (intro mismatch) simp_all
next
  case True
  then obtain p where p: "co_pending_application c = Some p" "\<not> pa_blocked p" "request_id = pa_request_id p" "index = le_index (pa_entry p)"
    by blast
  show ?thesis
  proof (cases "\<exists>l0. f2_leader (co_state c) = Some l0 \<and> oset_member index (ls_pending_clients l0)")
    case True
    then obtain l0 where l0: "f2_leader (co_state c) = Some l0" "oset_member index (ls_pending_clients l0)" by blast
    show ?thesis
      by (rule applied[OF p, of "[Complete_command index]" "Some (l0\<lparr>ls_pending_clients := oset_erase index (ls_pending_clients l0)\<rparr>)"])
        (use assms p l0 in \<open>simp_all add: entry_applied_def Let_def\<close>)
  next
    case False
    show ?thesis
      by (rule applied[OF p, of "[]" "f2_leader (co_state c)"])
        (use assms p False in \<open>auto simp: entry_applied_def Let_def split: option.splits if_splits\<close>)
  qed
qed

lemma refines_entry_applied: "refines E R (entry_applied request_id index)"
proof (rule refinesI)
  fix s D V c x c'
  assume R: "R \<subseteq> V" and t: "tracks E s D V c" and run: "entry_applied request_id index c = (x, c')"
  from run show "tracks E s D (V \<union> vote_effects (effects_of x)) c'"
  proof (cases rule: entry_applied_cases)
    case (applied p l es)
    let ?c1 = "c\<lparr>co_state := (co_state c)\<lparr>f2_volatile := (f2_volatile (co_state c))\<lparr>vs_last_applied := index\<rparr>,
      f2_leader := l\<rparr>, co_pending_application := None\<rparr>"
    have "tracks E s D V ?c1" using tracks_local[OF t, of ?c1] local_move_volatile(3) by simp
    then show ?thesis using refinesD[OF refines_finish R _ applied(7)] applied(5) by auto
  qed (use t in simp)
qed

lemma refines_apply_failed: "refines E R (entry_apply_failed request_id index)"
  by (rule refines_quiet) (auto simp: entry_apply_failed_def Let_def split: option.splits if_splits)

lemma refines_retry: "refines E R retry_application"
  by (rule refines_quiet) (auto simp: retry_application_def Let_def split: option.splits if_splits)

lemma refines_log_persisted: "refines E R (log_persisted request_id log)"
proof (rule refinesI)
  fix s D V c x c'
  assume t: "tracks E s D V c" and run: "log_persisted request_id log c = (x, c')"
  show "tracks E s D (V \<union> vote_effects (effects_of x)) c'"
  proof (cases "\<exists>p. co_pending_log c = Some p \<and> request_id = pl_request_id p \<and> log = pl_log p")
    case False
    then have "effects_of x = []" "c' = c" using run by (auto simp: log_persisted_def split: option.splits if_splits)
    then show ?thesis using t by simp
  next
    case True
    then obtain p where p: "co_pending_log c = Some p" and r: "io_then (replace_compacted_appends (effects_only (pl_deferred_effects p)))
        schedule_application (c\<lparr>co_pending_log := None\<rparr>) = (x, c')"
      using run by (auto simp: log_persisted_def)
    let ?V = "V \<union> vote_effects (pl_deferred_effects p)"
    have held: "tracks E s D ?V (c\<lparr>co_pending_log := None\<rparr>)" using t p by (simp add: tracks_def deferred_votes_def)
    have "refines E ?V (io_then (replace_compacted_appends (effects_only (pl_deferred_effects p))) schedule_application)"
      by (rule refines_then[OF refines_replace refines_schedule]) auto
    from refinesD[OF this _ held r] have "tracks E s D (?V \<union> vote_effects (effects_of x)) c'" by simp
    then show ?thesis by (auto simp: tracks_def)
  qed
qed

lemma refines_hard_state_persisted:
  assumes "calm E" "E (Raft_hard_state_persisted request_id state)"
  shows "refines E R (hard_state_persisted request_id state)"
proof -
  have join: "refines E R' (\<lambda>c. io_then (receive_snapshot sender request) (\<lambda>k. io_return (join_results completed k))
        (c\<lparr>co_install_after_hard_state := None\<rparr>))" if "vote_effects (cr_effects completed) \<subseteq> R'" for R' sender request completed
    by (rule refines_update[where f = "\<lambda>c. c\<lparr>co_install_after_hard_state := None\<rparr>", rotated],
        rule refines_then[OF refines_receive_snapshot refines_emit]) (use assms(1) that in auto)
  have "refines E R (run_figure2 (Raft_hard_state_persisted request_id state))" using assms(2) by (rule refines_figure2)
  then show ?thesis
    unfolding hard_state_persisted_def
    by (rule refines_then)
      (auto intro!: refines_option refines_result refines_if join split: prod.splits)
qed

lemma refines_deadline_heartbeat:
  assumes "calm E"
  shows "refines E R (election_deadline timer)" "refines E R (heartbeat_deadline timer)"
proof -
  have "refines E R (\<lambda>c. run_figure2 Election_timeout (c\<lparr>co_election_timer := None, co_election_timeout := None\<rparr>))"
    by (rule refines_update[where f = "\<lambda>c. c\<lparr>co_election_timer := None, co_election_timeout := None\<rparr>", OF _ refines_figure2])
      (use assms in \<open>simp_all add: calm_def\<close>)
  then show "refines E R (election_deadline timer)"
    unfolding election_deadline_def by (intro refines_if refines_result) simp_all
  have next_h: "refines E (R \<union> vote_effects (cr_effects r)) (io_then next_heartbeat (\<lambda>h. io_return (emit h r)))" for r
  proof (rule refines_quiet_frame)
    fix c x c'
    assume run: "io_then next_heartbeat (\<lambda>h. io_return (emit h r)) c = (x, c')"
    obtain y c1 where h: "next_heartbeat c = (y, c1)" by (cases "next_heartbeat c")
    show "protocol_part c' = protocol_part c \<and> vote_effects (effects_of x) \<subseteq> R \<union> vote_effects (cr_effects r)"
      using run h next_heartbeat_frame(1,5)[OF h] by (cases y) (auto simp: io_then_def)
  qed
  have "refines E R (\<lambda>c. io_then (run_figure2 Heartbeat_timeout) (\<lambda>r. io_then next_heartbeat (\<lambda>h. io_return (emit h r)))
      (c\<lparr>co_heartbeat_timer := None\<rparr>))"
    by (rule refines_update[where f = "\<lambda>c. c\<lparr>co_heartbeat_timer := None\<rparr>", OF _ refines_then[OF refines_figure2 next_h]])
      (use assms in \<open>simp_all add: calm_def\<close>)
  then show "refines E R (heartbeat_deadline timer)"
    unfolding heartbeat_deadline_def by (intro refines_if refines_result) simp_all
qed

text \<open>The events an input may give to the specification.\<close>

fun allowed :: "core_input \<Rightarrow> f2_event \<Rightarrow> bool" where
  "allowed input (Receive_request_vote sender q) \<longleftrightarrow> input = Request_vote_received sender q"
| "allowed input (Receive_request_vote_response sender q) \<longleftrightarrow> input = Request_vote_response_received sender q"
| "allowed input (Raft_hard_state_persisted request_id state) \<longleftrightarrow> input = Hard_state_persisted request_id state"
| "allowed input e \<longleftrightarrow> True"

lemma allowed_calm: "calm (allowed input)"
  by (simp add: calm_def)

lemma refines_unblocked: "refines (allowed input) R (step_unblocked input)"
proof (cases input)
  case (Append_entries_received sender q)
  then show ?thesis by (auto intro!: refines_lift refines_figure2)
next
  case (Append_entries_response_received sender q)
  then show ?thesis by (auto intro!: refines_then[OF refines_figure2 refines_acknowledge])
qed (auto intro!: refines_hard_state_persisted refines_begin_snapshot refines_receive_snapshot refines_snapshot_response
    refines_begin_read refines_end_read refines_deadline_heartbeat refines_figure2 refines_emit allowed_calm
    simp: cancel_read_def timeout_read_def)

lemma refines_core_step: "refines (allowed input) R (core_step input)"
proof -
  have gate: "refines (allowed input) R (step_log_gate input)"
  proof (cases input)
    case (Log_entry_applied a b)
    then show ?thesis using refines_entry_applied by (simp add: step_log_gate_def[abs_def])
  next
    case (Log_entry_apply_failed a b)
    then show ?thesis using refines_apply_failed by (simp add: step_log_gate_def[abs_def])
  next
    case Retry_application
    then show ?thesis using refines_retry by (simp add: step_log_gate_def[abs_def])
  next
    case (Log_persisted a b)
    then show ?thesis using refines_log_persisted by (simp add: step_log_gate_def[abs_def])
  qed (simp_all add: step_log_gate_def[abs_def], (intro refines_if refines_result; use refines_unblocked[of input] in simp)+)
  have snap: "refines (allowed input) R (io_then (install_persisted_snapshot a b (effects_only [])) finish_completion)"
    "refines (allowed input) R (io_then (complete_snapshot_restore a i (effects_only [])) finish_completion)" for a b i
    by (rule refines_then[OF refines_install_persisted refines_finish], simp,
        rule refines_then[OF refines_complete_restore refines_finish], simp)
  show ?thesis
  proof (cases "\<exists>a b i. input = Snapshot_persisted a b \<or> input = Snapshot_restored a i")
    case True
    then show ?thesis using snap by (auto simp: core_step_def[abs_def] intro!: refines_if refines_result)
  next
    case False
    then have "core_step input = (\<lambda>c. if \<not> co_started c then (Inl (Logic_Error ''Raft election core has not started''), c)
      else if co_pending_snapshot c \<noteq> None \<or> co_pending_restore c \<noteq> None
        then (Inl (Logic_Error ''Raft core input is blocked on snapshot persistence/restore''), c) else step_log_gate input c)"
      by (intro ext, cases input) (auto simp: core_step_def)
    then show ?thesis using gate by (auto intro!: refines_if refines_result)
  qed
qed

text \<open>One step of the core, from the state and the messages held back before it.\<close>

lemma core_step_tracks:
  assumes "core_step input c = (x, c')"
  shows "tracks (allowed input) (co_state c) (deferred_votes c) (vote_effects (effects_of x)) c'"
proof -
  have "tracks (allowed input) (co_state c) (deferred_votes c) {} c" by (auto simp: tracks_def intro: path_start)
  from refinesD[OF refines_core_step _ this assms] show ?thesis by simp
qed

section \<open>Clusters of cores\<close>

record core_cluster =
  cc_core :: "node_id \<Rightarrow> core"
  cc_durable :: "node_id \<Rightarrow> raft_hard_state"
  cc_sent :: "(node_id \<times> core_effect) set"
  cc_leaders :: "(node_id \<times> raft_term) set"

text \<open>
  An input may reach a core if it is a vote message that was released to it, the completion of
  a hard-state write that is on its disk, or anything else.
\<close>

fun may_deliver :: "core_cluster \<Rightarrow> node_id \<Rightarrow> core_input \<Rightarrow> bool" where
  "may_deliver k n (Request_vote_received sender q) \<longleftrightarrow> (sender, Send_vote_request n q) \<in> cc_sent k"
| "may_deliver k n (Request_vote_response_received sender q) \<longleftrightarrow> (sender, Send_vote_response n q) \<in> cc_sent k"
| "may_deliver k n (Hard_state_persisted request_id state) \<longleftrightarrow> cc_durable k n = state"
| "may_deliver k n input \<longleftrightarrow> True"

text \<open>A core that the constructor makes from a hard state on disk, with any log, snapshot and settings.\<close>

definition booted :: "node_id \<Rightarrow> node_id list \<Rightarrow> raft_hard_state \<Rightarrow> core \<Rightarrow> bool" where
  "booted n peers recovered c \<longleftrightarrow> (\<exists>seed timeouts log interval applied reads history snapshot bytes members c0 x.
     new_core n peers recovered seed timeouts log interval applied reads history snapshot bytes members = Inr c0
     \<and> start_core c0 = (x, c))"

inductive core_cluster_step :: "node_id set \<Rightarrow> core_cluster \<Rightarrow> core_cluster \<Rightarrow> bool" for members :: "node_id set" where
  core_input: "n \<in> members \<Longrightarrow> may_deliver k n input \<Longrightarrow> core_step input (cc_core k n) = (x, c') \<Longrightarrow>
     core_cluster_step members k (k\<lparr>cc_core := (cc_core k)(n := c'), cc_sent := cc_sent k \<union> Pair n ` set (effects_of x),
       cc_leaders := cc_leaders k \<union> leaders_now n (co_state c')\<rparr>)"
| core_write: "n \<in> members \<Longrightarrow> f2_pending (co_state (cc_core k n)) = Some p \<Longrightarrow>
     core_cluster_step members k (k\<lparr>cc_durable := (cc_durable k)(n := ph_state (pd_request p))\<rparr>)"
| core_restart: "n \<in> members \<Longrightarrow> booted n (f2_peers (co_state (cc_core k n))) (cc_durable k n) c \<Longrightarrow>
     core_cluster_step members k (k\<lparr>cc_core := (cc_core k)(n := c)\<rparr>)"

definition core_cluster_init :: "node_id set \<Rightarrow> core_cluster \<Rightarrow> bool" where
  "core_cluster_init members k \<longleftrightarrow> finite members \<and> cc_sent k = {} \<and> cc_leaders k = {}
     \<and> (\<forall>n \<in> members. \<exists>peers. distinct peers \<and> set peers = members - {n} \<and> booted n peers (cc_durable k n) (cc_core k n))"

inductive core_cluster_reachable :: "node_id set \<Rightarrow> core_cluster \<Rightarrow> bool" for members :: "node_id set" where
  core_init: "core_cluster_init members k \<Longrightarrow> core_cluster_reachable members k"
| core_next: "core_cluster_reachable members k \<Longrightarrow> core_cluster_step members k k' \<Longrightarrow> core_cluster_reachable members k'"

lemma recover_snapshot_state:
  assumes "recover_snapshot b m a snapshot s = Inr s'"
  shows "f2_node s' = f2_node s \<and> f2_peers s' = f2_peers s \<and> hard_state s' = hard_state s \<and> f2_role s' = f2_role s
    \<and> f2_votes_received s' = f2_votes_received s \<and> f2_leader s' = f2_leader s \<and> f2_pending s' = f2_pending s"
  using assms by (auto simp: recover_snapshot_def Let_def result_simps hard_state_def split: option.splits)

lemma no_violation: "(case vs of [] \<Rightarrow> Inr () | v # _ \<Rightarrow> Inl (f v)) = Inr u \<longleftrightarrow> vs = []"
  by (cases vs) simp_all

lemma new_core_Inr:
  assumes "new_core n peers recovered seed timeouts log interval applied reads history snapshot bytes members = Inr c"
  shows "restarted n peers recovered (co_state c)" "co_pending_log c = None" "timeouts_ok c" "validate (co_state c) = []"
    "co_durable_snapshot c = snapshot"
proof -
  let ?s = "\<lparr>f2_node = n, f2_peers = peers, f2_role = Follower,
     f2_persistent = \<lparr>ps_current_term = hs_current_term recovered, ps_voted_for = hs_voted_for recovered,
       ps_snapshot = None, ps_log = log\<rparr>,
     f2_volatile = \<lparr>vs_commit_index = applied, vs_last_applied = applied\<rparr>, f2_known_leader = None,
     f2_votes_received = oset_empty, f2_leader = None, f2_next_request_id = 1, f2_pending = None\<rparr>"
  have recover: "recover_snapshot bytes members applied snapshot ?s = Inr (co_state c)"
    and "co_pending_log c = None" "timeouts_ok c" "validate (co_state c) = []" "co_durable_snapshot c = snapshot"
    using assms unfolding new_core_def Let_def
    by (auto simp: result_simps timeouts_ok_def not_less no_violation)
  then show "co_pending_log c = None" "timeouts_ok c" "validate (co_state c) = []" "co_durable_snapshot c = snapshot" by simp_all
  show "restarted n peers recovered (co_state c)"
    using recover_snapshot_state[OF recover] by (simp add: restarted_def hard_state_def)
qed

lemma start_core_frame: "start_core c = (x, c') \<Longrightarrow> protocol_part c' = protocol_part c"
  using next_deadline_frame(1)[of "c\<lparr>co_started := True\<rparr>"]
  by (fastforce simp: start_core_def io_then_def protocol_part_def split: if_splits prod.splits sum.splits)

lemma booted_state: "booted n peers d c \<Longrightarrow> restarted n peers d (co_state c) \<and> co_pending_log c = None"
  using new_core_Inr(1,2) start_core_frame by (fastforce simp: booted_def protocol_part_def)

section \<open>Simulation\<close>

definition votes_sent :: "core_cluster \<Rightarrow> node_id \<Rightarrow> f2_effect set" where
  "votes_sent k n = {f. \<exists>e. (n, e) \<in> cc_sent k \<and> vote_effect e = Some f}"

lemma votes_sent_updates [simp]:
  "votes_sent (k\<lparr>cc_durable := d\<rparr>) = votes_sent k" "votes_sent (k\<lparr>cc_core := f\<rparr>) = votes_sent k"
  by (simp_all add: votes_sent_def fun_eq_iff)

definition simulates :: "node_id set \<Rightarrow> cluster \<Rightarrow> core_cluster \<Rightarrow> bool" where
  "simulates members a k \<longleftrightarrow> cluster_reachable members a
     \<and> (\<forall>n \<in> members. cl_node a n = co_state (cc_core k n) \<and> cl_durable a n = cc_durable k n
          \<and> votes_sent k n \<union> deferred_votes (cc_core k n) \<subseteq> {f. (n, f) \<in> cl_sent a})
     \<and> (\<forall>n e. (n, e) \<in> cc_sent k \<longrightarrow> n \<in> members) \<and> cc_leaders k \<subseteq> cl_leaders a"

lemma path_simulates:
  assumes "f2_path E s es t" "cluster_reachable members a" "n \<in> members" "cl_node a n = s"
    and "\<And>e. E e \<Longrightarrow> may_receive a n e \<and> durable_next e (cl_durable a n) = cl_durable a n"
  shows "\<exists>a'. cluster_reachable members a' \<and> cl_node a' = (cl_node a)(n := t) \<and> cl_durable a' = cl_durable a
    \<and> cl_sent a \<subseteq> cl_sent a' \<and> Pair n ` es \<subseteq> cl_sent a' \<and> cl_leaders a \<subseteq> cl_leaders a'"
  using assms(1)
proof (induction rule: f2_path.induct)
  case path_start
  then show ?case using assms(2,4) by (intro exI[of _ a]) auto
next
  case (path_step es t e r)
  then obtain a' where a': "cluster_reachable members a'" "cl_node a' = (cl_node a)(n := t)" "cl_durable a' = cl_durable a"
    "cl_sent a \<subseteq> cl_sent a'" "Pair n ` es \<subseteq> cl_sent a'" "cl_leaders a \<subseteq> cl_leaders a'" by blast
  have mono: "may_receive a' n e" using assms(5)[OF path_step.hyps(2)] a'(4) by (cases e) auto
  have same: "durable_next e (cl_durable a' n) = cl_durable a' n" using assms(5)[OF path_step.hyps(2)] a'(3) by simp
  have "f2_step (cl_node a' n) e = Inr r" using path_step.hyps(3) a'(2) by simp
  from cluster_reachable.step[OF a'(1) server_step[OF assms(3) mono this]] show ?case
    using a' same by - (rule exI, intro conjI, assumption, auto simp: fun_upd_idem)
next
  case (path_local es t u)
  then obtain a' where a': "cluster_reachable members a'" "cl_node a' = (cl_node a)(n := t)" "cl_durable a' = cl_durable a"
    "cl_sent a \<subseteq> cl_sent a'" "Pair n ` es \<subseteq> cl_sent a'" "cl_leaders a \<subseteq> cl_leaders a'" by blast
  have "local_move (cl_node a' n) u" using path_local.hyps(2) a'(2) by simp
  from cluster_reachable.step[OF a'(1) local_step[OF assms(3) this]] show ?case
    using a' by - (rule exI, intro conjI, assumption, auto)
qed

lemma allowed_received:
  assumes "simulates members a k" "n \<in> members" "may_deliver k n input" "allowed input e"
  shows "may_receive a n e \<and> durable_next e (cl_durable a n) = cl_durable a n"
proof -
  have sent: "(m, f) \<in> cl_sent a" if "(m, g) \<in> cc_sent k" "vote_effect g = Some f" for m f g
    using assms(1) that by (auto simp: simulates_def votes_sent_def)
  show ?thesis
    using assms sent by (cases e) (auto simp: simulates_def)
qed

lemma core_input_simulates:
  assumes sim: "simulates members a k" and n: "n \<in> members" and deliver: "may_deliver k n input"
    and run: "core_step input (cc_core k n) = (x, c')"
  shows "\<exists>a'. simulates members a' (k\<lparr>cc_core := (cc_core k)(n := c'), cc_sent := cc_sent k \<union> Pair n ` set (effects_of x),
       cc_leaders := cc_leaders k \<union> leaders_now n (co_state c')\<rparr>)"
proof -
  let ?c = "cc_core k n"
  obtain es where path: "f2_path (allowed input) (co_state ?c) es (co_state c')"
    and votes: "vote_effects (effects_of x) \<union> deferred_votes c' \<subseteq> es \<union> deferred_votes ?c"
    using core_step_tracks[OF run] by (auto simp: tracks_def)
  have reach: "cluster_reachable members a" and node: "cl_node a n = co_state ?c" using sim n by (simp_all add: simulates_def)
  obtain a' where a': "cluster_reachable members a'" "cl_node a' = (cl_node a)(n := co_state c')" "cl_durable a' = cl_durable a"
    "cl_sent a \<subseteq> cl_sent a'" "Pair n ` es \<subseteq> cl_sent a'" "cl_leaders a \<subseteq> cl_leaders a'"
    using path_simulates[OF path reach n node allowed_received[OF sim n deliver]] by blast
  have lead: "leaders_now n (co_state c') \<subseteq> cl_leaders a'"
    using cluster_reachable_inv[OF a'(1)] n a'(2) by (auto simp: cluster_inv_def leaders_now_def)
  have old: "votes_sent k m \<union> deferred_votes (cc_core k m) \<subseteq> {f. (m, f) \<in> cl_sent a'}" if "m \<in> members" for m
    using sim that a'(4) by (auto simp: simulates_def)
  let ?k = "k\<lparr>cc_core := (cc_core k)(n := c'), cc_sent := cc_sent k \<union> Pair n ` set (effects_of x),
       cc_leaders := cc_leaders k \<union> leaders_now n (co_state c')\<rparr>"
  have "votes_sent ?k m \<union> deferred_votes (cc_core ?k m) \<subseteq> {f. (m, f) \<in> cl_sent a'}" if "m \<in> members" for m
  proof (cases "m = n")
    case True
    have "votes_sent ?k n \<subseteq> votes_sent k n \<union> vote_effects (effects_of x)" by (auto simp: votes_sent_def vote_effects_def)
    moreover have "es \<subseteq> {f. (n, f) \<in> cl_sent a'}" using a'(5) by auto
    ultimately have "votes_sent ?k n \<union> deferred_votes c' \<subseteq> {f. (n, f) \<in> cl_sent a'}" using old[OF n] votes by blast
    then show ?thesis using True by simp
  next
    case False
    then have "votes_sent ?k m = votes_sent k m" by (auto simp: votes_sent_def)
    then show ?thesis using False old[OF that] by simp
  qed
  then have "simulates members a' ?k" using sim a' lead n by (auto simp: simulates_def)
  then show ?thesis by blast
qed

lemma core_cluster_simulated: "core_cluster_reachable members k \<Longrightarrow> \<exists>a. simulates members a k"
proof (induction rule: core_cluster_reachable.induct)
  case (core_init k)
  let ?a = "\<lparr>cl_node = \<lambda>n. co_state (cc_core k n), cl_durable = cc_durable k, cl_sent = {}, cl_leaders = {}\<rparr>"
  have state: "\<exists>peers. distinct peers \<and> set peers = members - {n} \<and> restarted n peers (cc_durable k n) (co_state (cc_core k n))"
    and held: "co_pending_log (cc_core k n) = None" if "n \<in> members" for n
    using core_init booted_state that unfolding core_cluster_init_def by metis+
  have "cluster_init members ?a"
    using core_init state by (fastforce simp: cluster_init_def core_cluster_init_def restarted_def)
  then have "simulates members ?a k"
    using core_init held by (auto simp: simulates_def core_cluster_init_def votes_sent_def deferred_votes_def intro: cluster_reachable.init)
  then show ?case by blast
next
  case (core_next k k')
  then obtain a where sim: "simulates members a k" by blast
  from core_next.hyps(2) show ?case
  proof cases
    case (core_input n input x c')
    then show ?thesis using core_input_simulates[OF sim] by blast
  next
    case (core_write n p)
    have "f2_pending (cl_node a n) = Some p" "cluster_reachable members a" using sim core_write by (simp_all add: simulates_def)
    from cluster_reachable.step[OF this(2) disk_write[OF core_write(2) this(1)]] show ?thesis
      using sim core_write(1)
      by - (rule exI[of _ "a\<lparr>cl_durable := (cl_durable a)(n := ph_state (pd_request p))\<rparr>"], simp add: simulates_def)
  next
    case (core_restart n c)
    have "restarted n (f2_peers (cl_node a n)) (cl_durable a n) (co_state c)" "cluster_reachable members a"
      using sim core_restart booted_state by (auto simp: simulates_def)
    from cluster_reachable.step[OF this(2) crash[OF core_restart(2) this(1)]] show ?thesis
      using sim core_restart booted_state[OF core_restart(3)]
      by - (rule exI[of _ "a\<lparr>cl_node := (cl_node a)(n := co_state c)\<rparr>"], simp add: simulates_def deferred_votes_def)
  qed
qed

text \<open>
  C1.  Election safety of the implementation: in every reachable state of a cluster of election
  cores, with any inputs except forged votes, messages lost, repeated and reordered, hard states
  that reach the disk at any time after they were requested, exceptions, and crashes after which
  a core is constructed again from what is on its disk, two cores that were ever leader in the
  same term are the same core.
\<close>

theorem core_election_safety:
  assumes "core_cluster_reachable members k" "(n, t) \<in> cc_leaders k" "(m, t) \<in> cc_leaders k"
  shows "n = m"
proof -
  obtain a where "simulates members a k" using core_cluster_simulated[OF assms(1)] by blast
  then have "cluster_inv members a" "(n, t) \<in> cl_leaders a" "(m, t) \<in> cl_leaders a"
    using assms(2,3) cluster_reachable_inv by (auto simp: simulates_def)
  then show ?thesis by (rule cluster_inv_one_leader)
qed

end
