(* ===== verification/Figure2_Log.thy ===== *)
theory Figure2_Log
  imports Figure2_Election
begin

text \<open>
  The log of the Figure 2 specification: no step changes an entry up to the commit index or
  moves the commit index back, a step that changes the log asks for it to be made durable
  before it answers, and the entries of a valid state stand at the positions their indexes say.
\<close>

section \<open>Steps that leave the log alone\<close>

definition same_log :: "f2_state \<Rightarrow> f2_state \<Rightarrow> bool" where
  "same_log s s' \<longleftrightarrow> f2_node s' = f2_node s \<and> f2_peers s' = f2_peers s \<and> f2_log s' = f2_log s
     \<and> ps_snapshot (f2_persistent s') = ps_snapshot (f2_persistent s) \<and> f2_volatile s' = f2_volatile s
     \<and> f2_pending s' = f2_pending s"

lemma same_log_refl [simp]: "same_log s s"
  by (simp add: same_log_def)

lemma same_log_trans: "same_log s s' \<Longrightarrow> same_log s' s'' \<Longrightarrow> same_log s s''"
  by (simp add: same_log_def)

lemma same_log_base: "same_log s s' \<Longrightarrow> log_base (f2_persistent s') = log_base (f2_persistent s)"
  by (simp add: same_log_def log_base_def)

lemma persist_same_log: "persist_hard_state r = Inr r' \<Longrightarrow> same_log (sr_state r) (sr_state r')"
  by (simp add: persist_hard_state_Inr same_log_def)

lemma observe_same_log: "observe_higher_term t r = Inr r' \<Longrightarrow> same_log (sr_state r) (sr_state r')"
  by (auto simp: observe_higher_term_def same_log_def follower_in_term_def dest!: persist_hard_state_Inr(1) split: if_splits)

lemma initialize_same_log:
  assumes "initialize_leader r = Inr r'"
  shows "same_log (sr_state r) (sr_state r')"
  using assms send_appends_Inr[where r' = r'] by (auto simp: initialize_leader_def Let_def same_log_def split: if_splits)

lemma fold_push_state: "sr_state (fold (\<lambda>x. push_effect (f x)) xs r) = sr_state r"
  by (induction xs arbitrary: r) simp_all

lemma start_election_same_log:
  assumes "start_election r = Inr r'"
  shows "same_log (sr_state r) (sr_state r')"
proof -
  obtain r1 where r1: "persist_hard_state (push_rule Candidate_start_election (set_state (candidate_state (sr_state r)) r)) = Inr r1"
    using assms by (auto simp: start_election_def result_simps split: if_splits)
  let ?r2 = "fold (\<lambda>peer. push_effect (Send_request_vote peer (vote_request (sr_state r1)))) (f2_peers (sr_state r1)) (push_effect Reset_election_timer r1)"
  have "same_log (sr_state r) (sr_state r1)"
    using persist_same_log[OF r1] by (simp add: same_log_def candidate_state_def)
  moreover have "sr_state ?r2 = sr_state r1" by (simp add: fold_push_state)
  moreover have "r' = ?r2 \<or> initialize_leader ?r2 = Inr r'"
    using assms r1 by (auto simp: start_election_def Let_def split: if_splits)
  ultimately consider "sr_state r' = sr_state r1" | "same_log (sr_state r1) (sr_state r')" using initialize_same_log by fastforce
  then show ?thesis using \<open>same_log (sr_state r) (sr_state r1)\<close> same_log_trans by cases auto
qed

lemma request_vote_same_log:
  assumes "handle_request_vote sender request r = Inr r'"
  shows "same_log (sr_state r) (sr_state r')"
  using assms
proof (cases rule: handle_request_vote_cases)
  case (1 r1)
  then show ?thesis using observe_same_log[OF 1(1)] by (auto simp: vote_reply_def)
next
  case (2 r1 r2)
  have "same_log (sr_state r1) (sr_state r2)" using persist_same_log[OF 2(3)] by (simp add: same_log_def)
  then show ?thesis using observe_same_log[OF 2(1)] same_log_trans 2(4) by (auto simp: vote_reply_def)
next
  case (3 r1)
  then show ?thesis using observe_same_log[OF 3(1)] by (simp add: vote_reply_def)
qed

lemma vote_response_same_log:
  assumes "handle_request_vote_response sender response r = Inr r'"
  shows "same_log (sr_state r) (sr_state r')"
proof -
  obtain r1 where r1: "observe_higher_term (rvr_term response) r = Inr r1"
    using assms by (auto simp: handle_request_vote_response_def result_simps)
  let ?s = "(sr_state r1)\<lparr>f2_votes_received := oset_insert sender (f2_votes_received (sr_state r1))\<rparr>"
  have "r' = r1 \<or> initialize_leader (set_state ?s r1) = Inr r' \<or> r' = set_state ?s r1"
    using assms r1 by (auto simp: handle_request_vote_response_def result_simps Let_def split: if_splits)
  then have "same_log (sr_state r1) (sr_state r')"
    using initialize_same_log[of "set_state ?s r1" r'] by (auto simp: same_log_def)
  then show ?thesis using observe_same_log[OF r1] same_log_trans by blast
qed

lemma timeout_same_log:
  assumes "handle_timeout r = Inr r'"
  shows "same_log (sr_state r) (sr_state r')"
proof (cases "f2_role (sr_state r)")
  case Leader
  then have "fold_result (send_append None) (f2_peers (sr_state r)) (push_rule Leader_heartbeat r) = Inr r'"
    using assms by (simp add: handle_timeout_def)
  from send_appends_Inr[OF this] show ?thesis by simp
next
  case Follower
  then show ?thesis using assms start_election_same_log[of "push_rule Follower_election_timeout r" r'] by (simp add: handle_timeout_def)
next
  case Candidate
  then show ?thesis using assms start_election_same_log[of "push_rule Candidate_restart_election r" r'] by (simp add: handle_timeout_def)
qed (use assms in \<open>simp add: handle_timeout_def\<close>)

section \<open>Committed entries\<close>

text \<open>The number of log entries up to the commit index.\<close>

definition committed_length :: "f2_state \<Rightarrow> nat" where
  "committed_length s = unat (f2_commit s) - unat (log_base (f2_persistent s))"

definition log_kept :: "f2_state \<Rightarrow> f2_state \<Rightarrow> bool" where
  "log_kept s s' \<longleftrightarrow> f2_node s' = f2_node s \<and> f2_peers s' = f2_peers s
     \<and> ps_snapshot (f2_persistent s') = ps_snapshot (f2_persistent s)
     \<and> f2_commit s \<le> f2_commit s' \<and> f2_applied s' = f2_applied s
     \<and> take (committed_length s) (f2_log s') = take (committed_length s) (f2_log s)"

definition log_stable :: "f2_state \<Rightarrow> f2_state \<Rightarrow> bool" where
  "log_stable s s' \<longleftrightarrow> log_kept s s' \<and> f2_pending s' = f2_pending s"

lemmas log_stable_defs = log_stable_def log_kept_def

lemma same_log_stable: "same_log s s' \<Longrightarrow> log_stable s s'"
  by (simp add: same_log_def log_stable_defs)

lemma log_stable_refl [simp]: "log_stable s s"
  by (simp add: log_stable_defs)

lemma log_stable_base: "log_stable s s' \<Longrightarrow> log_base (f2_persistent s') = log_base (f2_persistent s)"
  by (simp add: log_stable_defs log_base_def)

lemma log_stable_length: "log_stable s s' \<Longrightarrow> committed_length s \<le> committed_length s'"
  using log_stable_base[of s s'] by (simp add: committed_length_def log_stable_defs word_le_nat_alt diff_le_mono)

lemma log_stable_trans:
  assumes "log_stable s s'" "log_stable s' s''"
  shows "log_stable s s''"
proof -
  have "take (committed_length s') (f2_log s'') = take (committed_length s') (f2_log s')" using assms(2) by (simp add: log_stable_defs)
  then have "take (committed_length s) (take (committed_length s') (f2_log s''))
    = take (committed_length s) (take (committed_length s') (f2_log s'))" by simp
  then have "take (committed_length s) (f2_log s'') = take (committed_length s) (f2_log s')"
    using log_stable_length[OF assms(1)] by (simp add: min_absorb1)
  moreover have "f2_commit s \<le> f2_commit s''" using assms unfolding log_stable_defs by (blast intro: order_trans)
  ultimately show ?thesis using assms by (simp add: log_stable_defs)
qed

text \<open>The position of an index after the commit index is behind the committed entries.\<close>

lemma uncommitted_position:
  fixes base commit index :: u64
  assumes "base \<le> commit" "commit < index"
  shows "unat commit - unat base \<le> unat (index - base - 1)"
proof -
  have "unat (index - base) = unat index - unat base" using assms by (intro unat_sub) simp
  moreover have "base < index" using assms by simp
  then have "1 \<le> index - base" by (simp add: word_le_nat_alt calculation word_less_nat_alt)
  then have "unat (index - base - 1) = unat (index - base) - 1" by (simp add: unat_sub)
  ultimately show ?thesis using assms by (simp add: word_less_nat_alt word_le_nat_alt)
qed

lemma reconcile_stable:
  assumes "reconcile s es = Inr (Some (s', rest, erased))" "log_base (f2_persistent s) \<le> f2_commit s"
  shows "log_stable s s' \<and> (\<not> erased \<longrightarrow> s' = s) \<and> f2_commit s' = f2_commit s"
  using assms
proof (induction s es rule: reconcile.induct)
  case (2 s e es)
  show ?case
  proof (cases "le_index e > last_index s")
    case True
    then show ?thesis using 2(2) by simp
  next
    case False
    then obtain lt where lt: "term_at s (le_index e) = Inr lt" using 2(2) by (auto simp: result_simps split: if_splits)
    show ?thesis
    proof (cases "lt \<noteq> le_term e")
      case True
      then have c: "f2_commit s < le_index e"
        and s': "s' = set_log (take (unat (le_index e - log_base (f2_persistent s) - 1)) (f2_log s)) s" "erased"
        using 2(2) False lt by (auto split: if_splits)
      have "committed_length s \<le> unat (le_index e - log_base (f2_persistent s) - 1)"
        unfolding committed_length_def by (rule uncommitted_position[OF 2(3) c])
      then show ?thesis using s' by (simp add: log_stable_defs set_log_def min_absorb1)
    next
      case same: False
      then show ?thesis using 2 False lt by simp
    qed
  qed
qed simp

lemma stable_append:
  assumes "log_stable s s'" "committed_length s \<le> length (f2_log s')"
  shows "log_stable s (set_log (f2_log s' @ es) s')"
  using assms by (simp add: log_stable_defs set_log_def)

text \<open>What validation says of the log.\<close>

lemma log_violations_index:
  "log_violations current expected es = [] \<Longrightarrow> i < length es \<Longrightarrow> le_index (es ! i) = expected + of_nat i"
proof (induction es arbitrary: expected i)
  case (Cons e es)
  then show ?case by (cases i) (auto split: if_splits simp: algebra_simps)
qed simp

lemma log_violations_term:
  "log_violations current expected es = [] \<Longrightarrow> e \<in> set es \<Longrightarrow> le_term e \<le> current"
  by (induction current expected es rule: log_violations.induct) (auto split: if_splits)

lemma violation_if_Nil: "violation_if b m = [] \<longleftrightarrow> \<not> b"
  by (simp add: violation_if_def)

definition log_facts :: "f2_state \<Rightarrow> bool" where
  "log_facts s \<longleftrightarrow> log_base (f2_persistent s) \<le> f2_applied s \<and> f2_applied s \<le> f2_commit s \<and> f2_commit s \<le> last_index s
     \<and> (\<forall>i < length (f2_log s). le_index (f2_log s ! i) = log_base (f2_persistent s) + 1 + of_nat i)"

lemma validate_log_facts: "validate s = [] \<Longrightarrow> log_facts s"
  by (auto simp: validate_def Let_def violation_if_Nil log_facts_def not_less dest: log_violations_index)

lemma log_facts_last_index: "log_facts s \<Longrightarrow> last_index s = log_base (f2_persistent s) + of_nat (length (f2_log s))"
proof (cases "f2_log s" rule: rev_cases)
  case (snoc es e)
  assume facts: "log_facts s"
  have "le_index (f2_log s ! length es) = log_base (f2_persistent s) + 1 + of_nat (length es)"
    using facts snoc unfolding log_facts_def by (metis length_append_singleton lessI)
  then show ?thesis using snoc by (simp add: last_index_def algebra_simps)
qed (simp add: last_index_def)

lemma committed_within:
  assumes "log_facts s"
  shows "committed_length s \<le> length (f2_log s)"
proof -
  have "unat (last_index s) \<le> unat (log_base (f2_persistent s)) + length (f2_log s)"
    unfolding log_facts_last_index[OF assms] by (simp add: unat_word_ariths unat_of_nat mod_less_eq_dividend order_trans[OF mod_less_eq_dividend])
  moreover have "unat (f2_commit s) \<le> unat (last_index s)" using assms by (simp add: log_facts_def word_le_nat_alt)
  ultimately show ?thesis by (simp add: committed_length_def)
qed

text \<open>The entry at a committed index that the snapshot does not cover.\<close>

lemma committed_entry:
  assumes "log_facts s" "log_base (f2_persistent s) < index" "index \<le> f2_commit s"
  shows "unat (index - log_base (f2_persistent s) - 1) < committed_length s"
    and "le_index (f2_log s ! unat (index - log_base (f2_persistent s) - 1)) = index"
proof -
  let ?base = "log_base (f2_persistent s)"
  have diff: "unat (index - ?base) = unat index - unat ?base" using assms(2) by (intro unat_sub) simp
  then have "1 \<le> index - ?base" using assms(2) by (simp add: word_le_nat_alt word_less_nat_alt)
  then have pos: "unat (index - ?base - 1) = unat index - unat ?base - 1" using diff by (simp add: unat_sub)
  then show lt: "unat (index - ?base - 1) < committed_length s"
    using assms(2,3) by (simp add: committed_length_def word_less_nat_alt word_le_nat_alt)
  then have "unat (index - ?base - 1) < length (f2_log s)" using committed_within[OF assms(1)] by simp
  then have "le_index (f2_log s ! unat (index - ?base - 1)) = ?base + 1 + of_nat (unat (index - ?base - 1))"
    using assms(1) by (simp add: log_facts_def)
  then show "le_index (f2_log s ! unat (index - ?base - 1)) = index" by simp
qed

lemma same_log_facts: "same_log s s' \<Longrightarrow> log_facts s' = log_facts s"
  using same_log_base[of s s'] by (auto simp: log_facts_def same_log_def last_index_def)

section \<open>Effects\<close>

fun is_message :: "f2_effect \<Rightarrow> bool" where
  "is_message (Send_request_vote to q) = True"
| "is_message (Send_request_vote_response to q) = True"
| "is_message (Send_append_entries to q) = True"
| "is_message (Send_append_entries_response to q) = True"
| "is_message _ = False"

text \<open>No request to persist the log, or one, with all messages after it.\<close>

definition log_before_messages :: "f2_effect list \<Rightarrow> bool" where
  "log_before_messages es \<longleftrightarrow> Persist_log \<notin> set es
     \<or> (\<exists>pre post. es = pre @ Persist_log # post \<and> Persist_log \<notin> set pre \<union> set post \<and> (\<forall>e \<in> set pre. \<not> is_message e))"

abbreviation no_log :: "step_result \<Rightarrow> bool" where
  "no_log r \<equiv> Persist_log \<notin> set (sr_effects r)"

lemma persist_effects:
  assumes "persist_hard_state r = Inr r'"
  shows "\<exists>q. sr_effects r' = sr_effects r @ [Persist_raft_hard_state q]"
  using persist_hard_state_Inr(2)[OF assms] by blast

lemma observe_effects:
  assumes "observe_higher_term t r = Inr r'"
  shows "\<exists>es. sr_effects r' = sr_effects r @ es \<and> (\<forall>e \<in> set es. \<exists>q. e = Persist_raft_hard_state q)"
  using assms persist_effects by (fastforce simp: observe_higher_term_def split: if_splits)

lemma send_append_effects: "send_append c peer r = Inr r' \<Longrightarrow> \<exists>q. sr_effects r' = sr_effects r @ [Send_append_entries peer q]"
  by (auto simp: send_append_def result_simps)

lemma send_appends_effects:
  assumes "fold_result (send_append c) peers r = Inr r'"
  shows "\<exists>es. sr_effects r' = sr_effects r @ es \<and> (\<forall>e \<in> set es. \<exists>p q. e = Send_append_entries p q)"
  using assms
proof (induction peers arbitrary: r)
  case (Cons peer peers)
  obtain r1 where r1: "send_append c peer r = Inr r1" "fold_result (send_append c) peers r1 = Inr r'"
    using Cons.prems by (auto simp: result_simps)
  obtain q where q: "sr_effects r1 = sr_effects r @ [Send_append_entries peer q]" using send_append_effects[OF r1(1)] by blast
  obtain es where "sr_effects r' = sr_effects r1 @ es" "\<forall>e \<in> set es. \<exists>p q. e = Send_append_entries p q"
    using Cons.IH[OF r1(2)] by blast
  then show ?case using q by (intro exI[of _ "Send_append_entries peer q # es"]) auto
qed simp

lemma sends_no_log: "\<forall>e \<in> set es. \<exists>p q. e = Send_append_entries p q \<Longrightarrow> Persist_log \<notin> set es"
  by auto

lemma initialize_no_log:
  assumes "initialize_leader r = Inr r'" "no_log r"
  shows "no_log r'"
proof -
  obtain c x where "fold_result (send_append c) (f2_peers (sr_state r)) x = Inr r'" "sr_effects x = sr_effects r"
    using assms(1) by (auto simp: initialize_leader_def Let_def split: if_splits)
  then show ?thesis using send_appends_effects assms(2) sends_no_log by fastforce
qed

lemma fold_push_effects: "sr_effects (fold (\<lambda>x. push_effect (f x)) xs r) = sr_effects r @ map f xs"
  by (induction xs arbitrary: r) simp_all

lemma start_election_no_log:
  assumes "start_election r = Inr r'" "no_log r"
  shows "no_log r'"
proof -
  obtain r1 where r1: "persist_hard_state (push_rule Candidate_start_election (set_state (candidate_state (sr_state r)) r)) = Inr r1"
    using assms by (auto simp: start_election_def result_simps split: if_splits)
  let ?r2 = "fold (\<lambda>peer. push_effect (Send_request_vote peer (vote_request (sr_state r1)))) (f2_peers (sr_state r1)) (push_effect Reset_election_timer r1)"
  have "no_log ?r2" using persist_effects[OF r1] assms(2) by (auto simp: fold_push_effects)
  moreover have "r' = ?r2 \<or> initialize_leader ?r2 = Inr r'"
    using assms r1 by (auto simp: start_election_def Let_def split: if_splits)
  ultimately show ?thesis using initialize_no_log by blast
qed

lemma observe_no_log: "observe_higher_term t r = Inr r' \<Longrightarrow> no_log r \<Longrightarrow> no_log r'"
  using observe_effects by fastforce

lemma persist_no_log: "persist_hard_state r = Inr r' \<Longrightarrow> no_log r \<Longrightarrow> no_log r'"
  using persist_effects by fastforce

lemma request_vote_no_log:
  assumes "handle_request_vote sender request r = Inr r'" "no_log r"
  shows "no_log r'"
  using assms(1)
proof (cases rule: handle_request_vote_cases)
  case (1 r1)
  then show ?thesis using observe_no_log[OF 1(1) assms(2)] by (auto simp: vote_reply_def)
next
  case (2 r1 r2)
  then show ?thesis using persist_no_log[OF 2(3)] observe_no_log[OF 2(1) assms(2)] by (simp add: vote_reply_def)
next
  case (3 r1)
  then show ?thesis using observe_no_log[OF 3(1) assms(2)] by (simp add: vote_reply_def)
qed

lemma vote_response_no_log:
  assumes "handle_request_vote_response sender response r = Inr r'" "no_log r"
  shows "no_log r'"
proof -
  obtain r1 where r1: "observe_higher_term (rvr_term response) r = Inr r1"
    using assms by (auto simp: handle_request_vote_response_def result_simps)
  let ?s = "(sr_state r1)\<lparr>f2_votes_received := oset_insert sender (f2_votes_received (sr_state r1))\<rparr>"
  have "r' = r1 \<or> initialize_leader (set_state ?s r1) = Inr r' \<or> r' = set_state ?s r1"
    using assms r1 by (auto simp: handle_request_vote_response_def result_simps Let_def split: if_splits)
  then show ?thesis using initialize_no_log[of "set_state ?s r1" r'] observe_no_log[OF r1 assms(2)] by auto
qed

lemma timeout_no_log:
  assumes "handle_timeout r = Inr r'" "no_log r"
  shows "no_log r'"
proof (cases "f2_role (sr_state r)")
  case Leader
  then have "fold_result (send_append None) (f2_peers (sr_state r)) (push_rule Leader_heartbeat r) = Inr r'"
    using assms by (simp add: handle_timeout_def)
  from send_appends_effects[OF this] show ?thesis using assms(2) sends_no_log by auto
next
  case Follower
  then show ?thesis using assms start_election_no_log[of "push_rule Follower_election_timeout r" r'] by (simp add: handle_timeout_def)
next
  case Candidate
  then show ?thesis using assms start_election_no_log[of "push_rule Candidate_restart_election r" r'] by (simp add: handle_timeout_def)
qed (use assms in \<open>simp add: handle_timeout_def\<close>)

section \<open>The handlers that change the log\<close>

lemma accept_entries_cases:
  assumes "accept_entries sender request r = Inr r'"
  obtains (reject) "sr_state r' = sr_state r" "\<exists>q. sr_effects r' = sr_effects r @ [Send_append_entries_response sender q]"
  | (accept) s rest erased s1 q where "reconcile (sr_state r) (ae_entries request) = Inr (Some (s, rest, erased))"
      "s1 = (if rest \<noteq> [] then set_log (f2_log s @ rest) s else s)"
      "sr_state r' = s1 \<or> (\<exists>c. f2_commit s1 < c \<and> sr_state r' = set_commit c s1)"
      "sr_effects r' = sr_effects r @ (if erased \<or> rest \<noteq> [] then [Persist_log] else []) @ [Send_append_entries_response sender q]"
proof -
  obtain outcome where out: "reconcile (sr_state r) (ae_entries request) = Inr outcome"
    "entries_contiguous (ae_previous_log_index request + 1) (ae_entries request)"
    using assms by (auto simp: accept_entries_def Let_def result_simps)
  note run = assms[unfolded accept_entries_def Let_def out(1) and_then_Inr]
  show ?thesis
  proof (cases outcome)
    case None
    then have "r' = append_reply sender False 0 (ae_read_context request) (push_rule Append_entries_reject_log_mismatch r)"
      using run out(2) by simp
    then show ?thesis using reject by (auto simp: append_reply_def)
  next
    case (Some triple)
    obtain s rest erased where triple: "triple = (s, rest, erased)" by (cases triple)
    define s1 where "s1 = (if rest \<noteq> [] then set_log (f2_log s @ rest) s else s)"
    define r2 where "r2 = (if erased \<or> rest \<noteq> [] then push_effect Persist_log (push_rule Append_entries_accept (set_state s1 r))
      else push_rule Append_entries_accept (set_state s1 r))"
    let ?m = "ae_previous_log_index request + of_nat (length (ae_entries request))"
    let ?c = "min (ae_leader_commit request) ?m"
    define r3 where "r3 = (if ae_leader_commit request > f2_commit s1 \<and> ?c > f2_commit s1
        then push_rule Append_entries_advance_commit (set_state (set_commit ?c s1) r2) else r2)"
    have "throw_if (\<not> entries_contiguous (ae_previous_log_index request + 1) (ae_entries request))
        (Invalid_Argument ''AppendEntries entries are not contiguous'') = Inr ()"
      using out(2) by simp
    then have r': "r' = append_reply sender True ?m (ae_read_context request) r3"
      using run by (simp only: Some triple and_then_Inr option.case prod.case r3_def r2_def s1_def sum.inject)
    have "sr_state r' = s1 \<or> (\<exists>c. f2_commit s1 < c \<and> sr_state r' = set_commit c s1)"
      unfolding r' by (cases "ae_leader_commit request > f2_commit s1 \<and> ?c > f2_commit s1") (auto simp: r3_def r2_def intro!: exI[of _ ?c])
    moreover have "\<exists>q. sr_effects r' = sr_effects r @ (if erased \<or> rest \<noteq> [] then [Persist_log] else []) @ [Send_append_entries_response sender q]"
      unfolding r' by (auto simp: append_reply_def r3_def r2_def)
    ultimately show ?thesis using accept[OF out(1)[unfolded Some triple] s1_def] by blast
  qed
qed

lemma log_stable_commit: "log_stable s s' \<Longrightarrow> f2_commit s' < c \<Longrightarrow> log_stable s (set_commit c s')"
  by (auto simp: log_stable_defs set_commit_def)

lemma accept_entries_log:
  assumes run: "accept_entries sender request r = Inr r'" and facts: "log_facts (sr_state r)"
    and clean: "no_log r" "\<forall>e \<in> set (sr_effects r). \<not> is_message e"
  shows "log_stable (sr_state r) (sr_state r')" "log_before_messages (sr_effects r')"
    "no_log r' \<Longrightarrow> f2_log (sr_state r') = f2_log (sr_state r)"
proof -
  have "log_stable (sr_state r) (sr_state r') \<and> log_before_messages (sr_effects r')
    \<and> (no_log r' \<longrightarrow> f2_log (sr_state r') = f2_log (sr_state r))"
    using run
  proof (cases rule: accept_entries_cases)
    case reject
    then show ?thesis using clean by (auto simp: log_before_messages_def)
  next
    case (accept s rest erased s1 q)
    have "log_base (f2_persistent (sr_state r)) \<le> f2_commit (sr_state r)" using facts by (auto simp: log_facts_def)
    from reconcile_stable[OF accept(1) this] have s: "log_stable (sr_state r) s" "\<not> erased \<longrightarrow> s = sr_state r" by blast+
    have "committed_length (sr_state r) \<le> length (f2_log s)"
    proof -
      have "length (take (committed_length (sr_state r)) (f2_log s)) = committed_length (sr_state r)"
        using s(1) committed_within[OF facts] by (simp add: log_stable_defs)
      then show ?thesis by simp
    qed
    then have s1: "log_stable (sr_state r) s1" using stable_append[OF s(1)] s(1) accept(2) by simp
    then have "log_stable (sr_state r) (sr_state r')" using accept(3) log_stable_commit by auto
    moreover have "log_before_messages (sr_effects r')"
    proof (cases "erased \<or> rest \<noteq> []")
      case True
      then show ?thesis using accept(4) clean unfolding log_before_messages_def
        by (intro disjI2 exI[of _ "sr_effects r"] exI[of _ "[Send_append_entries_response sender q]"]) auto
    qed (use accept(4) clean in \<open>auto simp: log_before_messages_def\<close>)
    moreover have "f2_log (sr_state r') = f2_log (sr_state r)" if "no_log r'"
      using that accept(2,3,4) s(2) by (auto simp: set_commit_def split: if_splits)
    ultimately show ?thesis by blast
  qed
  then show "log_stable (sr_state r) (sr_state r')" "log_before_messages (sr_effects r')"
    "no_log r' \<Longrightarrow> f2_log (sr_state r') = f2_log (sr_state r)" by blast+
qed

lemma handle_append_entries_cases:
  assumes "handle_append_entries sender request r = Inr r'"
  obtains (stale) r1 where "observe_higher_term (ae_term request) r = Inr r1" "sr_state r' = sr_state r1"
      "\<exists>q. sr_effects r' = sr_effects r1 @ [Send_append_entries_response sender q]"
  | (follow) r1 r3 where "observe_higher_term (ae_term request) r = Inr r1"
      "sr_state r3 = (sr_state r1)\<lparr>f2_role := Follower, f2_leader := None, f2_votes_received := oset_empty,
         f2_known_leader := Some sender\<rparr>" "sr_effects r3 = sr_effects r1 @ [Reset_election_timer]"
      "sr_state r' = sr_state r3 \<and> (\<exists>q. sr_effects r' = sr_effects r3 @ [Send_append_entries_response sender q])
       \<or> accept_entries sender request r3 = Inr r'"
proof -
  obtain r1 where r1: "observe_higher_term (ae_term request) r = Inr r1" and leader: "ae_leader request = sender"
    and peer: "ensure_peer (sr_state r) sender = Inr ()"
    using assms(1) by (auto simp: handle_append_entries_def result_simps Let_def)
  define r2 where "r2 = (if f2_role (sr_state r) = Candidate then push_rule Candidate_accept_append_entries r1 else r1)"
  define s where "s = (sr_state r2)\<lparr>f2_role := Follower, f2_leader := None, f2_votes_received := oset_empty,
                 f2_known_leader := Some sender\<rparr>"
  define r3 where "r3 = push_effect Reset_election_timer (set_state s r2)"
  note run = assms(1)[unfolded handle_append_entries_def peer r1 leader and_then_Inr Let_def]
  show ?thesis
  proof (cases "ae_term request < f2_term (sr_state r1)")
    case True
    then have "r' = append_reply sender False 0 (ae_read_context request) (push_rule Append_entries_reject_stale r1)" using run by simp
    then show ?thesis using stale[OF r1] by (auto simp: append_reply_def)
  next
    case False
    have "and_then (previous_matches s request) (\<lambda>matches.
        if \<not> matches then Inr (append_reply sender False 0 (ae_read_context request)
                 (push_rule Append_entries_reject_log_mismatch r3))
        else accept_entries sender request r3) = Inr r'"
      using run False by (simp only: if_False r3_def s_def r2_def throw_if_simps and_then_Inr simp_thms)
    then obtain matches where "(if \<not> matches then Inr (append_reply sender False 0 (ae_read_context request)
                 (push_rule Append_entries_reject_log_mismatch r3))
        else accept_entries sender request r3) = Inr r'"
      unfolding and_then_eq_Inr by blast
    then have "sr_state r' = sr_state r3 \<and> (\<exists>q. sr_effects r' = sr_effects r3 @ [Send_append_entries_response sender q])
       \<or> accept_entries sender request r3 = Inr r'" by (auto simp: append_reply_def split: if_splits)
    moreover have "sr_state r3 = (sr_state r1)\<lparr>f2_role := Follower, f2_leader := None, f2_votes_received := oset_empty,
         f2_known_leader := Some sender\<rparr>" "sr_effects r3 = sr_effects r1 @ [Reset_election_timer]"
      by (simp_all add: r3_def s_def r2_def)
    ultimately show ?thesis using follow[OF r1] by blast
  qed
qed

lemma append_entries_log:
  assumes run: "handle_append_entries sender request r = Inr r'" and facts: "log_facts (sr_state r)" and clean: "sr_effects r = []"
  shows "log_stable (sr_state r) (sr_state r')" "log_before_messages (sr_effects r')"
    "no_log r' \<Longrightarrow> f2_log (sr_state r') = f2_log (sr_state r)"
proof -
  have "log_stable (sr_state r) (sr_state r') \<and> log_before_messages (sr_effects r')
    \<and> (no_log r' \<longrightarrow> f2_log (sr_state r') = f2_log (sr_state r))"
    using run
  proof (cases rule: handle_append_entries_cases)
    case (stale r1)
    then show ?thesis using observe_same_log[OF stale(1)] observe_no_log[OF stale(1)] clean
      by (auto simp: log_before_messages_def same_log_def log_stable_defs)
  next
    case (follow r1 r3)
    have same: "same_log (sr_state r) (sr_state r3)" using observe_same_log[OF follow(1)] follow(2) by (simp add: same_log_def)
    have quiet: "no_log r3" "\<forall>e \<in> set (sr_effects r3). \<not> is_message e"
      using observe_effects[OF follow(1)] follow(3) clean by auto
    show ?thesis
    proof (cases "accept_entries sender request r3 = Inr r'")
      case True
      note log = accept_entries_log[OF True _ quiet]
      have facts3: "log_facts (sr_state r3)" using same_log_facts[OF same] facts by simp
      show ?thesis using log[OF facts3] log_stable_trans[OF same_log_stable[OF same]] same by (simp add: same_log_def)
    next
      case False
      then have "sr_state r' = sr_state r3" "\<exists>q. sr_effects r' = sr_effects r3 @ [Send_append_entries_response sender q]"
        using follow(4) by blast+
      then show ?thesis using same_log_stable[OF same] same quiet by (auto simp: log_before_messages_def same_log_def)
    qed
  qed
  then show "log_stable (sr_state r) (sr_state r')" "log_before_messages (sr_effects r')"
    "no_log r' \<Longrightarrow> f2_log (sr_state r') = f2_log (sr_state r)" by blast+
qed

lemma find_commit_range:
  assumes "find_commit s l c n = Inr (Some x)" "n \<le> unat c"
  shows "unat c - n < unat x \<and> x \<le> c"
  using assms
proof (induction s l c n rule: find_commit.induct)
  case (2 s l c n)
  have "c \<noteq> 0" using 2(3) by auto
  then have dec: "unat (c - 1) = unat c - 1" by (simp add: unat_minus_one)
  show ?case
  proof (cases "x = c")
    case True
    then show ?thesis using 2(3) by simp
  next
    case False
    then obtain t where t: "term_at s c = Inr t" "\<not> (t = f2_term s \<and> majority s \<le> replicated_count l c)"
      "find_commit s l (c - 1) n = Inr (Some x)"
      using 2(2) by (auto simp: result_simps split: if_splits)
    from 2(1)[OF t(2,3)] have "unat (c - 1) - n < unat x \<and> x \<le> c - 1" using dec 2(3) by simp
    then show ?thesis using dec 2(3) by (auto simp: word_le_nat_alt)
  qed
qed simp

lemma advance_commit_cases:
  assumes "advance_leader_commit r = Inr r'"
  shows "sr_effects r' = sr_effects r \<and> (sr_state r' = sr_state r
    \<or> (\<exists>c. f2_commit (sr_state r) < c \<and> sr_state r' = set_commit c (sr_state r)))"
proof -
  let ?s = "sr_state r"
  obtain l found where l: "f2_leader ?s = Some l"
    and found: "find_commit ?s l (last_index ?s) (unat (last_index ?s) - unat (f2_commit ?s)) = Inr found"
    using assms by (auto simp: advance_leader_commit_def Let_def result_simps split: option.splits)
  note run = assms[unfolded advance_leader_commit_def Let_def l option.case found and_then_Inr]
  show ?thesis
  proof (cases found)
    case None
    then show ?thesis using run by simp
  next
    case (Some c)
    have "unat (last_index ?s) - (unat (last_index ?s) - unat (f2_commit ?s)) < unat c \<and> c \<le> last_index ?s"
      by (rule find_commit_range[OF found[unfolded Some]]) simp
    then have "f2_commit ?s < c" by (auto simp: word_less_nat_alt word_le_nat_alt)
    then show ?thesis using run Some by (auto intro: exI[of _ c])
  qed
qed

lemma append_response_log:
  assumes "handle_append_entries_response sender response r = Inr r'" "no_log r"
  shows "log_stable (sr_state r) (sr_state r')" "f2_log (sr_state r') = f2_log (sr_state r)" "no_log r'"
proof -
  obtain r1 where r1: "observe_higher_term (aer_term response) r = Inr r1"
    and peer: "ensure_peer (sr_state r) sender = Inr ()"
    using assms(1) by (auto simp: handle_append_entries_response_def result_simps)
  note run = assms(1)[unfolded handle_append_entries_response_def peer r1 and_then_Inr Let_def]
  note same = observe_same_log[OF r1] and quiet = observe_no_log[OF r1 assms(2)]
  have progress: "same_log (sr_state r1) (set_progress sender p l (sr_state r1))" for p l
    by (simp add: same_log_def set_progress_def)
  have "log_stable (sr_state r1) (sr_state r') \<and> f2_log (sr_state r') = f2_log (sr_state r1) \<and> no_log r'"
    if run2: "advance_leader_commit (push_rule x (set_state (set_progress sender p l (sr_state r1)) r1)) = Inr r'
      \<or> send_append c sender (push_rule x (set_state (set_progress sender p l (sr_state r1)) r1)) = Inr r'" for x p l c
    using run2
  proof
    assume adv: "advance_leader_commit (push_rule x (set_state (set_progress sender p l (sr_state r1)) r1)) = Inr r'"
    from advance_commit_cases[OF adv] show ?thesis
      using quiet same_log_stable[OF progress[of p l]] log_stable_commit[OF same_log_stable[OF progress[of p l]]] progress[of p l]
      by (auto simp: same_log_def set_commit_def)
  next
    assume send: "send_append c sender (push_rule x (set_state (set_progress sender p l (sr_state r1)) r1)) = Inr r'"
    from send_append_Inr(1)[OF send] send_append_effects[OF send] show ?thesis
      using quiet same_log_stable[OF progress[of p l]] progress[of p l] by (auto simp: same_log_def)
  qed
  note step = this
  have "log_stable (sr_state r1) (sr_state r') \<and> f2_log (sr_state r') = f2_log (sr_state r1) \<and> no_log r'"
  proof (cases "f2_role (sr_state r1) \<noteq> Leader \<or> aer_term response \<noteq> f2_term (sr_state r1)")
    case True
    then show ?thesis using run quiet by simp
  next
    case False
    then obtain l progress where "f2_leader (sr_state r1) = Some l" "omap_find (ls_progress l) sender = Some progress"
      using run by (auto split: option.splits)
    then show ?thesis using run False step by (simp split: if_splits) blast+
  qed
  then show "log_stable (sr_state r) (sr_state r')" "f2_log (sr_state r') = f2_log (sr_state r)" "no_log r'"
    using log_stable_trans[OF same_log_stable[OF same]] same by (auto simp: same_log_def)
qed

lemma client_log:
  assumes "handle_client command r = Inr r'" "log_facts (sr_state r)" "sr_effects r = []"
  shows "log_stable (sr_state r) (sr_state r')" "log_before_messages (sr_effects r')"
    "no_log r' \<Longrightarrow> f2_log (sr_state r') = f2_log (sr_state r)"
proof -
  let ?s = "sr_state r"
  have "log_stable ?s (sr_state r') \<and> log_before_messages (sr_effects r') \<and> (no_log r' \<longrightarrow> f2_log (sr_state r') = f2_log ?s)"
  proof (cases "f2_role ?s \<noteq> Leader")
    case True
    then show ?thesis using assms by (simp add: handle_client_def Let_def log_before_messages_def)
  next
    case False
    then obtain l where l: "f2_leader ?s = Some l" using assms(1)
      by (auto simp: handle_client_def Let_def split: if_splits option.splits)
    define entry where "entry = \<lparr>le_term = f2_term ?s, le_index = last_index ?s + 1, le_command = command\<rparr>"
    define s1 where "s1 = (set_log (f2_log ?s @ [entry]) ?s)\<lparr>f2_leader :=
      Some (l\<lparr>ls_pending_clients := oset_insert (last_index ?s + 1) (ls_pending_clients l)\<rparr>)\<rparr>"
    let ?r1 = "push_effect Persist_log (push_rule Leader_append_client (set_state s1 r))"
    obtain r2 where r2: "fold_result (send_append None) (f2_peers s1) ?r1 = Inr r2" "advance_leader_commit r2 = Inr r'"
      using assms(1) False l by (auto simp: handle_client_def Let_def result_simps entry_def s1_def split: if_splits)
    obtain es where es: "sr_effects r2 = [Persist_log] @ es" "\<forall>e \<in> set es. \<exists>p q. e = Send_append_entries p q"
      using send_appends_effects[OF r2(1)] assms(3) by auto
    have state2: "sr_state r2 = s1" using send_appends_Inr[OF r2(1)] by simp
    have stable: "log_stable ?s s1" using committed_within[OF assms(2)]
      by (simp add: s1_def log_stable_defs set_log_def)
    have "log_before_messages (sr_effects r2)"
      unfolding log_before_messages_def using es sends_no_log by (intro disjI2 exI[of _ "[]"] exI[of _ es]) auto
    then show ?thesis using advance_commit_cases[OF r2(2)] stable log_stable_commit[OF stable] state2 es(1) by auto
  qed
  then show "log_stable (sr_state r) (sr_state r')" "log_before_messages (sr_effects r')"
    "no_log r' \<Longrightarrow> f2_log (sr_state r') = f2_log (sr_state r)" by blast+
qed

lemma dispatch_log:
  assumes "dispatch e \<lparr>sr_state = s, sr_rules = [], sr_effects = []\<rparr> = Inr r" "log_facts s" "e \<noteq> Apply_committed" "\<not> is_completion e"
  shows "log_stable s (sr_state r) \<and> log_before_messages (sr_effects r)
    \<and> (Persist_log \<notin> set (sr_effects r) \<longrightarrow> f2_log (sr_state r) = f2_log s)"
proof -
  let ?r = "\<lparr>sr_state = s, sr_rules = [], sr_effects = []\<rparr>"
  have quiet: ?thesis if "same_log s (sr_state r)" "no_log r"
    using that same_log_stable by (auto simp: log_before_messages_def same_log_def)
  show ?thesis
  proof (cases e)
    case Election_timeout
    then show ?thesis using assms(1) quiet timeout_same_log[of ?r r] timeout_no_log[of ?r r] by (auto split: if_splits)
  next
    case Heartbeat_timeout
    then show ?thesis using assms(1) quiet timeout_same_log[of ?r r] timeout_no_log[of ?r r] by (auto split: if_splits)
  next
    case (Observe_term t)
    then show ?thesis using assms(1) quiet observe_same_log[of t ?r r] observe_no_log[of t ?r r] by simp
  next
    case (Receive_request_vote a b)
    then show ?thesis using assms(1) quiet request_vote_same_log[of a b ?r r] request_vote_no_log[of a b ?r r] by simp
  next
    case (Receive_request_vote_response a b)
    then show ?thesis using assms(1) quiet vote_response_same_log[of a b ?r r] vote_response_no_log[of a b ?r r] by simp
  next
    case (Receive_append_entries a b)
    then show ?thesis using assms(1,2) append_entries_log[of a b ?r r] by simp
  next
    case (Receive_append_entries_response a b)
    then show ?thesis using assms(1) append_response_log[of a b ?r r] by (simp add: log_before_messages_def)
  next
    case (Receive_client_command a)
    then show ?thesis using assms(1,2) client_log[of a ?r r] by simp
  qed (use assms in simp_all)
qed

section \<open>Whole steps\<close>

lemma log_before_split:
  assumes "log_before_messages (xs @ ys)"
  shows "log_before_messages xs" "log_before_messages ys"
proof -
  show "log_before_messages xs"
  proof (cases "Persist_log \<in> set xs")
    case True
    then obtain pre post where xs: "xs = pre @ Persist_log # post" "Persist_log \<notin> set pre" by (auto dest: split_list_first)
    obtain pre' post' where all: "xs @ ys = pre' @ Persist_log # post'" "Persist_log \<notin> set pre' \<union> set post'" "\<forall>e \<in> set pre'. \<not> is_message e"
      using assms True by (auto simp: log_before_messages_def)
    have "pre = pre'" "post @ ys = post'"
      using xs all(1,2) append_Cons_eq_iff[of Persist_log pre' post' pre "post @ ys"] by auto
    then show ?thesis unfolding log_before_messages_def
      by (intro disjI2 exI[of _ pre] exI[of _ post]) (use xs all(2,3) in auto)
  qed (simp add: log_before_messages_def)
  show "log_before_messages ys"
  proof (cases "Persist_log \<in> set ys")
    case True
    then obtain pre post where ys: "ys = pre @ Persist_log # post" "Persist_log \<notin> set pre" by (auto dest: split_list_first)
    obtain pre' post' where all: "xs @ ys = pre' @ Persist_log # post'" "Persist_log \<notin> set pre' \<union> set post'" "\<forall>e \<in> set pre'. \<not> is_message e"
      using assms True by (auto simp: log_before_messages_def)
    have "Persist_log \<notin> set xs"
    proof
      assume "Persist_log \<in> set xs"
      then obtain a b where "xs = a @ Persist_log # b" by (auto dest: split_list)
      then have "post' = b @ ys"
        using all(1,2) append_Cons_eq_iff[of Persist_log pre' post' a "b @ ys"] by auto
      then show False using all(2) True by simp
    qed
    then have "xs @ pre = pre'" "post = post'"
      using ys all(1,2) append_Cons_eq_iff[of Persist_log pre' post' "xs @ pre" post] by auto
    then show ?thesis unfolding log_before_messages_def
      by (intro disjI2 exI[of _ pre] exI[of _ post]) (use ys all(2,3) in auto)
  qed (simp add: log_before_messages_def)
qed

definition deferred_ok :: "f2_state \<Rightarrow> bool" where
  "deferred_ok s = (case f2_pending s of None \<Rightarrow> True | Some p \<Rightarrow> log_before_messages (pd_deferred_effects p))"

lemma gate_log:
  assumes "gate_on_hard_state r = Inr r'" "log_before_messages (sr_effects r)" "f2_pending (sr_state r) = None"
  shows "\<exists>p. sr_state r' = (sr_state r)\<lparr>f2_pending := p\<rparr>" "log_before_messages (sr_effects r')" "deferred_ok (sr_state r')"
    "set (sr_effects r) \<subseteq> set (sr_effects r') \<union> (case f2_pending (sr_state r') of None \<Rightarrow> {} | Some p \<Rightarrow> set (pd_deferred_effects p))"
proof -
  let ?pre = "takeWhile (\<lambda>e. \<not> is_persist e) (sr_effects r)" and ?post = "dropWhile (\<lambda>e. \<not> is_persist e) (sr_effects r)"
  have "(\<exists>p. sr_state r' = (sr_state r)\<lparr>f2_pending := p\<rparr>) \<and> log_before_messages (sr_effects r') \<and> deferred_ok (sr_state r')
    \<and> set (sr_effects r) \<subseteq> set (sr_effects r') \<union> (case f2_pending (sr_state r') of None \<Rightarrow> {} | Some p \<Rightarrow> set (pd_deferred_effects p))"
  proof (cases "\<exists>q deferred. ?post = Persist_raft_hard_state q # deferred")
    case True
    then obtain q deferred where post: "?post = Persist_raft_hard_state q # deferred" by blast
    then have split: "sr_effects r = (?pre @ [Persist_raft_hard_state q]) @ deferred" by (metis append.assoc append_Cons append_Nil takeWhile_dropWhile_id)
    have r': "r' = r\<lparr>sr_effects := ?pre @ [Persist_raft_hard_state q], sr_state := (sr_state r)\<lparr>f2_pending :=
        Some \<lparr>pd_request = q, pd_deferred_effects = deferred\<rparr>\<rparr>\<rparr>"
      using assms(1)[unfolded gate_on_hard_state_def post] assms(3) by simp
    have parts: "log_before_messages (?pre @ [Persist_raft_hard_state q])" "log_before_messages deferred"
      using log_before_split[of "?pre @ [Persist_raft_hard_state q]" deferred] assms(2) split by simp_all
    have "set (sr_effects r) = set (?pre @ [Persist_raft_hard_state q]) \<union> set deferred" using split by (metis set_append)
    then show ?thesis using r' parts by (auto simp: deferred_ok_def)
  next
    case False
    then have "r' = r" using assms(1) by (auto simp: gate_on_hard_state_def split: list.splits f2_effect.splits)
    then show ?thesis using assms(2,3) by (auto simp: deferred_ok_def intro: exI[of _ "f2_pending (sr_state r)"])
  qed
  then show "\<exists>p. sr_state r' = (sr_state r)\<lparr>f2_pending := p\<rparr>" "log_before_messages (sr_effects r')" "deferred_ok (sr_state r')"
    "set (sr_effects r) \<subseteq> set (sr_effects r') \<union> (case f2_pending (sr_state r') of None \<Rightarrow> {} | Some p \<Rightarrow> set (pd_deferred_effects p))"
    by blast+
qed

lemma gate_state: "gate_on_hard_state r = Inr r' \<Longrightarrow> \<exists>p. sr_state r' = (sr_state r)\<lparr>f2_pending := p\<rparr>"
  by (fastforce simp: gate_on_hard_state_def split: list.splits f2_effect.splits if_splits intro: exI[of _ "f2_pending (sr_state r)"])

lemma handle_apply_log:
  assumes "handle_apply r = Inr r'"
  shows "f2_commit (sr_state r') = f2_commit (sr_state r)" "f2_log (sr_state r') = f2_log (sr_state r)"
  using assms by (auto simp: handle_apply_def Let_def result_simps split: if_splits option.splits)

lemma f2_step_log:
  assumes "f2_step s e = Inr r" "deferred_ok s" "e \<noteq> Apply_committed"
  shows "log_kept s (sr_state r)" "log_before_messages (sr_effects r)" "deferred_ok (sr_state r)"
    "f2_log (sr_state r) \<noteq> f2_log s \<Longrightarrow> Persist_log \<in> set (sr_effects r)
       \<or> (\<exists>p. f2_pending (sr_state r) = Some p \<and> Persist_log \<in> set (pd_deferred_effects p))"
    "validate (sr_state r) = []" "validate s = []"
proof -
  obtain r1 where r1: "dispatch e \<lparr>sr_state = s, sr_rules = [], sr_effects = []\<rparr> = Inr r1" "gate_on_hard_state r1 = Inr r"
    "is_completion e \<longleftrightarrow> f2_pending s \<noteq> None" and valid: "validate s = []" "validate (sr_state r) = []"
    by (rule f2_step_parts[OF assms(1)])
  show "validate (sr_state r) = []" "validate s = []" using valid by simp_all
  have d: "log_kept s (sr_state r1) \<and> log_before_messages (sr_effects r1)
      \<and> (Persist_log \<notin> set (sr_effects r1) \<longrightarrow> f2_log (sr_state r1) = f2_log s) \<and> f2_pending (sr_state r1) = None"
  proof (cases "is_completion e")
    case False
    then have "f2_pending s = None" using r1(3) by simp
    then show ?thesis using dispatch_log[OF r1(1) validate_log_facts[OF valid(1)] assms(3) False] by (simp add: log_stable_def)
  next
    case True
    then obtain rid st p where "e = Raft_hard_state_persisted rid st" "f2_pending s = Some p"
      using r1(3) by (cases e) auto
    then have "sr_state r1 = s\<lparr>f2_pending := None\<rparr>" "sr_effects r1 = pd_deferred_effects p"
      using r1(1) by (auto split: if_splits)
    then show ?thesis using assms(2) \<open>f2_pending s = Some p\<close> by (simp add: log_kept_def deferred_ok_def)
  qed
  have "log_before_messages (sr_effects r1)" "f2_pending (sr_state r1) = None" using d by simp_all
  note g = gate_log[OF r1(2) this]
  obtain p where p: "sr_state r = (sr_state r1)\<lparr>f2_pending := p\<rparr>" using g(1) by auto
  show "log_kept s (sr_state r)" using d p by (simp add: log_kept_def)
  show "log_before_messages (sr_effects r)" "deferred_ok (sr_state r)" using g(2,3) by simp_all
  show "f2_log (sr_state r) \<noteq> f2_log s \<Longrightarrow> Persist_log \<in> set (sr_effects r)
       \<or> (\<exists>p. f2_pending (sr_state r) = Some p \<and> Persist_log \<in> set (pd_deferred_effects p))"
    using g(4) d p by (auto split: option.splits)
qed

text \<open>
  C7.  No step of the specification gives up a committed entry: whatever event arrives, a step
  keeps every log entry up to the commit index, and the commit index does not go back.
\<close>

theorem committed_entries_kept:
  assumes "f2_step s e = Inr r"
  shows "f2_commit s \<le> f2_commit (sr_state r)
    \<and> take (committed_length s) (f2_log (sr_state r)) = take (committed_length s) (f2_log s)"
proof -
  obtain r1 where r1: "dispatch e \<lparr>sr_state = s, sr_rules = [], sr_effects = []\<rparr> = Inr r1" "gate_on_hard_state r1 = Inr r"
    "is_completion e \<longleftrightarrow> f2_pending s \<noteq> None" and valid: "validate s = []"
    by (rule f2_step_parts[OF assms])
  obtain p where p: "sr_state r = (sr_state r1)\<lparr>f2_pending := p\<rparr>" using gate_state[OF r1(2)] by blast
  consider "e = Apply_committed" | rid st where "e = Raft_hard_state_persisted rid st" | "e \<noteq> Apply_committed" "\<not> is_completion e"
    by (cases e) auto
  then show ?thesis
  proof cases
    case 1
    then show ?thesis using handle_apply_log[of "\<lparr>sr_state = s, sr_rules = [], sr_effects = []\<rparr>" r1] r1(1) p by simp
  next
    case 2
    then show ?thesis using r1(1) p by (auto split: option.splits if_splits)
  next
    case 3
    then show ?thesis using dispatch_log[OF r1(1) validate_log_facts[OF valid] 3] p by (simp add: log_stable_defs)
  qed
qed

end
