(* ===== verification/Core_Examples.thy ===== *)
theory Core_Examples
  imports Core_Election Figure2_Log
begin

text \<open>
  A cluster of three election cores in which core 1 wins the election of term 1 with the vote of
  core 2: the concrete states on which the properties of the election core apply.
\<close>

abbreviation blank_state :: raft_hard_state where
  "blank_state \<equiv> \<lparr>hs_current_term = 0, hs_voted_for = None\<rparr>"

abbreviation term1_state :: "node_id option \<Rightarrow> raft_hard_state" where
  "term1_state vote \<equiv> \<lparr>hs_current_term = 1, hs_voted_for = vote\<rparr>"

definition fresh_core :: "node_id \<Rightarrow> node_id list \<Rightarrow> core result" where
  "fresh_core n peers = new_core n peers blank_state 7 \<lparr>tr_minimum = 10, tr_maximum = 20\<rparr> [] 2 0 4 16 None 1024 8"

definition started_core :: "node_id \<Rightarrow> node_id list \<Rightarrow> core" where
  "started_core n peers = snd (start_core (projr (fresh_core n peers)))"

lemma fresh_cores: "\<not> isl (fresh_core 1 [2, 3])" "\<not> isl (fresh_core 2 [1, 3])" "\<not> isl (fresh_core 3 [1, 2])"
  by code_simp+

lemma started_core_booted:
  assumes "\<not> isl (fresh_core n peers)"
  shows "booted n peers blank_state (started_core n peers)"
proof -
  have "fresh_core n peers = Inr (projr (fresh_core n peers))" using assms by (simp add: sum.collapse(2))
  moreover have "start_core (projr (fresh_core n peers)) = (fst (start_core (projr (fresh_core n peers))), started_core n peers)"
    by (simp add: started_core_def)
  ultimately show ?thesis unfolding booted_def fresh_core_def by blast
qed

text \<open>One core takes an input, and one disk finishes a write, as in the rules of \<open>core_cluster_step\<close>.\<close>

definition take_input :: "node_id \<Rightarrow> core_input \<Rightarrow> core_cluster \<Rightarrow> core_cluster" where
  "take_input n input k =
     k\<lparr>cc_core := (cc_core k)(n := snd (core_step input (cc_core k n))),
       cc_sent := cc_sent k \<union> Pair n ` set (effects_of (fst (core_step input (cc_core k n)))),
       cc_leaders := cc_leaders k \<union> leaders_now n (co_state (snd (core_step input (cc_core k n))))\<rparr>"

definition finish_write :: "node_id \<Rightarrow> core_cluster \<Rightarrow> core_cluster" where
  "finish_write n k = k\<lparr>cc_durable := (cc_durable k)(n := ph_state (pd_request (the (f2_pending (co_state (cc_core k n))))))\<rparr>"

lemma take_input_reachable:
  "core_cluster_reachable members k \<Longrightarrow> n \<in> members \<Longrightarrow> may_deliver k n input \<Longrightarrow>
   core_cluster_reachable members (take_input n input k)"
  unfolding take_input_def by (rule core_next, assumption, rule core_input) simp_all

lemma finish_write_reachable:
  "core_cluster_reachable members k \<Longrightarrow> n \<in> members \<Longrightarrow> f2_pending (co_state (cc_core k n)) \<noteq> None \<Longrightarrow>
   core_cluster_reachable members (finish_write n k)"
  unfolding finish_write_def by (rule core_next, assumption, rule core_write) auto

definition core_after :: "core_input \<Rightarrow> core \<Rightarrow> core" where
  "core_after input c = snd (core_step input c)"

definition request1 :: request_vote_request where
  "request1 = \<lparr>rv_term = 1, rv_candidate = 1, rv_last_log_index = 0, rv_last_log_term = 0\<rparr>"

definition vote1 :: request_vote_response where
  "vote1 = \<lparr>rvr_term = 1, rvr_granted = True\<rparr>"

definition core1_voting :: core where "core1_voting = core_after (Election_deadline 1) (started_core 1 [2, 3])"
definition core1_candidate :: core where "core1_candidate = core_after (Hard_state_persisted 1 (term1_state (Some 1))) core1_voting"
definition core2_observing :: core where "core2_observing = core_after (Request_vote_received 1 request1) (started_core 2 [1, 3])"
definition core2_voting :: core where "core2_voting = core_after (Hard_state_persisted 1 (term1_state None)) core2_observing"
definition core2_voted :: core where "core2_voted = core_after (Hard_state_persisted 2 (term1_state (Some 1))) core2_voting"
definition core1_leader :: core where "core1_leader = core_after (Request_vote_response_received 2 vote1) core1_candidate"

lemma election_messages:
  "Send_vote_request 2 request1 \<in> set (effects_of (fst (core_step (Hard_state_persisted 1 (term1_state (Some 1))) core1_voting)))"
  "Send_vote_response 1 vote1 \<in> set (effects_of (fst (core_step (Hard_state_persisted 2 (term1_state (Some 1))) core2_voting)))"
  by code_simp+

lemma election_writes:
  "map_option (\<lambda>p. ph_state (pd_request p)) (f2_pending (co_state core1_voting)) = Some (term1_state (Some 1))"
  "map_option (\<lambda>p. ph_state (pd_request p)) (f2_pending (co_state core2_observing)) = Some (term1_state None)"
  "map_option (\<lambda>p. ph_state (pd_request p)) (f2_pending (co_state core2_voting)) = Some (term1_state (Some 1))"
  by code_simp+

lemma core1_leads: "f2_role (co_state core1_leader) = Leader" "f2_term (co_state core1_leader) = 1"
  by code_simp+

definition core_cluster0 :: core_cluster where
  "core_cluster0 = \<lparr>cc_core = (\<lambda>n. if n = 1 then started_core 1 [2, 3] else if n = 2 then started_core 2 [1, 3] else started_core 3 [1, 2]),
     cc_durable = (\<lambda>_. blank_state), cc_sent = {}, cc_leaders = {}\<rparr>"

lemma core_cluster0_init: "core_cluster_init {1, 2, 3} core_cluster0"
proof -
  have boot: "booted 1 [2, 3] blank_state (started_core 1 [2, 3])" "booted 2 [1, 3] blank_state (started_core 2 [1, 3])"
    "booted 3 [1, 2] blank_state (started_core 3 [1, 2])"
    using started_core_booted fresh_cores by blast+
  have "\<exists>peers. distinct peers \<and> set peers = {1, 2, 3} - {n} \<and> booted n peers (cc_durable core_cluster0 n) (cc_core core_cluster0 n)"
    if member: "n \<in> {1, 2, 3}" for n
  proof -
    consider "n = 1" | "n = 2" | "n = 3" using member by blast
    then show ?thesis
    proof cases
      case 1
      then show ?thesis using boot(1) by - (rule exI[of _ "[2, 3]"], simp add: core_cluster0_def)
    next
      case 2
      then show ?thesis using boot(2) by - (rule exI[of _ "[1, 3]"], simp add: core_cluster0_def insert_Diff_if)
    next
      case 3
      then show ?thesis using boot(3) by - (rule exI[of _ "[1, 2]"], simp add: core_cluster0_def insert_Diff_if)
    qed
  qed
  then show ?thesis by (simp add: core_cluster_init_def core_cluster0_def)
qed

definition core_cluster3 :: core_cluster where
  "core_cluster3 = take_input 1 (Hard_state_persisted 1 (term1_state (Some 1)))
     (finish_write 1 (take_input 1 (Election_deadline 1) core_cluster0))"

definition core_cluster8 :: core_cluster where
  "core_cluster8 = take_input 2 (Hard_state_persisted 2 (term1_state (Some 1))) (finish_write 2
     (take_input 2 (Hard_state_persisted 1 (term1_state None)) (finish_write 2
       (take_input 2 (Request_vote_received 1 request1) core_cluster3))))"

definition core_cluster9 :: core_cluster where
  "core_cluster9 = take_input 1 (Request_vote_response_received 2 vote1) core_cluster8"

lemmas cluster_simps = take_input_def finish_write_def core_cluster0_def core1_voting_def core1_candidate_def
  core2_observing_def core2_voting_def core2_voted_def core1_leader_def core_after_def

lemma core_cluster3_parts:
  "cc_core core_cluster3 1 = core1_candidate" "cc_core core_cluster3 2 = started_core 2 [1, 3]"
  "(1, Send_vote_request 2 request1) \<in> cc_sent core_cluster3"
  using election_messages(1) by (simp_all add: core_cluster3_def cluster_simps)

lemma core_cluster8_parts:
  "cc_core core_cluster8 1 = core1_candidate" "(2, Send_vote_response 1 vote1) \<in> cc_sent core_cluster8"
  using core_cluster3_parts election_messages(2) by (simp_all add: core_cluster8_def cluster_simps)

lemma core_cluster3_reachable: "core_cluster_reachable {1, 2, 3} core_cluster3"
  unfolding core_cluster3_def
  using election_writes(1)
  by (intro take_input_reachable finish_write_reachable core_init core_cluster0_init) (auto simp: cluster_simps)

lemma core_cluster8_reachable: "core_cluster_reachable {1, 2, 3} core_cluster8"
  unfolding core_cluster8_def
  using election_writes(2,3) core_cluster3_parts
  by (intro take_input_reachable finish_write_reachable core_cluster3_reachable) (auto simp: cluster_simps)

lemma core_cluster9_reachable: "core_cluster_reachable {1, 2, 3} core_cluster9"
  unfolding core_cluster9_def
  using core_cluster8_parts by (intro take_input_reachable core_cluster8_reachable) simp_all

lemma core_cluster9_leader: "(1, 1) \<in> cc_leaders core_cluster9"
  using core1_leads core_cluster8_parts(1)
  by (simp add: core_cluster9_def take_input_def leaders_now_def core1_leader_def core_after_def)

section \<open>Witnesses\<close>

theorem core_election_safety_witness:
  "core_cluster_reachable {1, 2, 3} core_cluster9 \<and> {m. (m, 1) \<in> cc_leaders core_cluster9} = {1}"
  using core_election_safety[OF core_cluster9_reachable core_cluster9_leader] core_cluster9_reachable core_cluster9_leader by auto

theorem next_deadline_in_range_witness:
  "\<exists>delay c'. next_deadline (projr (fresh_core 1 [2, 3])) = (Inr (Reset_election_deadline 1 delay), c')
    \<and> 10 \<le> delay \<and> delay \<le> 20 \<and> co_next_timer_id c' \<noteq> 1"
proof -
  let ?c = "projr (fresh_core 1 [2, 3])"
  have "timeouts_ok ?c" by code_simp
  moreover have "co_next_timer_id ?c = 1" "tr_minimum (co_timeouts ?c) = 10" "tr_maximum (co_timeouts ?c) = 20" by code_simp+
  ultimately show ?thesis using next_deadline_in_range[of ?c] by auto
qed

text \<open>A follower of term 2 with one committed entry, and a request that replaces the entry after it.\<close>

definition entry :: "raft_term \<Rightarrow> log_index \<Rightarrow> log_entry" where
  "entry t i = \<lparr>le_term = t, le_index = i, le_command = \<lparr>ce_request_id = \<lparr>rid_client = 1, rid_sequence = 1\<rparr>,
     ce_type_tag = 1, ce_payload = []\<rparr>\<rparr>"

definition lagging :: f2_state where
  "lagging = \<lparr>f2_node = 2, f2_peers = [1, 3], f2_role = Follower,
     f2_persistent = \<lparr>ps_current_term = 2, ps_voted_for = None, ps_snapshot = None, ps_log = [entry 1 1, entry 1 2]\<rparr>,
     f2_volatile = \<lparr>vs_commit_index = 1, vs_last_applied = 0\<rparr>, f2_known_leader = None,
     f2_votes_received = oset_empty, f2_leader = None, f2_next_request_id = 1, f2_pending = None\<rparr>"

definition correction :: append_entries_request where
  "correction = \<lparr>ae_term = 2, ae_leader = 3, ae_previous_log_index = 1, ae_previous_log_term = 1,
     ae_entries = [entry 2 2], ae_leader_commit = 2, ae_read_context = None\<rparr>"

definition corrected :: step_result where
  "corrected = projr (f2_step lagging (Receive_append_entries 3 correction))"

lemma corrected_step: "f2_step lagging (Receive_append_entries 3 correction) = Inr corrected"
proof -
  have "\<not> isl (f2_step lagging (Receive_append_entries 3 correction))" by code_simp
  then show ?thesis by (simp add: corrected_def sum.collapse(2))
qed

theorem committed_entries_kept_witness:
  "f2_log (sr_state corrected) = [entry 1 1, entry 2 2] \<and> 1 \<le> f2_commit (sr_state corrected)"
proof -
  have "committed_length lagging = 1" "f2_commit lagging = 1" "f2_log lagging = [entry 1 1, entry 1 2]" by code_simp+
  then have "take 1 (f2_log (sr_state corrected)) = [entry 1 1]" "1 \<le> f2_commit (sr_state corrected)"
    using committed_entries_kept[OF corrected_step] by simp_all
  moreover have "drop 1 (f2_log (sr_state corrected)) = [entry 2 2]" by code_simp
  ultimately show ?thesis using append_take_drop_id[of 1 "f2_log (sr_state corrected)"] by simp
qed

end
