(* ===== verification/Linearizability.thy ===== *)
theory Linearizability
  imports Text_Streams
begin

unbundle bit_operations_syntax

text \<open>
  The linearizability checker (\<^verbatim>\<open>src/src/linearizability.cpp\<close> and its header): histories, their
  validation, the sequential model, the depth-first search with its memo of dead states, the
  bounded check, and the reduction of a counterexample.

  A bit mask of operations is a 64-bit word; counters and limits of type \<open>std::size_t\<close> are
  \<^typ>\<open>nat\<close>.  The memo holds strings, as in the source.
\<close>

section \<open>Histories\<close>

datatype lin_operation =
    Get (op_key: byte_sequence)
  | Put (op_key: byte_sequence) byte_sequence
  | Erase (op_key: byte_sequence)
  | Compare_and_swap (op_key: byte_sequence) "byte_sequence option" "byte_sequence option"

record versioned_value =
  vv_value :: byte_sequence
  vv_modification_revision :: revision

datatype lin_result =
    Get_result "versioned_value option" (result_revision: revision)
  | Put_result (result_revision: revision)
  | Erase_result bool (result_revision: revision)
  | Compare_and_swap_result bool (result_revision: revision)

datatype completion_kind = Succeeded | Failed | Timed_out | Indeterminate

record invocation =
  iv_operation_id :: u64
  iv_client_id :: u64
  iv_invoked_at :: u64
  iv_operation :: lin_operation

record completion =
  cp_operation_id :: u64
  cp_completed_at :: u64
  cp_kind :: completion_kind
  cp_result :: "lin_result option"

record history =
  hi_invocations :: "invocation list"
  hi_completions :: "completion list"

record checker_limits =
  li_max_operations :: nat
  li_max_search_states :: nat
  li_max_memo_entries :: nat

section \<open>Validation\<close>

fun operation_matches_result :: "lin_operation \<Rightarrow> lin_result \<Rightarrow> bool" where
  "operation_matches_result (Get key) (Get_result v r) = True"
| "operation_matches_result (Put key value) (Put_result r) = True"
| "operation_matches_result (Erase key) (Erase_result b r) = True"
| "operation_matches_result (Compare_and_swap key expected desired) (Compare_and_swap_result b r) = True"
| "operation_matches_result _ _ = False"

definition validate_invocation :: "invocation \<Rightarrow> (u64, invocation) omap \<Rightarrow> (u64, invocation) omap result" where
  "validate_invocation invocation invocations =
     and_then (throw_if (iv_operation_id invocation = 0 \<or> iv_client_id invocation = 0)
       (Invalid_History ''operation and client IDs must be nonzero'')) (\<lambda>_.
     and_then (throw_if (omap_has invocations (iv_operation_id invocation))
       (Invalid_History ''duplicate invocation operation ID'')) (\<lambda>_.
     and_then (throw_if (op_key (iv_operation invocation) = []) (Invalid_History ''operation key must be nonempty'')) (\<lambda>_.
     Inr (omap_put (iv_operation_id invocation) invocation invocations))))"

definition validate_get :: "lin_result \<Rightarrow> unit result" where
  "validate_get r = (case r of
     Get_result (Some v) revision \<Rightarrow>
       throw_if (vv_modification_revision v \<le> 0 \<or> vv_modification_revision v > revision)
         (Invalid_History ''get value revision is invalid'')
   | _ \<Rightarrow> Inr ())"

definition validate_result :: "lin_operation \<Rightarrow> completion \<Rightarrow> unit result" where
  "validate_result operation completion =
     (if cp_kind completion = Succeeded
      then case cp_result completion of
          None \<Rightarrow> Inl (Invalid_History ''successful completion has a mismatched result'')
        | Some r \<Rightarrow>
            and_then (throw_if (\<not> operation_matches_result operation r)
              (Invalid_History ''successful completion has a mismatched result'')) (\<lambda>_.
            and_then (throw_if (result_revision r < 0) (Invalid_History ''result revision must be nonnegative'')) (\<lambda>_.
            validate_get r))
      else throw_if (cp_result completion \<noteq> None) (Invalid_History ''non-successful completion must not carry a result''))"

definition validate_completion ::
    "(u64, invocation) omap \<Rightarrow> completion \<Rightarrow> u64 oset \<Rightarrow> u64 oset result" where
  "validate_completion invocations completion completions =
     (case omap_find invocations (cp_operation_id completion) of
        None \<Rightarrow> Inl (Invalid_History ''completion has no invocation'')
      | Some invocation \<Rightarrow>
          and_then (throw_if (oset_member (cp_operation_id completion) completions)
            (Invalid_History ''duplicate completion operation ID'')) (\<lambda>_.
          and_then (throw_if (cp_completed_at completion < iv_invoked_at invocation)
            (Invalid_History ''completion precedes invocation'')) (\<lambda>_.
          and_then (validate_result (iv_operation invocation) completion) (\<lambda>_.
          Inr (oset_insert (cp_operation_id completion) completions)))))"

definition validate_history :: "history \<Rightarrow> unit result" where
  "validate_history h =
     and_then (fold_result validate_invocation (hi_invocations h) omap_empty) (\<lambda>invocations.
     and_then (fold_result (validate_completion invocations) (hi_completions h) oset_empty) (\<lambda>_. Inr ()))"

section \<open>The sequential model\<close>

record model_state =
  ms_revision :: revision
  ms_values :: "(byte_sequence, versioned_value) omap"

definition initial_model :: model_state where
  "initial_model = \<lparr>ms_revision = 0, ms_values = omap_empty\<rparr>"

definition current_equals :: "model_state \<Rightarrow> byte_sequence \<Rightarrow> byte_sequence option \<Rightarrow> bool" where
  "current_equals state key expected =
     (case expected of
        None \<Rightarrow> omap_find (ms_values state) key = None
      | Some value \<Rightarrow> (case omap_find (ms_values state) key of None \<Rightarrow> False | Some found \<Rightarrow> vv_value found = value))"

definition next_revision :: "revision \<Rightarrow> revision option" where
  "next_revision current = (if current = int64_max then None else Some (current + 1))"

text \<open>
  \<open>apply\<close>: the state after the operation, or \<^const>\<open>None\<close> where the source returns false, because
  the expected result differs from the actual one or the revision is used up.  The expected
  result is of the operation's own alternative, which \<open>validate_history\<close> has checked, so the
  comparison never meets another alternative.
\<close>

abbreviation differs :: "lin_result option \<Rightarrow> lin_result \<Rightarrow> bool" where
  "differs expected actual \<equiv> expected \<noteq> None \<and> the expected \<noteq> actual"

fun apply_operation :: "model_state \<Rightarrow> lin_operation \<Rightarrow> lin_result option \<Rightarrow> model_state option" where
  "apply_operation state (Get key) expected =
     (if differs expected (Get_result (omap_find (ms_values state) key) (ms_revision state)) then None else Some state)"
| "apply_operation state (Put key value) expected =
     (case next_revision (ms_revision state) of
        None \<Rightarrow> None
      | Some r \<Rightarrow>
          if differs expected (Put_result r) then None
          else Some (state\<lparr>ms_revision := r,
            ms_values := omap_put key \<lparr>vv_value = value, vv_modification_revision = r\<rparr> (ms_values state)\<rparr>))"
| "apply_operation state (Erase key) expected =
     (if omap_find (ms_values state) key = None
      then if differs expected (Erase_result False (ms_revision state)) then None else Some state
      else case next_revision (ms_revision state) of
          None \<Rightarrow> None
        | Some r \<Rightarrow>
            if differs expected (Erase_result True r) then None
            else Some (state\<lparr>ms_values := omap_drop key (ms_values state), ms_revision := r\<rparr>))"
| "apply_operation state (Compare_and_swap key expected_value desired) expected =
     (let exchanged = current_equals state key expected_value;
          mutates = exchanged \<and> (desired \<noteq> None \<or> omap_find (ms_values state) key \<noteq> None) in
      if \<not> mutates
      then if differs expected (Compare_and_swap_result exchanged (ms_revision state)) then None else Some state
      else case next_revision (ms_revision state) of
          None \<Rightarrow> None
        | Some r \<Rightarrow>
            if differs expected (Compare_and_swap_result exchanged r) then None
            else Some (state\<lparr>ms_revision := r, ms_values := (case desired of
                Some value \<Rightarrow> omap_put key \<lparr>vv_value = value, vv_modification_revision = r\<rparr> (ms_values state)
              | None \<Rightarrow> omap_drop key (ms_values state))\<rparr>))"

section \<open>The search\<close>

record search_operation =
  so_invocation :: invocation
  so_completion :: "completion option"
  so_required :: bool
  so_predecessors :: u64

datatype search_outcome = Linearizable | Not_linearizable | Inconclusive

record search_context =
  sc_operations :: "search_operation list"
  sc_limits :: checker_limits
  sc_explored :: nat
  sc_dead_states :: "string set"

definition hex_digit :: "nat \<Rightarrow> char" where
  "hex_digit n = ''0123456789abcdef'' ! n"

definition hex :: "byte_sequence \<Rightarrow> string" where
  "hex value = (if value = [] then ''-''
     else concat (map (\<lambda>byte. [hex_digit (unat (drop_bit 4 byte)), hex_digit (unat (byte AND 15))]) value))"

definition entry_text :: "byte_sequence \<times> versioned_value \<Rightarrow> string" where
  "entry_text entry = ''|'' @ hex (fst entry) @ ''='' @ hex (vv_value (snd entry)) @ ''@''
     @ show_int (vv_modification_revision (snd entry))"

definition state_key :: "u64 \<Rightarrow> model_state \<Rightarrow> string" where
  "state_key remaining state =
     show_number 10 (unat remaining) @ ''|'' @ show_int (ms_revision state) @ concat (map entry_text (omap_items (ms_values state)))"

definition bit_of :: "nat \<Rightarrow> u64" where
  "bit_of index = push_bit index 1"

definition expected_result :: "search_operation \<Rightarrow> lin_result option" where
  "expected_result candidate = (if so_required candidate then cp_result (the (so_completion candidate)) else None)"

lemma clear_bit_less:
  assumes "(remaining :: u64) AND bit_of i \<noteq> 0"
  shows "unat (remaining AND NOT (bit_of i)) < unat remaining"
proof -
  have "remaining AND NOT (bit_of i) \<noteq> remaining"
  proof
    assume eq: "remaining AND NOT (bit_of i) = remaining"
    have "(remaining AND NOT (bit_of i)) AND bit_of i = 0" by (simp add: and.assoc)
    then show False using assms unfolding eq by contradiction
  qed
  then show ?thesis by (meson order_less_le unat_mono word_and_le2)
qed

text \<open>
  \<open>search\<close>, and the loop over the operations in it.  The loop runs over the indices with their
  operations; its accumulator is \<open>saw_inconclusive\<close>, and a required operation is not omitted.
\<close>

function (sequential)
  search :: "u64 \<Rightarrow> model_state \<Rightarrow> search_context \<Rightarrow> search_outcome \<times> search_context" and
  search_candidates ::
    "(nat \<times> search_operation) list \<Rightarrow> u64 \<Rightarrow> model_state \<Rightarrow> bool \<Rightarrow> search_context \<Rightarrow> search_outcome \<times> search_context" where
  "search remaining state c =
     (if remaining = 0 then (Linearizable, c)
      else if sc_explored c \<ge> li_max_search_states (sc_limits c) then (Inconclusive, c)
      else let c = c\<lparr>sc_explored := sc_explored c + 1\<rparr>; memo = state_key remaining state in
        if memo \<in> sc_dead_states c then (Not_linearizable, c)
        else if card (sc_dead_states c) \<ge> li_max_memo_entries (sc_limits c) then (Inconclusive, c)
        else case search_candidates (List.enumerate 0 (sc_operations c)) remaining state False c of
            (Not_linearizable, c) \<Rightarrow> (Not_linearizable, c\<lparr>sc_dead_states := insert memo (sc_dead_states c)\<rparr>)
          | (outcome, c) \<Rightarrow> (outcome, c))"
| "search_candidates [] remaining state saw_inconclusive c = (if saw_inconclusive then Inconclusive else Not_linearizable, c)"
| "search_candidates ((index, candidate) # candidates) remaining state saw_inconclusive c =
     (if remaining AND bit_of index = 0 then search_candidates candidates remaining state saw_inconclusive c
      else if so_predecessors candidate AND remaining \<noteq> 0 then search_candidates candidates remaining state saw_inconclusive c
      else let after = remaining AND NOT (bit_of index) in
        case (if so_required candidate then (Not_linearizable, c) else search after state c) of
          (Linearizable, c) \<Rightarrow> (Linearizable, c)
        | (omitted, c) \<Rightarrow>
            (case apply_operation state (iv_operation (so_invocation candidate)) (expected_result candidate) of
               None \<Rightarrow> search_candidates candidates remaining state (saw_inconclusive \<or> omitted = Inconclusive) c
             | Some next \<Rightarrow>
                 (case search after next c of
                    (Linearizable, c) \<Rightarrow> (Linearizable, c)
                  | (applied, c) \<Rightarrow> search_candidates candidates remaining state
                      (saw_inconclusive \<or> omitted = Inconclusive \<or> applied = Inconclusive) c)))"
  by pat_completeness auto
termination
  by (relation "inv_image (less_than <*lex*> less_than) (case_sum
     (\<lambda>(remaining, state, c). (unat remaining, Suc (length (sc_operations c))))
     (\<lambda>(candidates, remaining, state, saw, c). (unat remaining, length candidates)))") (auto simp: clear_bit_less)

declare search.simps [simp del]

section \<open>The bounded check\<close>

definition emplace_completion :: "completion \<Rightarrow> (u64, completion) omap \<Rightarrow> (u64, completion) omap" where
  "emplace_completion completion completions =
     (if omap_has completions (cp_operation_id completion) then completions
      else omap_put (cp_operation_id completion) completion completions)"

definition is_get :: "lin_operation \<Rightarrow> bool" where
  "is_get operation = (case operation of Get key \<Rightarrow> True | _ \<Rightarrow> False)"

definition search_operation_of :: "(u64, completion) omap \<Rightarrow> invocation \<Rightarrow> search_operation option" where
  "search_operation_of completions invocation =
     (let found = omap_find completions (iv_operation_id invocation);
          required = (found \<noteq> None \<and> cp_kind (the found) = Succeeded);
          mutating = (\<not> is_get (iv_operation invocation)) in
      if found \<noteq> None \<and> (cp_kind (the found) = Failed \<or> cp_kind (the found) = Timed_out) then None
      else if \<not> required \<and> \<not> mutating then None
      else Some \<lparr>so_invocation = invocation, so_completion = found, so_required = required, so_predecessors = 0\<rparr>)"

definition search_operations :: "history \<Rightarrow> search_operation list" where
  "search_operations h =
     (let completions = fold emplace_completion (hi_completions h) omap_empty in
      sort_key (\<lambda>operation. iv_operation_id (so_invocation operation))
        (List.map_filter (search_operation_of completions) (hi_invocations h)))"

definition add_predecessor :: "search_operation list \<Rightarrow> nat \<Rightarrow> nat \<Rightarrow> u64 \<Rightarrow> u64" where
  "add_predecessor operations later earlier predecessors =
     (if earlier = later then predecessors
      else case so_completion (operations ! earlier) of
        None \<Rightarrow> predecessors
      | Some completion \<Rightarrow>
          if cp_completed_at completion < iv_invoked_at (so_invocation (operations ! later))
          then predecessors OR bit_of earlier else predecessors)"

definition with_predecessors :: "search_operation list \<Rightarrow> search_operation list" where
  "with_predecessors operations =
     map (\<lambda>later. (operations ! later)\<lparr>so_predecessors :=
         fold (add_predecessor operations later) [0..<length operations] (so_predecessors (operations ! later))\<rparr>)
       [0..<length operations]"

definition all_operations :: "nat \<Rightarrow> u64" where
  "all_operations n = (if n = 64 then uint64_max else bit_of n - 1)"

definition check_internal :: "history \<Rightarrow> checker_limits \<Rightarrow> (search_outcome \<times> nat) result" where
  "check_internal h limits =
     and_then (validate_history h) (\<lambda>_.
     if li_max_operations limits = 0 \<or> li_max_search_states limits = 0 \<or> li_max_memo_entries limits = 0
     then Inr (Inconclusive, 0)
     else if length (hi_invocations h) > li_max_operations limits then Inr (Inconclusive, 0)
     else let operations = search_operations h in
       if length operations > 64 then Inr (Inconclusive, 0)
       else let (outcome, c) = search (all_operations (length operations)) initial_model
                \<lparr>sc_operations = with_predecessors operations, sc_limits = limits, sc_explored = 0, sc_dead_states = {}\<rparr> in
         Inr (outcome, sc_explored c))"

definition without :: "history \<Rightarrow> u64 \<Rightarrow> history" where
  "without h operation_id =
     \<lparr>hi_invocations = filter (\<lambda>invocation. iv_operation_id invocation \<noteq> operation_id) (hi_invocations h),
      hi_completions = filter (\<lambda>completion. cp_operation_id completion \<noteq> operation_id) (hi_completions h)\<rparr>"

end
