(* ===== verification/Linear_Search.thy ===== *)
theory Linear_Search
  imports Linearizability
begin

text \<open>
  The search of the linearizability checker is correct: its memo of dead states never hides a
  solution, because the text of a state determines the state, and within its limits it decides
  whether the remaining operations have an order that the sequential model accepts.
\<close>

section \<open>The text of a state\<close>

lemma split_at_separator:
  assumes "a @ s # r = a' @ s # r'" "s \<notin> set a" "s \<notin> set a'"
  shows "a = a' \<and> r = r'"
  using assms
proof (induction a arbitrary: a')
  case Nil
  then show ?case by (cases a') auto
next
  case (Cons x a)
  then show ?case by (cases a') auto
qed

definition hex_char :: "char \<Rightarrow> bool" where
  "hex_char c \<longleftrightarrow> c \<in> set ''0123456789abcdef-''"

lemma nibbles: "unat (drop_bit 4 (b :: byte)) = unat b div 16" "unat (b AND 15 :: byte) = unat b mod 16"
proof -
  show "unat (drop_bit 4 b) = unat b div 16" by (simp add: drop_bit_eq_div unat_div)
  have "b AND 15 = take_bit 4 b" by (simp add: take_bit_eq_mask mask_eq_exp_minus_1)
  then show "unat (b AND 15 :: byte) = unat b mod 16" by (simp add: unat_mod take_bit_eq_mod)
qed

lemma nibble_bounds: "unat (drop_bit 4 (b :: byte)) < 16" "unat (b AND 15 :: byte) < 16"
  using unat_byte_bound[of b] by (simp_all add: nibbles)

text \<open>A property of the sixteen digits is checked by evaluating it on each of them.\<close>

lemma digits_checked: "list_all P [0..<16] \<Longrightarrow> n < 16 \<Longrightarrow> P n"
  by (simp del: upt_rec_numeral add: list_all_iff)

lemma hex_digit_char: "n < 16 \<Longrightarrow> hex_char (hex_digit n) \<and> hex_digit n \<noteq> CHR ''-''"
  by (rule digits_checked) code_simp

lemma hex_digit_inject: "m < 16 \<Longrightarrow> n < 16 \<Longrightarrow> hex_digit m = hex_digit n \<Longrightarrow> m = n"
proof -
  have "distinct ''0123456789abcdef''" by simp
  then show "m < 16 \<Longrightarrow> n < 16 \<Longrightarrow> hex_digit m = hex_digit n \<Longrightarrow> m = n"
    unfolding hex_digit_def by (subst (asm) nth_eq_iff_index_eq) simp_all
qed

text \<open>The digits of one byte; \<open>hex\<close> is the concatenation over the bytes.\<close>

definition hex_byte :: "byte \<Rightarrow> string" where
  "hex_byte b = [hex_digit (unat (drop_bit 4 b)), hex_digit (unat (b AND 15))]"

lemma hex_bytes: "hex bs = (if bs = [] then ''-'' else concat (map hex_byte bs))"
  by (simp add: hex_def hex_byte_def[abs_def])

lemma hex_byte_inject: "hex_byte a = hex_byte b \<Longrightarrow> a = b"
proof -
  assume "hex_byte a = hex_byte b"
  then have "unat a div 16 = unat b div 16" "unat a mod 16 = unat b mod 16"
    using hex_digit_inject nibble_bounds by (simp_all add: hex_byte_def nibbles)
  then show "a = b" by (metis div_mult_mod_eq word_unat_eq_iff)
qed

lemma concat_hex_inject: "concat (map hex_byte xs) = concat (map hex_byte ys) \<Longrightarrow> xs = ys"
proof (induction xs arbitrary: ys)
  case Nil
  then show ?case by (cases ys) (simp_all add: hex_byte_def)
next
  case (Cons x xs)
  then show ?case
  proof (cases ys)
    case Nil
    then show ?thesis using Cons.prems by (simp add: hex_byte_def)
  next
    case (Cons y ys')
    then have "hex_byte x @ concat (map hex_byte xs) = hex_byte y @ concat (map hex_byte ys')" using Cons.prems by simp
    then have "hex_byte x = hex_byte y" "concat (map hex_byte xs) = concat (map hex_byte ys')" by (simp_all add: hex_byte_def)
    then show ?thesis using Cons.IH hex_byte_inject Cons by simp
  qed
qed

lemma hex_nonempty: "bs \<noteq> [] \<Longrightarrow> hex bs = hex_digit (unat (drop_bit 4 (hd bs))) # tl (hex bs)"
  by (cases bs) (simp_all add: hex_bytes hex_byte_def)

lemma hex_inject: "hex xs = hex ys \<Longrightarrow> xs = ys"
proof (cases "xs = [] \<or> ys = []")
  case True
  assume eq: "hex xs = hex ys"
  have "hd (hex bs) \<noteq> CHR ''-''" if "bs \<noteq> []" for bs
    using hex_nonempty[OF that] hex_digit_char[OF nibble_bounds(1)] by (metis list.sel(1))
  moreover have "hd (hex []) = CHR ''-''" by (simp add: hex_bytes)
  ultimately show ?thesis using True eq by metis
next
  case False
  assume "hex xs = hex ys"
  then show ?thesis using False concat_hex_inject by (simp add: hex_bytes)
qed

lemma hex_chars: "c \<in> set (hex bs) \<Longrightarrow> hex_char c"
  using hex_digit_char nibble_bounds by (auto simp: hex_bytes hex_byte_def hex_char_def split: if_splits)

lemma separators:
  "CHR ''|'' \<notin> set (hex bs)" "CHR ''='' \<notin> set (hex bs)" "CHR ''@'' \<notin> set (hex bs)"
  using hex_chars by (auto simp: hex_char_def)

lemma number_separators: "CHR ''|'' \<notin> set (show_number 10 n)" "CHR ''|'' \<notin> set (show_int v)"
proof -
  show number: "CHR ''|'' \<notin> set (show_number 10 n)" for n
  proof
    assume "CHR ''|'' \<in> set (show_number 10 n)"
    then have "is_digit (CHR ''|'')" by (rule show_number_digits)
    then show False by (simp add: is_digit_def)
  qed
  show "CHR ''|'' \<notin> set (show_int v)" using number by (auto simp: show_int_def)
qed

text \<open>What follows an entry is nothing or begins with the separator of entries.\<close>

lemma int_text_inject:
  assumes "show_int v @ r = show_int w @ r'" "r = [] \<or> hd r = CHR ''|''" "r' = [] \<or> hd r' = CHR ''|''"
  shows "v = w \<and> r = r'"
proof -
  have take: "takeWhile (\<lambda>c. c \<noteq> CHR ''|'') (show_int u @ s) = show_int u" if "s = [] \<or> hd s = CHR ''|''" for u s
    using that number_separators(2)[of u] by (cases s) (auto simp: takeWhile_append intro!: takeWhile_eq_all_conv[THEN iffD2])
  then have "show_int v = show_int w" using assms by metis
  then show ?thesis using assms(1) by (simp add: show_int_inject)
qed

lemma entry_text_inject:
  assumes "entry_text (k, v) @ r = entry_text (l, w) @ r'" "r = [] \<or> hd r = CHR ''|''" "r' = [] \<or> hd r' = CHR ''|''"
  shows "k = l \<and> v = w \<and> r = r'"
proof -
  have "hex k @ CHR ''='' # (hex (vv_value v) @ CHR ''@'' # (show_int (vv_modification_revision v) @ r))
      = hex l @ CHR ''='' # (hex (vv_value w) @ CHR ''@'' # (show_int (vv_modification_revision w) @ r'))"
    using assms(1) by (simp add: entry_text_def)
  from split_at_separator[OF this separators(2) separators(2)]
  have k: "hex k = hex l" and rest: "hex (vv_value v) @ CHR ''@'' # (show_int (vv_modification_revision v) @ r)
      = hex (vv_value w) @ CHR ''@'' # (show_int (vv_modification_revision w) @ r')" by simp_all
  from split_at_separator[OF rest separators(3) separators(3)]
  have "hex (vv_value v) = hex (vv_value w)" "show_int (vv_modification_revision v) @ r = show_int (vv_modification_revision w) @ r'"
    by simp_all
  then show ?thesis using k hex_inject int_text_inject[OF _ assms(2,3)] by (cases v, cases w) auto
qed

lemma entries_text_inject:
  "concat (map entry_text xs) = concat (map entry_text ys) \<Longrightarrow> xs = ys"
proof (induction xs arbitrary: ys)
  case Nil
  then show ?case by (cases ys) (simp_all add: entry_text_def)
next
  case (Cons x xs)
  have bar: "concat (map entry_text zs) = [] \<or> hd (concat (map entry_text zs)) = CHR ''|''" for zs
    by (cases zs) (simp_all add: entry_text_def)
  show ?case
  proof (cases ys)
    case Nil
    then show ?thesis using Cons.prems by (simp add: entry_text_def)
  next
    case (Cons y ys')
    then have "entry_text (fst x, snd x) @ concat (map entry_text xs) = entry_text (fst y, snd y) @ concat (map entry_text ys')"
      using Cons.prems by simp
    from entry_text_inject[OF this bar bar] show ?thesis using Cons.IH Cons by (simp add: prod_eq_iff)
  qed
qed

lemma state_key_inject: "state_key r s = state_key r' s' \<longleftrightarrow> r = r' \<and> s = s'"
proof
  assume "state_key r s = state_key r' s'"
  then have eq: "show_number 10 (unat r) @ CHR ''|'' # (show_int (ms_revision s) @ concat (map entry_text (omap_items (ms_values s))))
      = show_number 10 (unat r') @ CHR ''|'' # (show_int (ms_revision s') @ concat (map entry_text (omap_items (ms_values s'))))"
    by (simp add: state_key_def)
  have bar: "concat (map entry_text zs) = [] \<or> hd (concat (map entry_text zs)) = CHR ''|''" for zs
    by (cases zs) (simp_all add: entry_text_def)
  from split_at_separator[OF eq number_separators(1) number_separators(1)]
  have "unat r = unat r'" "ms_revision s = ms_revision s'" "omap_items (ms_values s) = omap_items (ms_values s')"
    using int_text_inject[OF _ bar bar] entries_text_inject by (auto simp: show_number_inject)
  then show "r = r' \<and> s = s'" by (cases s, cases s') (simp add: word_unat_eq_iff omap_eq_iff)
qed simp

section \<open>What the search decides\<close>

text \<open>
  The remaining operations can be worked off: each of them, after its predecessors, is either
  performed with its expected result or, if it is not required, omitted.
\<close>

inductive solvable :: "search_operation list \<Rightarrow> u64 \<Rightarrow> model_state \<Rightarrow> bool" for operations where
  solved: "solvable operations 0 state"
| omit: "i < length operations \<Longrightarrow> remaining AND bit_of i \<noteq> 0 \<Longrightarrow> so_predecessors (operations ! i) AND remaining = 0 \<Longrightarrow>
     \<not> so_required (operations ! i) \<Longrightarrow> solvable operations (remaining AND NOT (bit_of i)) state \<Longrightarrow>
     solvable operations remaining state"
| perform: "i < length operations \<Longrightarrow> remaining AND bit_of i \<noteq> 0 \<Longrightarrow> so_predecessors (operations ! i) AND remaining = 0 \<Longrightarrow>
     apply_operation state (iv_operation (so_invocation (operations ! i))) (expected_result (operations ! i)) = Some state' \<Longrightarrow>
     solvable operations (remaining AND NOT (bit_of i)) state' \<Longrightarrow> solvable operations remaining state"

definition memo_ok :: "search_context \<Rightarrow> bool" where
  "memo_ok c \<longleftrightarrow> (\<forall>r s. state_key r s \<in> sc_dead_states c \<longrightarrow> \<not> solvable (sc_operations c) r s)"

text \<open>No candidate of the list leads to a solution.\<close>

definition no_candidate :: "search_operation list \<Rightarrow> (nat \<times> search_operation) list \<Rightarrow> u64 \<Rightarrow> model_state \<Rightarrow> bool" where
  "no_candidate operations candidates remaining state \<longleftrightarrow>
     (\<forall>(i, candidate) \<in> set candidates. remaining AND bit_of i \<noteq> 0 \<longrightarrow> so_predecessors candidate AND remaining = 0 \<longrightarrow>
        (so_required candidate \<or> \<not> solvable operations (remaining AND NOT (bit_of i)) state)
        \<and> (\<forall>state'. apply_operation state (iv_operation (so_invocation candidate)) (expected_result candidate) = Some state'
            \<longrightarrow> \<not> solvable operations (remaining AND NOT (bit_of i)) state'))"

lemma no_candidate_simps [simp]:
  "no_candidate operations [] remaining state"
  "no_candidate operations ((i, candidate) # candidates) remaining state \<longleftrightarrow>
     (remaining AND bit_of i \<noteq> 0 \<longrightarrow> so_predecessors candidate AND remaining = 0 \<longrightarrow>
        (so_required candidate \<or> \<not> solvable operations (remaining AND NOT (bit_of i)) state)
        \<and> (\<forall>state'. apply_operation state (iv_operation (so_invocation candidate)) (expected_result candidate) = Some state'
            \<longrightarrow> \<not> solvable operations (remaining AND NOT (bit_of i)) state'))
     \<and> no_candidate operations candidates remaining state"
  by (simp_all add: no_candidate_def)

lemma no_candidate_unsolvable:
  assumes "no_candidate operations (List.enumerate 0 operations) remaining state" "remaining \<noteq> 0"
  shows "\<not> solvable operations remaining state"
proof
  assume "solvable operations remaining state"
  then show False
  proof cases
    case solved
    then show False using assms(2) by simp
  next
    case (omit i)
    then have "(i, operations ! i) \<in> set (List.enumerate 0 operations)" by (simp add: in_set_enumerate_eq)
    then show False using assms(1) omit unfolding no_candidate_def by blast
  next
    case (perform i state')
    then have "(i, operations ! i) \<in> set (List.enumerate 0 operations)" by (simp add: in_set_enumerate_eq)
    then show False using assms(1) perform unfolding no_candidate_def by blast
  qed
qed

text \<open>What a call of the search establishes.\<close>

definition decided :: "search_context \<Rightarrow> u64 \<Rightarrow> model_state \<Rightarrow> search_outcome \<times> search_context \<Rightarrow> bool" where
  "decided c remaining state r \<longleftrightarrow> (case r of (outcome, c') \<Rightarrow>
     sc_operations c' = sc_operations c \<and> memo_ok c'
     \<and> (outcome = Linearizable \<longrightarrow> solvable (sc_operations c) remaining state)
     \<and> (outcome = Not_linearizable \<longrightarrow> \<not> solvable (sc_operations c) remaining state))"

definition decided_candidates ::
    "search_context \<Rightarrow> (nat \<times> search_operation) list \<Rightarrow> u64 \<Rightarrow> model_state \<Rightarrow> bool \<Rightarrow> search_outcome \<times> search_context \<Rightarrow> bool" where
  "decided_candidates c candidates remaining state saw r \<longleftrightarrow> (case r of (outcome, c') \<Rightarrow>
     sc_operations c' = sc_operations c \<and> memo_ok c'
     \<and> (outcome = Linearizable \<longrightarrow> solvable (sc_operations c) remaining state)
     \<and> (outcome = Not_linearizable \<longrightarrow> \<not> saw \<and> no_candidate (sc_operations c) candidates remaining state))"

lemma decidedD:
  assumes "decided c remaining state (outcome, c')"
  shows "sc_operations c' = sc_operations c" "memo_ok c'"
    "outcome = Linearizable \<Longrightarrow> solvable (sc_operations c) remaining state"
    "outcome = Not_linearizable \<Longrightarrow> \<not> solvable (sc_operations c) remaining state"
  using assms by (simp_all add: decided_def)

lemma decided_candidatesI:
  assumes "decided_candidates c1 candidates remaining state saw1 r" "sc_operations c1 = sc_operations c" "saw \<Longrightarrow> saw1"
    and "\<not> saw1 \<Longrightarrow> no_candidate (sc_operations c) [(i, candidate)] remaining state"
  shows "decided_candidates c ((i, candidate) # candidates) remaining state saw r"
  using assms by (auto simp: decided_candidates_def)

text \<open>The ways an eligible candidate can end: found when omitted or when performed, or the loop goes on.\<close>

lemma eligible_candidate:
  assumes "remaining AND bit_of i \<noteq> 0" "so_predecessors candidate AND remaining = 0"
  obtains (omit) c1 where "\<not> so_required candidate" "search (remaining AND NOT (bit_of i)) state c = (Linearizable, c1)"
      "search_candidates ((i, candidate) # candidates) remaining state saw c = (Linearizable, c1)"
  | (refuse) omitted c1 where
      "so_required candidate \<and> (omitted, c1) = (Not_linearizable, c)
       \<or> \<not> so_required candidate \<and> search (remaining AND NOT (bit_of i)) state c = (omitted, c1) \<and> omitted \<noteq> Linearizable"
      "apply_operation state (iv_operation (so_invocation candidate)) (expected_result candidate) = None"
      "search_candidates ((i, candidate) # candidates) remaining state saw c =
         search_candidates candidates remaining state (saw \<or> omitted = Inconclusive) c1"
  | (perform) omitted c1 state' applied c2 where
      "so_required candidate \<and> (omitted, c1) = (Not_linearizable, c)
       \<or> \<not> so_required candidate \<and> search (remaining AND NOT (bit_of i)) state c = (omitted, c1) \<and> omitted \<noteq> Linearizable"
      "apply_operation state (iv_operation (so_invocation candidate)) (expected_result candidate) = Some state'"
      "search (remaining AND NOT (bit_of i)) state' c1 = (applied, c2)"
      "search_candidates ((i, candidate) # candidates) remaining state saw c =
         (if applied = Linearizable then (Linearizable, c2)
          else search_candidates candidates remaining state (saw \<or> omitted = Inconclusive \<or> applied = Inconclusive) c2)"
proof -
  let ?omit = "if so_required candidate then (Not_linearizable, c) else search (remaining AND NOT (bit_of i)) state c"
  let ?apply = "apply_operation state (iv_operation (so_invocation candidate)) (expected_result candidate)"
  obtain omitted c1 where o: "?omit = (omitted, c1)" by (cases ?omit)
  note unfold = search_candidates.simps(2)[of i candidate candidates remaining state saw c, unfolded Let_def o]
  show thesis
  proof (cases "omitted = Linearizable")
    case True
    then show thesis using omit[of c1] o assms unfold by (simp split: if_splits)
  next
    case False
    then have how: "so_required candidate \<and> (omitted, c1) = (Not_linearizable, c)
       \<or> \<not> so_required candidate \<and> search (remaining AND NOT (bit_of i)) state c = (omitted, c1) \<and> omitted \<noteq> Linearizable"
      using o by (auto split: if_splits)
    show thesis
    proof (cases ?apply)
      case None
      then show thesis using refuse[OF how None] unfold assms False by (cases omitted) simp_all
    next
      case (Some state')
      obtain applied c2 where a: "search (remaining AND NOT (bit_of i)) state' c1 = (applied, c2)"
        by (cases "search (remaining AND NOT (bit_of i)) state' c1")
      show thesis using perform[OF how Some a] unfold assms False Some a by (cases omitted; cases applied) simp_all
    qed
  qed
qed

lemma search_candidates_decide:
  assumes search: "\<And>after s c. unat after < unat remaining \<Longrightarrow> memo_ok c \<Longrightarrow> decided c after s (search after s c)"
    and "memo_ok c" "set candidates \<subseteq> set (List.enumerate 0 (sc_operations c))"
  shows "decided_candidates c candidates remaining state saw (search_candidates candidates remaining state saw c)"
  using assms(2,3)
proof (induction candidates arbitrary: saw c)
  case Nil
  then show ?case by (simp add: decided_candidates_def)
next
  case (Cons p candidates)
  obtain i candidate where p: "p = (i, candidate)" by (cases p)
  let ?after = "remaining AND NOT (bit_of i)"
  have i: "i < length (sc_operations c)" "candidate = sc_operations c ! i"
    using Cons.prems(2) by (auto simp: p in_set_enumerate_eq)
  have rest: "decided_candidates c1 candidates remaining state saw1 (search_candidates candidates remaining state saw1 c1)"
    if "memo_ok c1" "sc_operations c1 = sc_operations c" for saw1 c1
    using Cons.IH[OF that(1)] Cons.prems(2) that(2) by simp
  show ?case
  proof (cases "remaining AND bit_of i = 0 \<or> so_predecessors candidate AND remaining \<noteq> 0")
    case True
    then have "search_candidates (p # candidates) remaining state saw c = search_candidates candidates remaining state saw c"
      by (auto simp: p)
    then show ?thesis using decided_candidatesI[OF rest[OF Cons.prems(1) refl]] True by (auto simp: p)
  next
    case False
    then have bits: "remaining AND bit_of i \<noteq> 0" "so_predecessors candidate AND remaining = 0" by simp_all
    note smaller = search[OF clear_bit_less[OF bits(1)]]
    have omitted: "sc_operations c1 = sc_operations c" "memo_ok c1"
      "omitted = Not_linearizable \<Longrightarrow> so_required candidate \<or> \<not> solvable (sc_operations c) ?after state"
      if "so_required candidate \<and> (omitted, c1) = (Not_linearizable, c)
       \<or> \<not> so_required candidate \<and> search ?after state c = (omitted, c1) \<and> omitted \<noteq> Linearizable" for omitted c1
      using that smaller[OF Cons.prems(1), of state] Cons.prems(1) by (auto simp: decided_def)
    from bits show ?thesis unfolding p
    proof (cases rule: eligible_candidate[where state = state and candidates = candidates and saw = saw and c = c])
      case (omit c1)
      have "decided c ?after state (Linearizable, c1)" using smaller[OF Cons.prems(1), of state] omit(2) by simp
      then show "decided_candidates c ((i, candidate) # candidates) remaining state saw
          (search_candidates ((i, candidate) # candidates) remaining state saw c)"
        using omit solvable.omit[OF i(1)] bits i(2) by (simp add: decided_def decided_candidates_def)
    next
      case (refuse omitted c1)
      note o = omitted[OF refuse(1)]
      show "decided_candidates c ((i, candidate) # candidates) remaining state saw
          (search_candidates ((i, candidate) # candidates) remaining state saw c)"
        unfolding refuse(3) using refuse(1,2) o(3)
        by (intro decided_candidatesI[OF rest[OF o(2,1)] o(1)]) (cases omitted; auto)+
    next
      case (perform omitted c1 state' applied c2)
      note o = omitted[OF perform(1)]
      have "decided c1 ?after state' (applied, c2)" using smaller[OF o(2), of state'] perform(3) by simp
      note a = decidedD[OF this, unfolded o(1)]
      show "decided_candidates c ((i, candidate) # candidates) remaining state saw
          (search_candidates ((i, candidate) # candidates) remaining state saw c)"
      proof (cases "applied = Linearizable")
        case True
        then show ?thesis unfolding perform(4)
          using a solvable.perform[OF i(1) bits(1)] bits(2) perform(2) i(2) by (simp add: decided_candidates_def)
      next
        case False
        then show ?thesis unfolding perform(4) if_not_P[OF False] using perform(1,2) o(3) a(4)
          by (intro decided_candidatesI[OF rest[OF a(2,1)] a(1)]) (cases omitted; cases applied; auto)+
      qed
    qed
  qed
qed

lemma search_decides: "memo_ok c \<Longrightarrow> decided c remaining state (search remaining state c)"
proof (induction "unat remaining" arbitrary: remaining state c rule: less_induct)
  case less
  let ?c = "c\<lparr>sc_explored := sc_explored c + 1\<rparr>" and ?memo = "state_key remaining state"
  let ?r = "search_candidates (List.enumerate 0 (sc_operations ?c)) remaining state False ?c"
  have memo: "memo_ok ?c" using less.prems by (simp add: memo_ok_def)
  consider "remaining = 0" | "remaining \<noteq> 0" "sc_explored c \<ge> li_max_search_states (sc_limits c)"
    | "remaining \<noteq> 0" "\<not> sc_explored c \<ge> li_max_search_states (sc_limits c)" "?memo \<in> sc_dead_states ?c"
    | "remaining \<noteq> 0" "\<not> sc_explored c \<ge> li_max_search_states (sc_limits c)" "?memo \<notin> sc_dead_states ?c"
      "card (sc_dead_states ?c) \<ge> li_max_memo_entries (sc_limits ?c)"
    | "remaining \<noteq> 0" "\<not> sc_explored c \<ge> li_max_search_states (sc_limits c)" "?memo \<notin> sc_dead_states ?c"
      "\<not> card (sc_dead_states ?c) \<ge> li_max_memo_entries (sc_limits ?c)"
    by blast
  then show ?case
  proof cases
    case 5
    obtain outcome c' where r: "?r = (outcome, c')" by (cases ?r)
    have "decided_candidates ?c (List.enumerate 0 (sc_operations ?c)) remaining state False ?r"
      by (rule search_candidates_decide[OF less.hyps memo]) simp_all
    then have d: "sc_operations c' = sc_operations c" "memo_ok c'"
      "outcome = Linearizable \<Longrightarrow> solvable (sc_operations c) remaining state"
      "outcome = Not_linearizable \<Longrightarrow> \<not> solvable (sc_operations c) remaining state"
      unfolding r using no_candidate_unsolvable[OF _ 5(1)] by (auto simp: decided_candidates_def)
    have "memo_ok (c'\<lparr>sc_dead_states := insert ?memo (sc_dead_states c')\<rparr>)" if "outcome = Not_linearizable"
      using d(1,2) d(4)[OF that] by (auto simp: memo_ok_def state_key_inject)
    moreover have "search remaining state c = (case (outcome, c') of
        (Not_linearizable, c) \<Rightarrow> (Not_linearizable, c\<lparr>sc_dead_states := insert ?memo (sc_dead_states c)\<rparr>)
      | (outcome, c) \<Rightarrow> (outcome, c))"
      unfolding search.simps[of remaining state c] Let_def r
      by (simp only: 5(1)[THEN eq_False[THEN iffD2]] 5(2-4)[THEN eq_False[THEN iffD2]] if_False)
    ultimately show ?thesis
      using d by (cases outcome) (auto simp: decided_def)
  qed (use less.prems memo in \<open>simp_all add: search.simps Let_def decided_def memo_ok_def solved\<close>)
qed

section \<open>The limits\<close>

text \<open>
  The search stops undecided only after it has used up a limit.  Every dead state belongs to an
  explored one, so that the number of explored states bounds the memo.
\<close>

definition grown :: "search_context \<Rightarrow> search_context \<Rightarrow> bool" where
  "grown c c' \<longleftrightarrow> sc_limits c' = sc_limits c \<and> sc_operations c' = sc_operations c \<and> sc_explored c \<le> sc_explored c'
     \<and> sc_explored c' \<le> max (sc_explored c) (li_max_search_states (sc_limits c))
     \<and> finite (sc_dead_states c') \<and> card (sc_dead_states c') + sc_explored c \<le> card (sc_dead_states c) + sc_explored c'
     \<and> card (sc_dead_states c) \<le> card (sc_dead_states c')"

definition exhausted :: "search_context \<Rightarrow> bool" where
  "exhausted c \<longleftrightarrow> sc_explored c \<ge> li_max_search_states (sc_limits c) \<or> card (sc_dead_states c) \<ge> li_max_memo_entries (sc_limits c)"

lemma grown_refl: "finite (sc_dead_states c) \<Longrightarrow> grown c c"
  by (simp add: grown_def)

lemma grown_trans: "grown a b \<Longrightarrow> grown b c \<Longrightarrow> grown a c"
  unfolding grown_def by (elim conjE, intro conjI) simp_all

lemma grown_finite: "grown a b \<Longrightarrow> finite (sc_dead_states b)"
  by (simp add: grown_def)

lemma exhausted_grown: "exhausted a \<Longrightarrow> grown a b \<Longrightarrow> exhausted b"
  by (auto simp: exhausted_def grown_def)

text \<open>What a call of the search or of its loop leaves of the limits.\<close>

definition bounded :: "search_context \<Rightarrow> search_outcome \<times> search_context \<Rightarrow> bool" where
  "bounded c r \<longleftrightarrow> grown c (snd r) \<and> (fst r = Inconclusive \<longrightarrow> exhausted (snd r))"

lemma bounded_grown: "grown a b \<Longrightarrow> bounded b r \<Longrightarrow> bounded a r"
  using grown_trans by (auto simp: bounded_def)

lemma search_candidates_bounded:
  assumes search: "\<And>after s c. unat after < unat remaining \<Longrightarrow> finite (sc_dead_states c) \<Longrightarrow> bounded c (search after s c)"
    and "finite (sc_dead_states c)" "saw \<longrightarrow> exhausted c"
  shows "bounded c (search_candidates candidates remaining state saw c)"
  using assms(2,3)
proof (induction candidates arbitrary: saw c)
  case Nil
  then show ?case by (simp add: bounded_def grown_refl)
next
  case (Cons p candidates)
  obtain i candidate where p: "p = (i, candidate)" by (cases p)
  let ?after = "remaining AND NOT (bit_of i)"
  show ?case
  proof (cases "remaining AND bit_of i = 0 \<or> so_predecessors candidate AND remaining \<noteq> 0")
    case True
    then show ?thesis using Cons by (auto simp: p)
  next
    case False
    then have bits: "remaining AND bit_of i \<noteq> 0" "so_predecessors candidate AND remaining = 0" by simp_all
    note smaller = search[OF clear_bit_less[OF bits(1)]]
    have omitted: "bounded c (omitted, c1)"
      if "so_required candidate \<and> (omitted, c1) = (Not_linearizable, c)
       \<or> \<not> so_required candidate \<and> search ?after state c = (omitted, c1) \<and> omitted \<noteq> Linearizable" for omitted c1
      using that smaller[OF Cons.prems(1), of state] grown_refl[OF Cons.prems(1)] by (auto simp: bounded_def)
    have loop: "bounded c (search_candidates candidates remaining state saw' c')"
      if "grown c c'" "saw' \<longrightarrow> exhausted c'" for saw' c'
      using bounded_grown[OF that(1) Cons.IH[OF grown_finite[OF that(1)] that(2)]] .
    from bits show ?thesis unfolding p
    proof (cases rule: eligible_candidate[where state = state and candidates = candidates and saw = saw and c = c])
      case (omit c1)
      then show "bounded c (search_candidates ((i, candidate) # candidates) remaining state saw c)"
        using smaller[OF Cons.prems(1), of state] by simp
    next
      case (refuse omitted c1)
      have "grown c c1" "omitted = Inconclusive \<Longrightarrow> exhausted c1" using omitted[OF refuse(1)] by (simp_all add: bounded_def)
      then show "bounded c (search_candidates ((i, candidate) # candidates) remaining state saw c)"
        unfolding refuse(3) using Cons.prems(2) exhausted_grown by (intro loop) auto
    next
      case (perform omitted c1 state' applied c2)
      have o: "grown c c1" "omitted = Inconclusive \<Longrightarrow> exhausted c1" using omitted[OF perform(1)] by (simp_all add: bounded_def)
      have "bounded c1 (applied, c2)" using smaller[OF grown_finite[OF o(1)], of state'] perform(3) by simp
      then have a: "grown c c2" "grown c1 c2" "applied = Inconclusive \<Longrightarrow> exhausted c2"
        using grown_trans[OF o(1)] by (simp_all add: bounded_def)
      show "bounded c (search_candidates ((i, candidate) # candidates) remaining state saw c)"
      proof (cases "applied = Linearizable")
        case True
        then show ?thesis using a(1) perform(4) by (simp add: bounded_def)
      next
        case False
        then show ?thesis unfolding perform(4) if_not_P[OF False] using a o(2) Cons.prems(2) exhausted_grown
          by (intro loop) auto
      qed
    qed
  qed
qed

lemma search_bounded: "finite (sc_dead_states c) \<Longrightarrow> bounded c (search remaining state c)"
proof (induction "unat remaining" arbitrary: remaining state c rule: less_induct)
  case less
  let ?c = "c\<lparr>sc_explored := sc_explored c + 1\<rparr>" and ?memo = "state_key remaining state"
  let ?r = "search_candidates (List.enumerate 0 (sc_operations ?c)) remaining state False ?c"
  obtain outcome c' where r: "?r = (outcome, c')" by (cases ?r)
  have "bounded ?c ?r" by (rule search_candidates_bounded[OF less.hyps]) (simp_all add: less.prems)
  then have c': "grown ?c c'" "outcome = Inconclusive \<Longrightarrow> exhausted c'" unfolding r by (simp_all add: bounded_def)
  show ?case
    using less.prems c' r
    by (subst search.simps) (auto simp: Let_def bounded_def grown_def exhausted_def card_insert_if split: search_outcome.split)
qed

end
