(* ===== verification/Linear_Spec.thy ===== *)
theory Linear_Spec
  imports Linear_Search
begin

text \<open>
  Linearizability of a history, defined without the search: a sequential specification of the
  store, the real-time order of the operations, and the existence of an order of the operations
  that respects both.  The search decides it.
\<close>

section \<open>The sequential specification\<close>

type_synonym store_spec = "revision \<times> (byte_sequence \<rightharpoonup> versioned_value)"

text \<open>One operation: its result and the next state, or nothing if the revision is used up.\<close>

fun sequential :: "lin_operation \<Rightarrow> store_spec \<Rightarrow> (lin_result \<times> store_spec) option" where
  "sequential (Get key) (r, m) = Some (Get_result (m key) r, (r, m))"
| "sequential (Put key val) (r, m) =
     (if r = int64_max then None
      else Some (Put_result (r + 1), (r + 1, m(key \<mapsto> \<lparr>vv_value = val, vv_modification_revision = r + 1\<rparr>))))"
| "sequential (Erase key) (r, m) =
     (if m key = None then Some (Erase_result False r, (r, m))
      else if r = int64_max then None else Some (Erase_result True (r + 1), (r + 1, m(key := None))))"
| "sequential (Compare_and_swap key expected desired) (r, m) =
     (if map_option vv_value (m key) \<noteq> expected then Some (Compare_and_swap_result False r, (r, m))
      else if desired = None \<and> m key = None then Some (Compare_and_swap_result True r, (r, m))
      else if r = int64_max then None
      else Some (Compare_and_swap_result True (r + 1),
        (r + 1, m(key := map_option (\<lambda>val. \<lparr>vv_value = val, vv_modification_revision = r + 1\<rparr>) desired))))"

fun legal :: "(lin_operation \<times> lin_result option) list \<Rightarrow> store_spec \<Rightarrow> bool" where
  "legal [] s = True"
| "legal ((operation, observed) # rest) s =
     (case sequential operation s of
        None \<Rightarrow> False
      | Some (actual, s') \<Rightarrow> (observed = None \<or> observed = Some actual) \<and> legal rest s')"

definition abs_model :: "model_state \<Rightarrow> store_spec" where
  "abs_model state = (ms_revision state, omap_find (ms_values state))"

lemma initial_abs: "abs_model initial_model = (0, Map.empty)"
  by (simp add: abs_model_def initial_model_def fun_eq_iff)

text \<open>The model of the checker implements the sequential specification.\<close>

lemma apply_operation_sequential:
  "(case sequential operation (abs_model state) of
      None \<Rightarrow> apply_operation state operation observed = None
    | Some (actual, s') \<Rightarrow>
        if observed = None \<or> observed = Some actual
        then \<exists>state'. apply_operation state operation observed = Some state' \<and> abs_model state' = s'
        else apply_operation state operation observed = None)"
proof (cases operation)
  case (Compare_and_swap key expected desired)
  have "current_equals state key expected \<longleftrightarrow> map_option vv_value (omap_find (ms_values state) key) = expected"
    by (auto simp: current_equals_def split: option.splits)
  then show ?thesis unfolding Compare_and_swap
    by (cases desired; cases observed) (auto simp: abs_model_def next_revision_def Let_def fun_eq_iff)
qed (cases observed; auto simp: abs_model_def next_revision_def fun_eq_iff)+

lemma legal_apply:
  "legal ((operation, observed) # rest) (abs_model state) \<longleftrightarrow>
     (\<exists>state'. apply_operation state operation observed = Some state' \<and> legal rest (abs_model state'))"
  using apply_operation_sequential[where operation = operation and state = state and observed = observed]
  by (cases "sequential operation (abs_model state)") (auto split: if_splits)

text \<open>A read whose result was not observed may be left out.\<close>

lemma legal_without_reads:
  "legal xs s \<Longrightarrow> legal (filter (\<lambda>(operation, observed). \<not> (is_get operation \<and> observed = None)) xs) s"
proof (induction xs arbitrary: s)
  case (Cons x xs)
  obtain operation observed where x: "x = (operation, observed)" by (cases x)
  show ?case
  proof (cases "is_get operation \<and> observed = None")
    case True
    then obtain key where "operation = Get key" by (cases operation) (auto simp: is_get_def)
    then have "legal xs s" using Cons.prems by (cases s) (simp add: x)
    then show ?thesis using Cons.IH True by (simp add: x)
  next
    case False
    then show ?thesis using Cons by (auto simp: x split: option.splits)
  qed
qed simp

section \<open>Linearizable histories\<close>

definition completion_of :: "history \<Rightarrow> invocation \<Rightarrow> completion option" where
  "completion_of h invocation = find (\<lambda>c. cp_operation_id c = iv_operation_id invocation) (hi_completions h)"

definition succeeded :: "history \<Rightarrow> invocation \<Rightarrow> bool" where
  "succeeded h invocation \<longleftrightarrow> (case completion_of h invocation of None \<Rightarrow> False | Some c \<Rightarrow> cp_kind c = Succeeded)"

definition ineffective :: "history \<Rightarrow> invocation \<Rightarrow> bool" where
  "ineffective h invocation \<longleftrightarrow>
     (case completion_of h invocation of None \<Rightarrow> False | Some c \<Rightarrow> cp_kind c = Failed \<or> cp_kind c = Timed_out)"

definition observed :: "history \<Rightarrow> invocation \<Rightarrow> lin_result option" where
  "observed h invocation = (if succeeded h invocation then cp_result (the (completion_of h invocation)) else None)"

definition precedes :: "history \<Rightarrow> invocation \<Rightarrow> invocation \<Rightarrow> bool" where
  "precedes h earlier later \<longleftrightarrow>
     (case completion_of h earlier of None \<Rightarrow> False | Some c \<Rightarrow> cp_completed_at c < iv_invoked_at later)"

text \<open>
  An order of operations explains a history: it contains every operation that succeeded and no
  operation that is known to have had no effect, an operation that completed before another was
  invoked does not come after it, and the sequential specification gives every observed result.
\<close>

definition linearization :: "history \<Rightarrow> invocation list \<Rightarrow> bool" where
  "linearization h xs \<longleftrightarrow> distinct xs
     \<and> set xs \<subseteq> {i \<in> set (hi_invocations h). \<not> ineffective h i}
     \<and> {i \<in> set (hi_invocations h). succeeded h i} \<subseteq> set xs
     \<and> sorted_wrt (\<lambda>a b. \<not> precedes h b a) xs
     \<and> legal (map (\<lambda>i. (iv_operation i, observed h i)) xs) (0, Map.empty)"

definition linearizable :: "history \<Rightarrow> bool" where
  "linearizable h \<longleftrightarrow> (\<exists>xs. linearization h xs)"

section \<open>Masks as sets of indices\<close>

lemma bit_u64: "bit (r :: u64) j \<Longrightarrow> j < 64"
  using bit_imp_le_length[of r j] by simp

lemma bit_bit_of [simp]: "bit (bit_of i) j \<longleftrightarrow> i = j \<and> j < 64"
  by (auto simp: bit_of_def bit_exp_iff)

lemma and_bit_of: "i < 64 \<Longrightarrow> (r :: u64) AND bit_of i \<noteq> 0 \<longleftrightarrow> bit r i"
  by (auto simp: bit_eq_iff[where ?'a = "64 word"] bit_and_iff)

lemma bit_clear [simp]: "bit ((r :: u64) AND NOT (bit_of i)) j \<longleftrightarrow> bit r j \<and> j \<noteq> i"
  by (auto simp: bit_and_iff bit_not_iff dest: bit_imp_le_length)

lemma and_zero: "(a :: u64) AND b = 0 \<longleftrightarrow> (\<forall>j. \<not> (bit a j \<and> bit b j))"
  using bit_u64 by (simp add: bit_eq_iff[where ?'a = "64 word"] bit_and_iff) blast

lemma all_operations_bits: "n \<le> 64 \<Longrightarrow> bit (all_operations n) j \<longleftrightarrow> j < n"
proof -
  assume n: "n \<le> 64"
  show ?thesis
  proof (cases "n = 64")
    case True
    then show ?thesis by (auto simp: all_operations_def dest: bit_imp_le_length)
  next
    case False
    have "all_operations n = mask n" using False by (simp add: all_operations_def bit_of_def mask_eq_exp_minus_1)
    then show ?thesis using n by (auto simp: bit_mask_iff)
  qed
qed

section \<open>Orders of indices\<close>

definition item :: "search_operation list \<Rightarrow> nat \<Rightarrow> lin_operation \<times> lin_result option" where
  "item operations i = (iv_operation (so_invocation (operations ! i)), expected_result (operations ! i))"

definition before :: "search_operation list \<Rightarrow> nat \<Rightarrow> nat \<Rightarrow> bool" where
  "before operations j i \<longleftrightarrow> bit (so_predecessors (operations ! i)) j"

definition index_order :: "search_operation list \<Rightarrow> u64 \<Rightarrow> model_state \<Rightarrow> nat list \<Rightarrow> bool" where
  "index_order operations remaining state order \<longleftrightarrow> distinct order
     \<and> (\<forall>i \<in> set order. i < length operations \<and> bit remaining i)
     \<and> (\<forall>i < length operations. bit remaining i \<longrightarrow> so_required (operations ! i) \<longrightarrow> i \<in> set order)
     \<and> sorted_wrt (\<lambda>a b. \<not> before operations b a) order
     \<and> legal (map (item operations) order) (abs_model state)"

lemma solvable_order:
  assumes "solvable operations remaining state" "length operations \<le> 64"
  shows "\<exists>order. index_order operations remaining state order"
  using assms(1)
proof induction
  case (solved state)
  then show ?case by (intro exI[of _ "[]"]) (simp add: index_order_def)
next
  case (omit i remaining state)
  from omit.IH obtain order where "index_order operations (remaining AND NOT (bit_of i)) state order" by (rule exE)
  then have "index_order operations remaining state order" unfolding index_order_def bit_clear using omit.hyps(4) by metis
  then show ?case by (rule exI)
next
  case (perform i remaining state state')
  from perform.IH obtain order where order: "index_order operations (remaining AND NOT (bit_of i)) state' order" by (rule exE)
  have bit: "bit remaining i" using perform.hyps(1,2) assms(2) and_bit_of[of i remaining] by simp
  have free: "\<forall>j. bit remaining j \<longrightarrow> \<not> before operations j i"
    using perform.hyps(3) by (auto simp: and_zero before_def)
  note whole = order[unfolded index_order_def bit_clear]
  note parts = whole[THEN conjunct1] whole[THEN conjunct2, THEN conjunct1] whole[THEN conjunct2, THEN conjunct2, THEN conjunct1]
    whole[THEN conjunct2, THEN conjunct2, THEN conjunct2, THEN conjunct1]
    whole[THEN conjunct2, THEN conjunct2, THEN conjunct2, THEN conjunct2]
  have "index_order operations remaining state (i # order)"
    unfolding index_order_def
  proof (intro conjI)
    show "distinct (i # order)" using parts(1,2) by auto
    show "\<forall>j \<in> set (i # order). j < length operations \<and> bit remaining j" using parts(2) perform.hyps(1) bit by simp
    show "\<forall>j < length operations. bit remaining j \<longrightarrow> so_required (operations ! j) \<longrightarrow> j \<in> set (i # order)"
      using parts(3) by (metis list.set_intros)
    show "sorted_wrt (\<lambda>a b. \<not> before operations b a) (i # order)" using parts(2,4) free by simp
    show "legal (map (item operations) (i # order)) (abs_model state)"
      unfolding list.map item_def legal_apply using parts(5) perform.hyps(4) unfolding item_def by blast
  qed
  then show ?case by (rule exI)
qed

text \<open>The order of indices that the predecessors give is irreflexive and transitive.\<close>

definition partial_order :: "search_operation list \<Rightarrow> bool" where
  "partial_order operations \<longleftrightarrow> (\<forall>i < length operations. \<not> before operations i i)
     \<and> (\<forall>i < length operations. \<forall>j < length operations. \<forall>k < length operations.
          before operations i j \<longrightarrow> before operations j k \<longrightarrow> before operations i k)"

lemma minimal_index:
  assumes "partial_order operations" "bit (remaining :: u64) i" "\<forall>j. bit remaining j \<longrightarrow> j < length operations"
  shows "\<exists>m. bit remaining m \<and> (m = i \<or> before operations m i) \<and> (\<forall>j. bit remaining j \<longrightarrow> \<not> before operations j m)"
proof -
  let ?R = "{(j, k). bit remaining j \<and> bit remaining k \<and> before operations j k}"
  have "finite ?R"
    by (rule finite_subset[of _ "{..<64} \<times> {..<64}"]) (auto dest: bit_u64)
  moreover have "trans ?R"
    using assms(1,3) unfolding trans_def partial_order_def by blast
  moreover have "irrefl ?R"
    using assms(1,3) unfolding irrefl_def partial_order_def by blast
  ultimately have "wf ?R" by (simp add: acyclic_irrefl finite_acyclic_wf trancl_id)
  moreover have "i \<in> {m. bit remaining m \<and> (m = i \<or> before operations m i)}" using assms(2) by simp
  ultimately obtain m where m: "bit remaining m" "m = i \<or> before operations m i"
    and least: "\<And>j. (j, m) \<in> ?R \<Longrightarrow> \<not> (bit remaining j \<and> (j = i \<or> before operations j i))"
    by (rule wfE_min) blast
  have "\<not> before operations j m" if j: "bit remaining j" for j
  proof
    assume b: "before operations j m"
    then have "before operations j i" using m j assms unfolding partial_order_def by blast
    then show False using least[of j] b j m(1) by simp
  qed
  then show ?thesis using m by blast
qed

lemma index_order_Cons:
  assumes "index_order operations remaining state (i # order)"
  shows "i < length operations" "bit remaining i"
    "\<exists>state'. apply_operation state (iv_operation (so_invocation (operations ! i))) (expected_result (operations ! i)) = Some state'
       \<and> index_order operations (remaining AND NOT (bit_of i)) state' order"
proof -
  note parts = assms[unfolded index_order_def]
  show "i < length operations" "bit remaining i" using parts by simp_all
  have "legal (item operations i # map (item operations) order) (abs_model state)" using parts by simp
  then obtain state' where
    step: "apply_operation state (iv_operation (so_invocation (operations ! i))) (expected_result (operations ! i)) = Some state'"
    and rest: "legal (map (item operations) order) (abs_model state')"
    unfolding item_def[of operations i] legal_apply by blast
  have "index_order operations (remaining AND NOT (bit_of i)) state' order"
    unfolding index_order_def bit_clear
  proof (intro conjI rest)
    show "distinct order" "sorted_wrt (\<lambda>a b. \<not> before operations b a) order" using parts by simp_all
    show "\<forall>j \<in> set order. j < length operations \<and> bit remaining j \<and> j \<noteq> i" using parts by auto
    show "\<forall>j < length operations. bit remaining j \<and> j \<noteq> i \<longrightarrow> so_required (operations ! j) \<longrightarrow> j \<in> set order"
      using parts by (metis set_ConsD)
  qed
  then show "\<exists>state'. apply_operation state (iv_operation (so_invocation (operations ! i))) (expected_result (operations ! i)) = Some state'
       \<and> index_order operations (remaining AND NOT (bit_of i)) state' order" using step by blast
qed

lemma first_minimal:
  assumes "partial_order operations" "\<forall>j. bit remaining j \<longrightarrow> j < length operations"
    and "index_order operations remaining state (i # order)"
    and "\<And>m. bit remaining m \<and> (\<forall>j. bit remaining j \<longrightarrow> \<not> before operations j m) \<Longrightarrow> m \<in> set (i # order)"
  shows "\<forall>j. bit remaining j \<longrightarrow> \<not> before operations j i"
proof (intro allI impI notI)
  fix j
  assume j: "bit remaining j" "before operations j i"
  obtain m where m: "bit remaining m" "m = j \<or> before operations m j" "\<forall>l. bit remaining l \<longrightarrow> \<not> before operations l m"
    using minimal_index[OF assms(1) j(1) assms(2)] by blast
  have i: "i < length operations" "bit remaining i" by (rule index_order_Cons(1,2)[OF assms(3)])+
  have below: "before operations m i" using m j assms(1,2) i(1) unfolding partial_order_def by blast
  then have "m \<noteq> i" using assms(1) i(1) unfolding partial_order_def by blast
  then have "m \<in> set order" using assms(4)[of m] m by simp
  then show False using below assms(3)[unfolded index_order_def] by simp
qed

lemma order_solvable:
  assumes "partial_order operations" "length operations \<le> 64"
    and "\<forall>j. bit remaining j \<longrightarrow> j < length operations" "index_order operations remaining state order"
  shows "solvable operations remaining state"
  using assms(3,4)
proof (induction "unat remaining" arbitrary: remaining state order rule: less_induct)
  case less
  show ?case
  proof (cases "remaining = 0")
    case True
    then show ?thesis by (simp add: solved)
  next
    case False
    then obtain i0 where i0: "bit remaining i0" by (auto simp: bit_eq_iff[where ?'a = "64 word"])
    let ?minimal = "\<lambda>m. bit remaining m \<and> (\<forall>j. bit remaining j \<longrightarrow> \<not> before operations j m)"
    have ready: "m < length operations" "remaining AND bit_of m \<noteq> 0" "so_predecessors (operations ! m) AND remaining = 0"
      "unat (remaining AND NOT (bit_of m)) < unat remaining" if "?minimal m" for m
    proof -
      show "m < length operations" "remaining AND bit_of m \<noteq> 0"
        using that less.prems(1) assms(2) and_bit_of[of m remaining] by auto
      then show "unat (remaining AND NOT (bit_of m)) < unat remaining" using clear_bit_less by blast
      show "so_predecessors (operations ! m) AND remaining = 0" using that by (auto simp: and_zero before_def)
    qed
    show ?thesis
    proof (cases "\<exists>m. ?minimal m \<and> m \<notin> set order")
      case True
      then obtain m where m: "?minimal m" "m \<notin> set order" by blast
      have "index_order operations (remaining AND NOT (bit_of m)) state order"
        using less.prems(2) m(2) by (auto simp: index_order_def)
      then have "solvable operations (remaining AND NOT (bit_of m)) state"
        using less.hyps ready(4)[OF m(1)] less.prems(1) by simp
      moreover have "\<not> so_required (operations ! m)"
        using less.prems(2) m ready(1)[OF m(1)] by (auto simp: index_order_def)
      ultimately show ?thesis using solvable.omit ready[OF m(1)] by blast
    next
      case False
      then have minimal: "m \<in> set order" if "?minimal m" for m using that by blast
      obtain m0 where "?minimal m0" using minimal_index[OF assms(1) i0 less.prems(1)] by blast
      then have "order \<noteq> []" using minimal by fastforce
      then obtain i order' where order: "order = i # order'" by (cases order) simp_all
      have first: "?minimal i"
        using first_minimal[OF assms(1) less.prems(1) less.prems(2)[unfolded order] minimal[unfolded order]]
          index_order_Cons(2)[OF less.prems(2)[unfolded order]] by blast
      obtain state' where
        "apply_operation state (iv_operation (so_invocation (operations ! i))) (expected_result (operations ! i)) = Some state'"
        "index_order operations (remaining AND NOT (bit_of i)) state' order'"
        using index_order_Cons(3)[OF less.prems(2)[unfolded order]] by blast
      moreover from this(2) have "solvable operations (remaining AND NOT (bit_of i)) state'"
        using less.hyps ready(4)[OF first] less.prems(1) by simp
      ultimately show ?thesis using solvable.perform ready[OF first] by blast
    qed
  qed
qed

end
