(* ===== verification/Linear_Decision.thy ===== *)
theory Linear_Decision
  imports Linear_Spec
begin

text \<open>
  Which histories the checker accepts as well formed, and that the operations it collects from
  such a history, with their predecessor masks, have a solution exactly if the history is
  linearizable.
\<close>

section \<open>Valid histories\<close>

definition valid_invocation :: "invocation \<Rightarrow> bool" where
  "valid_invocation i \<longleftrightarrow> iv_operation_id i \<noteq> 0 \<and> iv_client_id i \<noteq> 0 \<and> op_key (iv_operation i) \<noteq> []"

definition valid_history :: "history \<Rightarrow> bool" where
  "valid_history h \<longleftrightarrow> (\<forall>i \<in> set (hi_invocations h). valid_invocation i)
     \<and> distinct (map iv_operation_id (hi_invocations h)) \<and> distinct (map cp_operation_id (hi_completions h))
     \<and> (\<forall>c \<in> set (hi_completions h). \<exists>i \<in> set (hi_invocations h). iv_operation_id i = cp_operation_id c
          \<and> iv_invoked_at i \<le> cp_completed_at c \<and> validate_result (iv_operation i) c = Inr ())"

lemma validate_invocations:
  "fold_result validate_invocation xs m = Inr m' \<longleftrightarrow>
     (\<forall>i \<in> set xs. valid_invocation i \<and> omap_find m (iv_operation_id i) = None) \<and> distinct (map iv_operation_id xs)
     \<and> m' = fold (\<lambda>i. omap_put (iv_operation_id i) i) xs m"
proof (induction xs arbitrary: m)
  case (Cons x xs)
  have step: "validate_invocation x m = Inr m1 \<longleftrightarrow> valid_invocation x \<and> omap_find m (iv_operation_id x) = None
      \<and> m1 = omap_put (iv_operation_id x) x m" for m1
    by (auto simp: validate_invocation_def valid_invocation_def omap_has_def result_simps)
  show ?case by (auto simp: result_simps step Cons.IH image_iff split: if_splits)
qed auto

lemma found_invocation:
  assumes "distinct (map iv_operation_id xs)"
  shows "omap_find (fold (\<lambda>i. omap_put (iv_operation_id i) i) xs m) k = Some i \<longleftrightarrow>
    i \<in> set xs \<and> iv_operation_id i = k \<or> k \<notin> iv_operation_id ` set xs \<and> omap_find m k = Some i"
  using assms by (induction xs arbitrary: m) (auto split: if_splits)

lemma validate_completions:
  "fold_result (validate_completion m) cs s = Inr s' \<longleftrightarrow>
     (\<forall>c \<in> set cs. \<not> oset_member (cp_operation_id c) s \<and> (\<exists>i. omap_find m (cp_operation_id c) = Some i
        \<and> iv_invoked_at i \<le> cp_completed_at c \<and> validate_result (iv_operation i) c = Inr ()))
     \<and> distinct (map cp_operation_id cs) \<and> s' = fold (\<lambda>c. oset_insert (cp_operation_id c)) cs s"
proof (induction cs arbitrary: s)
  case (Cons c cs)
  have step: "validate_completion m c s = Inr s1 \<longleftrightarrow> \<not> oset_member (cp_operation_id c) s
      \<and> (\<exists>i. omap_find m (cp_operation_id c) = Some i \<and> iv_invoked_at i \<le> cp_completed_at c
          \<and> validate_result (iv_operation i) c = Inr ()) \<and> s1 = oset_insert (cp_operation_id c) s" for s1
    by (auto simp: validate_completion_def result_simps split: option.splits)
  show ?case by (auto simp: result_simps step Cons.IH image_iff)
qed auto

lemma validate_history_iff: "validate_history h = Inr () \<longleftrightarrow> valid_history h"
proof (cases "distinct (map iv_operation_id (hi_invocations h))")
  case True
  then show ?thesis
    by (auto simp: validate_history_def valid_history_def result_simps validate_invocations validate_completions found_invocation)
next
  case False
  then show ?thesis by (auto simp: validate_history_def valid_history_def result_simps validate_invocations)
qed

section \<open>The collected operations\<close>

lemma emplaced_completions:
  "omap_find (fold emplace_completion cs m) k =
     (case omap_find m k of Some c \<Rightarrow> Some c | None \<Rightarrow> find (\<lambda>c. cp_operation_id c = k) cs)"
  by (induction cs arbitrary: m) (auto simp: emplace_completion_def omap_has_def split: option.splits)

text \<open>The operations that can appear in a solution: pending and undecided reads are left out.\<close>

definition relevant :: "history \<Rightarrow> invocation \<Rightarrow> bool" where
  "relevant h i \<longleftrightarrow> \<not> ineffective h i \<and> (succeeded h i \<or> \<not> is_get (iv_operation i))"

definition collected :: "history \<Rightarrow> invocation \<Rightarrow> search_operation" where
  "collected h i = \<lparr>so_invocation = i, so_completion = completion_of h i, so_required = succeeded h i, so_predecessors = 0\<rparr>"

lemma search_operation_of_completions:
  "search_operation_of (fold emplace_completion (hi_completions h) omap_empty) i = (if relevant h i then Some (collected h i) else None)"
  by (cases "completion_of h i")
     (auto simp: search_operation_of_def Let_def emplaced_completions completion_of_def[symmetric] relevant_def
       ineffective_def succeeded_def collected_def)

lemma map_filter_if: "List.map_filter (\<lambda>x. if P x then Some (f x) else None) xs = map f (filter P xs)"
  by (induction xs) (simp_all add: List.map_filter_simps)

lemma search_operations_sorted:
  "search_operations h =
     sort_key (\<lambda>p. iv_operation_id (so_invocation p)) (map (collected h) (filter (relevant h) (hi_invocations h)))"
proof -
  have "search_operation_of (fold emplace_completion (hi_completions h) omap_empty)
      = (\<lambda>i. if relevant h i then Some (collected h i) else None)"
    by (rule ext) (rule search_operation_of_completions)
  then show ?thesis by (simp add: search_operations_def map_filter_if)
qed

definition invocation_at :: "history \<Rightarrow> nat \<Rightarrow> invocation" where
  "invocation_at h i = so_invocation (search_operations h ! i)"

lemma search_operations_nth:
  assumes "i < length (search_operations h)"
  shows "search_operations h ! i = collected h (invocation_at h i)"
    "invocation_at h i \<in> set (hi_invocations h)" "relevant h (invocation_at h i)"
proof -
  have "search_operations h ! i \<in> collected h ` {j \<in> set (hi_invocations h). relevant h j}"
    using nth_mem[OF assms] by (simp add: search_operations_sorted)
  then obtain j where "search_operations h ! i = collected h j" "j \<in> set (hi_invocations h)" "relevant h j" by blast
  then show "search_operations h ! i = collected h (invocation_at h i)"
    "invocation_at h i \<in> set (hi_invocations h)" "relevant h (invocation_at h i)"
    by (simp_all add: invocation_at_def collected_def)
qed

lemma invocation_at_onto:
  assumes "j \<in> set (hi_invocations h)" "relevant h j"
  shows "\<exists>i < length (search_operations h). invocation_at h i = j"
proof -
  have "collected h j \<in> set (search_operations h)" using assms by (simp add: search_operations_sorted)
  then obtain i where "i < length (search_operations h)" "search_operations h ! i = collected h j"
    by (auto simp: in_set_conv_nth)
  then show ?thesis by (auto simp: invocation_at_def collected_def)
qed

lemma distinct_map_filter: "distinct (map f xs) \<Longrightarrow> distinct (map f (filter P xs))"
  by (induction xs) auto

lemma invocation_at_inject:
  assumes "valid_history h" "i < length (search_operations h)" "j < length (search_operations h)" "invocation_at h i = invocation_at h j"
  shows "i = j"
proof -
  have "distinct (filter (relevant h) (hi_invocations h))"
    using assms(1) by (simp add: valid_history_def distinct_map)
  moreover have "inj (collected h)" by (auto simp: inj_def collected_def)
  ultimately have "distinct (search_operations h)"
    by (simp add: search_operations_sorted distinct_map inj_on_subset[where A = UNIV])
  then show ?thesis
    using assms(2-4) search_operations_nth(1) by (metis nth_eq_iff_index_eq)
qed

section \<open>Predecessors\<close>

lemma with_predecessors_length [simp]: "length (with_predecessors operations) = length operations"
  by (simp add: with_predecessors_def)

lemma with_predecessors_nth:
  assumes "i < length operations"
  shows "so_invocation (with_predecessors operations ! i) = so_invocation (operations ! i)"
    "so_completion (with_predecessors operations ! i) = so_completion (operations ! i)"
    "so_required (with_predecessors operations ! i) = so_required (operations ! i)"
    "so_predecessors (with_predecessors operations ! i) =
       fold (add_predecessor operations i) [0..<length operations] (so_predecessors (operations ! i))"
  using assms by (simp_all add: with_predecessors_def)

definition finished_before :: "search_operation list \<Rightarrow> nat \<Rightarrow> nat \<Rightarrow> bool" where
  "finished_before operations i j \<longleftrightarrow> j < 64 \<and> j \<noteq> i \<and> (case so_completion (operations ! j) of
     None \<Rightarrow> False | Some c \<Rightarrow> cp_completed_at c < iv_invoked_at (so_invocation (operations ! i)))"

lemma add_predecessor_bit:
  "bit (add_predecessor operations i k m) j \<longleftrightarrow> bit m j \<or> j = k \<and> finished_before operations i j"
  by (cases "so_completion (operations ! k)") (auto simp: add_predecessor_def finished_before_def bit_or_iff)

lemma folded_predecessors:
  "bit (fold (add_predecessor operations i) js m) j \<longleftrightarrow> bit m j \<or> j \<in> set js \<and> finished_before operations i j"
proof (induction js arbitrary: m)
  case (Cons k js)
  then show ?case by (simp add: add_predecessor_bit) blast
qed simp

abbreviation candidates_of :: "history \<Rightarrow> search_operation list" where
  "candidates_of h \<equiv> with_predecessors (search_operations h)"

lemma before_precedes:
  assumes "length (search_operations h) \<le> 64" "i < length (search_operations h)"
  shows "before (candidates_of h) j i \<longleftrightarrow>
    j < length (search_operations h) \<and> j \<noteq> i \<and> precedes h (invocation_at h j) (invocation_at h i)"
proof -
  let ?n = "length (search_operations h)"
  have "so_predecessors (search_operations h ! i) = 0" using search_operations_nth(1)[OF assms(2)] by (simp add: collected_def)
  then have "before (candidates_of h) j i \<longleftrightarrow> j < ?n \<and> finished_before (search_operations h) i j"
    using assms(2) by (simp add: before_def with_predecessors_nth(4) folded_predecessors)
  moreover have "so_completion (search_operations h ! j) = completion_of h (invocation_at h j)" if "j < ?n"
    using search_operations_nth(1)[OF that] by (simp add: collected_def)
  ultimately show ?thesis using assms(1) by (auto simp: precedes_def finished_before_def invocation_at_def)
qed

lemma candidate_item:
  assumes "i < length (search_operations h)"
  shows "item (candidates_of h) i = (iv_operation (invocation_at h i), observed h (invocation_at h i))"
    "so_required (candidates_of h ! i) = succeeded h (invocation_at h i)"
  using search_operations_nth(1)[OF assms] with_predecessors_nth[OF assms]
  by (simp_all add: item_def expected_result_def observed_def collected_def)

section \<open>Solutions are linearizations\<close>

lemma completion_of_valid:
  assumes "valid_history h" "i \<in> set (hi_invocations h)" "completion_of h i = Some c"
  shows "iv_invoked_at i \<le> cp_completed_at c" "validate_result (iv_operation i) c = Inr ()"
proof -
  have c: "c \<in> set (hi_completions h)" "cp_operation_id c = iv_operation_id i"
    using assms(3) by (auto simp: completion_of_def find_Some_iff)
  then obtain j where j: "j \<in> set (hi_invocations h)" "iv_operation_id j = iv_operation_id i"
    "iv_invoked_at j \<le> cp_completed_at c" "validate_result (iv_operation j) c = Inr ()"
    using assms(1) unfolding valid_history_def by metis
  have "inj_on iv_operation_id (set (hi_invocations h))" using assms(1) by (simp add: valid_history_def distinct_map)
  then have "j = i" using j(1,2) assms(2) by (auto dest: inj_onD)
  then show "iv_invoked_at i \<le> cp_completed_at c" "validate_result (iv_operation i) c = Inr ()" using j by simp_all
qed

lemma precedes_irreflexive: "valid_history h \<Longrightarrow> i \<in> set (hi_invocations h) \<Longrightarrow> \<not> precedes h i i"
  using completion_of_valid(1) by (fastforce simp: precedes_def split: option.splits)

lemma precedes_transitive:
  assumes "valid_history h" "b \<in> set (hi_invocations h)" "precedes h a b" "precedes h b c"
  shows "precedes h a c"
  using assms completion_of_valid(1)[OF assms(1,2)] by (fastforce simp: precedes_def split: option.splits)

lemma candidates_partial_order:
  assumes "valid_history h" "length (search_operations h) \<le> 64"
  shows "partial_order (candidates_of h)"
proof -
  have "before (candidates_of h) i k"
    if "i < length (search_operations h)" "j < length (search_operations h)" "k < length (search_operations h)"
      "before (candidates_of h) i j" "before (candidates_of h) j k" for i j k
  proof -
    have "precedes h (invocation_at h i) (invocation_at h j)" "precedes h (invocation_at h j) (invocation_at h k)"
      using that before_precedes[OF assms(2)] by simp_all
    then have "precedes h (invocation_at h i) (invocation_at h k)"
      using precedes_transitive[OF assms(1) search_operations_nth(2)[OF that(2)]] by blast
    moreover have "i \<noteq> k" using calculation precedes_irreflexive[OF assms(1) search_operations_nth(2)[OF that(1)]] by blast
    ultimately show ?thesis using that(1,3) before_precedes[OF assms(2)] by simp
  qed
  moreover have "\<not> before (candidates_of h) i i" if "i < length (search_operations h)" for i
    using before_precedes[OF assms(2) that] by simp
  ultimately show ?thesis unfolding partial_order_def with_predecessors_length by blast
qed

lemma candidate_items:
  "\<forall>i \<in> set order. i < length (search_operations h) \<Longrightarrow>
   map (item (candidates_of h)) order = map (\<lambda>i. (iv_operation i, observed h i)) (map (invocation_at h) order)"
  by (induction order) (simp_all add: candidate_item)

lemma order_linearizes:
  assumes "valid_history h" "length (search_operations h) \<le> 64"
    and "index_order (candidates_of h) (all_operations (length (search_operations h))) initial_model order"
  shows "linearization h (map (invocation_at h) order)"
proof -
  let ?n = "length (search_operations h)"
  note parts = assms(3)[unfolded index_order_def all_operations_bits[OF assms(2)] with_predecessors_length]
  have range: "\<forall>i \<in> set order. i < ?n" using parts by blast
  have "inj_on (invocation_at h) (set order)"
    using invocation_at_inject[OF assms(1)] range by (auto intro: inj_onI)
  then have "distinct (map (invocation_at h) order)" using parts by (simp add: distinct_map)
  moreover have "set (map (invocation_at h) order) \<subseteq> {i \<in> set (hi_invocations h). \<not> ineffective h i}"
    using range search_operations_nth(2,3) by (auto simp: relevant_def)
  moreover have "{i \<in> set (hi_invocations h). succeeded h i} \<subseteq> set (map (invocation_at h) order)"
  proof
    fix j assume j: "j \<in> {i \<in> set (hi_invocations h). succeeded h i}"
    then have "relevant h j" by (auto simp: relevant_def succeeded_def ineffective_def split: option.splits)
    then obtain i where i: "i < ?n" "invocation_at h i = j" using invocation_at_onto j by blast
    then have "i \<in> set order" using parts j candidate_item(2)[OF i(1)] by blast
    then show "j \<in> set (map (invocation_at h) order)" using i(2) by auto
  qed
  moreover have "sorted_wrt (\<lambda>a b. \<not> precedes h b a) (map (invocation_at h) order)"
  proof -
    have "\<not> precedes h (invocation_at h b) (invocation_at h a)"
      if "a \<in> set order" "b \<in> set order" "\<not> before (candidates_of h) b a" for a b
      using that range before_precedes[OF assms(2)] precedes_irreflexive[OF assms(1) search_operations_nth(2)] by metis
    then show ?thesis using parts by (auto simp: sorted_wrt_map intro: sorted_wrt_mono_rel[rotated])
  qed
  moreover have "legal (map (\<lambda>i. (iv_operation i, observed h i)) (map (invocation_at h) order)) (0, Map.empty)"
    using parts candidate_items[OF range] by (simp add: initial_abs)
  ultimately show ?thesis unfolding linearization_def by blast
qed

lemma linearization_without_reads:
  assumes "valid_history h" "linearization h xs"
  shows "legal (map (\<lambda>i. (iv_operation i, observed h i)) (filter (relevant h) xs)) (0, Map.empty)"
proof -
  note parts = assms(2)[unfolded linearization_def]
  have "relevant h i \<longleftrightarrow> \<not> (is_get (iv_operation i) \<and> observed h i = None)" if "i \<in> set xs" for i
  proof -
    have i: "i \<in> set (hi_invocations h)" "\<not> ineffective h i" using parts that by auto
    have "observed h i = None \<longleftrightarrow> \<not> succeeded h i"
      using completion_of_valid(2)[OF assms(1) i(1)]
      by (auto simp: observed_def succeeded_def validate_result_def split: option.splits)
    then show ?thesis using i(2) by (auto simp: relevant_def)
  qed
  then have "map (\<lambda>i. (iv_operation i, observed h i)) (filter (relevant h) xs)
      = filter (\<lambda>(operation, observed). \<not> (is_get operation \<and> observed = None)) (map (\<lambda>i. (iv_operation i, observed h i)) xs)"
    by (simp add: filter_map comp_def cong: filter_cong)
  moreover have "legal (map (\<lambda>i. (iv_operation i, observed h i)) xs) (0, Map.empty)" using parts by blast
  ultimately show ?thesis using legal_without_reads by presburger
qed

lemma linearization_ordered:
  assumes "valid_history h" "length (search_operations h) \<le> 64" "linearization h xs"
  shows "\<exists>order. index_order (candidates_of h) (all_operations (length (search_operations h))) initial_model order"
proof -
  let ?n = "length (search_operations h)"
  note parts = assms(3)[unfolded linearization_def]
  let ?ys = "filter (relevant h) xs"
  have "\<forall>y \<in> set ?ys. \<exists>i. i < ?n \<and> y = invocation_at h i"
    using parts invocation_at_onto by fastforce
  then obtain g where g: "\<forall>y \<in> set ?ys. g y < ?n \<and> y = invocation_at h (g y)" by (metis bchoice)
  define order where "order = map g ?ys"
  have order: "?ys = map (invocation_at h) order" "\<forall>i \<in> set order. i < ?n"
    using g by (auto simp: order_def intro!: map_idI[symmetric])
  have "index_order (candidates_of h) (all_operations ?n) initial_model order"
    unfolding index_order_def all_operations_bits[OF assms(2)] with_predecessors_length
  proof (intro conjI)
    show "distinct order" using parts order(1) by (metis distinct_filter distinct_map)
    show "\<forall>i \<in> set order. i < ?n \<and> i < ?n" using order(2) by blast
    show "\<forall>i < ?n. i < ?n \<longrightarrow> so_required (candidates_of h ! i) \<longrightarrow> i \<in> set order"
    proof (intro allI impI)
      fix i assume i: "i < ?n" "so_required (candidates_of h ! i)"
      then have "invocation_at h i \<in> set ?ys"
        using parts search_operations_nth(2,3)[OF i(1)] candidate_item(2)[OF i(1)] by auto
      then obtain j where "j \<in> set order" "invocation_at h j = invocation_at h i" unfolding order(1) by auto
      then show "i \<in> set order" using invocation_at_inject[OF assms(1) i(1)] order(2) by metis
    qed
    have "sorted_wrt (\<lambda>a b. \<not> precedes h b a) (map (invocation_at h) order)"
      using parts order(1) by (metis sorted_wrt_filter)
    then have "sorted_wrt (\<lambda>a b. \<not> precedes h (invocation_at h b) (invocation_at h a)) order" by (simp add: sorted_wrt_map)
    then show "sorted_wrt (\<lambda>a b. \<not> before (candidates_of h) b a) order"
      using before_precedes[OF assms(2)] order(2) by (elim sorted_wrt_mono_rel[rotated]) blast
    have "legal (map (\<lambda>i. (iv_operation i, observed h i)) ?ys) (0, Map.empty)"
      using linearization_without_reads[OF assms(1,3)] .
    then show "legal (map (item (candidates_of h)) order) (abs_model initial_model)"
      unfolding candidate_items[OF order(2)] order(1) initial_abs .
  qed
  then show ?thesis by (rule exI)
qed

lemma linearizable_solvable:
  assumes "valid_history h" "length (search_operations h) \<le> 64"
  shows "linearizable h \<longleftrightarrow> solvable (candidates_of h) (all_operations (length (search_operations h))) initial_model"
    (is "_ \<longleftrightarrow> solvable _ ?all _")
proof
  assume "linearizable h"
  then obtain order where order: "index_order (candidates_of h) ?all initial_model order"
    using linearization_ordered[OF assms] by (auto simp: linearizable_def)
  show "solvable (candidates_of h) ?all initial_model"
    by (rule order_solvable[OF candidates_partial_order[OF assms] _ _ order])
       (simp_all add: assms(2) all_operations_bits[OF assms(2)])
next
  assume "solvable (candidates_of h) ?all initial_model"
  then obtain order where "index_order (candidates_of h) ?all initial_model order"
    using solvable_order assms(2) by fastforce
  then show "linearizable h" using order_linearizes[OF assms] by (auto simp: linearizable_def)
qed

lemma check_internal_decides:
  assumes "check_internal h limits = Inr (outcome, explored)"
  shows "valid_history h" "outcome = Linearizable \<Longrightarrow> linearizable h" "outcome = Not_linearizable \<Longrightarrow> \<not> linearizable h"
proof -
  let ?c = "\<lparr>sc_operations = candidates_of h, sc_limits = limits, sc_explored = 0, sc_dead_states = {}\<rparr>"
  let ?all = "all_operations (length (search_operations h))"
  obtain out c where run: "search ?all initial_model ?c = (out, c)" by (cases "search ?all initial_model ?c")
  have "decided ?c ?all initial_model (out, c)"
    using search_decides[of ?c ?all initial_model] by (simp add: run memo_ok_def)
  note d = decidedD(3,4)[OF this, unfolded search_context.select_convs]
  show valid: "valid_history h" using assms by (auto simp: check_internal_def result_simps validate_history_iff)
  have "outcome \<noteq> Inconclusive \<Longrightarrow> length (search_operations h) \<le> 64 \<and> outcome = out"
    using assms by (auto simp: check_internal_def result_simps run Let_def split: if_splits)
  then show "outcome = Linearizable \<Longrightarrow> linearizable h" "outcome = Not_linearizable \<Longrightarrow> \<not> linearizable h"
    using d linearizable_solvable[OF valid] by auto
qed

end
