(* ===== verification/Linear_Text.thy ===== *)
theory Linear_Text
  imports Linear_Decision
begin

unbundle bit_operations_syntax

text \<open>
  The text form of a history (\<open>serialize\<close> and \<open>parse\<close> of \<^verbatim>\<open>src/src/linearizability.cpp\<close>), and that
  parsing gives back every valid history, its records in the order of their identifiers.
\<close>

section \<open>Printing\<close>

abbreviation newline :: char where
  "newline \<equiv> CHR 0x0A"

definition optional_hex :: "byte_sequence option \<Rightarrow> string" where
  "optional_hex v = (case v of None \<Rightarrow> ''~'' | Some bytes \<Rightarrow> hex bytes)"

definition show_bool :: "bool \<Rightarrow> string" where
  "show_bool b = (if b then ''1'' else ''0'')"

fun operation_text :: "lin_operation \<Rightarrow> string" where
  "operation_text (Get key) = ''get '' @ hex key"
| "operation_text (Put key val) = ''put '' @ hex key @ '' '' @ hex val"
| "operation_text (Erase key) = ''erase '' @ hex key"
| "operation_text (Compare_and_swap key expected desired) =
     ''cas '' @ hex key @ '' '' @ optional_hex expected @ '' '' @ optional_hex desired"

definition invocation_text :: "invocation \<Rightarrow> string" where
  "invocation_text i = ''i '' @ show_number 10 (unat (iv_operation_id i)) @ '' '' @ show_number 10 (unat (iv_client_id i)) @ '' ''
     @ show_number 10 (unat (iv_invoked_at i)) @ '' '' @ operation_text (iv_operation i)"

definition completion_kind_name :: "completion_kind \<Rightarrow> string" where
  "completion_kind_name kind = (case kind of Succeeded \<Rightarrow> ''succeeded'' | Failed \<Rightarrow> ''failed''
     | Timed_out \<Rightarrow> ''timed_out'' | Indeterminate \<Rightarrow> ''indeterminate'')"

fun result_text :: "lin_result \<Rightarrow> string" where
  "result_text (Get_result v r) = '' get '' @ show_int r @ '' '' @ show_bool (v \<noteq> None) @
     (case v of None \<Rightarrow> [] | Some value \<Rightarrow> '' '' @ hex (vv_value value) @ '' '' @ show_int (vv_modification_revision value))"
| "result_text (Put_result r) = '' put '' @ show_int r"
| "result_text (Erase_result erased r) = '' erase '' @ show_bool erased @ '' '' @ show_int r"
| "result_text (Compare_and_swap_result exchanged r) = '' cas '' @ show_bool exchanged @ '' '' @ show_int r"

definition completion_text :: "completion \<Rightarrow> string" where
  "completion_text c = ''c '' @ show_number 10 (unat (cp_operation_id c)) @ '' '' @ show_number 10 (unat (cp_completed_at c)) @ '' ''
     @ completion_kind_name (cp_kind c) @ (if cp_kind c = Succeeded then result_text (the (cp_result c)) else [])"

definition history_header :: string where
  "history_header = ''linear-history-v1''"

definition sorted_history :: "history \<Rightarrow> history" where
  "sorted_history h = \<lparr>hi_invocations = sort_key iv_operation_id (hi_invocations h),
     hi_completions = sort_key cp_operation_id (hi_completions h)\<rparr>"

definition serialize :: "history \<Rightarrow> string result" where
  "serialize h =
     and_then (validate_history h) (\<lambda>_.
     Inr (concat (map (\<lambda>line. line @ [newline])
       (history_header # map invocation_text (hi_invocations (sorted_history h))
          @ map completion_text (hi_completions (sorted_history h))))))"

section \<open>Parsing\<close>

definition nibble :: "char \<Rightarrow> byte result" where
  "nibble c =
     (if CHR ''0'' \<le> c \<and> c \<le> CHR ''9'' then Inr (of_nat (of_char c - 48))
      else if CHR ''a'' \<le> c \<and> c \<le> CHR ''f'' then Inr (of_nat (of_char c - 97 + 10))
      else Inl (Invalid_History ''invalid hexadecimal digit in replay''))"

fun unhex_pairs :: "string \<Rightarrow> byte list result" where
  "unhex_pairs [] = Inr []"
| "unhex_pairs [c] = Inl (Invalid_History ''invalid byte sequence in replay'')"
| "unhex_pairs (a # b # rest) =
     and_then (nibble a) (\<lambda>high. and_then (nibble b) (\<lambda>low. and_then (unhex_pairs rest) (\<lambda>bytes.
       Inr ((push_bit 4 high OR low) # bytes))))"

definition unhex :: "string \<Rightarrow> byte_sequence result" where
  "unhex t =
     (if t = ''-'' then Inr []
      else if t = [] \<or> length t mod 2 \<noteq> 0 then Inl (Invalid_History ''invalid byte sequence in replay'')
      else unhex_pairs t)"

definition invalid_field :: "string \<Rightarrow> exn" where
  "invalid_field name = Invalid_History (''invalid '' @ name @ '' in replay'')"

definition integer_u64 :: "string \<Rightarrow> string \<Rightarrow> u64 result" where
  "integer_u64 token name = (case from_chars_u64 token of None \<Rightarrow> Inl (invalid_field name) | Some v \<Rightarrow> Inr v)"

definition parse_revision :: "string \<Rightarrow> revision result" where
  "parse_revision token = (case from_chars_int64 token of
     None \<Rightarrow> Inl (invalid_field ''revision'')
   | Some v \<Rightarrow> if v < 0 then Inl (Invalid_History ''negative revision in replay'') else Inr v)"

definition boolean :: "string \<Rightarrow> bool result" where
  "boolean token = (if token = ''0'' then Inr False else if token = ''1'' then Inr True
     else Inl (Invalid_History ''invalid boolean in replay''))"

definition optional_unhex :: "string \<Rightarrow> byte_sequence option result" where
  "optional_unhex token = (if token = ''~'' then Inr None else and_then (unhex token) (\<lambda>bytes. Inr (Some bytes)))"

definition parse_operation :: "string list \<Rightarrow> lin_operation result" where
  "parse_operation tokens =
     (if tokens ! 4 = ''get'' \<and> length tokens = 6 then and_then (unhex (tokens ! 5)) (\<lambda>key. Inr (Get key))
      else if tokens ! 4 = ''put'' \<and> length tokens = 7
      then and_then (unhex (tokens ! 5)) (\<lambda>key. and_then (unhex (tokens ! 6)) (\<lambda>val. Inr (Put key val)))
      else if tokens ! 4 = ''erase'' \<and> length tokens = 6 then and_then (unhex (tokens ! 5)) (\<lambda>key. Inr (Erase key))
      else if tokens ! 4 = ''cas'' \<and> length tokens = 8
      then and_then (unhex (tokens ! 5)) (\<lambda>key. and_then (optional_unhex (tokens ! 6)) (\<lambda>expected.
        and_then (optional_unhex (tokens ! 7)) (\<lambda>desired. Inr (Compare_and_swap key expected desired))))
      else Inl (Invalid_History ''invalid invocation replay record''))"

definition parse_invocation :: "string list \<Rightarrow> invocation result" where
  "parse_invocation tokens =
     and_then (throw_if (length tokens < 5) (Invalid_History ''truncated invocation replay record'')) (\<lambda>_.
     and_then (integer_u64 (tokens ! 1) ''operation ID'') (\<lambda>operation_id.
     and_then (integer_u64 (tokens ! 2) ''client ID'') (\<lambda>client_id.
     and_then (integer_u64 (tokens ! 3) ''invocation time'') (\<lambda>invoked_at.
     and_then (parse_operation tokens) (\<lambda>operation.
     Inr \<lparr>iv_operation_id = operation_id, iv_client_id = client_id, iv_invoked_at = invoked_at, iv_operation = operation\<rparr>)))))"

definition parse_result :: "string list \<Rightarrow> lin_result result" where
  "parse_result tokens =
     (if 7 \<le> length tokens \<and> tokens ! 4 = ''get''
      then and_then (boolean (tokens ! 6)) (\<lambda>present.
        and_then (throw_if (\<not> present \<and> length tokens \<noteq> 7 \<or> present \<and> length tokens \<noteq> 9)
          (Invalid_History ''invalid get completion replay'')) (\<lambda>_.
        and_then (parse_revision (tokens ! 5)) (\<lambda>r.
        if \<not> present then Inr (Get_result None r)
        else and_then (unhex (tokens ! 7)) (\<lambda>val. and_then (parse_revision (tokens ! 8)) (\<lambda>modified.
          Inr (Get_result (Some \<lparr>vv_value = val, vv_modification_revision = modified\<rparr>) r))))))
      else if length tokens = 6 \<and> tokens ! 4 = ''put''
      then and_then (parse_revision (tokens ! 5)) (\<lambda>r. Inr (Put_result r))
      else if length tokens = 7 \<and> tokens ! 4 = ''erase''
      then and_then (boolean (tokens ! 5)) (\<lambda>erased. and_then (parse_revision (tokens ! 6)) (\<lambda>r. Inr (Erase_result erased r)))
      else if length tokens = 7 \<and> tokens ! 4 = ''cas''
      then and_then (boolean (tokens ! 5)) (\<lambda>exchanged. and_then (parse_revision (tokens ! 6)) (\<lambda>r.
        Inr (Compare_and_swap_result exchanged r)))
      else Inl (Invalid_History ''invalid success completion replay''))"

definition parse_outcome :: "string list \<Rightarrow> (completion_kind \<times> lin_result option) result" where
  "parse_outcome tokens =
     (if tokens ! 3 = ''failed'' \<or> tokens ! 3 = ''timed_out'' \<or> tokens ! 3 = ''indeterminate''
      then and_then (throw_if (length tokens \<noteq> 4) (Invalid_History ''non-success completion has replay result'')) (\<lambda>_.
        Inr (if tokens ! 3 = ''failed'' then Failed else if tokens ! 3 = ''timed_out'' then Timed_out else Indeterminate, None))
      else if tokens ! 3 = ''succeeded'' then and_then (parse_result tokens) (\<lambda>r. Inr (Succeeded, Some r))
      else Inl (Invalid_History ''unknown completion kind in replay''))"

definition parse_completion :: "string list \<Rightarrow> completion result" where
  "parse_completion tokens =
     and_then (integer_u64 (tokens ! 1) ''operation ID'') (\<lambda>operation_id.
     and_then (integer_u64 (tokens ! 2) ''completion time'') (\<lambda>completed_at.
     and_then (parse_outcome tokens) (\<lambda>(kind, r).
     Inr \<lparr>cp_operation_id = operation_id, cp_completed_at = completed_at, cp_kind = kind, cp_result = r\<rparr>)))"

definition parse_line :: "string \<Rightarrow> history \<Rightarrow> history result" where
  "parse_line line h =
     (let tokens = stream_words line in
      if line = [] then Inl (Invalid_History ''blank line in replay'')
      else if tokens = [] then Inl (Invalid_History ''empty replay record'')
      else if tokens ! 0 = ''i''
      then and_then (parse_invocation tokens) (\<lambda>i. Inr (h\<lparr>hi_invocations := hi_invocations h @ [i]\<rparr>))
      else if tokens ! 0 \<noteq> ''c'' \<or> length tokens < 4 then Inl (Invalid_History ''invalid completion replay record'')
      else and_then (parse_completion tokens) (\<lambda>c. Inr (h\<lparr>hi_completions := hi_completions h @ [c]\<rparr>)))"

definition parse :: "string \<Rightarrow> history result" where
  "parse replay =
     (case stream_lines replay of
        [] \<Rightarrow> Inl (Invalid_History ''unsupported linearizability replay header'')
      | line # lines \<Rightarrow>
          if line \<noteq> history_header then Inl (Invalid_History ''unsupported linearizability replay header'')
          else and_then (fold_result parse_line lines \<lparr>hi_invocations = [], hi_completions = []\<rparr>) (\<lambda>h.
            and_then (validate_history h) (\<lambda>_. Inr h)))"

section \<open>Fields\<close>

lemma nibble_hex_digit: "n < 16 \<Longrightarrow> nibble (hex_digit n) = Inr (of_nat n)"
  by (rule digits_checked[where P = "\<lambda>n. nibble (hex_digit n) = Inr (of_nat n)"]) code_simp

lemma nibbles_joined: "push_bit 4 (drop_bit 4 b) OR b AND 15 = (b :: byte)"
proof -
  have "bit (push_bit 4 (drop_bit 4 b) OR (b AND mask 4)) j = bit b j" for j
    by (auto simp: bit_or_iff bit_and_iff bit_push_bit_iff bit_drop_bit_eq bit_mask_iff dest: bit_imp_le_length)
  then have "push_bit 4 (drop_bit 4 b) OR (b AND mask 4) = b" by (intro bit_eqI) simp
  then show ?thesis by (simp add: mask_eq_exp_minus_1)
qed

lemma unhex_pairs_hex: "unhex_pairs (concat (map hex_byte bs)) = Inr bs"
  by (induction bs) (simp_all add: hex_byte_def nibble_hex_digit[OF nibble_bounds(1)] nibble_hex_digit[OF nibble_bounds(2)] nibbles_joined)

lemma length_concat_hex: "length (concat (map hex_byte bs)) = 2 * length bs"
  by (induction bs) (simp_all add: hex_byte_def)

lemma unhex_hex [simp]: "unhex (hex bs) = Inr bs"
proof (cases "bs = []")
  case False
  have "hex [] = ''-''" by (simp add: hex_bytes)
  then have "hex bs \<noteq> ''-''" using False hex_inject[of bs "[]"] by argo
  moreover have hex: "hex bs = concat (map hex_byte bs)" using False by (simp add: hex_bytes)
  then have "length (hex bs) = 2 * length bs" "unhex_pairs (hex bs) = Inr bs" by (simp_all add: length_concat_hex unhex_pairs_hex)
  moreover from this(1) False have "hex bs \<noteq> []" by auto
  ultimately show ?thesis by (simp add: unhex_def)
qed (simp add: hex_bytes unhex_def)

lemma hex_word: "is_word (hex bs)"
proof -
  have "hex bs \<noteq> []" by (cases bs) (simp_all add: hex_bytes hex_byte_def)
  moreover have "\<not> is_space c" if "c \<in> set (hex bs)" for c
    using hex_chars[OF that] by (auto simp: hex_char_def is_space_def)
  ultimately show ?thesis by blast
qed

lemma hex_not_tilde: "hex bs \<noteq> ''~''"
  using hex_chars[of "CHR ''~''" bs] by (auto simp: hex_char_def)

lemma optional_unhex_hex [simp]: "optional_unhex (optional_hex v) = Inr v"
  by (cases v) (simp_all add: optional_unhex_def optional_hex_def hex_not_tilde)

lemma optional_hex_word: "is_word (optional_hex v)"
  using hex_word by (cases v) (simp_all add: optional_hex_def is_space_def)

lemma boolean_show [simp]: "boolean (show_bool b) = Inr b"
  by (simp add: boolean_def show_bool_def)

lemma show_bool_word: "is_word (show_bool b)"
  by (simp add: show_bool_def is_space_def)

lemma integer_u64_show [simp]: "integer_u64 (show_number 10 (unat v)) name = Inr v"
  by (simp add: integer_u64_def)

lemma parse_revision_show: "0 \<le> r \<Longrightarrow> r \<le> int64_max \<Longrightarrow> parse_revision (show_int r) = Inr r"
  by (simp add: parse_revision_def from_chars_show_int64 int64_min_def)

lemmas printed_words = hex_word optional_hex_word show_bool_word show_number_word show_int_word

lemma literal_words_text:
  "stream_words (CHR ''i'' # CHR '' '' # rest) = ''i'' # stream_words rest"
  "stream_words (CHR ''c'' # CHR '' '' # rest) = ''c'' # stream_words rest"
  "stream_words (CHR '' '' # rest) = stream_words rest"
  "stream_words (''get '' @ rest) = ''get'' # stream_words rest"
  "stream_words (''put '' @ rest) = ''put'' # stream_words rest"
  "stream_words (''erase '' @ rest) = ''erase'' # stream_words rest"
  "stream_words (''cas '' @ rest) = ''cas'' # stream_words rest"
  using stream_words_simps(2)[of "''i''" rest] stream_words_simps(2)[of "''c''" rest] stream_words_simps(2)[of "''get''" rest]
    stream_words_simps(2)[of "''put''" rest] stream_words_simps(2)[of "''erase''" rest] stream_words_simps(2)[of "''cas''" rest]
    stream_words.simps[of "CHR '' '' # rest"] stream_words.simps[of rest]
  by (simp_all add: is_space_def)

lemmas literal_words = literal_words_text[unfolded append.simps]

section \<open>Records\<close>

lemma operation_words:
  "stream_words (operation_text operation) = (case operation of
     Get key \<Rightarrow> [''get'', hex key] | Put key val \<Rightarrow> [''put'', hex key, hex val] | Erase key \<Rightarrow> [''erase'', hex key]
   | Compare_and_swap key expected desired \<Rightarrow> [''cas'', hex key, optional_hex expected, optional_hex desired])"
  by (cases operation) (simp_all add: literal_words printed_words)

lemma invocation_words:
  "stream_words (invocation_text i) = [''i'', show_number 10 (unat (iv_operation_id i)), show_number 10 (unat (iv_client_id i)),
     show_number 10 (unat (iv_invoked_at i))] @ stream_words (operation_text (iv_operation i))"
  by (simp add: invocation_text_def literal_words printed_words)

lemma parse_invocation_text: "parse_invocation (stream_words (invocation_text i)) = Inr i"
  by (cases i, cases "iv_operation i")
     (simp_all add: parse_invocation_def parse_operation_def invocation_words literal_words printed_words)

definition result_words :: "lin_result \<Rightarrow> string list" where
  "result_words r = (case r of
     Get_result None r \<Rightarrow> [''get'', show_int r, show_bool False]
   | Get_result (Some v) r \<Rightarrow> [''get'', show_int r, show_bool True, hex (vv_value v), show_int (vv_modification_revision v)]
   | Put_result r \<Rightarrow> [''put'', show_int r]
   | Erase_result b r \<Rightarrow> [''erase'', show_bool b, show_int r]
   | Compare_and_swap_result b r \<Rightarrow> [''cas'', show_bool b, show_int r])"

lemma result_text_words: "\<exists>t. result_text r = CHR '' '' # t \<and> stream_words t = result_words r"
proof (cases r)
  case (Get_result v r')
  then show ?thesis
    by (cases v) (simp_all add: result_words_def literal_words printed_words)
qed (simp_all add: result_words_def literal_words printed_words)

lemma kind_word: "is_word (completion_kind_name kind)"
  by (cases kind) (simp_all add: completion_kind_name_def is_space_def)

lemma completion_words:
  "stream_words (completion_text c) = [''c'', show_number 10 (unat (cp_operation_id c)), show_number 10 (unat (cp_completed_at c)),
     completion_kind_name (cp_kind c)] @ (if cp_kind c = Succeeded then result_words (the (cp_result c)) else [])"
proof -
  obtain t where t: "result_text (the (cp_result c)) = CHR '' '' # t" "stream_words t = result_words (the (cp_result c))"
    using result_text_words by blast
  show ?thesis
    by (cases "cp_kind c = Succeeded") (simp_all add: completion_text_def literal_words printed_words kind_word t)
qed

text \<open>The revisions of a result are in the range of the signed 64-bit type.\<close>

definition result_in_range :: "lin_result \<Rightarrow> bool" where
  "result_in_range r \<longleftrightarrow> result_revision r \<le> int64_max \<and> (case r of Get_result (Some v) r' \<Rightarrow> vv_modification_revision v \<le> int64_max | _ \<Rightarrow> True)"

lemma parse_completion_text:
  assumes "validate_result operation c = Inr ()" "\<forall>r. cp_result c = Some r \<longrightarrow> result_in_range r"
  shows "parse_completion (stream_words (completion_text c)) = Inr c"
proof (cases "cp_kind c = Succeeded")
  case True
  then obtain r where r: "cp_result c = Some r" "0 \<le> result_revision r" "validate_get r = Inr ()"
    using assms(1) by (auto simp: validate_result_def result_simps not_less split: option.splits)
  then have "parse_result ([w0, w1, w2, w3] @ result_words r) = Inr r" for w0 w1 w2 w3
    using assms(2)
    by (cases r) (auto simp: parse_result_def result_words_def result_in_range_def parse_revision_show validate_get_def result_simps
        split: option.splits)
  then show ?thesis
    using True r(1) by (simp add: parse_completion_def completion_words parse_outcome_def completion_kind_name_def)
next
  case False
  then show ?thesis
    using assms(1) by (cases "cp_kind c")
      (simp_all add: parse_completion_def completion_words parse_outcome_def completion_kind_name_def validate_result_def result_simps)
qed

section \<open>Round trip\<close>

lemma word_no_newline: "is_word w \<Longrightarrow> newline \<notin> set w"
  by (auto simp: is_space_def)

lemmas no_newline = printed_words[THEN word_no_newline] kind_word[THEN word_no_newline]

lemma text_no_newline: "newline \<notin> set (invocation_text i)" "newline \<notin> set (completion_text c)"
proof -
  have "newline \<notin> set (operation_text operation)" for operation by (cases operation) (simp_all add: no_newline)
  then show "newline \<notin> set (invocation_text i)" by (simp add: invocation_text_def no_newline)
  have "newline \<notin> set (result_text r)" for r by (cases r) (simp_all add: no_newline split: option.split)
  then show "newline \<notin> set (completion_text c)" by (simp add: completion_text_def no_newline)
qed

lemma lines_joined:
  "\<forall>line \<in> set lines. newline \<notin> set line \<Longrightarrow> stream_lines (concat (map (\<lambda>line. line @ [newline]) lines)) = lines"
  by (induction lines) simp_all

lemma parse_line_invocation: "parse_line (invocation_text i) h = Inr (h\<lparr>hi_invocations := hi_invocations h @ [i]\<rparr>)"
proof -
  have "invocation_text i \<noteq> []" by (simp add: invocation_text_def)
  moreover have "stream_words (invocation_text i) \<noteq> []" "stream_words (invocation_text i) ! 0 = ''i''" by (simp_all add: invocation_words)
  ultimately show ?thesis by (simp add: parse_line_def Let_def parse_invocation_text)
qed

lemma parse_line_completion:
  assumes "validate_result operation c = Inr ()" "\<forall>r. cp_result c = Some r \<longrightarrow> result_in_range r"
  shows "parse_line (completion_text c) h = Inr (h\<lparr>hi_completions := hi_completions h @ [c]\<rparr>)"
proof -
  have "completion_text c \<noteq> []" by (simp add: completion_text_def)
  moreover have "stream_words (completion_text c) \<noteq> []" "stream_words (completion_text c) ! 0 = ''c''"
    "\<not> length (stream_words (completion_text c)) < 4" by (simp_all add: completion_words)
  ultimately show ?thesis by (simp add: parse_line_def Let_def parse_completion_text[OF assms])
qed

lemma parse_invocation_lines:
  "fold_result parse_line (map invocation_text is) h = Inr (h\<lparr>hi_invocations := hi_invocations h @ is\<rparr>)"
  by (induction "is" arbitrary: h) (simp_all add: parse_line_invocation)

lemma parse_completion_lines:
  assumes "\<forall>c \<in> set cs. (\<exists>operation. validate_result operation c = Inr ()) \<and> (\<forall>r. cp_result c = Some r \<longrightarrow> result_in_range r)"
  shows "fold_result parse_line (map completion_text cs) h = Inr (h\<lparr>hi_completions := hi_completions h @ cs\<rparr>)"
  using assms
proof (induction cs arbitrary: h)
  case (Cons c cs)
  then obtain operation where "validate_result operation c = Inr ()" by auto
  then show ?case using Cons by (simp add: parse_line_completion)
qed simp

definition history_in_range :: "history \<Rightarrow> bool" where
  "history_in_range h \<longleftrightarrow> (\<forall>c \<in> set (hi_completions h). \<forall>r. cp_result c = Some r \<longrightarrow> result_in_range r)"

lemma distinct_map_sort_key: "distinct (map f (sort_key k xs)) \<longleftrightarrow> distinct (map f xs)"
  by (simp add: distinct_map)

lemma valid_sorted_history: "valid_history (sorted_history h) \<longleftrightarrow> valid_history h"
  by (simp add: valid_history_def sorted_history_def distinct_map_sort_key)

lemma sorted_history_idem: "sorted_history (sorted_history h) = sorted_history h"
  by (simp add: sorted_history_def sort_key_id_if_sorted)

text \<open>
  C40.  A history survives its text form: every valid history with revisions in the 64-bit range
  has a replay text, parsing the text gives the history with its records in the order of the
  operation identifiers, and printing that history gives the same text again.
\<close>

theorem history_text_roundtrip:
  assumes "validate_history h = Inr ()" "history_in_range h"
  shows "\<exists>replay. serialize h = Inr replay \<and> parse replay = Inr (sorted_history h) \<and> serialize (sorted_history h) = Inr replay"
proof -
  let ?s = "sorted_history h"
  let ?lines = "map invocation_text (hi_invocations ?s) @ map completion_text (hi_completions ?s)"
  let ?replay = "concat (map (\<lambda>line. line @ [newline]) (history_header # ?lines))"
  have valid: "validate_history ?s = Inr ()" using assms(1) by (simp add: validate_history_iff valid_sorted_history)
  have "newline \<notin> set history_header" by (simp add: history_header_def)
  then have "stream_lines ?replay = history_header # ?lines" using text_no_newline by (intro lines_joined) auto
  moreover have "\<forall>c \<in> set (hi_completions ?s). (\<exists>operation. validate_result operation c = Inr ())
      \<and> (\<forall>r. cp_result c = Some r \<longrightarrow> result_in_range r)"
    using valid assms(2) unfolding validate_history_iff valid_history_def history_in_range_def by (auto simp: sorted_history_def)
  then have "fold_result parse_line ?lines \<lparr>hi_invocations = [], hi_completions = []\<rparr> = Inr ?s"
    by (simp add: fold_result_append parse_invocation_lines parse_completion_lines)
  ultimately have "parse ?replay = Inr ?s" using valid by (simp add: parse_def)
  then show ?thesis using assms(1) valid by (auto simp: serialize_def sorted_history_idem)
qed

end
