(* ===== verification/Linear_Check.thy ===== *)
theory Linear_Check
  imports Linear_Text
begin

text \<open>
  The public check (\<open>check\<close> of \<^verbatim>\<open>src/src/linearizability.cpp\<close>): its verdicts are right, it reports
  nothing when a limit stopped it, and the counterexample it reduces to cannot lose another
  operation.
\<close>

section \<open>The check\<close>

record counterexample =
  ce_history :: history
  ce_replay :: string

record check_result =
  ck_outcome :: search_outcome
  ck_explored_states :: nat
  ck_counterexample :: "counterexample option"

text \<open>One pass over the operations: the history without the first one that is not needed.\<close>

fun remove_one :: "u64 list \<Rightarrow> checker_limits \<Rightarrow> history \<Rightarrow> nat \<Rightarrow> (history option \<times> nat) result" where
  "remove_one [] limits h explored = Inr (None, explored)"
| "remove_one (operation_id # ids) limits h explored =
     (let candidate = without h operation_id in
      if hi_invocations candidate = [] then remove_one ids limits h explored
      else and_then (check_internal candidate limits) (\<lambda>(outcome, n).
        if outcome = Not_linearizable then Inr (Some candidate, explored + n)
        else remove_one ids limits h (explored + n)))"

definition operation_ids :: "history \<Rightarrow> u64 list" where
  "operation_ids h = sort (map iv_operation_id (hi_invocations h))"

lemma and_then_cong [fundef_cong]:
  "r = r' \<Longrightarrow> (\<And>x. r' = Inr x \<Longrightarrow> f x = g x) \<Longrightarrow> and_then r f = and_then r' g"
  by (cases r') simp_all

lemma remove_one_candidate:
  "remove_one ids limits h explored = Inr (Some candidate, n) \<Longrightarrow> \<exists>operation_id \<in> set ids. candidate = without h operation_id"
  by (induction ids limits h explored rule: remove_one.induct) (auto simp: Let_def result_simps split: if_splits)

lemma without_shorter:
  "operation_id \<in> set (operation_ids h) \<Longrightarrow> length (hi_invocations (without h operation_id)) < length (hi_invocations h)"
  by (auto simp: without_def operation_ids_def intro: length_filter_less)

text \<open>The loop that removes operations as long as it can.\<close>

function reduce :: "history \<Rightarrow> checker_limits \<Rightarrow> nat \<Rightarrow> (history \<times> nat) result" where
  "reduce h limits explored =
     and_then (remove_one (operation_ids h) limits h explored) (\<lambda>(found, explored).
       case found of None \<Rightarrow> Inr (h, explored) | Some candidate \<Rightarrow> reduce candidate limits explored)"
  by pat_completeness auto
termination
proof (relation "measure (\<lambda>(h, limits, explored). length (hi_invocations h))", simp)
  fix h limits explored x found n candidate
  assume "remove_one (operation_ids h) limits h explored = Inr x" "(found, n) = x" "found = Some candidate"
  then obtain operation_id where "operation_id \<in> set (operation_ids h)" "candidate = without h operation_id"
    using remove_one_candidate by blast
  then show "((candidate, limits, n), h, limits, explored) \<in> measure (\<lambda>(h, limits, explored). length (hi_invocations h))"
    using without_shorter by simp
qed

declare reduce.simps [simp del]

definition check :: "history \<Rightarrow> checker_limits \<Rightarrow> check_result result" where
  "check h limits =
     and_then (check_internal h limits) (\<lambda>(outcome, explored).
       if outcome = Not_linearizable
       then and_then (reduce h limits explored) (\<lambda>(reduced, explored).
         and_then (serialize reduced) (\<lambda>replay.
         Inr \<lparr>ck_outcome = Not_linearizable, ck_explored_states = explored,
           ck_counterexample = Some \<lparr>ce_history = reduced, ce_replay = replay\<rparr>\<rparr>))
       else Inr \<lparr>ck_outcome = outcome, ck_explored_states = explored, ck_counterexample = None\<rparr>)"

section \<open>Histories without an operation\<close>

lemma valid_without:
  assumes "valid_history h"
  shows "valid_history (without h operation_id)"
proof -
  have "\<exists>i \<in> set (hi_invocations (without h operation_id)). iv_operation_id i = cp_operation_id c
      \<and> iv_invoked_at i \<le> cp_completed_at c \<and> validate_result (iv_operation i) c = Inr ()"
    if "c \<in> set (hi_completions (without h operation_id))" for c
  proof -
    have c: "c \<in> set (hi_completions h)" "cp_operation_id c \<noteq> operation_id" using that by (simp_all add: without_def)
    then obtain i where "i \<in> set (hi_invocations h)" "iv_operation_id i = cp_operation_id c"
      "iv_invoked_at i \<le> cp_completed_at c" "validate_result (iv_operation i) c = Inr ()"
      using assms unfolding valid_history_def by blast
    then show ?thesis using c(2) by (intro bexI[of _ i]) (simp_all add: without_def)
  qed
  then show ?thesis
    using assms unfolding valid_history_def by (simp add: without_def distinct_map_filter)
qed

lemma check_internal_returns: "valid_history h \<Longrightarrow> \<exists>outcome n. check_internal h limits = Inr (outcome, n)"
  by (auto simp: check_internal_def validate_history_iff[symmetric] Let_def split: prod.split)

lemma remove_one_returns: "valid_history h \<Longrightarrow> \<exists>found n. remove_one ids limits h explored = Inr (found, n)"
proof (induction ids limits h explored rule: remove_one.induct)
  case (2 operation_id ids limits h explored)
  obtain outcome n where "check_internal (without h operation_id) limits = Inr (outcome, n)"
    using check_internal_returns[OF valid_without[OF 2(3)]] by blast
  then show ?case using 2 by (simp add: Let_def)
qed simp

text \<open>What the reduction leaves: a part of the history that is rejected, and from which nothing more can go.\<close>

definition minimal :: "checker_limits \<Rightarrow> history \<Rightarrow> bool" where
  "minimal limits h \<longleftrightarrow> (\<forall>i \<in> set (hi_invocations h). \<forall>n. hi_invocations (without h (iv_operation_id i)) \<noteq> [] \<longrightarrow>
     check_internal (without h (iv_operation_id i)) limits \<noteq> Inr (Not_linearizable, n))"

definition restricted :: "history \<Rightarrow> u64 set \<Rightarrow> history" where
  "restricted h ids = \<lparr>hi_invocations = filter (\<lambda>i. iv_operation_id i \<in> ids) (hi_invocations h),
     hi_completions = filter (\<lambda>c. cp_operation_id c \<in> ids) (hi_completions h)\<rparr>"

lemma restricted_simps: "restricted h UNIV = h" "restricted (without h operation_id) ids = restricted h (ids - {operation_id})"
  by (auto simp: restricted_def without_def intro!: filter_cong)

lemma remove_one_None:
  assumes "remove_one ids limits h explored = Inr (None, n)" "operation_id \<in> set ids" "hi_invocations (without h operation_id) \<noteq> []"
  shows "check_internal (without h operation_id) limits \<noteq> Inr (Not_linearizable, m)"
  using assms by (induction ids limits h explored rule: remove_one.induct) (auto simp: Let_def result_simps split: if_splits)

lemma remove_one_Some:
  "remove_one ids limits h explored = Inr (Some candidate, n) \<Longrightarrow>
   hi_invocations candidate \<noteq> [] \<and> (\<exists>m. check_internal candidate limits = Inr (Not_linearizable, m))"
  by (induction ids limits h explored rule: remove_one.induct) (auto simp: Let_def result_simps split: if_splits)

lemma check_internal_explored:
  assumes "check_internal h limits = Inr (outcome, n)"
  shows "n \<le> li_max_search_states limits"
    "outcome = Inconclusive \<Longrightarrow> li_max_operations limits = 0 \<or> length (hi_invocations h) > li_max_operations limits
       \<or> length (search_operations h) > 64 \<or> n \<ge> min (li_max_search_states limits) (li_max_memo_entries limits)"
proof -
  let ?c = "\<lparr>sc_operations = candidates_of h, sc_limits = limits, sc_explored = 0, sc_dead_states = {}\<rparr>"
  let ?all = "all_operations (length (search_operations h))"
  obtain out c where run: "search ?all initial_model ?c = (out, c)" by (cases "search ?all initial_model ?c")
  have "bounded ?c (out, c)" using search_bounded[of ?c ?all initial_model] by (simp add: run)
  then have b: "sc_explored c \<le> li_max_search_states limits" "card (sc_dead_states c) \<le> sc_explored c"
    "out = Inconclusive \<Longrightarrow> sc_explored c \<ge> li_max_search_states limits \<or> card (sc_dead_states c) \<ge> li_max_memo_entries limits"
    by (auto simp: bounded_def grown_def exhausted_def)
  show "n \<le> li_max_search_states limits"
    using assms b(1) by (auto simp: check_internal_def result_simps run Let_def split: if_splits)
  show "outcome = Inconclusive \<Longrightarrow> li_max_operations limits = 0 \<or> length (hi_invocations h) > li_max_operations limits
       \<or> length (search_operations h) > 64 \<or> n \<ge> min (li_max_search_states limits) (li_max_memo_entries limits)"
    using assms b(2,3) by (auto simp: check_internal_def result_simps run Let_def split: if_splits)
qed

lemma remove_one_explored:
  "remove_one ids limits h explored = Inr (found, n) \<Longrightarrow> n \<le> explored + length ids * li_max_search_states limits"
proof (induction ids limits h explored arbitrary: n rule: remove_one.induct)
  case (2 operation_id ids limits h explored)
  let ?candidate = "without h operation_id"
  show ?case
  proof (cases "hi_invocations ?candidate = []")
    case True
    then show ?thesis using "2.prems" "2.IH"(1)[OF refl True, of n] by simp
  next
    case False
    then obtain outcome m where m: "check_internal ?candidate limits = Inr (outcome, m)"
      using "2.prems" by (auto simp: Let_def result_simps)
    have "m \<le> li_max_search_states limits" by (rule check_internal_explored(1)[OF m])
    moreover have "n \<le> explored + m + length ids * li_max_search_states limits"
      using "2.prems" "2.IH"(2)[OF refl False, of outcome m n] False m by (auto simp: Let_def split: if_splits)
    ultimately show ?thesis by simp
  qed
qed simp

lemma squares_step: "m + 1 \<le> n \<Longrightarrow> n * k + m * m * k \<le> n * n * (k :: nat)"
proof -
  assume less: "m + 1 \<le> n"
  then have "m * m \<le> m * n" by (intro mult_le_mono2) simp
  moreover have "n + m * n \<le> n * n" using mult_le_mono1[OF less, of n] by simp
  ultimately have "n + m * m \<le> n * n" by linarith
  then show ?thesis by (metis add_mult_distrib mult_le_mono1)
qed

text \<open>The reduction of a rejected history.\<close>

lemma reduce_minimal:
  assumes "valid_history h" "check_internal h limits = Inr (Not_linearizable, m)"
  shows "\<exists>ids reduced n. reduce h limits explored = Inr (reduced, n) \<and> reduced = restricted h ids
    \<and> valid_history reduced \<and> (\<exists>m. check_internal reduced limits = Inr (Not_linearizable, m)) \<and> minimal limits reduced
    \<and> n \<le> explored + length (hi_invocations h) * length (hi_invocations h) * li_max_search_states limits"
  using assms
proof (induction h limits explored arbitrary: m rule: reduce.induct)
  case (1 h limits explored)
  obtain found n where found: "remove_one (operation_ids h) limits h explored = Inr (found, n)"
    using remove_one_returns[OF "1.prems"(1)] by blast
  have cost: "n \<le> explored + length (hi_invocations h) * li_max_search_states limits"
    using remove_one_explored[OF found] by (simp add: operation_ids_def)
  show ?case
  proof (cases found)
    case None
    have "minimal limits h"
      using remove_one_None[OF found[unfolded None]] by (auto simp: minimal_def operation_ids_def)
    moreover have "length (hi_invocations h) \<le> length (hi_invocations h) * length (hi_invocations h)" by (rule le_square)
    then have "n \<le> explored + length (hi_invocations h) * length (hi_invocations h) * li_max_search_states limits"
      using cost by (meson add_le_mono le_trans mult_le_mono order_refl)
    ultimately show ?thesis
      using "1.prems" found None restricted_simps(1)[of h, symmetric] by (subst reduce.simps) auto
  next
    case (Some candidate)
    obtain operation_id where c: "operation_id \<in> set (operation_ids h)" "candidate = without h operation_id"
      using remove_one_candidate[OF found[unfolded Some]] by blast
    obtain m' where "check_internal candidate limits = Inr (Not_linearizable, m')"
      using remove_one_Some[OF found[unfolded Some]] by blast
    from "1.IH"[OF found refl Some _ this] obtain ids reduced l where
      r: "reduce candidate limits n = Inr (reduced, l)" "reduced = restricted candidate ids" "valid_history reduced"
        "\<exists>m. check_internal reduced limits = Inr (Not_linearizable, m)" "minimal limits reduced"
        "l \<le> n + length (hi_invocations candidate) * length (hi_invocations candidate) * li_max_search_states limits"
      using valid_without[OF "1.prems"(1)] c(2) by blast
    have "length (hi_invocations candidate) + 1 \<le> length (hi_invocations h)"
      using without_shorter[OF c(1)] c(2) by simp
    then have "l \<le> explored + length (hi_invocations h) * length (hi_invocations h) * li_max_search_states limits"
      using r(6) cost squares_step[of "length (hi_invocations candidate)" "length (hi_invocations h)" "li_max_search_states limits"]
      by linarith
    moreover have "reduce h limits explored = Inr (reduced, l)" using found Some r(1) by (subst reduce.simps) simp
    moreover have "reduced = restricted h (ids - {operation_id})" using r(2) c(2) restricted_simps(2) by simp
    ultimately show ?thesis using r(3-5) by blast
  qed
qed

section \<open>The verdicts\<close>

text \<open>The size of a history against the limits.\<close>

definition too_large :: "history \<Rightarrow> checker_limits \<Rightarrow> bool" where
  "too_large h limits \<longleftrightarrow> li_max_operations limits = 0 \<or> length (hi_invocations h) > li_max_operations limits
     \<or> length (search_operations h) > 64"

text \<open>How the check ends on a valid history.\<close>

lemma check_cases:
  assumes "valid_history h"
  obtains (verdict) outcome n where "check_internal h limits = Inr (outcome, n)" "outcome \<noteq> Not_linearizable"
      "check h limits = Inr \<lparr>ck_outcome = outcome, ck_explored_states = n, ck_counterexample = None\<rparr>"
  | (violation) n ids reduced l replay m where "check_internal h limits = Inr (Not_linearizable, n)"
      "check h limits = Inr \<lparr>ck_outcome = Not_linearizable, ck_explored_states = l,
         ck_counterexample = Some \<lparr>ce_history = reduced, ce_replay = replay\<rparr>\<rparr>"
      "reduced = restricted h ids" "serialize reduced = Inr replay" "check_internal reduced limits = Inr (Not_linearizable, m)"
      "minimal limits reduced" "l \<le> n + length (hi_invocations h) * length (hi_invocations h) * li_max_search_states limits"
proof -
  obtain outcome n where internal: "check_internal h limits = Inr (outcome, n)" using check_internal_returns[OF assms] by blast
  show thesis
  proof (cases "outcome = Not_linearizable")
    case False
    then show thesis using verdict[OF internal] internal by (simp add: check_def)
  next
    case True
    then obtain ids reduced l m where r: "reduce h limits n = Inr (reduced, l)" "reduced = restricted h ids" "valid_history reduced"
      "check_internal reduced limits = Inr (Not_linearizable, m)" "minimal limits reduced"
      "l \<le> n + length (hi_invocations h) * length (hi_invocations h) * li_max_search_states limits"
      using reduce_minimal[OF assms internal[unfolded True], of n] by blast
    from r(3) obtain replay where replay: "serialize reduced = Inr replay"
      unfolding serialize_def validate_history_iff[symmetric] by simp
    show thesis
      using violation[of n l reduced replay ids m] internal True r replay by (simp add: check_def)
  qed
qed

text \<open>
  C4.  The checker decides linearizability: for every valid history the check returns, the
  verdict linearizable means that some order of the operations respects real time and gives every
  observed result in the sequential specification, the verdict not linearizable means that no
  order does, and the check is inconclusive only for a history that is too large or after a limit
  of the search was used up.
\<close>

theorem check_decides:
  assumes "validate_history h = Inr ()"
  shows "\<exists>r. check h limits = Inr r
    \<and> (ck_outcome r = Linearizable \<longrightarrow> linearizable h) \<and> (ck_outcome r = Not_linearizable \<longrightarrow> \<not> linearizable h)
    \<and> (ck_outcome r = Inconclusive \<longrightarrow> too_large h limits
         \<or> ck_explored_states r \<ge> min (li_max_search_states limits) (li_max_memo_entries limits))"
proof -
  have "valid_history h" using assms by (simp add: validate_history_iff)
  then show ?thesis
  proof (cases rule: check_cases[where limits = limits])
    case (verdict outcome n)
    then show ?thesis
      using check_internal_decides(2)[OF verdict(1)] check_internal_explored(2)[OF verdict(1)] by (auto simp: too_large_def)
  next
    case (violation n ids reduced l replay m)
    then show ?thesis using check_internal_decides(3)[OF violation(1)] by simp
  qed
qed

text \<open>
  C11.  A counterexample is a minimal proof of a violation: the check reports one exactly with
  the verdict not linearizable; it consists of some of the operations of the history with their
  completions, it is itself not linearizable, its text is its printed form, and removing any one
  of its operations, as long as one remains, leaves a history that the check does not reject.
\<close>

theorem counterexample_minimal:
  assumes "check h limits = Inr r"
  shows "(case ck_counterexample r of
      None \<Rightarrow> ck_outcome r \<noteq> Not_linearizable
    | Some x \<Rightarrow> ck_outcome r = Not_linearizable \<and> (\<exists>ids. ce_history x = restricted h ids) \<and> \<not> linearizable (ce_history x)
        \<and> serialize (ce_history x) = Inr (ce_replay x) \<and> minimal limits (ce_history x))"
proof -
  have "valid_history h" using assms by (auto simp: check_def check_internal_def result_simps validate_history_iff)
  then show ?thesis
  proof (cases rule: check_cases[where limits = limits])
    case (verdict outcome n)
    then show ?thesis using assms by auto
  next
    case (violation n ids reduced l replay m)
    then show ?thesis using assms check_internal_decides(3)[OF violation(5)] by auto
  qed
qed

text \<open>
  C39.  The reduction of a counterexample ends: for every valid history the check returns, and it
  has explored at most the state limit once for the history and once for each of at most \<open>n\<^sup>2\<close>
  histories with operations removed, where \<open>n\<close> is the number of invocations.
\<close>

theorem check_terminates:
  assumes "validate_history h = Inr ()"
  shows "\<exists>r. check h limits = Inr r \<and>
    ck_explored_states r \<le> (1 + length (hi_invocations h) * length (hi_invocations h)) * li_max_search_states limits"
proof -
  have "valid_history h" using assms by (simp add: validate_history_iff)
  then show ?thesis
  proof (cases rule: check_cases[where limits = limits])
    case (verdict outcome n)
    then show ?thesis using check_internal_explored(1)[OF verdict(1)] by (simp add: trans_le_add1)
  next
    case (violation n ids reduced l replay m)
    then show ?thesis using check_internal_explored(1)[OF violation(1)] by (simp add: algebra_simps)
  qed
qed

end
