(* ===== verification/Linear_Examples.thy ===== *)
theory Linear_Examples
  imports Linear_Check
begin

text \<open>
  Concrete histories for the checker: a write and a later read that sees it, with a concurrent
  write whose outcome is unknown, and the same write with a later read that misses it.
\<close>

definition k1 :: byte_sequence where "k1 = [107]"

definition write_call :: "u64 \<Rightarrow> u64 \<Rightarrow> byte_sequence \<Rightarrow> invocation" where
  "write_call operation_id t v = \<lparr>iv_operation_id = operation_id, iv_client_id = 1, iv_invoked_at = t, iv_operation = Put k1 v\<rparr>"

definition read_call :: "u64 \<Rightarrow> u64 \<Rightarrow> invocation" where
  "read_call operation_id t = \<lparr>iv_operation_id = operation_id, iv_client_id = 2, iv_invoked_at = t, iv_operation = Get k1\<rparr>"

definition finished :: "u64 \<Rightarrow> u64 \<Rightarrow> lin_result \<Rightarrow> completion" where
  "finished operation_id t r = \<lparr>cp_operation_id = operation_id, cp_completed_at = t, cp_kind = Succeeded, cp_result = Some r\<rparr>"

definition unknown :: "u64 \<Rightarrow> u64 \<Rightarrow> completion" where
  "unknown operation_id t = \<lparr>cp_operation_id = operation_id, cp_completed_at = t, cp_kind = Indeterminate, cp_result = None\<rparr>"

definition good_history :: history where
  "good_history = \<lparr>hi_invocations = [read_call 3 4, write_call 1 1 [1], write_call 2 1 [2]],
     hi_completions = [finished 1 3 (Put_result 2), unknown 2 3,
       finished 3 5 (Get_result (Some \<lparr>vv_value = [1], vv_modification_revision = 2\<rparr>) 2)]\<rparr>"

definition stale_history :: history where
  "stale_history = \<lparr>hi_invocations = [write_call 1 1 [1], write_call 2 1 [2], read_call 3 4],
     hi_completions = [finished 1 3 (Put_result 1), finished 3 5 (Get_result None 0)]\<rparr>"

definition limits0 :: checker_limits where
  "limits0 = \<lparr>li_max_operations = 64, li_max_search_states = 1000, li_max_memo_entries = 1000\<rparr>"

lemma histories_valid: "validate_history good_history = Inr ()" "validate_history stale_history = Inr ()"
  by code_simp+

lemma good_checked: "map_sum id ck_outcome (check good_history limits0) = Inr Linearizable"
  by code_simp

lemma stale_checked:
  "\<not> isl (check stale_history limits0)"
  "map_option (\<lambda>x. map iv_operation_id (hi_invocations (ce_history x))) (ck_counterexample (projr (check stale_history limits0))) = Some [1, 3]"
  by code_simp+

section \<open>Witnesses\<close>

theorem check_decides_witness: "validate_history good_history = Inr () \<and> linearizable good_history"
proof -
  obtain r where "check good_history limits0 = Inr r" "ck_outcome r = Linearizable \<longrightarrow> linearizable good_history"
    using check_decides[OF histories_valid(1), of limits0] by blast
  then show ?thesis using good_checked histories_valid(1) by simp
qed

theorem counterexample_minimal_witness:
  "\<exists>x. ck_counterexample (projr (check stale_history limits0)) = Some x \<and> \<not> linearizable (ce_history x)
     \<and> map iv_operation_id (hi_invocations (ce_history x)) = [1, 3] \<and> minimal limits0 (ce_history x)"
proof -
  have "check stale_history limits0 = Inr (projr (check stale_history limits0))"
    using stale_checked(1) by (simp add: sum.collapse(2))
  note result = counterexample_minimal[OF this]
  obtain x where "ck_counterexample (projr (check stale_history limits0)) = Some x"
    "map iv_operation_id (hi_invocations (ce_history x)) = [1, 3]"
    using stale_checked(2) by auto
  then show ?thesis using result by auto
qed

theorem check_terminates_witness: "\<exists>r. check stale_history limits0 = Inr r \<and> ck_explored_states r \<le> 10000"
  using check_terminates[OF histories_valid(2), of limits0] by (simp add: stale_history_def limits0_def)

theorem history_text_roundtrip_witness:
  "\<exists>replay. serialize good_history = Inr replay \<and> parse replay = Inr (sorted_history good_history)"
proof -
  have "history_in_range good_history"
    by (auto simp: history_in_range_def good_history_def finished_def unknown_def result_in_range_def int64_max_def)
  then show ?thesis using history_text_roundtrip[OF histories_valid(1)] by blast
qed

end
