(* ===== verification/Spec2Isabelle.thy ===== *)
theory Spec2Isabelle
  imports Store_Examples Raft_Examples Raft_Codec Storage_Examples Core_Examples Linear_Examples
begin

text \<open>
  \<^bold>\<open>Verification of the kura metadata store\<close>

  The program is a C++ library for a replicated metadata store.  Its parts, and how they meet:

  \<^item> the \<^emph>\<open>in-memory store\<close> (\<^verbatim>\<open>src/src/in_memory_metadata_store.cpp\<close>): a revisioned map from byte
    strings to values, with transactions, leases with fencing tokens, and watches;
  \<^item> the \<^emph>\<open>Raft specification\<close> (\<^verbatim>\<open>src/src/figure2_spec.cpp\<close>), a pure step function after Figure 2
    of the Raft paper, and the \<^emph>\<open>election core\<close> (class \<open>Core\<close> of \<^verbatim>\<open>src/src/raft_election.cpp\<close>) that
    drives it with timers, waits for writes to become durable, applies committed entries, serves
    reads and moves snapshots;
  \<^item> the \<^emph>\<open>durable components\<close>: write-ahead log and snapshot store
    (\<^verbatim>\<open>src/src/durable_storage.cpp\<close>) and the store of the Raft hard state
    (\<^verbatim>\<open>src/src/raft_hard_state_store.cpp\<close>), over plain files;
  \<^item> the \<^emph>\<open>wire formats\<close> of the Raft messages and records (first part of
    \<^verbatim>\<open>src/src/raft_election.cpp\<close>);
  \<^item> the \<^emph>\<open>linearizability checker\<close> (\<^verbatim>\<open>src/src/linearizability.cpp\<close>), a test component that decides
    whether a recorded history of client operations is linearizable.

  \<^bold>\<open>Conventions\<close>

  Unsigned integers keep their width: \<open>std::uint64_t\<close> is \<^typ>\<open>64 word\<close>, a byte is \<^typ>\<open>8 word\<close>.
  Signed 64-bit integers are \<^typ>\<open>int\<close>; the sources guard every signed increment, and the
  invariants keep the stored values in range.  Container sizes and limits of type \<open>std::size_t\<close>
  are \<^typ>\<open>nat\<close>.  A struct is a record, an enum or variant a datatype, \<open>std::map\<close> and \<open>std::set\<close>
  are the ordered containers of \<open>Ordered_Map\<close>.  An exception is the left side of a sum.  A
  function that throws only before it changes anything returns \<open>exn + state\<close>; a member function
  that can throw half way is a computation of \<open>Effects\<close>, which keeps the changes made before the
  exception.  Reading what C++ leaves undefined is the exception \<open>Undefined_Behaviour\<close>.

  \<^bold>\<open>The theories\<close>

  Foundations.  \<open>Prelude\<close> has the integer types, sequencing of computations that may throw and the
  shared facts on lists and words; \<open>Ordered_Map\<close> the containers and the locale
  \<open>ordered_container\<close>; \<open>Byte_Sequence\<close> byte strings and prefix ranges (\<^verbatim>\<open>byte_sequence.cpp\<close>,
  \<^verbatim>\<open>key_range.cpp\<close>); \<open>Text_Streams\<close> the parts of the C++ streams in use; \<open>Effects\<close> the computations
  above; \<open>Machines\<close> the locale \<open>machine\<close> for components driven by a sequence of operations.

  The store.  \<open>Store_Types\<close> and \<open>Store_State\<close> hold the types, the members of the class and its
  private helpers.  \<open>Store_Kv\<close>, \<open>Store_Transaction\<close>, \<open>Store_Lease\<close>, \<open>Store_Watch\<close> and
  \<open>Store_Snapshot\<close> hold one definition for each public operation and its lemmas,
  \<open>Store_Invariant\<close> the invariant, and \<open>Store_Machine\<close> all state-changing operations as one step
  function that interprets \<open>machine\<close>.  Shown are: the invariant of every reachable store; the
  effect of each operation on every branch and the errors it can report; that single-key
  mutations refine a revisioned map; that a transaction acts as a whole and its operations do not
  interact; that a stale lease owner stays fenced for ever; that a watcher receives exactly the
  responses that are due for batches and progress requests, by live delivery or by replay; and
  that a snapshot restores the store.  A store loaded from a foreign snapshot satisfies the
  invariant exactly when the leases of the snapshot have distinct fencing tokens, which the
  constructor does not check.

  Raft.  \<open>Raft_Types\<close> and \<open>Figure2\<close> translate the specification.  \<open>Figure2_Election\<close> shows that the
  hard state only moves forward and that every released message is covered by a durable hard
  state; \<open>Figure2_Log\<close> that no step gives up a committed entry of the server's own log.
  \<open>Raft_Cluster\<close> puts servers on a network that loses, repeats and reorders messages, with crashes,
  and proves election safety from the locale \<open>quorum_system\<close>.  \<open>Raft_Core\<close> translates the class
  \<open>Core\<close> with all its inputs; \<open>Core_Frames\<close> says what its helpers leave unchanged and that its
  timers stay in range; \<open>Core_Election\<close> proves that a step of the core is a sequence of steps of
  the specification, so that a cluster of cores inherits election safety, exceptions and restarts
  through the constructor included.

  Storage.  \<open>Files\<close> is one directory with its system calls; \<open>Byte_Codec\<close>, \<open>Checksum\<close>,
  \<open>Durable_Format\<close> and \<open>File_Names\<close> are the formats, with the locale \<open>codec\<close> that every decoder of
  \<open>Raft_Codec\<close> interprets.  \<open>Hard_State_Store\<close> shows that a persist is atomic.  \<open>Wal\<close> translates
  the log, \<open>Wal_Recovery\<close> and \<open>Wal_Log\<close> relate a directory to a list of entries, \<open>Wal_History\<close>
  proves by the locale \<open>durable_log\<close> that acknowledged entries survive every history in which no
  append is made to a healthy object whose latest recovery threw, and \<open>Wal_Progress\<close> that an
  append returns when no call fails, and that an append after a failed recovery can make the log
  unreadable, so that the exception is needed.  \<open>Snapshot_Store\<close> shows that a
  publication is atomic and never moves the latest snapshot back.

  The checker.  \<open>Linearizability\<close> translates validation, sequential model, search and bounded
  check; \<open>Linear_Search\<close> shows that the memo never hides a solution and what the limits mean;
  \<open>Linear_Spec\<close> defines linearizability without the search; \<open>Linear_Decision\<close> connects the two;
  \<open>Linear_Text\<close> is the text form and its round trip; \<open>Linear_Check\<close> has the verdicts, the minimal
  counterexample and the bound on the work.

  The theories ending in \<open>_Examples\<close> hold concrete states and runs at which the hypotheses of
  the properties hold.

  \<^bold>\<open>Bounds, faults and environment\<close>

  No definition uses fuel.  Loops that are not structural have a measure: the rest of the file in
  the record scan of the log, the remaining mask and the rest of the candidates in the search, the
  number of invocations in the reduction of a counterexample, the rest of the text in the streams.

  System calls fail by a fault oracle: the disk counts calls, a write counts once per byte, and
  call \<open>k\<close> fails exactly if \<open>F k\<close>.  The properties hold for every \<open>F\<close>, which covers writes that stop
  after any byte; a process that stops is a run in which all later calls fail.  What a completed
  call wrote stays: the loss of unsynchronised data in a power failure is outside the model, so
  the properties do not depend on where the code synchronises a file.

  In a cluster of cores any input may arrive at any time, except that a vote message must have been
  released by its sender and the completion of a hard-state write must be on the disk.  A restart
  takes the log, the applied index, the snapshot and the settings from anywhere, and only the hard
  state from the disk, so election safety does not depend on them.

  The public operations of the store, of the log and of the snapshot store hold a mutex for their
  whole duration and are atomic steps here.

  \<^bold>\<open>Not modelled\<close>

  \<^item> The Raft properties across servers other than election safety (log matching, state machine
    safety, safety of reads) are not proved; the code they are about is modelled.
  \<^item> The adapter \<open>SimulationNode\<close> of \<^verbatim>\<open>raft_election.cpp\<close> and the network simulator
    (\<^verbatim>\<open>src/src/raft_simulation.cpp\<close>): test drivers around the core and its codecs.
  \<^item> The client helper (\<^verbatim>\<open>src/src/kura_client.cpp\<close>): its guards renew leases from threads with
    condition variables and real time.
  \<^item> Mutexes, directory locks, the \<^verbatim>\<open>_WIN32\<close> branches of the file layer, and what is below the
    system calls of the POSIX branches, their retries after \<^verbatim>\<open>EINTR\<close> included.
  \<^item> The interfaces without an implementation: \<open>Clock\<close>, \<open>StateMachine\<close>, \<open>LeaseScheduler\<close>,
    \<open>WatchStream\<close>, the storage backend, the metadata client, and the server headers.
\<close>

end
